(* ===== verification/Prelude.thy ===== *)
theory Prelude
  imports Main "HOL-Library.Word"
begin

text \<open>
  Prelude of the development: the error monad every fallible operation returns in, Go's 64-bit
  signed integers with their wrap-around written out, Go's truncating division, big-endian byte
  encodings, and the list lemmas the components share.

  The collections: \<open>go_arith\<close> holds the facts that remove a wrap-around where the operands
  are in range, \<open>result_simps\<close> the equations and inversions of the error monad, and
  \<open>wire_simps\<close> the facts about byte encodings.
\<close>

named_theorems go_arith \<open>wrap-around that does not happen\<close>
named_theorems result_simps \<open>the error monad\<close>
named_theorems wire_simps \<open>byte encodings\<close>

section \<open>Results\<close>

text \<open>
  A Go function returning \<open>(T, error)\<close> is a function into \<open>'e + 't\<close>: \<open>Inl\<close> is a
  non-nil error, \<open>Inr\<close> the value. \<open>bindR\<close> is the \<open>if err != nil { return err }\<close> idiom.
\<close>

fun bindR :: "'e + 'a \<Rightarrow> ('a \<Rightarrow> 'e + 'b) \<Rightarrow> 'e + 'b" where
  "bindR (Inl e) f = Inl e"
| "bindR (Inr x) f = f x"

definition guardR :: "bool \<Rightarrow> 'e \<Rightarrow> 'e + unit" where
  "guardR ok e = (if ok then Inr () else Inl e)"

fun mapR :: "('a \<Rightarrow> 'e + 'b) \<Rightarrow> 'a list \<Rightarrow> 'e + 'b list" where
  "mapR f [] = Inr []"
| "mapR f (x # xs) = bindR (f x) (\<lambda>y. bindR (mapR f xs) (\<lambda>ys. Inr (y # ys)))"

lemma bindR_Inr_iff [result_simps]:
  "bindR m f = Inr y \<longleftrightarrow> (\<exists>x. m = Inr x \<and> f x = Inr y)"
  by (cases m) auto

lemma bindR_Inl_iff [result_simps]:
  "bindR m f = Inl e \<longleftrightarrow> m = Inl e \<or> (\<exists>x. m = Inr x \<and> f x = Inl e)"
  by (cases m) auto

lemma guardR_Inr_iff [result_simps]: "guardR ok e = Inr u \<longleftrightarrow> ok"
  by (simp add: guardR_def)

lemma guardR_Inl_iff [result_simps]: "guardR ok e = Inl e' \<longleftrightarrow> \<not> ok \<and> e' = e"
  by (auto simp: guardR_def)

lemma guardR_simps [simp]: "guardR True e = Inr ()" "guardR False e = Inl e"
  by (simp_all add: guardR_def)

lemma bindR_assoc [simp]: "bindR (bindR m f) g = bindR m (\<lambda>x. bindR (f x) g)"
  by (cases m) auto

lemma bindR_cong [fundef_cong]:
  assumes "m = m'" and "\<And>x. m' = Inr x \<Longrightarrow> f x = f' x"
  shows "bindR m f = bindR m' f'"
  using assms by (cases m') auto

lemma mapR_length: "mapR f xs = Inr ys \<Longrightarrow> length ys = length xs"
  by (induction xs arbitrary: ys) (auto simp: result_simps)

lemma mapR_nth: "mapR f xs = Inr ys \<Longrightarrow> i < length xs \<Longrightarrow> f (xs ! i) = Inr (ys ! i)"
  by (induction xs arbitrary: ys i) (auto simp: result_simps nth_Cons split: nat.splits)

section \<open>Go integers\<close>

text \<open>
  Go's \<open>int64\<close> (and \<open>int\<close> on the supported platforms) wraps around silently. A value is
  an \<open>int\<close> between \<open>-2^63\<close> and \<open>2^63 - 1\<close>; arithmetic whose result can leave the
  range is passed through \<open>wrap64\<close>.
\<close>

definition wrap64 :: "int \<Rightarrow> int" where
  "wrap64 x = (x + 9223372036854775808) mod 18446744073709551616 - 9223372036854775808"

definition in64 :: "int \<Rightarrow> bool" where
  "in64 x \<longleftrightarrow> -9223372036854775808 \<le> x \<and> x < 9223372036854775808"

lemma wrap64_in64 [simp]: "in64 (wrap64 x)"
  by (simp add: wrap64_def in64_def pos_mod_bound [of 18446744073709551616, simplified])

lemma wrap64_id [go_arith]: "in64 x \<Longrightarrow> wrap64 x = x"
  by (simp add: wrap64_def in64_def)

lemma wrap64_small [go_arith]:
  "0 \<le> x \<Longrightarrow> x < 9223372036854775808 \<Longrightarrow> wrap64 x = x"
  by (simp add: wrap64_def)

text \<open>Go's \<open>/\<close> and \<open>%\<close> truncate towards zero; every use below has a positive divisor.\<close>

definition go_div :: "int \<Rightarrow> int \<Rightarrow> int" where
  "go_div a b = sgn a * sgn b * (\<bar>a\<bar> div \<bar>b\<bar>)"

definition go_mod :: "int \<Rightarrow> int \<Rightarrow> int" where
  "go_mod a b = a - go_div a b * b"

lemma go_div_pos [go_arith]: "0 \<le> a \<Longrightarrow> 0 < b \<Longrightarrow> go_div a b = a div b"
  by (cases "a = 0") (auto simp: go_div_def sgn_if)

lemma go_mod_pos [go_arith]: "0 \<le> a \<Longrightarrow> 0 < b \<Longrightarrow> go_mod a b = a mod b"
  by (simp add: go_mod_def go_div_pos minus_div_mult_eq_mod)

lemma int_le_div_iff: "0 < (b :: int) \<Longrightarrow> k \<le> a div b \<longleftrightarrow> k * b \<le> a"
proof
  assume b: "0 < b" and "k \<le> a div b"
  then have "k * b \<le> a div b * b" by simp
  also have "\<dots> \<le> a" using b by (simp add: minus_mod_eq_div_mult [symmetric])
  finally show "k * b \<le> a" .
next
  assume b: "0 < b" and "k * b \<le> a"
  then have "k * b div b \<le> a div b" by (intro zdiv_mono1) auto
  then show "k \<le> a div b" using b by simp
qed

lemma int_div_less_iff: "0 < (b :: int) \<Longrightarrow> a div b < k \<longleftrightarrow> a < k * b"
  using int_le_div_iff [of b k a] by linarith

section \<open>Bytes and big-endian fields\<close>

type_synonym byte = "8 word"
type_synonym bytes = "8 word list"

fun be_bytes :: "nat \<Rightarrow> nat \<Rightarrow> bytes" where
  "be_bytes 0 v = []"
| "be_bytes (Suc n) v = be_bytes n (v div 256) @ [word_of_nat (v mod 256)]"

definition be_nat :: "bytes \<Rightarrow> nat" where
  "be_nat bs = foldl (\<lambda>a b. a * 256 + unat b) 0 bs"

lemma be_nat_simps [simp]:
  "be_nat [] = 0" "be_nat (bs @ [b]) = be_nat bs * 256 + unat b"
  by (simp_all add: be_nat_def)

lemma length_be_bytes [simp, wire_simps]: "length (be_bytes n v) = n"
  by (induction n arbitrary: v) auto

lemma unat_byte_mod: "unat (word_of_nat (v mod 256) :: byte) = v mod 256"
  by (simp add: unat_of_nat)

lemma be_nat_be_bytes [wire_simps]: "be_nat (be_bytes n v) = v mod 256 ^ n"
proof (induction n arbitrary: v)
  case 0
  then show ?case by simp
next
  case (Suc n)
  have "be_nat (be_bytes (Suc n) v) = (v div 256 mod 256 ^ n) * 256 + v mod 256"
    by (simp add: Suc.IH unat_byte_mod)
  also have "\<dots> = v mod (256 * 256 ^ n)"
    by (simp add: mod_mult2_eq)
  finally show ?case by simp
qed

lemma be_nat_bound: "be_nat bs < 256 ^ length bs"
proof (induction bs rule: rev_induct)
  case Nil
  then show ?case by simp
next
  case (snoc b bs)
  have "unat b < 256" using unsigned_less [of b] by simp
  with snoc show ?case by simp
qed

text \<open>
  A fixed-width unsigned field of a wire structure: an encoder that writes \<open>width\<close> bytes and a
  decoder that reads them back.
\<close>

locale wire_field =
  fixes width :: nat and put :: "'v \<Rightarrow> bytes" and get :: "bytes \<Rightarrow> 'v"
  assumes put_length: "length (put v) = width"
    and get_put: "get (put v) = v"
begin

lemma get_front: "get (take width (put v @ rest)) = v"
  by (simp add: put_length get_put)

lemma drop_front: "drop width (put v @ rest) = rest"
  by (simp add: put_length)

lemma put_inj: "put v = put w \<Longrightarrow> v = w"
  by (metis get_put)

end

definition put_u16 :: "16 word \<Rightarrow> bytes" where "put_u16 v = be_bytes 2 (unat v)"
definition put_u32 :: "32 word \<Rightarrow> bytes" where "put_u32 v = be_bytes 4 (unat v)"
definition put_u64 :: "64 word \<Rightarrow> bytes" where "put_u64 v = be_bytes 8 (unat v)"

definition get_u16 :: "bytes \<Rightarrow> 16 word" where "get_u16 bs = word_of_nat (be_nat bs)"
definition get_u32 :: "bytes \<Rightarrow> 32 word" where "get_u32 bs = word_of_nat (be_nat bs)"
definition get_u64 :: "bytes \<Rightarrow> 64 word" where "get_u64 bs = word_of_nat (be_nat bs)"

interpretation u16: wire_field 2 put_u16 get_u16
proof
  fix v :: "16 word"
  show "length (put_u16 v) = 2" by (simp add: put_u16_def)
  have "unat v < 256 ^ 2" using unsigned_less [of v] by simp
  then show "get_u16 (put_u16 v) = v" by (simp add: put_u16_def get_u16_def be_nat_be_bytes)
qed

interpretation u32: wire_field 4 put_u32 get_u32
proof
  fix v :: "32 word"
  show "length (put_u32 v) = 4" by (simp add: put_u32_def)
  have "unat v < 256 ^ 4" using unsigned_less [of v] by simp
  then show "get_u32 (put_u32 v) = v" by (simp add: put_u32_def get_u32_def be_nat_be_bytes)
qed

interpretation u64: wire_field 8 put_u64 get_u64
proof
  fix v :: "64 word"
  show "length (put_u64 v) = 8" by (simp add: put_u64_def)
  have "unat v < 256 ^ 8" using unsigned_less [of v] by simp
  then show "get_u64 (put_u64 v) = v" by (simp add: put_u64_def get_u64_def be_nat_be_bytes)
qed

lemmas put_lengths [simp, wire_simps] = u16.put_length u32.put_length u64.put_length
lemmas get_puts [simp, wire_simps] = u16.get_put u32.get_put u64.get_put

text \<open>A range of a byte string.\<close>

definition slice :: "bytes \<Rightarrow> int \<Rightarrow> int \<Rightarrow> bytes" where
  "slice b off n = take (nat n) (drop (nat off) b)"

lemma slice_append: "0 \<le> off \<Longrightarrow> 0 \<le> n \<Longrightarrow> off + n \<le> int (length b) \<Longrightarrow> slice (b @ b') off n = slice b off n"
  by (simp add: slice_def)

lemma slice_end: "slice (b @ s) (int (length b)) (int (length s)) = s"
  by (simp add: slice_def)

lemma slice_slice:
  assumes "0 \<le> a" "0 \<le> x" "0 \<le> n" "x + n \<le> len"
  shows "slice (slice blob a len) x n = slice blob (a + x) n"
  using assms by (simp add: slice_def take_drop nat_add_distrib min_def add.commute)

lemma slice_join: "0 \<le> a \<Longrightarrow> 0 \<le> m \<Longrightarrow> 0 \<le> n \<Longrightarrow> slice b a m @ slice b (a + m) n = slice b a (m + n)"
  by (simp add: slice_def nat_add_distrib take_add add.commute)

lemma slice_length: "0 \<le> a \<Longrightarrow> 0 \<le> n \<Longrightarrow> a + n \<le> int (length b) \<Longrightarrow> int (length (slice b a n)) = n"
  by (simp add: slice_def)

section \<open>Lists\<close>

lemma sorted_wrt_less_nth_mono:
  "sorted_wrt (<) (xs :: 'a :: linorder list) \<Longrightarrow> i < j \<Longrightarrow> j < length xs \<Longrightarrow> xs ! i < xs ! j"
  by (simp add: sorted_wrt_iff_nth_less)

lemma filter_upt_set: "set (filter P [0..<n]) = {i. i < n \<and> P i}"
  by auto

lemma concat_map_length: "length (concat (map f xs)) = (\<Sum>x\<leftarrow>xs. length (f x))"
  by (simp add: length_concat comp_def)

end
