(* ===== verification/Model.thy ===== *)
theory Model
  imports Prelude
begin

text \<open>
  The domain types shared by all components (\<open>internal/model\<close>): backup types, run states,
  retention policies, runs, disks and physical copies.

  A Go string type with named constants is a datatype with one constructor per constant and one
  for every other string the type admits, so that the \<open>default\<close> branches of the code remain.
  Times are nanoseconds since the epoch; a \<open>*time.Time\<close> that may be nil is an option.
\<close>

section \<open>Backup types and run states\<close>

datatype BackupType =
    BackupFull | BackupIncremental | BackupDifferential | BackupSnapshot | BackupOVA | BackupConfig
  | BackupOther string

definition AllBackupTypes :: "BackupType list" where
  "AllBackupTypes =
     [BackupFull, BackupIncremental, BackupDifferential, BackupSnapshot, BackupOVA, BackupConfig]"

definition NeedsParent :: "BackupType \<Rightarrow> bool" where
  "NeedsParent t \<longleftrightarrow> t = BackupIncremental \<or> t = BackupDifferential"

definition UsesCBT :: "BackupType \<Rightarrow> bool" where
  "UsesCBT t \<longleftrightarrow> t = BackupFull \<or> t = BackupIncremental \<or> t = BackupDifferential"

datatype RunStatus =
    RunPending | RunRunning | RunWaitingCopies | RunSucceeded | RunPartial | RunFailed
  | RunCanceled | RunMissed | RunOther string

fun Terminal :: "RunStatus \<Rightarrow> bool" where
  "Terminal RunSucceeded = True"
| "Terminal RunPartial = True"
| "Terminal RunFailed = True"
| "Terminal RunCanceled = True"
| "Terminal RunMissed = True"
| "Terminal _ = False"

section \<open>Retention policies\<close>

record RetentionPolicy =
  KeepLast :: int
  KeepHourly :: int
  KeepDaily :: int
  KeepWeekly :: int
  KeepMonthly :: int
  KeepYearly :: int
  MaxAge :: int

definition policy_Empty :: "RetentionPolicy \<Rightarrow> bool" where
  "policy_Empty r \<longleftrightarrow>
     KeepLast r = 0 \<and> KeepHourly r = 0 \<and> KeepDaily r = 0 \<and> KeepWeekly r = 0 \<and>
     KeepMonthly r = 0 \<and> KeepYearly r = 0 \<and> MaxAge r = 0"

text \<open>The first negative field is the error, in the order the code lists them.\<close>

fun first_negative :: "(string \<times> int) list \<Rightarrow> string + unit" where
  "first_negative [] = Inr ()"
| "first_negative ((name, value) # rest) = (if value < 0 then Inl name else first_negative rest)"

definition policy_Validate :: "RetentionPolicy \<Rightarrow> string + unit" where
  "policy_Validate r = first_negative
     [(''keep_last'', KeepLast r), (''keep_hourly'', KeepHourly r), (''keep_daily'', KeepDaily r),
      (''keep_weekly'', KeepWeekly r), (''keep_monthly'', KeepMonthly r),
      (''keep_yearly'', KeepYearly r), (''max_age'', MaxAge r)]"

definition DefaultRetention :: RetentionPolicy where
  "DefaultRetention =
     \<lparr>KeepLast = 3, KeepHourly = 0, KeepDaily = 7, KeepWeekly = 4, KeepMonthly = 6,
      KeepYearly = 0, MaxAge = 0\<rparr>"

lemma first_negative_ok: "first_negative vs = Inr u \<longleftrightarrow> (\<forall>v \<in> set vs. 0 \<le> snd v)"
  by (induction vs rule: first_negative.induct) auto

lemma policy_Validate_ok:
  "policy_Validate r = Inr () \<longleftrightarrow>
     0 \<le> KeepLast r \<and> 0 \<le> KeepHourly r \<and> 0 \<le> KeepDaily r \<and> 0 \<le> KeepWeekly r \<and>
     0 \<le> KeepMonthly r \<and> 0 \<le> KeepYearly r \<and> 0 \<le> MaxAge r"
  by (simp add: policy_Validate_def first_negative_ok)

section \<open>Runs, disks and copies\<close>

record BackupDisk =
  bd_DiskID :: string
  bd_ManifestKey :: string
  bd_DataKey :: string
  bd_Status :: RunStatus

record BackupRun =
  br_ID :: string
  br_JobRunID :: string
  br_JobID :: string
  br_ServerID :: string
  br_VMID :: string
  br_VMName :: string
  br_Type :: BackupType
  br_Status :: RunStatus
  br_ParentRunID :: string
  br_ChainID :: string
  br_ChainIndex :: int
  br_StorageTargetID :: string
  br_RepoPath :: string
  br_FromCheckpointID :: string
  br_ToCheckpointID :: string
  br_SnapshotID :: string
  br_LegacyIncrementalMode :: string
  br_ReadBytes :: int
  br_StoredBytes :: int
  br_StartedAt :: "int option"
  br_EndedAt :: "int option"
  br_ExpiresAt :: "int option"
  br_Deleted :: bool
  br_PurgeAfter :: "int option"
  br_DeleteReason :: string
  br_DeletedAt :: "int option"
  br_CreatedAt :: int
  br_Disks :: "BackupDisk list"

definition run_Duration :: "BackupRun \<Rightarrow> int" where
  "run_Duration r =
     (case (br_StartedAt r, br_EndedAt r) of (Some s, Some e) \<Rightarrow> e - s | _ \<Rightarrow> 0)"

datatype BackupCopyStatus =
    CopyPending | CopyCopying | CopyVerifying | CopySucceeded | CopyFailed | CopyCanceled
  | CopyLocked | CopyDeleted | CopyOther string

datatype BackupCopyRole = CopyPrimary | CopyReplica | RoleOtherCopy string

record BackupCopy =
  bc_ID :: string
  bc_RunID :: string
  bc_StorageTargetID :: string
  bc_Role :: BackupCopyRole
  bc_Required :: bool
  bc_Status :: BackupCopyStatus
  bc_RepoPath :: string
  bc_SourceCopyID :: string
  bc_ManifestSHA256 :: string
  bc_ObjectCount :: int
  bc_CopiedObjects :: int
  bc_TotalBytes :: int
  bc_CopiedBytes :: int
  bc_AttemptCount :: int
  bc_LockedBy :: string
  bc_NextRetryAt :: "int option"
  bc_LastError :: string
  bc_VerifiedAt :: "int option"
  bc_LockedUntil :: "int option"
  bc_StartedAt :: "int option"
  bc_EndedAt :: "int option"
  bc_CreatedAt :: int

text \<open>A nil copy is \<open>None\<close>.\<close>

definition Healthy :: "BackupCopy option \<Rightarrow> bool" where
  "Healthy c = (case c of None \<Rightarrow> False
     | Some c \<Rightarrow> bc_Status c = CopySucceeded \<or> (bc_Status c = CopyLocked \<and> bc_LockedUntil c \<noteq> None))"

section \<open>Storage targets\<close>

datatype StorageKind =
    StorageLocal | StorageS3 | StorageSFTP | StorageSMB | StorageWebDAV | StorageDomainRepository
  | StorageOther string

definition AllStorageKinds :: "StorageKind list" where
  "AllStorageKinds =
     [StorageLocal, StorageDomainRepository, StorageS3, StorageSMB, StorageWebDAV, StorageSFTP]"

definition KnownStorageKind :: "StorageKind \<Rightarrow> bool" where
  "KnownStorageKind kind \<longleftrightarrow> kind \<in> set AllStorageKinds"

record StorageTarget =
  st_ID :: string
  st_Name :: string
  st_Kind :: StorageKind
  st_Enabled :: bool
  st_ReadOnly :: bool
  st_BasePath :: string
  st_ServerID :: string
  st_StorageDomainID :: string
  st_Endpoint :: string
  st_Region :: string
  st_Bucket :: string
  st_Prefix :: string
  st_AccessKey :: string
  st_SecretKey :: string
  st_ObjectLockEnabled :: bool
  st_ObjectLockDays :: int
  st_ImmutabilityState :: string
  st_Host :: string
  st_Port :: int
  st_Username :: string
  st_Password :: string
  st_PrivateKey :: string
  st_Share :: string
  st_Domain :: string

definition Retargeted :: "StorageTarget \<Rightarrow> StorageTarget \<Rightarrow> bool" where
  "Retargeted t other =
     (if st_Kind t \<noteq> st_Kind other
         \<or> st_ServerID t \<noteq> st_ServerID other
         \<or> st_StorageDomainID t \<noteq> st_StorageDomainID other
         \<or> st_BasePath t \<noteq> st_BasePath other
         \<or> st_Endpoint t \<noteq> st_Endpoint other
         \<or> st_Region t \<noteq> st_Region other
         \<or> st_Bucket t \<noteq> st_Bucket other
         \<or> st_Prefix t \<noteq> st_Prefix other
         \<or> st_AccessKey t \<noteq> st_AccessKey other
         \<or> st_Host t \<noteq> st_Host other
         \<or> st_Port t \<noteq> st_Port other
         \<or> st_Username t \<noteq> st_Username other
         \<or> st_Share t \<noteq> st_Share other
         \<or> st_Domain t \<noteq> st_Domain other
      then True
      else st_SecretKey t \<noteq> st_SecretKey other \<or> st_Password t \<noteq> st_Password other
         \<or> st_PrivateKey t \<noteq> st_PrivateKey other)"

definition HasSecret :: "StorageTarget \<Rightarrow> bool" where
  "HasSecret t \<longleftrightarrow> st_SecretKey t \<noteq> '''' \<or> st_Password t \<noteq> '''' \<or> st_PrivateKey t \<noteq> ''''"

section \<open>Sample values for concrete instances\<close>

definition sample_run :: "string \<Rightarrow> BackupType \<Rightarrow> string \<Rightarrow> int \<Rightarrow> BackupRun" where
  "sample_run rid ty parent day =
     \<lparr>br_ID = rid, br_JobRunID = '''', br_JobID = '''', br_ServerID = ''s'', br_VMID = ''vm'', br_VMName = ''vm'', br_Type = ty,
      br_Status = RunSucceeded, br_ParentRunID = parent, br_ChainID = ''c'', br_ChainIndex = 0,
      br_StorageTargetID = ''t'', br_RepoPath = rid, br_FromCheckpointID = '''', br_ToCheckpointID = '''', br_SnapshotID = '''',
      br_LegacyIncrementalMode = '''', br_ReadBytes = 0, br_StoredBytes = 10, br_StartedAt = None,
      br_EndedAt = None, br_ExpiresAt = None, br_Deleted = False, br_PurgeAfter = None,
      br_DeleteReason = '''', br_DeletedAt = None, br_CreatedAt = day * 86400000000000, br_Disks = []\<rparr>"

definition sample_target :: StorageTarget where
  "sample_target =
     \<lparr>st_ID = ''t'', st_Name = ''t'', st_Kind = StorageS3, st_Enabled = True, st_ReadOnly = False,
      st_BasePath = [], st_ServerID = [], st_StorageDomainID = [], st_Endpoint = ''e'', st_Region = ''r'',
      st_Bucket = ''b'', st_Prefix = [], st_AccessKey = [], st_SecretKey = ''k'',
      st_ObjectLockEnabled = True, st_ObjectLockDays = 7, st_ImmutabilityState = ''protected'',
      st_Host = [], st_Port = 0, st_Username = [], st_Password = [], st_PrivateKey = [], st_Share = [],
      st_Domain = []\<rparr>"

text \<open>A finished primary copy of a run in the repository \<open>t\<close>.\<close>

definition sample_copy :: "string \<Rightarrow> string \<Rightarrow> int \<Rightarrow> string \<Rightarrow> BackupCopy" where
  "sample_copy cid rid created path =
     \<lparr>bc_ID = cid, bc_RunID = rid, bc_StorageTargetID = ''t'', bc_Role = CopyPrimary, bc_Required = True,
      bc_Status = CopySucceeded, bc_RepoPath = path, bc_SourceCopyID = '''', bc_ManifestSHA256 = '''',
      bc_ObjectCount = 0, bc_CopiedObjects = 0, bc_TotalBytes = 0, bc_CopiedBytes = 0, bc_AttemptCount = 0,
      bc_LockedBy = '''', bc_NextRetryAt = None, bc_LastError = '''', bc_VerifiedAt = None,
      bc_LockedUntil = None, bc_StartedAt = None, bc_EndedAt = None, bc_CreatedAt = created\<rparr>"

end
