(* ===== verification/Retention.thy ===== *)
theory Retention
  imports Model
begin

text \<open>
  Retention (\<open>internal/retention/retention.go\<close>): the grandfather-father-son rules over the
  backups of one VM in one repository, the age limit, the protection of chains, and the plan shown
  to the operator. Bucket keys are the numbers the code formats into a string; the reason texts are
  constructors. The walk over ancestors has no guard against a cycle of parent links in the code,
  so it is a partial function and \<open>Apply\<close> returns \<open>None\<close> where it would not return.
\<close>

section \<open>Calendar\<close>

definition day_number :: "int \<Rightarrow> int" where
  "day_number t = t div 1000000000 div 86400"

definition hour_of_day :: "int \<Rightarrow> int" where
  "hour_of_day t = t div 1000000000 mod 86400 div 3600"

definition civil_of_days :: "int \<Rightarrow> int \<times> int \<times> int" where
  "civil_of_days z0 =
     (let z = z0 + 719468; era = z div 146097; doe = z mod 146097;
          yoe = (doe - doe div 1460 + doe div 36524 - doe div 146096) div 365;
          doy = doe - (365 * yoe + yoe div 4 - yoe div 100);
          mp = (5 * doy + 2) div 153;
          d = doy - (153 * mp + 2) div 5 + 1;
          m = (if mp < 10 then mp + 3 else mp - 9);
          y = yoe + era * 400 + (if m \<le> 2 then 1 else 0)
      in (y, m, d))"

definition year_start :: "int \<Rightarrow> int" where
  "year_start y = 365 * (y - 1) + (y - 1) div 4 - (y - 1) div 100 + (y - 1) div 400 - 719162"

definition ISOWeek :: "int \<Rightarrow> int \<times> int" where
  "ISOWeek t =
     (let z = day_number t; thursday = z - (z + 3) mod 7 + 3;
          y = fst (civil_of_days thursday)
      in (y, (thursday - year_start y) div 7 + 1))"

type_synonym bucket = "int list"

definition bucket_hourly :: "int \<Rightarrow> bucket" where
  "bucket_hourly t = (case civil_of_days (day_number t) of (y, m, d) \<Rightarrow> [y, m, d, hour_of_day t])"

definition bucket_daily :: "int \<Rightarrow> bucket" where
  "bucket_daily t = (case civil_of_days (day_number t) of (y, m, d) \<Rightarrow> [y, m, d])"

definition bucket_weekly :: "int \<Rightarrow> bucket" where
  "bucket_weekly t = (case ISOWeek t of (y, w) \<Rightarrow> [y, w])"

definition bucket_monthly :: "int \<Rightarrow> bucket" where
  "bucket_monthly t = (case civil_of_days (day_number t) of (y, m, d) \<Rightarrow> [y, m])"

definition bucket_yearly :: "int \<Rightarrow> bucket" where
  "bucket_yearly t = (case civil_of_days (day_number t) of (y, m, d) \<Rightarrow> [y])"

section \<open>Decisions\<close>

datatype bucket_label = Hourly | Daily | Weekly | Monthly | Yearly

datatype reason =
    NoPolicy
  | InLast int
  | Slice bucket_label bucket
  | LastCopy
  | NeededFor BackupType int
  | NoRule

type_synonym marks = "string \<rightharpoonup> reason"

record Decision =
  Keep :: "string list"
  Delete :: "string list"
  Reasons :: marks

definition markKeep :: "marks \<Rightarrow> string \<Rightarrow> reason \<Rightarrow> marks" where
  "markKeep keep rid why = (if keep rid \<noteq> None then keep else keep(rid \<mapsto> why))"

fun bucket_loop :: "int \<Rightarrow> bucket_label \<Rightarrow> (int \<Rightarrow> bucket) \<Rightarrow> bucket list \<Rightarrow> int \<Rightarrow> marks \<Rightarrow> BackupRun list \<Rightarrow> marks"
where
  "bucket_loop limit label bucketOf seen kept keep [] = keep"
| "bucket_loop limit label bucketOf seen kept keep (r # rs) =
     (if kept \<ge> limit then keep
      else let bucket = bucketOf (br_CreatedAt r)
           in if bucket \<in> set seen then bucket_loop limit label bucketOf seen kept keep rs
              else bucket_loop limit label bucketOf (bucket # seen) (kept + 1)
                     (markKeep keep (br_ID r) (Slice label bucket)) rs)"

definition applyBucket :: "marks \<Rightarrow> BackupRun list \<Rightarrow> int \<Rightarrow> bucket_label \<Rightarrow> (int \<Rightarrow> bucket) \<Rightarrow> marks" where
  "applyBucket keep runs limit label bucketOf =
     (if limit \<le> 0 then keep else bucket_loop limit label bucketOf [] 0 keep runs)"

fun keep_last_loop :: "int \<Rightarrow> int \<Rightarrow> marks \<Rightarrow> BackupRun list \<Rightarrow> marks" where
  "keep_last_loop n i keep [] = keep"
| "keep_last_loop n i keep (r # rs) =
     (if i \<ge> n then keep
      else keep_last_loop n (i + 1) (markKeep keep (br_ID r) (InLast n)) rs)"

definition keep_last_rule :: "RetentionPolicy \<Rightarrow> BackupRun list \<Rightarrow> marks \<Rightarrow> marks" where
  "keep_last_rule policy cands keep =
     (if KeepLast policy > 0 then keep_last_loop (KeepLast policy) 0 keep cands else keep)"

definition bucket_rules :: "RetentionPolicy \<Rightarrow> BackupRun list \<Rightarrow> marks \<Rightarrow> marks" where
  "bucket_rules policy cands keep0 =
     (let keep1 = applyBucket keep0 cands (KeepHourly policy) Hourly bucket_hourly;
          keep2 = applyBucket keep1 cands (KeepDaily policy) Daily bucket_daily;
          keep3 = applyBucket keep2 cands (KeepWeekly policy) Weekly bucket_weekly;
          keep4 = applyBucket keep3 cands (KeepMonthly policy) Monthly bucket_monthly
      in applyBucket keep4 cands (KeepYearly policy) Yearly bucket_yearly)"

fun expire_loop :: "int \<Rightarrow> marks \<Rightarrow> BackupRun list \<Rightarrow> marks" where
  "expire_loop cutoff keep [] = keep"
| "expire_loop cutoff keep (r # rs) =
     expire_loop cutoff (if br_CreatedAt r < cutoff then keep(br_ID r := None) else keep) rs"

definition apply_max_age :: "RetentionPolicy \<Rightarrow> int \<Rightarrow> BackupRun list \<Rightarrow> marks \<Rightarrow> marks" where
  "apply_max_age policy now cands keep =
     (if MaxAge policy > 0 then expire_loop (now - MaxAge policy) keep cands else keep)"

text \<open>\<open>len(keep) == 0\<close>: every key of \<open>keep\<close> is the id of a candidate, so the map is empty
  when no candidate is marked.\<close>

definition keep_survivor :: "BackupRun list \<Rightarrow> marks \<Rightarrow> marks" where
  "keep_survivor cands keep =
     (case cands of [] \<Rightarrow> keep
      | newest # _ \<Rightarrow>
          if list_all (\<lambda>r. keep (br_ID r) = None) cands
          then markKeep keep (br_ID newest) LastCopy else keep)"

definition by_id :: "BackupRun list \<Rightarrow> (string \<rightharpoonup> BackupRun)" where
  "by_id rs = foldl (\<lambda>m r. m(br_ID r \<mapsto> r)) Map.empty rs"

partial_function (option) walk_ancestors ::
  "(string \<rightharpoonup> BackupRun) \<Rightarrow> BackupRun \<Rightarrow> BackupRun \<Rightarrow> marks \<Rightarrow> marks option" where
  "walk_ancestors byID r cur keep =
     (if br_ParentRunID cur = '''' then Some keep
      else case byID (br_ParentRunID cur) of
             None \<Rightarrow> Some keep
           | Some parent \<Rightarrow>
               walk_ancestors byID r parent
                 (if keep (br_ID parent) = None
                  then markKeep keep (br_ID parent) (NeededFor (br_Type r) (br_CreatedAt r))
                  else keep))"

declare walk_ancestors.simps [code]

fun protect_chains :: "(string \<rightharpoonup> BackupRun) \<Rightarrow> BackupRun list \<Rightarrow> marks \<Rightarrow> marks option" where
  "protect_chains byID [] keep = Some keep"
| "protect_chains byID (r # rs) keep =
     (if keep (br_ID r) = None then protect_chains byID rs keep
      else case walk_ancestors byID r r keep of
             None \<Rightarrow> None
           | Some keep' \<Rightarrow> protect_chains byID rs keep')"

definition candidates :: "BackupRun list \<Rightarrow> BackupRun list" where
  "candidates runs = sort_key (\<lambda>r. - br_CreatedAt r)
     (filter (\<lambda>r. \<not> br_Deleted r \<and> (br_Status r = RunSucceeded \<or> br_Status r = RunPartial)) runs)"

definition decide :: "BackupRun list \<Rightarrow> marks \<Rightarrow> Decision" where
  "decide cands keep =
     \<lparr>Keep = map br_ID (filter (\<lambda>r. keep (br_ID r) \<noteq> None) cands),
      Delete = map br_ID (filter (\<lambda>r. keep (br_ID r) = None) cands),
      Reasons = foldl (\<lambda>m r. m(br_ID r \<mapsto> (case keep (br_ID r) of Some why \<Rightarrow> why | None \<Rightarrow> NoRule)))
                  Map.empty cands\<rparr>"

definition direct_marks :: "RetentionPolicy \<Rightarrow> int \<Rightarrow> BackupRun list \<Rightarrow> marks" where
  "direct_marks policy now cands =
     keep_survivor cands
       (apply_max_age policy now cands
         (bucket_rules policy cands (keep_last_rule policy cands Map.empty)))"

definition Apply :: "RetentionPolicy \<Rightarrow> BackupRun list \<Rightarrow> int \<Rightarrow> Decision option" where
  "Apply policy runs now =
     (let cands = candidates runs
      in if cands = [] then Some \<lparr>Keep = [], Delete = [], Reasons = Map.empty\<rparr>
         else if policy_Empty policy
         then Some \<lparr>Keep = map br_ID cands, Delete = [],
                    Reasons = foldl (\<lambda>m r. m(br_ID r \<mapsto> NoPolicy)) Map.empty cands\<rparr>
         else case protect_chains (by_id cands) cands (direct_marks policy now cands) of
                None \<Rightarrow> None
              | Some keep \<Rightarrow> Some (decide cands keep))"

section \<open>Rules only add marks\<close>

text \<open>
  A keep rule may only add marks, only on the candidates it is given, and never changes a reason
  already recorded.
\<close>

locale keep_rule =
  fixes rule :: "marks \<Rightarrow> marks" and ids :: "string set"
  assumes extends: "keep \<subseteq>\<^sub>m rule keep"
    and within: "dom (rule keep) \<subseteq> dom keep \<union> ids"
begin

lemma first_reason_wins: "keep x = Some why \<Longrightarrow> rule keep x = Some why"
  using extends [of keep] by (metis domI map_le_def)

lemma marked_stays: "keep x \<noteq> None \<Longrightarrow> rule keep x \<noteq> None"
  using first_reason_wins by blast

lemma marks_candidates: "dom keep \<subseteq> ids \<Longrightarrow> dom (rule keep) \<subseteq> ids"
  using within [of keep] by blast

end

lemma keep_rule_compose:
  assumes "keep_rule f ids" "keep_rule g ids"
  shows "keep_rule (\<lambda>keep. g (f keep)) ids"
proof
  fix keep
  show "keep \<subseteq>\<^sub>m g (f keep)"
    using keep_rule.extends [OF assms(1)] keep_rule.extends [OF assms(2)] map_le_trans by blast
  show "dom (g (f keep)) \<subseteq> dom keep \<union> ids"
    using keep_rule.within [OF assms(1), of keep] keep_rule.within [OF assms(2), of "f keep"] by blast
qed

lemma markKeep_le: "keep \<subseteq>\<^sub>m markKeep keep x why"
  by (auto simp: markKeep_def map_le_def)

lemma markKeep_dom [simp]: "dom (markKeep keep x why) = insert x (dom keep)"
  by (auto simp: markKeep_def)

lemma bucket_loop_le: "keep \<subseteq>\<^sub>m bucket_loop limit label bucketOf seen kept keep rs"
proof (induction rs arbitrary: seen kept keep)
  case (Cons r rs)
  show ?case
    using Cons.IH map_le_trans [OF markKeep_le Cons.IH] by (simp add: Let_def)
qed simp

lemma bucket_loop_dom:
  "dom (bucket_loop limit label bucketOf seen kept keep rs) \<subseteq> dom keep \<union> br_ID ` set rs"
proof (induction rs arbitrary: seen kept keep)
  case (Cons r rs)
  show ?case
    using Cons.IH [of seen kept keep]
      Cons.IH [of "bucketOf (br_CreatedAt r) # seen" "kept + 1"
        "markKeep keep (br_ID r) (Slice label (bucketOf (br_CreatedAt r)))"]
    by (auto simp: Let_def)
qed simp

lemma keep_last_loop_le: "keep \<subseteq>\<^sub>m keep_last_loop n i keep rs"
proof (induction rs arbitrary: i keep)
  case (Cons r rs)
  show ?case using map_le_trans [OF markKeep_le Cons.IH] by simp
qed simp

lemma keep_last_loop_dom: "dom (keep_last_loop n i keep rs) \<subseteq> dom keep \<union> br_ID ` set rs"
proof (induction rs arbitrary: i keep)
  case (Cons r rs)
  show ?case using Cons.IH [of "i + 1" "markKeep keep (br_ID r) (InLast n)"] by auto
qed simp

interpretation bucket: keep_rule "\<lambda>keep. applyBucket keep cands limit label bucketOf" "br_ID ` set cands"
  for cands limit label bucketOf
  by unfold_locales (use bucket_loop_le bucket_loop_dom in \<open>auto simp: applyBucket_def\<close>)

interpretation last_n: keep_rule "keep_last_rule policy cands" "br_ID ` set cands"
  for policy cands
  by unfold_locales (use keep_last_loop_le keep_last_loop_dom in \<open>auto simp: keep_last_rule_def\<close>)

interpretation buckets: keep_rule "bucket_rules policy cands" "br_ID ` set cands"
  for policy cands
proof -
  note b = bucket.keep_rule_axioms [of cands]
  show "keep_rule (bucket_rules policy cands) (br_ID ` set cands)"
    using keep_rule_compose [OF keep_rule_compose [OF keep_rule_compose [OF keep_rule_compose
        [OF b [of "KeepHourly policy" Hourly bucket_hourly] b [of "KeepDaily policy" Daily bucket_daily]]
        b [of "KeepWeekly policy" Weekly bucket_weekly]]
        b [of "KeepMonthly policy" Monthly bucket_monthly]]
        b [of "KeepYearly policy" Yearly bucket_yearly]]
    unfolding bucket_rules_def [abs_def] Let_def .
qed

lemma rules_candidates:
  "dom (bucket_rules policy cands (keep_last_rule policy cands Map.empty)) \<subseteq> br_ID ` set cands"
  by (intro buckets.marks_candidates last_n.marks_candidates) simp

section \<open>The walk over ancestors\<close>

text \<open>A mark on a run is closed when its parent, if it is a candidate, is marked too.\<close>

definition closed_run :: "(string \<rightharpoonup> BackupRun) \<Rightarrow> marks \<Rightarrow> BackupRun \<Rightarrow> bool" where
  "closed_run byID keep r \<longleftrightarrow>
     (br_ParentRunID r \<noteq> '''' \<longrightarrow> byID (br_ParentRunID r) \<noteq> None \<longrightarrow> keep (br_ParentRunID r) \<noteq> None)"

definition id_map :: "(string \<rightharpoonup> BackupRun) \<Rightarrow> bool" where
  "id_map byID \<longleftrightarrow> (\<forall>x r. byID x = Some r \<longrightarrow> br_ID r = x)"

lemma closed_run_mono: "keep \<subseteq>\<^sub>m keep' \<Longrightarrow> closed_run byID keep r \<Longrightarrow> closed_run byID keep' r"
  by (auto simp: closed_run_def map_le_def dom_def)

lemma by_id_simps: "by_id [] = Map.empty" "by_id (rs @ [r]) = (by_id rs)(br_ID r \<mapsto> r)"
  by (simp_all add: by_id_def)

lemma by_id_id_map: "id_map (by_id rs)"
  by (induction rs rule: rev_induct) (auto simp: id_map_def by_id_simps)

lemma by_id_dom: "dom (by_id rs) = br_ID ` set rs"
proof (induction rs rule: rev_induct)
  case (snoc r rs)
  then show ?case unfolding by_id_simps dom_fun_upd by simp
qed (simp add: by_id_simps)

lemma by_id_ran: "by_id rs x = Some r \<Longrightarrow> r \<in> set rs"
  by (induction rs rule: rev_induct) (auto simp: by_id_simps split: if_splits)

lemma by_id_distinct: "distinct (map br_ID rs) \<Longrightarrow> r \<in> set rs \<Longrightarrow> by_id rs (br_ID r) = Some r"
proof (induction rs rule: rev_induct)
  case (snoc a rs)
  then show ?case
    by (cases "r = a") (auto simp: by_id_simps, metis image_eqI)
qed simp

text \<open>What one walk promises: it extends the marks, closes the run it starts from and every run it
  marks, and gives each of them the reason that names the dependent run.\<close>

definition walk_post :: "(string \<rightharpoonup> BackupRun) \<Rightarrow> BackupRun \<Rightarrow> BackupRun \<Rightarrow> marks \<Rightarrow> marks \<Rightarrow> bool" where
  "walk_post byID r cur keep keep' \<longleftrightarrow>
     keep \<subseteq>\<^sub>m keep' \<and> closed_run byID keep' cur \<and>
     (\<forall>x. keep' x \<noteq> None \<longrightarrow> keep x = None \<longrightarrow>
        (\<exists>p. byID x = Some p \<and> closed_run byID keep' p \<and>
             keep' x = Some (NeededFor (br_Type r) (br_CreatedAt r))))"

lemma walk_post_step:
  assumes ids: "id_map byID" and p: "byID (br_ParentRunID cur) = Some parent"
    and k: "k = (if keep (br_ID parent) = None
                  then markKeep keep (br_ID parent) (NeededFor (br_Type r) (br_CreatedAt r)) else keep)"
    and ih: "walk_post byID r parent k keep'"
  shows "walk_post byID r cur keep keep'"
proof -
  have pid: "br_ID parent = br_ParentRunID cur" using ids p by (simp add: id_map_def)
  have le: "keep \<subseteq>\<^sub>m k" by (simp add: k markKeep_le)
  have kp: "k (br_ParentRunID cur) \<noteq> None" by (simp add: k markKeep_def pid)
  have kk: "k \<subseteq>\<^sub>m keep'" using ih by (simp add: walk_post_def)
  have same: "keep' x = k x" if "k x \<noteq> None" for x
    using that kk by (metis domIff map_le_def)
  have new: "x = br_ParentRunID cur \<and> k x = Some (NeededFor (br_Type r) (br_CreatedAt r))"
    if "k x \<noteq> None" "keep x = None" for x
    using that by (auto simp: k markKeep_def pid split: if_splits)
  show ?thesis
    unfolding walk_post_def
  proof (intro conjI allI impI)
    show "keep \<subseteq>\<^sub>m keep'" using map_le_trans [OF le kk] .
    show "closed_run byID keep' cur" using kp same by (simp add: closed_run_def)
    fix x assume x: "keep' x \<noteq> None" "keep x = None"
    show "\<exists>p. byID x = Some p \<and> closed_run byID keep' p \<and>
             keep' x = Some (NeededFor (br_Type r) (br_CreatedAt r))"
    proof (cases "k x = None")
      case True
      then show ?thesis using ih x by (simp add: walk_post_def)
    next
      case False
      then show ?thesis using new [OF False x(2)] same [OF False] p ih by (auto simp: walk_post_def)
    qed
  qed
qed

lemma walk_ancestors_correct:
  assumes ret: "walk_ancestors byID r cur keep = Some keep'" and ids: "id_map byID"
  shows "walk_post byID r cur keep keep'"
proof (rule walk_ancestors.raw_induct
    [where P = "\<lambda>byID r cur keep keep'. id_map byID \<longrightarrow> walk_post byID r cur keep keep'",
      OF _ ret, THEN mp, OF _ ids])
  fix f byID and r cur :: BackupRun and keep keep' :: marks
  assume IH: "\<And>byID r cur keep keep'. f byID r cur keep = Some keep' \<Longrightarrow>
      id_map byID \<longrightarrow> walk_post byID r cur keep keep'"
    and eq: "(if br_ParentRunID cur = '''' then Some keep
      else case byID (br_ParentRunID cur) of
             None \<Rightarrow> Some keep
           | Some parent \<Rightarrow>
               f byID r parent
                 (if keep (br_ID parent) = None
                  then markKeep keep (br_ID parent) (NeededFor (br_Type r) (br_CreatedAt r))
                  else keep)) = Some keep'"
  show "id_map byID \<longrightarrow> walk_post byID r cur keep keep'"
  proof (cases "br_ParentRunID cur = '''' \<or> byID (br_ParentRunID cur) = None")
    case True
    with eq have "keep' = keep" by (auto split: if_splits)
    then show ?thesis using True by (auto simp: closed_run_def walk_post_def)
  next
    case False
    then obtain parent where "byID (br_ParentRunID cur) = Some parent" by auto
    then show ?thesis using eq False IH walk_post_step by fastforce
  qed
qed

lemma protect_chains_correct:
  assumes "protect_chains byID rs keep = Some keep'" "id_map byID"
  shows "keep \<subseteq>\<^sub>m keep' \<and>
         (\<forall>r \<in> set rs. keep (br_ID r) \<noteq> None \<longrightarrow> closed_run byID keep' r) \<and>
         (\<forall>x. keep' x \<noteq> None \<longrightarrow> keep x = None \<longrightarrow>
            (\<exists>p ty at. byID x = Some p \<and> closed_run byID keep' p \<and> keep' x = Some (NeededFor ty at)))"
  using assms
proof (induction byID rs keep rule: protect_chains.induct)
  case (1 byID keep)
  then show ?case by simp
next
  case (2 byID r rs keep)
  show ?case
  proof (cases "keep (br_ID r) = None")
    case True
    then show ?thesis using 2 by auto
  next
    case False
    with "2.prems" obtain k where k: "walk_ancestors byID r r keep = Some k"
      and rest: "protect_chains byID rs k = Some keep'" by (auto split: option.splits)
    note w = walk_ancestors_correct [OF k "2.prems"(2), unfolded walk_post_def]
    note IH = "2.IH"(2) [OF False k rest "2.prems"(2)]
    have le: "keep \<subseteq>\<^sub>m k" "k \<subseteq>\<^sub>m keep'" using w IH by blast+
    have stays: "k x \<noteq> None" if "keep x \<noteq> None" for x
      using that le(1) by (metis domIff map_le_def)
    have same: "keep' x = k x" if "k x \<noteq> None" for x
      using that le(2) by (metis domIff map_le_def)
    show ?thesis
    proof (intro conjI allI ballI impI)
      show "keep \<subseteq>\<^sub>m keep'" using le map_le_trans by blast
      fix r' assume "r' \<in> set (r # rs)" "keep (br_ID r') \<noteq> None"
      then show "closed_run byID keep' r'"
        using w IH stays closed_run_mono [OF le(2)] by auto
    next
      fix x assume "keep' x \<noteq> None" "keep x = None"
      then show "\<exists>p ty at. byID x = Some p \<and> closed_run byID keep' p \<and> keep' x = Some (NeededFor ty at)"
        using w IH same closed_run_mono [OF le(2)] by (cases "k x = None") metis+
    qed
  qed
qed

section \<open>When the walk ends\<close>

text \<open>Parent links that lead to runs of a smaller rank (for instance an older run, or a smaller
  position in the chain).\<close>

definition chain_ranked :: "(string \<Rightarrow> nat) \<Rightarrow> BackupRun list \<Rightarrow> bool" where
  "chain_ranked rank rs \<longleftrightarrow>
     (\<forall>c \<in> set rs. \<forall>p \<in> set rs. br_ParentRunID c = br_ID p \<longrightarrow> rank (br_ID p) < rank (br_ID c))"

lemma walk_ancestors_returns:
  assumes "chain_ranked rank rs" "cur \<in> set rs"
  shows "\<exists>keep'. walk_ancestors (by_id rs) r cur keep = Some keep'"
  using assms(2)
proof (induction "rank (br_ID cur)" arbitrary: cur keep rule: less_induct)
  case less
  show ?case
  proof (cases "br_ParentRunID cur = '''' \<or> by_id rs (br_ParentRunID cur) = None")
    case True
    then show ?thesis by (auto simp: walk_ancestors.simps [of _ _ cur])
  next
    case False
    then obtain p where p: "by_id rs (br_ParentRunID cur) = Some p" by auto
    have mem: "p \<in> set rs" by (rule by_id_ran [OF p])
    have "br_ID p = br_ParentRunID cur" using by_id_id_map p by (auto simp: id_map_def)
    then have "rank (br_ID p) < rank (br_ID cur)"
      using assms(1) less.prems mem unfolding chain_ranked_def by metis
    from less.hyps [OF this mem] show ?thesis
      using False p by (subst walk_ancestors.simps) simp
  qed
qed

lemma protect_chains_returns:
  assumes "chain_ranked rank cands" "set rs \<subseteq> set cands"
  shows "\<exists>keep'. protect_chains (by_id cands) rs keep = Some keep'"
  using assms(2)
proof (induction rs arbitrary: keep)
  case (Cons r rs)
  from walk_ancestors_returns [OF assms(1), of r r keep] Cons.prems
  obtain k where "walk_ancestors (by_id cands) r r keep = Some k" by auto
  then show ?case using Cons by auto
qed simp

lemma walk_ancestors_diverges:
  assumes rootless: "\<And>c. c \<in> S \<Longrightarrow> br_ParentRunID c \<noteq> '''' \<and> (\<exists>p \<in> S. byID (br_ParentRunID c) = Some p)"
    and "cur \<in> S"
  shows "walk_ancestors byID r cur keep = None"
proof (rule ccontr)
  assume "walk_ancestors byID r cur keep \<noteq> None"
  then obtain keep' where ret: "walk_ancestors byID r cur keep = Some keep'" by auto
  have "byID = byID \<longrightarrow> cur \<notin> S"
  proof (rule walk_ancestors.raw_induct
      [where P = "\<lambda>b r c k k'. b = byID \<longrightarrow> c \<notin> S", OF _ ret])
    fix f b and r c :: BackupRun and k k' :: marks
    assume IH: "\<And>b r c k k'. f b r c k = Some k' \<Longrightarrow> b = byID \<longrightarrow> c \<notin> S"
      and eq: "(if br_ParentRunID c = '''' then Some k
        else case b (br_ParentRunID c) of None \<Rightarrow> Some k
           | Some parent \<Rightarrow> f b r parent
                 (if k (br_ID parent) = None
                  then markKeep k (br_ID parent) (NeededFor (br_Type r) (br_CreatedAt r)) else k))
        = Some k'"
    show "b = byID \<longrightarrow> c \<notin> S"
    proof (intro impI notI)
      assume b: "b = byID" and c: "c \<in> S"
      obtain p where "p \<in> S" "byID (br_ParentRunID c) = Some p" "br_ParentRunID c \<noteq> ''''"
        using rootless [OF c] by blast
      with eq b IH show False by fastforce
    qed
  qed
  with assms(2) show False by simp
qed

section \<open>Facts about a decision\<close>

lemma expire_loop_le: "expire_loop cutoff keep rs \<subseteq>\<^sub>m keep"
proof (induction rs arbitrary: keep)
  case (Cons r rs)
  have "(if br_CreatedAt r < cutoff then keep(br_ID r := None) else keep) \<subseteq>\<^sub>m keep"
    by (auto simp: map_le_def)
  then show ?case using Cons.IH map_le_trans by fastforce
qed simp

lemma expire_loop_None: "keep x = None \<Longrightarrow> expire_loop cutoff keep rs x = None"
  using expire_loop_le by (metis domIff map_le_def)

lemma expire_loop_expired:
  "r \<in> set rs \<Longrightarrow> br_CreatedAt r < cutoff \<Longrightarrow> expire_loop cutoff keep rs (br_ID r) = None"
  by (induction rs arbitrary: keep) (auto simp: expire_loop_None)

lemma apply_max_age_le: "apply_max_age policy now cands keep \<subseteq>\<^sub>m keep"
  using expire_loop_le by (auto simp: apply_max_age_def)

lemma keep_survivor_le: "keep \<subseteq>\<^sub>m keep_survivor cands keep"
  by (auto simp: keep_survivor_def markKeep_le split: list.splits)

lemma keep_survivor_nonempty: "cands \<noteq> [] \<Longrightarrow> \<exists>r \<in> set cands. keep_survivor cands keep (br_ID r) \<noteq> None"
  by (cases cands) (auto simp: keep_survivor_def markKeep_def list_all_iff)

lemma keep_survivor_new:
  "keep_survivor cands keep x \<noteq> None \<Longrightarrow> keep x = None \<Longrightarrow> keep_survivor cands keep x = Some LastCopy"
  by (cases cands) (auto simp: keep_survivor_def markKeep_def split: if_splits)

lemma decide_sets:
  "set (Keep (decide cands keep)) = {x \<in> br_ID ` set cands. keep x \<noteq> None}"
  "set (Delete (decide cands keep)) = {x \<in> br_ID ` set cands. keep x = None}"
  by (auto simp: decide_def)

lemma decide_reason:
  assumes "r \<in> set cands"
  shows "Reasons (decide cands keep) (br_ID r) =
    Some (case keep (br_ID r) of Some why \<Rightarrow> why | None \<Rightarrow> NoRule)"
proof -
  have "foldl (\<lambda>m r. m(br_ID r \<mapsto> f (br_ID r))) m cands (br_ID r) = Some (f (br_ID r))"
    for f :: "string \<Rightarrow> reason" and m
    using assms
  proof (induction cands rule: rev_induct)
    case (snoc c cs)
    then show ?case by (cases "br_ID r = br_ID c") auto
  qed simp
  from this [of "\<lambda>x. case keep x of Some why \<Rightarrow> why | None \<Rightarrow> NoRule" Map.empty]
  show ?thesis by (simp add: decide_def)
qed

lemma Apply_cases:
  assumes "Apply policy runs now = Some d"
  obtains (none) "candidates runs = []" "Keep d = []" "Delete d = []"
  | (off) "candidates runs \<noteq> []" "policy_Empty policy" "Keep d = map br_ID (candidates runs)" "Delete d = []"
  | (rules) keep where "candidates runs \<noteq> []" "\<not> policy_Empty policy"
      "protect_chains (by_id (candidates runs)) (candidates runs)
         (direct_marks policy now (candidates runs)) = Some keep"
      "d = decide (candidates runs) keep"
  using assms by (auto simp: Apply_def Let_def split: if_splits option.splits)

lemma direct_marks_kept:
  assumes "protect_chains (by_id cands) cands (direct_marks policy now cands) = Some keep"
    and "direct_marks policy now cands x = Some why"
  shows "keep x = Some why"
  using protect_chains_correct [OF assms(1) by_id_id_map] assms(2)
  by (metis domIff map_le_def option.distinct(1))

lemma keep_last_loop_marks:
  "j < length rs \<Longrightarrow> i + int j < n \<Longrightarrow> keep_last_loop n i keep rs (br_ID (rs ! j)) \<noteq> None"
proof (induction rs arbitrary: i j keep)
  case (Cons r rs)
  show ?case
  proof (cases j)
    case 0
    have "markKeep keep (br_ID r) (InLast n) (br_ID r) \<noteq> None" by (simp add: markKeep_def)
    then have "keep_last_loop n (i + 1) (markKeep keep (br_ID r) (InLast n)) rs (br_ID r) \<noteq> None"
      using keep_last_loop_le by (metis domIff map_le_def)
    with 0 Cons.prems show ?thesis by simp
  next
    case (Suc j')
    then show ?thesis using Cons.IH [of j' "i + 1"] Cons.prems by simp
  qed
qed simp

text \<open>
  The periods a bucket rule sees: a run is the newest of its period when no run before it in the
  newest-first order falls into the same period; it is kept when fewer than \<open>limit\<close> periods
  are newer.
\<close>

definition newest_of_period :: "(int \<Rightarrow> bucket) \<Rightarrow> BackupRun list \<Rightarrow> nat \<Rightarrow> bool" where
  "newest_of_period bucketOf rs i \<longleftrightarrow>
     bucketOf (br_CreatedAt (rs ! i)) \<notin> (\<lambda>r. bucketOf (br_CreatedAt r)) ` set (take i rs)"

definition newer_periods :: "(int \<Rightarrow> bucket) \<Rightarrow> BackupRun list \<Rightarrow> nat \<Rightarrow> nat" where
  "newer_periods bucketOf rs i = card ((\<lambda>r. bucketOf (br_CreatedAt r)) ` set (take i rs))"

lemma bucket_loop_marks:
  assumes "i < length rs" "distinct seen" "kept = int (length seen)"
    and "bucketOf (br_CreatedAt (rs ! i))
           \<notin> set seen \<union> (\<lambda>r. bucketOf (br_CreatedAt r)) ` set (take i rs)"
    and "int (card (set seen \<union> (\<lambda>r. bucketOf (br_CreatedAt r)) ` set (take i rs))) < limit"
  shows "bucket_loop limit label bucketOf seen kept keep rs (br_ID (rs ! i)) \<noteq> None"
  using assms
proof (induction rs arbitrary: i seen kept keep)
  case (Cons r rs)
  define b where "b = bucketOf (br_CreatedAt r)"
  have "card (set seen) \<le> card (set seen \<union> (\<lambda>r. bucketOf (br_CreatedAt r)) ` set (take i (r # rs)))"
    by (intro card_mono) auto
  then have room: "kept < limit" using Cons.prems by (simp add: distinct_card)
  show ?case
  proof (cases i)
    case 0
    have "markKeep keep (br_ID r) (Slice label b) (br_ID r) \<noteq> None" by (simp add: markKeep_def)
    then have "bucket_loop limit label bucketOf (b # seen) (kept + 1)
        (markKeep keep (br_ID r) (Slice label b)) rs (br_ID r) \<noteq> None"
      using bucket_loop_le by (metis domIff map_le_def)
    with 0 Cons.prems(4) room show ?thesis by (simp add: b_def Let_def)
  next
    case (Suc j)
    show ?thesis
    proof (cases "b \<in> set seen")
      case True
      then have "set seen \<union> insert b S = set seen \<union> S" for S by auto
      then show ?thesis
        using Cons.IH [of j seen kept keep] Cons.prems Suc room True by (simp add: b_def Let_def)
    next
      case False
      then show ?thesis
        using Cons.IH [of j "b # seen" "kept + 1" "markKeep keep (br_ID r) (Slice label b)"]
          Cons.prems Suc room by (simp add: b_def Let_def)
    qed
  qed
qed simp

lemma applyBucket_marks:
  assumes "i < length rs" "newest_of_period bucketOf rs i" "int (newer_periods bucketOf rs i) < limit"
  shows "applyBucket keep rs limit label bucketOf (br_ID (rs ! i)) \<noteq> None"
  using bucket_loop_marks [OF assms(1), of "[]" 0 bucketOf limit label keep] assms
  by (auto simp: applyBucket_def newest_of_period_def newer_periods_def)

definition bucket_rule_of :: "RetentionPolicy \<Rightarrow> bucket_label \<Rightarrow> int \<times> (int \<Rightarrow> bucket)" where
  "bucket_rule_of policy label = (case label of
     Hourly \<Rightarrow> (KeepHourly policy, bucket_hourly) | Daily \<Rightarrow> (KeepDaily policy, bucket_daily)
   | Weekly \<Rightarrow> (KeepWeekly policy, bucket_weekly) | Monthly \<Rightarrow> (KeepMonthly policy, bucket_monthly)
   | Yearly \<Rightarrow> (KeepYearly policy, bucket_yearly))"

lemma bucket_rules_marks:
  assumes "bucket_rule_of policy label = (limit, bucketOf)" "i < length cands"
    and "newest_of_period bucketOf cands i" "int (newer_periods bucketOf cands i) < limit"
  shows "bucket_rules policy cands keep (br_ID (cands ! i)) \<noteq> None"
proof -
  note m = applyBucket_marks [OF assms(2-4)]
  note stay = bucket.marked_stays [where x = "br_ID (cands ! i)" and cands = cands]
  show ?thesis
  proof (cases label)
    case Hourly
    then show ?thesis unfolding bucket_rules_def Let_def
      using assms(1) m
      by (intro stay [of _ _ Yearly] stay [of _ _ Monthly] stay [of _ _ Weekly] stay [of _ _ Daily])
        (simp add: bucket_rule_of_def)
  next
    case Daily
    then show ?thesis unfolding bucket_rules_def Let_def
      using assms(1) m by (intro stay [of _ _ Yearly] stay [of _ _ Monthly] stay [of _ _ Weekly])
        (simp add: bucket_rule_of_def)
  next
    case Weekly
    then show ?thesis unfolding bucket_rules_def Let_def
      using assms(1) m by (intro stay [of _ _ Yearly] stay [of _ _ Monthly]) (simp add: bucket_rule_of_def)
  next
    case Monthly
    then show ?thesis unfolding bucket_rules_def Let_def
      using assms(1) m by (intro stay [of _ _ Yearly]) (simp add: bucket_rule_of_def)
  next
    case Yearly
    then show ?thesis unfolding bucket_rules_def Let_def
      using assms(1) m by (simp add: bucket_rule_of_def)
  qed
qed

lemma no_max_age_marks:
  assumes "MaxAge policy \<le> 0"
    and "bucket_rules policy cands (keep_last_rule policy cands Map.empty) x \<noteq> None"
  shows "direct_marks policy now cands x \<noteq> None"
proof -
  define k where "k = bucket_rules policy cands (keep_last_rule policy cands Map.empty)"
  have "direct_marks policy now cands = keep_survivor cands k"
    using assms(1) by (simp add: direct_marks_def apply_max_age_def k_def)
  then show ?thesis
    using assms(2) keep_survivor_le [of k cands] by (metis domIff k_def map_le_def)
qed

lemma kept_by_marks:
  assumes "Apply policy runs now = Some d" "x \<in> br_ID ` set (candidates runs)"
    and "direct_marks policy now (candidates runs) x \<noteq> None"
  shows "x \<in> set (Keep d)"
  using assms(1)
proof (cases rule: Apply_cases)
  case none
  then show ?thesis using assms(2) by simp
next
  case off
  then show ?thesis using assms(2) by simp
next
  case (rules keep)
  then show ?thesis using direct_marks_kept [OF rules(3)] assms(2,3) by (auto simp: decide_sets)
qed

section \<open>The plan shown to the operator\<close>

record RunNote =
  rn_RunID :: string
  rn_Type :: BackupType
  rn_CreatedAt :: int
  rn_Bytes :: int
  rn_Reason :: reason

datatype plan_warning =
    WarnReadOnly
  | WarnQuarantine int
  | WarnObjectLock int
  | WarnProtected

record Plan =
  pl_ServerID :: string
  pl_VMID :: string
  pl_VMName :: string
  pl_TargetID :: string
  pl_Keep :: "RunNote list"
  pl_Delete :: "RunNote list"
  pl_FreedBytes :: int
  pl_PurgeDelaySeconds :: int
  pl_Warnings :: "plan_warning list"
  pl_Token :: string

text \<open>
  The fields \<open>planToken\<close> feeds to the digest. The digest of the serialised fields (JSON,
  SHA-256 and hex) is the parameter \<open>fingerprint\<close>.
\<close>

type_synonym token_payload =
  "string \<times> string \<times> string \<times> RunNote list \<times> RunNote list \<times> int \<times> plan_warning list"

definition plan_payload :: "Plan \<Rightarrow> token_payload" where
  "plan_payload plan =
     (pl_ServerID plan, pl_VMID plan, pl_TargetID plan, pl_Keep plan, pl_Delete plan,
      pl_PurgeDelaySeconds plan, pl_Warnings plan)"

definition planToken :: "(token_payload \<Rightarrow> string) \<Rightarrow> Plan \<Rightarrow> string" where
  "planToken fingerprint plan = fingerprint (plan_payload plan)"

text \<open>A reason that is missing from the map is the empty string in Go; a decision of \<open>Apply\<close>
  records one for each run it names.\<close>

definition note_of :: "Decision \<Rightarrow> BackupRun \<Rightarrow> string \<Rightarrow> RunNote" where
  "note_of decision r rid =
     \<lparr>rn_RunID = rid, rn_Type = br_Type r, rn_CreatedAt = br_CreatedAt r, rn_Bytes = br_StoredBytes r,
      rn_Reason = (case Reasons decision rid of Some why \<Rightarrow> why | None \<Rightarrow> NoRule)\<rparr>"

fun keep_notes :: "Decision \<Rightarrow> (string \<rightharpoonup> BackupRun) \<Rightarrow> string list \<Rightarrow> RunNote list" where
  "keep_notes decision byID [] = []"
| "keep_notes decision byID (rid # rids) =
     (case byID rid of
        None \<Rightarrow> keep_notes decision byID rids
      | Some r \<Rightarrow> note_of decision r rid # keep_notes decision byID rids)"

fun delete_notes ::
  "Decision \<Rightarrow> (string \<rightharpoonup> BackupRun) \<Rightarrow> RunNote list \<Rightarrow> int \<Rightarrow> string list \<Rightarrow> RunNote list \<times> int" where
  "delete_notes decision byID acc freed [] = (acc, freed)"
| "delete_notes decision byID acc freed (rid # rids) =
     (case byID rid of
        None \<Rightarrow> delete_notes decision byID acc freed rids
      | Some r \<Rightarrow> delete_notes decision byID (acc @ [note_of decision r rid])
                    (wrap64 (freed + br_StoredBytes r)) rids)"

definition BuildPlan ::
  "(token_payload \<Rightarrow> string) \<Rightarrow> string \<Rightarrow> string \<Rightarrow> string \<Rightarrow> string \<Rightarrow> BackupRun list \<Rightarrow> Decision \<Rightarrow> Plan" where
  "BuildPlan fingerprint serverID vmID vmName targetID runs decision =
     (let byID = by_id runs;
          (dels, freed) = delete_notes decision byID [] 0 (Delete decision);
          plan = \<lparr>pl_ServerID = serverID, pl_VMID = vmID, pl_VMName = vmName, pl_TargetID = targetID,
                  pl_Keep = keep_notes decision byID (Keep decision), pl_Delete = dels,
                  pl_FreedBytes = freed, pl_PurgeDelaySeconds = 0, pl_Warnings = [], pl_Token = ''''\<rparr>
      in plan\<lparr>pl_Token := planToken fingerprint plan\<rparr>)"

text \<open>\<open>delay\<close> is a duration in nanoseconds.\<close>

definition WithDeletionConditions ::
  "(token_payload \<Rightarrow> string) \<Rightarrow> Plan \<Rightarrow> int \<Rightarrow> StorageTarget \<Rightarrow> Plan" where
  "WithDeletionConditions fingerprint plan delay target =
     (let w0 = pl_Warnings plan;
          w1 = (if st_ReadOnly target then w0 @ [WarnReadOnly] else w0);
          w2 = (if pl_Delete plan = [] then w1
                else let w = (if delay > 0 then w1 @ [WarnQuarantine delay] else w1)
                     in if st_ObjectLockEnabled target then w @ [WarnObjectLock (st_ObjectLockDays target)]
                        else if st_ImmutabilityState target = ''protected'' then w @ [WarnProtected]
                        else w);
          plan' = plan\<lparr>pl_PurgeDelaySeconds := go_div delay 1000000000, pl_Warnings := w2\<rparr>
      in plan'\<lparr>pl_Token := planToken fingerprint plan'\<rparr>)"

lemma keep_notes_ids:
  "set rids \<subseteq> dom byID \<Longrightarrow> map rn_RunID (keep_notes decision byID rids) = rids"
  by (induction rids) (auto simp: note_of_def split: option.splits)

lemma delete_notes_ids:
  "set rids \<subseteq> dom byID \<Longrightarrow>
   map rn_RunID (fst (delete_notes decision byID acc freed rids)) = map rn_RunID acc @ rids"
  by (induction rids arbitrary: acc freed) (auto simp: note_of_def split: option.splits)

definition stored_sum :: "(string \<rightharpoonup> BackupRun) \<Rightarrow> string list \<Rightarrow> int" where
  "stored_sum byID rids = (\<Sum>x\<leftarrow>rids. case byID x of Some r \<Rightarrow> br_StoredBytes r | None \<Rightarrow> 0)"

lemma delete_notes_freed:
  "wrap64 (snd (delete_notes decision byID acc freed rids)) = wrap64 (freed + stored_sum byID rids)"
proof (induction rids arbitrary: acc freed)
  case (Cons x xs)
  have "wrap64 (wrap64 a + b) = wrap64 (a + b)" for a b
    unfolding wrap64_def by (simp add: algebra_simps mod_simps)
  then show ?case
    using Cons.IH by (auto simp: stored_sum_def add.assoc [symmetric] split: option.splits)
qed (simp add: stored_sum_def)

lemma delete_notes_in64:
  "in64 freed \<Longrightarrow> in64 (snd (delete_notes decision byID acc freed rids))"
  by (induction rids arbitrary: acc freed) (auto split: option.splits)

section \<open>What retention guarantees\<close>

inductive ancestor_of :: "BackupRun list \<Rightarrow> string \<Rightarrow> string \<Rightarrow> bool" for rs where
  parent: "c \<in> set rs \<Longrightarrow> p \<in> set rs \<Longrightarrow> br_ParentRunID c \<noteq> '''' \<Longrightarrow> br_ParentRunID c = br_ID p \<Longrightarrow>
     ancestor_of rs (br_ID c) (br_ID p)"
| further: "ancestor_of rs x y \<Longrightarrow> ancestor_of rs y z \<Longrightarrow> ancestor_of rs x z"

lemma kept_candidate:
  "Apply policy runs now = Some d \<Longrightarrow> x \<in> set (Keep d) \<Longrightarrow> x \<in> br_ID ` set (candidates runs)"
  by (erule Apply_cases) (auto simp: decide_sets)

lemma kept_parent_kept:
  assumes app: "Apply policy runs now = Some d" and dist: "distinct (map br_ID (candidates runs))"
    and c: "c \<in> set (candidates runs)" and p: "p \<in> set (candidates runs)"
    and link: "br_ParentRunID c \<noteq> ''''" "br_ParentRunID c = br_ID p" and kept: "br_ID c \<in> set (Keep d)"
  shows "br_ID p \<in> set (Keep d)"
  using app
proof (cases rule: Apply_cases)
  case none
  then show ?thesis using c by simp
next
  case off
  then show ?thesis using p by simp
next
  case (rules keep)
  note post = protect_chains_correct [OF rules(3) by_id_id_map]
  have kc: "keep (br_ID c) \<noteq> None" using kept rules(4) by (simp add: decide_sets)
  have byc: "by_id (candidates runs) (br_ID c) = Some c" by (rule by_id_distinct [OF dist c])
  have "closed_run (by_id (candidates runs)) keep c"
  proof (cases "direct_marks policy now (candidates runs) (br_ID c) = None")
    case True
    then show ?thesis using post kc byc by (metis option.inject)
  next
    case False
    then show ?thesis using post c by blast
  qed
  moreover have "by_id (candidates runs) (br_ParentRunID c) \<noteq> None"
    using by_id_distinct [OF dist p] link by simp
  ultimately have "keep (br_ID p) \<noteq> None" using link by (simp add: closed_run_def)
  then show ?thesis using p rules(4) by (simp add: decide_sets)
qed

lemma direct_marks_expired:
  assumes "MaxAge policy > 0" "r \<in> set cands" "br_CreatedAt r < now - MaxAge policy"
    and "direct_marks policy now cands (br_ID r) = Some why"
  shows "why = LastCopy"
proof -
  have "apply_max_age policy now cands k (br_ID r) = None" for k
    using assms by (simp add: apply_max_age_def expire_loop_expired)
  then show ?thesis
    using assms(4) keep_survivor_new unfolding direct_marks_def
    by (metis option.distinct(1) option.inject)
qed

definition keep_policy :: "int \<Rightarrow> int \<Rightarrow> int \<Rightarrow> RetentionPolicy" where
  "keep_policy n daily age =
     \<lparr>KeepLast = n, KeepHourly = 0, KeepDaily = daily, KeepWeekly = 0, KeepMonthly = 0,
      KeepYearly = 0, MaxAge = age\<rparr>"

definition sample_chain :: "BackupRun list" where
  "sample_chain =
     [sample_run ''f'' BackupFull '''' 10, sample_run ''i1'' BackupIncremental ''f'' 11,
      sample_run ''i2'' BackupIncremental ''i1'' 12, sample_run ''old'' BackupFull '''' 5]"

definition sample_decision :: Decision where
  "sample_decision =
     \<lparr>Keep = [''i2'', ''i1'', ''f''], Delete = [''old''],
      Reasons = [''i2'' \<mapsto> InLast 1,
                 ''i1'' \<mapsto> NeededFor BackupIncremental (12 * 86400000000000),
                 ''f'' \<mapsto> NeededFor BackupIncremental (12 * 86400000000000),
                 ''old'' \<mapsto> NoRule]\<rparr>"

lemma sample_candidates:
  "candidates sample_chain =
     [sample_run ''i2'' BackupIncremental ''i1'' 12, sample_run ''i1'' BackupIncremental ''f'' 11,
      sample_run ''f'' BackupFull '''' 10, sample_run ''old'' BackupFull '''' 5]"
  by code_simp

lemma sample_Apply: "Apply (keep_policy 1 0 0) sample_chain 0 = Some sample_decision"
proof -
  have walk: "walk_ancestors b r c k =
     (if br_ParentRunID c = '''' then Some k
      else case b (br_ParentRunID c) of None \<Rightarrow> Some k
           | Some p \<Rightarrow> walk_ancestors b r p
                 (if k (br_ID p) = None
                  then markKeep k (br_ID p) (NeededFor (br_Type r) (br_CreatedAt r)) else k))"
    for b r c k by (rule walk_ancestors.simps)
  show ?thesis
    unfolding Apply_def sample_candidates Let_def
    by (simp add: policy_Empty_def keep_policy_def direct_marks_def keep_last_rule_def
        bucket_rules_def applyBucket_def apply_max_age_def keep_survivor_def markKeep_def sample_run_def
        by_id_def walk decide_def sample_decision_def fun_eq_iff)
qed

text \<open>
  C4: chain safety. When ids are unique, a decision that keeps a run keeps every ancestor of it
  that is still a candidate, at any depth, so no kept increment loses the history it is restored
  from.
\<close>

theorem retention_chain_safe:
  assumes "Apply policy runs now = Some d" and "distinct (map br_ID (candidates runs))"
    and "ancestor_of (candidates runs) x y" and "x \<in> set (Keep d)"
  shows "y \<in> set (Keep d) \<and> y \<notin> set (Delete d)"
proof -
  have keep: "y \<in> set (Keep d)"
    using assms(3,4)
  proof (induction rule: ancestor_of.induct)
    case (parent c p)
    then show ?case using kept_parent_kept [OF assms(1,2)] by blast
  qed blast
  have "set (Keep d) \<inter> set (Delete d) = {}"
    using assms(1) by (rule Apply_cases) (auto simp: decide_sets)
  with keep show ?thesis by blast
qed

theorem retention_chain_safe_witness:
  "''f'' \<in> set (Keep sample_decision) \<and> ''f'' \<notin> set (Delete sample_decision)"
proof (rule retention_chain_safe [OF sample_Apply])
  show "distinct (map br_ID (candidates sample_chain))" unfolding sample_candidates by code_simp
  have "ancestor_of (candidates sample_chain) ''i2'' ''i1''"
    using ancestor_of.parent [of "sample_run ''i2'' BackupIncremental ''i1'' 12" "candidates sample_chain"
        "sample_run ''i1'' BackupIncremental ''f'' 11"]
    unfolding sample_candidates by (simp add: sample_run_def)
  moreover have "ancestor_of (candidates sample_chain) ''i1'' ''f''"
    using ancestor_of.parent [of "sample_run ''i1'' BackupIncremental ''f'' 11" "candidates sample_chain"
        "sample_run ''f'' BackupFull '''' 10"]
    unfolding sample_candidates by (simp add: sample_run_def)
  ultimately show "ancestor_of (candidates sample_chain) ''i2'' ''f''" by (rule ancestor_of.further)
  show "''i2'' \<in> set (Keep sample_decision)" by (simp add: sample_decision_def)
qed

text \<open>
  C12: a decision is a partition. \<open>Keep\<close> and \<open>Delete\<close> together name exactly the candidate runs
  (not deleted, succeeded or partial), no run is in both, and at least one run is kept when there is
  any candidate: retention never deletes the last copy.
\<close>

theorem retention_partition:
  assumes "Apply policy runs now = Some d"
  shows "set (Keep d) \<union> set (Delete d) = br_ID ` set (candidates runs) \<and>
         set (Keep d) \<inter> set (Delete d) = {} \<and>
         (candidates runs \<noteq> [] \<longrightarrow> Keep d \<noteq> [])"
  using assms
proof (cases rule: Apply_cases)
  case (rules keep)
  obtain r where r: "r \<in> set (candidates runs)"
    "direct_marks policy now (candidates runs) (br_ID r) \<noteq> None"
    using keep_survivor_nonempty [OF rules(1)] unfolding direct_marks_def by blast
  then have "br_ID r \<in> set (Keep d)" using kept_by_marks [OF assms] by blast
  then have "Keep d \<noteq> []" by auto
  then show ?thesis using rules(4) by (auto simp: decide_sets)
qed auto

theorem retention_partition_witness:
  "set (Keep sample_decision) \<union> set (Delete sample_decision) = br_ID ` set (candidates sample_chain) \<and>
   set (Keep sample_decision) \<inter> set (Delete sample_decision) = {} \<and>
   Keep sample_decision \<noteq> []"
proof -
  have "candidates sample_chain \<noteq> []" by code_simp
  then show ?thesis using retention_partition [OF sample_Apply] by blast
qed

text \<open>
  C13: without an age limit the policy keeps what it promises: the \<open>KeepLast\<close> newest candidates,
  and for each of the five calendar rules the newest run of each of the newest \<open>limit\<close> periods
  that hold a backup.
\<close>

theorem retention_keeps_promised:
  assumes "Apply policy runs now = Some d" and "MaxAge policy \<le> 0" and "i < length (candidates runs)"
    and "int i < KeepLast policy \<or>
         newest_of_period (snd (bucket_rule_of policy label)) (candidates runs) i \<and>
         int (newer_periods (snd (bucket_rule_of policy label)) (candidates runs) i)
           < fst (bucket_rule_of policy label)"
  shows "br_ID (candidates runs ! i) \<in> set (Keep d)"
proof -
  let ?cs = "candidates runs"
  have "bucket_rules policy ?cs (keep_last_rule policy ?cs Map.empty) (br_ID (?cs ! i)) \<noteq> None"
    using assms(4)
  proof
    assume "int i < KeepLast policy"
    then have "keep_last_rule policy ?cs Map.empty (br_ID (?cs ! i)) \<noteq> None"
      using keep_last_loop_marks [OF assms(3), of 0] by (simp add: keep_last_rule_def)
    then show ?thesis by (rule buckets.marked_stays)
  next
    assume a: "newest_of_period (snd (bucket_rule_of policy label)) ?cs i \<and>
         int (newer_periods (snd (bucket_rule_of policy label)) ?cs i) < fst (bucket_rule_of policy label)"
    show ?thesis by (rule bucket_rules_marks [OF prod.collapse [symmetric] assms(3)]) (use a in blast)+
  qed
  then have "direct_marks policy now ?cs (br_ID (?cs ! i)) \<noteq> None"
    by (rule no_max_age_marks [OF assms(2)])
  then show ?thesis using kept_by_marks [OF assms(1)] assms(3) by simp
qed

theorem retention_keeps_promised_witness:
  "br_ID (candidates sample_chain ! 0) \<in> set (Keep sample_decision)"
  by (rule retention_keeps_promised [OF sample_Apply, of 0 Daily])
    (simp_all add: sample_candidates keep_policy_def)

text \<open>
  The age limit is obeyed. A run older than \<open>MaxAge\<close> is kept only for one of two reasons: it
  is the last copy, or a kept run needs it.
\<close>

lemma retention_max_age:
  assumes "Apply policy runs now = Some d" and "MaxAge policy > 0"
    and "r \<in> set (candidates runs)" and "br_CreatedAt r < now - MaxAge policy"
    and "br_ID r \<in> set (Keep d)"
  shows "\<exists>why. Reasons d (br_ID r) = Some why \<and> (why = LastCopy \<or> (\<exists>ty at. why = NeededFor ty at))"
  using assms(1)
proof (cases rule: Apply_cases)
  case (rules keep)
  then obtain why where why: "keep (br_ID r) = Some why" using assms(5) by (auto simp: decide_sets)
  note post = protect_chains_correct [OF rules(3) by_id_id_map]
  have "why = LastCopy \<or> (\<exists>ty at. why = NeededFor ty at)"
  proof (cases "direct_marks policy now (candidates runs) (br_ID r)")
    case None
    then show ?thesis using post why by (metis option.distinct(1) option.inject)
  next
    case (Some w)
    then show ?thesis
      using direct_marks_expired [OF assms(2-4) Some] direct_marks_kept [OF rules(3) Some] why by simp
  qed
  then show ?thesis using why rules(4) decide_reason [OF assms(3), of keep] by simp
qed (use assms in \<open>auto simp: policy_Empty_def\<close>)

definition sample_expired :: Decision where
  "sample_expired =
     \<lparr>Keep = [''i2'', ''i1'', ''f''], Delete = [''old''],
      Reasons = [''i2'' \<mapsto> LastCopy,
                 ''i1'' \<mapsto> NeededFor BackupIncremental (12 * 86400000000000),
                 ''f'' \<mapsto> NeededFor BackupIncremental (12 * 86400000000000),
                 ''old'' \<mapsto> NoRule]\<rparr>"

lemma sample_Apply_expired:
  "Apply (keep_policy 1 0 86400000000000) sample_chain (20 * 86400000000000) = Some sample_expired"
proof -
  have walk: "walk_ancestors b r c k =
     (if br_ParentRunID c = '''' then Some k
      else case b (br_ParentRunID c) of None \<Rightarrow> Some k
           | Some p \<Rightarrow> walk_ancestors b r p
                 (if k (br_ID p) = None
                  then markKeep k (br_ID p) (NeededFor (br_Type r) (br_CreatedAt r)) else k))"
    for b r c k by (rule walk_ancestors.simps)
  show ?thesis
    unfolding Apply_def sample_candidates Let_def
    by (simp add: policy_Empty_def keep_policy_def direct_marks_def keep_last_rule_def
        bucket_rules_def applyBucket_def apply_max_age_def keep_survivor_def markKeep_def sample_run_def
        by_id_def walk decide_def sample_expired_def fun_eq_iff)
qed

text \<open>
  \<open>Apply\<close> returns a decision whenever the parent links among the candidates are ranked
  (each parent before its child in some order, for instance by age or by chain index).
\<close>

lemma retention_returns:
  assumes "chain_ranked rank (candidates runs)"
  shows "\<exists>d. Apply policy runs now = Some d"
  using protect_chains_returns [OF assms order_refl, of "direct_marks policy now (candidates runs)"]
  by (auto simp: Apply_def Let_def split: option.splits)

text \<open>
  The walk over ancestors has no guard against a cycle of parent links. When every
  candidate names another candidate as its parent, \<open>Apply\<close> with any non-empty policy does not return.
\<close>

lemma retention_cycle_diverges:
  assumes "candidates runs \<noteq> []" and "\<not> policy_Empty policy"
    and "\<forall>c \<in> set (candidates runs). br_ParentRunID c \<noteq> '''' \<and>
           br_ParentRunID c \<in> br_ID ` set (candidates runs)"
  shows "Apply policy runs now = None"
proof -
  let ?cs = "candidates runs" and ?dm = "direct_marks policy now (candidates runs)"
  have par: "br_ParentRunID c \<noteq> '''' \<and> (\<exists>p \<in> set ?cs. by_id ?cs (br_ParentRunID c) = Some p)"
    if "c \<in> set ?cs" for c
    using assms(3) that by_id_dom [of ?cs] by_id_ran by (metis domD)
  obtain r where r: "r \<in> set ?cs" "?dm (br_ID r) \<noteq> None"
    using keep_survivor_nonempty [OF assms(1)] unfolding direct_marks_def by blast
  have "\<exists>r \<in> set rs. ?dm (br_ID r) \<noteq> None \<Longrightarrow> set rs \<subseteq> set ?cs \<Longrightarrow>
      protect_chains (by_id ?cs) rs ?dm = None" for rs
    by (induction rs) (auto simp: walk_ancestors_diverges [where S = "set ?cs", OF par])
  then have "protect_chains (by_id ?cs) ?cs ?dm = None" using r by blast
  then show ?thesis using assms(1,2) by (simp add: Apply_def Let_def)
qed

definition sample_cycle :: "BackupRun list" where
  "sample_cycle = [sample_run ''a'' BackupIncremental ''b'' 1, sample_run ''b'' BackupIncremental ''a'' 2]"

lemma no_keep_rules:
  assumes "KeepLast policy \<le> 0" "\<forall>label. fst (bucket_rule_of policy label) \<le> 0" "cands \<noteq> []"
  shows "direct_marks policy now cands = [br_ID (hd cands) \<mapsto> LastCopy]"
proof -
  have "KeepHourly policy \<le> 0" "KeepDaily policy \<le> 0" "KeepWeekly policy \<le> 0"
    "KeepMonthly policy \<le> 0" "KeepYearly policy \<le> 0"
    using assms(2) [rule_format, of Hourly] assms(2) [rule_format, of Daily]
      assms(2) [rule_format, of Weekly] assms(2) [rule_format, of Monthly]
      assms(2) [rule_format, of Yearly] by (simp_all add: bucket_rule_of_def)
  then have rules: "bucket_rules policy cands (keep_last_rule policy cands Map.empty) = Map.empty"
    using assms(1) by (simp add: bucket_rules_def keep_last_rule_def applyBucket_def)
  have "apply_max_age policy now cands Map.empty = Map.empty"
    using apply_max_age_le [of policy now cands Map.empty]
    by (auto simp: map_le_def dom_def fun_eq_iff)
  then have "direct_marks policy now cands = keep_survivor cands Map.empty"
    by (simp add: direct_marks_def rules)
  then show ?thesis
    using assms(3) by (cases cands) (simp_all add: keep_survivor_def markKeep_def list_all_iff)
qed

text \<open>
  An age limit alone is not "delete what is older". A policy whose only non-zero field is
  \<open>MaxAge\<close> marks nothing, so runs within the limit go as well: all that is kept is the newest
  candidate and the runs it needs, however young the others are.
\<close>

lemma retention_max_age_alone:
  assumes "Apply policy runs now = Some d" and "MaxAge policy > 0" and "KeepLast policy \<le> 0"
    and "\<forall>label. fst (bucket_rule_of policy label) \<le> 0"
    and "x \<in> set (Keep d)"
  shows "x = br_ID (hd (candidates runs)) \<or> (\<exists>ty at. Reasons d x = Some (NeededFor ty at))"
  using assms(1)
proof (cases rule: Apply_cases)
  case (rules keep)
  have marks: "direct_marks policy now (candidates runs) = [br_ID (hd (candidates runs)) \<mapsto> LastCopy]"
    by (rule no_keep_rules [OF assms(3,4) rules(1)])
  obtain r where r: "r \<in> set (candidates runs)" "x = br_ID r" "keep x \<noteq> None"
    using assms(5) rules(4) by (auto simp: decide_sets)
  show ?thesis
  proof (cases "x = br_ID (hd (candidates runs))")
    case False
    then have "direct_marks policy now (candidates runs) x = None" by (simp add: marks)
    then obtain ty at where "keep x = Some (NeededFor ty at)"
      using protect_chains_correct [OF rules(3) by_id_id_map] r(3) by blast
    then show ?thesis using decide_reason [OF r(1), of keep] r(2) rules(4) by simp
  qed simp
qed (use assms in \<open>auto simp: policy_Empty_def\<close>)

lemma sample_max_age_alone:
  "map_option (\<lambda>d. (Keep d, Delete d))
     (Apply (keep_policy 0 0 (30 * 86400000000000))
        [sample_run ''a'' BackupFull [] 17, sample_run ''b'' BackupFull [] 18,
         sample_run ''c'' BackupFull [] 19] (20 * 86400000000000))
   = Some ([''c''], [''b'', ''a''])"
  by code_simp

text \<open>
  The plan shows the decision. Its lists name exactly the runs of the decision in order, with
  their reasons; the bytes it promises are the sum of the stored sizes of the runs to delete, modulo
  64-bit wrap-around; and its token is the fingerprint of its own contents.
\<close>

lemma plan_shows_decision:
  assumes "Apply policy runs now = Some d"
  shows "let plan = BuildPlan fingerprint s v n t runs d in
     map rn_RunID (pl_Keep plan) = Keep d \<and> map rn_RunID (pl_Delete plan) = Delete d \<and>
     pl_FreedBytes plan = wrap64 (stored_sum (by_id runs) (Delete d)) \<and>
     pl_Token plan = planToken fingerprint plan"
proof -
  have sub: "br_ID ` set (candidates runs) \<subseteq> dom (by_id runs)"
    unfolding by_id_dom by (auto simp: candidates_def)
  have "set (Keep d) \<subseteq> br_ID ` set (candidates runs) \<and> set (Delete d) \<subseteq> br_ID ` set (candidates runs)"
    using assms by (rule Apply_cases) (auto simp: decide_sets)
  then have k: "set (Keep d) \<subseteq> dom (by_id runs)" and dl: "set (Delete d) \<subseteq> dom (by_id runs)"
    using sub by blast+
  have freed: "snd (delete_notes d (by_id runs) [] 0 (Delete d)) = wrap64 (stored_sum (by_id runs) (Delete d))"
    using delete_notes_freed [of d "by_id runs" "[]" 0 "Delete d"]
      wrap64_id [OF delete_notes_in64 [of 0 d "by_id runs" "[]" "Delete d"]] by (simp add: in64_def)
  show ?thesis
    using keep_notes_ids [OF k, of d] delete_notes_ids [OF dl, of d "[]" 0] freed
    by (cases "delete_notes d (by_id runs) [] 0 (Delete d)") (simp add: BuildPlan_def Let_def planToken_def plan_payload_def)
qed

lemma WithDeletionConditions_payload:
  "pl_Token (WithDeletionConditions fingerprint p delay target) =
     fingerprint (plan_payload (WithDeletionConditions fingerprint p delay target))"
  "plan_payload (WithDeletionConditions fingerprint p delay target) =
     (pl_ServerID p, pl_VMID p, pl_TargetID p, pl_Keep p, pl_Delete p, go_div delay 1000000000,
      pl_Warnings (WithDeletionConditions fingerprint p delay target))"
  by (simp_all add: WithDeletionConditions_def planToken_def plan_payload_def Let_def)

text \<open>
  A confirmation token is bound to the plan. When the fingerprint does not collide on the two
  payloads, two plans with the same token after \<open>WithDeletionConditions\<close> agree on the machine,
  the repository, both lists of runs with their reasons, the quarantine delay in seconds and the
  warnings, so a preview of a plan that has changed since is refused.
\<close>

lemma plan_token_binds:
  assumes "p' = WithDeletionConditions fingerprint p delay target"
    and "q' = WithDeletionConditions fingerprint q delay2 target2"
    and "inj_on fingerprint {plan_payload p', plan_payload q'}"
    and "pl_Token p' = pl_Token q'"
  shows "pl_ServerID p = pl_ServerID q \<and> pl_VMID p = pl_VMID q \<and> pl_TargetID p = pl_TargetID q \<and>
         pl_Keep p = pl_Keep q \<and> pl_Delete p = pl_Delete q \<and>
         go_div delay 1000000000 = go_div delay2 1000000000 \<and> pl_Warnings p' = pl_Warnings q'"
proof -
  have "plan_payload p' = plan_payload q'"
    using assms(3,4) unfolding assms(1,2) WithDeletionConditions_payload(1) inj_on_def by blast
  then show ?thesis unfolding assms(1,2) WithDeletionConditions_payload(2) by simp
qed

text \<open>A fingerprint that lists the ids of the runs to delete separates the two previews.\<close>

end
