(* ===== verification/Grid.thy ===== *)
theory Grid
  imports Prelude
begin

text \<open>
  The chunk grid (\<open>internal/backup/grid.go\<close>): the selector that turns byte ranges into grid
  cells, the length of a cell, and the batching of consecutive cells into reads. Offsets and sizes
  are \<open>int64\<close> values, so each sum and product is wrapped; the lemmas show that nothing wraps
  while an image plus one chunk stays below \<open>2^63\<close> bytes.
\<close>

section \<open>Definitions\<close>

definition DefaultChunkSize :: int where
  "DefaultChunkSize = 4 * 1024 * 1024"

record ChunkSelector =
  cs_chunkSize :: int
  cs_virtualSize :: int
  cs_gridChunks :: int
  cs_marked :: "bool list"
  cs_count :: int

text \<open>\<open>make([]bool, grid)\<close> panics for a negative length; the panic is \<open>None\<close>.\<close>

definition NewChunkSelector :: "int \<Rightarrow> int \<Rightarrow> ChunkSelector option" where
  "NewChunkSelector chunkSize0 virtualSize =
     (let chunkSize = (if chunkSize0 \<le> 0 then DefaultChunkSize else chunkSize0);
          grid = (if virtualSize > 0
                  then go_div (wrap64 (wrap64 (virtualSize + chunkSize) - 1)) chunkSize else 0)
      in if grid < 0 then None
         else Some \<lparr>cs_chunkSize = chunkSize, cs_virtualSize = virtualSize, cs_gridChunks = grid,
                    cs_marked = replicate (nat grid) False, cs_count = 0\<rparr>)"

function mark_cells :: "int \<Rightarrow> int \<Rightarrow> ChunkSelector \<Rightarrow> ChunkSelector" where
  "mark_cells i lst s =
     (if i \<le> lst \<and> i < cs_gridChunks s
      then mark_cells (i + 1) lst
             (if \<not> cs_marked s ! nat i
              then s\<lparr>cs_marked := (cs_marked s)[nat i := True], cs_count := cs_count s + 1\<rparr>
              else s)
      else s)"
  by pat_completeness auto
termination
  by (relation "measure (\<lambda>(i, lst, s). nat (lst + 1 - i))") auto

declare mark_cells.simps [simp del]

definition Add :: "ChunkSelector \<Rightarrow> int \<Rightarrow> int \<Rightarrow> ChunkSelector" where
  "Add s start0 length0 =
     (if length0 \<le> 0 \<or> cs_gridChunks s = 0 then s
      else let end0 = wrap64 (start0 + length0);
               start = (if start0 < 0 then 0 else start0);
               stop = (if end0 > cs_virtualSize s then cs_virtualSize s else end0)
           in if start \<ge> stop then s
              else mark_cells (go_div start (cs_chunkSize s))
                     (go_div (wrap64 (stop - 1)) (cs_chunkSize s)) s)"

definition Indices :: "ChunkSelector \<Rightarrow> int list" where
  "Indices s = map int (filter (\<lambda>i. cs_marked s ! i) [0..<length (cs_marked s)])"

definition Count :: "ChunkSelector \<Rightarrow> int" where
  "Count s = cs_count s"

definition GridChunks :: "ChunkSelector \<Rightarrow> int" where
  "GridChunks s = cs_gridChunks s"

definition ChunkLength :: "int \<Rightarrow> int \<Rightarrow> int \<Rightarrow> int" where
  "ChunkLength index chunkSize virtualSize =
     (let offset = wrap64 (index * chunkSize)
      in if offset \<ge> virtualSize then 0
         else let remaining = wrap64 (virtualSize - offset)
              in if remaining < chunkSize then remaining else chunkSize)"

record ChunkGroup =
  g_Offset :: int
  g_Length :: int
  g_Indices :: "int list"
  g_Starts :: "int list"
  g_Lengths :: "int list"

definition append_chunk :: "ChunkGroup \<Rightarrow> int \<Rightarrow> int \<Rightarrow> int \<Rightarrow> ChunkGroup" where
  "append_chunk g index offset len =
     g\<lparr>g_Indices := g_Indices g @ [index], g_Starts := g_Starts g @ [offset],
       g_Lengths := g_Lengths g @ [len], g_Length := wrap64 (g_Length g + len)\<rparr>"

definition empty_group :: "int \<Rightarrow> ChunkGroup" where
  "empty_group offset =
     \<lparr>g_Offset = offset, g_Length = 0, g_Indices = [], g_Starts = [], g_Lengths = []\<rparr>"

definition contiguous :: "int \<Rightarrow> ChunkGroup \<Rightarrow> int \<Rightarrow> int \<Rightarrow> bool" where
  "contiguous maxBatch g offset len \<longleftrightarrow>
     wrap64 (g_Offset g + g_Length g) = offset \<and> wrap64 (g_Length g + len) \<le> maxBatch"

text \<open>
  The loop of \<open>GroupChunks\<close>: \<open>cur\<close> is the open group (\<open>nil\<close> is \<open>None\<close>),
  \<open>groups\<close> the closed ones.
\<close>

fun group_loop :: "int \<Rightarrow> int \<Rightarrow> int \<Rightarrow> int list \<Rightarrow> ChunkGroup option \<Rightarrow> ChunkGroup list \<Rightarrow> ChunkGroup list"
where
  "group_loop chunkSize virtualSize maxBatch [] cur groups =
     (case cur of None \<Rightarrow> groups | Some g \<Rightarrow> groups @ [g])"
| "group_loop chunkSize virtualSize maxBatch (index # rest) cur groups =
     (let offset = wrap64 (index * chunkSize);
          len = ChunkLength index chunkSize virtualSize
      in if len \<le> 0 then group_loop chunkSize virtualSize maxBatch rest cur groups
         else case cur of
                None \<Rightarrow> group_loop chunkSize virtualSize maxBatch rest
                          (Some (append_chunk (empty_group offset) index offset len)) groups
              | Some g \<Rightarrow>
                  if contiguous maxBatch g offset len
                  then group_loop chunkSize virtualSize maxBatch rest
                         (Some (append_chunk g index offset len)) groups
                  else group_loop chunkSize virtualSize maxBatch rest
                         (Some (append_chunk (empty_group offset) index offset len)) (groups @ [g]))"

definition GroupChunks :: "int list \<Rightarrow> int \<Rightarrow> int \<Rightarrow> int \<Rightarrow> ChunkGroup list" where
  "GroupChunks indices chunkSize virtualSize maxBatch0 =
     (let maxBatch = (if maxBatch0 \<le> 0 then 32 * 1024 * 1024 else maxBatch0)
      in group_loop chunkSize virtualSize maxBatch (sort indices) None [])"

section \<open>The image and its cells\<close>

text \<open>The sizes for which the grid arithmetic cannot wrap.\<close>

definition grid_ok :: "int \<Rightarrow> int \<Rightarrow> bool" where
  "grid_ok chunkSize virtualSize \<longleftrightarrow>
     0 < chunkSize \<and> 0 \<le> virtualSize \<and> virtualSize + chunkSize < 9223372036854775808"

definition grid_cells :: "int \<Rightarrow> int \<Rightarrow> int" where
  "grid_cells chunkSize virtualSize = (virtualSize + chunkSize - 1) div chunkSize"

lemma grid_cells_iff:
  assumes "0 < cs"
  shows "k < grid_cells cs vs \<longleftrightarrow> k * cs < vs"
proof -
  have "k < grid_cells cs vs \<longleftrightarrow> k + 1 \<le> (vs + cs - 1) div cs"
    by (auto simp: grid_cells_def)
  also have "\<dots> \<longleftrightarrow> (k + 1) * cs \<le> vs + cs - 1"
    using assms by (rule int_le_div_iff)
  also have "\<dots> \<longleftrightarrow> k * cs < vs" by (auto simp: algebra_simps)
  finally show ?thesis .
qed

lemma grid_cells_nonneg: "grid_ok cs vs \<Longrightarrow> 0 \<le> grid_cells cs vs"
  by (simp add: grid_ok_def grid_cells_def pos_imp_zdiv_nonneg_iff)

text \<open>The cell of a byte position, and the bytes of the image one range covers.\<close>

definition cell_of :: "int \<Rightarrow> int \<Rightarrow> int" where
  "cell_of chunkSize p = p div chunkSize"

definition covered_bytes :: "int \<Rightarrow> int \<times> int \<Rightarrow> int set" where
  "covered_bytes virtualSize r = {p. 0 \<le> p \<and> p < virtualSize \<and> fst r \<le> p \<and> p < fst r + snd r}"

lemma cell_interval:
  assumes "0 < (cs :: int)" "0 \<le> a" "a < b" "0 \<le> k"
  shows "a div cs \<le> k \<and> k \<le> (b - 1) div cs \<longleftrightarrow> (\<exists>p. a \<le> p \<and> p < b \<and> p div cs = k)"
proof
  assume "a div cs \<le> k \<and> k \<le> (b - 1) div cs"
  then have lo: "a < (k + 1) * cs" and hi: "k * cs < b"
    using assms int_div_less_iff [of cs a "k + 1"] int_le_div_iff [of cs k "b - 1"] by auto
  define p where "p = max a (k * cs)"
  have "a \<le> p" "p < b" using assms hi by (auto simp: p_def)
  moreover have "p div cs = k"
  proof (rule order.antisym)
    have "p < (k + 1) * cs" using lo assms by (auto simp: p_def algebra_simps)
    then show "p div cs \<le> k" using assms int_div_less_iff [of cs p "k + 1"] by simp
    have "k * cs \<le> p" by (simp add: p_def)
    then show "k \<le> p div cs" using assms int_le_div_iff [of cs k p] by simp
  qed
  ultimately show "\<exists>p. a \<le> p \<and> p < b \<and> p div cs = k" by blast
next
  assume "\<exists>p. a \<le> p \<and> p < b \<and> p div cs = k"
  then obtain p where p: "a \<le> p" "p \<le> b - 1" "p div cs = k" by fastforce
  show "a div cs \<le> k \<and> k \<le> (b - 1) div cs"
    using p(3) zdiv_mono1 [OF p(1) assms(1)] zdiv_mono1 [OF p(2) assms(1)] by simp
qed

section \<open>The selector\<close>

definition selector_inv :: "ChunkSelector \<Rightarrow> bool" where
  "selector_inv s \<longleftrightarrow>
     grid_ok (cs_chunkSize s) (cs_virtualSize s) \<and>
     cs_gridChunks s = grid_cells (cs_chunkSize s) (cs_virtualSize s) \<and>
     length (cs_marked s) = nat (cs_gridChunks s) \<and>
     cs_count s = int (length (filter id (cs_marked s)))"

lemma NewChunkSelector_eq:
  assumes "grid_ok cs vs"
  shows "NewChunkSelector cs vs =
    Some \<lparr>cs_chunkSize = cs, cs_virtualSize = vs, cs_gridChunks = grid_cells cs vs,
          cs_marked = replicate (nat (grid_cells cs vs)) False, cs_count = 0\<rparr>"
proof -
  have "vs = 0 \<Longrightarrow> grid_cells cs vs = 0"
    using assms by (simp add: grid_ok_def grid_cells_def)
  moreover have "go_div (wrap64 (wrap64 (vs + cs) - 1)) cs = grid_cells cs vs"
    using assms by (simp add: grid_ok_def grid_cells_def go_arith)
  ultimately show ?thesis
    using assms grid_cells_nonneg [OF assms]
    by (auto simp: NewChunkSelector_def grid_ok_def Let_def)
qed

lemma NewChunkSelector_inv:
  "grid_ok cs vs \<Longrightarrow> NewChunkSelector cs vs = Some s \<Longrightarrow> selector_inv s"
  by (auto simp: NewChunkSelector_eq selector_inv_def)

lemma filter_id_update:
  "i < length bs \<Longrightarrow> \<not> bs ! i \<Longrightarrow> length (filter id (bs[i := True])) = Suc (length (filter id bs))"
  by (induction bs arbitrary: i) (auto simp: nth_Cons split: nat.splits)

lemma mark_step_inv:
  assumes "selector_inv s" "0 \<le> i" "i < cs_gridChunks s" "\<not> cs_marked s ! nat i"
  shows "selector_inv (s\<lparr>cs_marked := (cs_marked s)[nat i := True], cs_count := cs_count s + 1\<rparr>)"
proof -
  have "nat i < length (cs_marked s)" using assms by (simp add: selector_inv_def)
  from filter_id_update [OF this assms(4)] show ?thesis
    using assms(1) by (simp add: selector_inv_def)
qed

lemma mark_cells_correct:
  assumes "selector_inv s" "0 \<le> i"
  shows "selector_inv (mark_cells i lst s) \<and>
         cs_chunkSize (mark_cells i lst s) = cs_chunkSize s \<and>
         cs_virtualSize (mark_cells i lst s) = cs_virtualSize s \<and>
         cs_gridChunks (mark_cells i lst s) = cs_gridChunks s \<and>
         (\<forall>k < length (cs_marked s).
            cs_marked (mark_cells i lst s) ! k \<longleftrightarrow> cs_marked s ! k \<or> i \<le> int k \<and> int k \<le> lst)"
  using assms
proof (induction i lst s rule: mark_cells.induct)
  case (1 i lst s)
  show ?case
  proof (cases "i \<le> lst \<and> i < cs_gridChunks s")
    case False
    with "1.prems" show ?thesis
      by (auto simp: mark_cells.simps [of i lst s] selector_inv_def)
  next
    case True
    define t where "t = (if \<not> cs_marked s ! nat i
      then s\<lparr>cs_marked := (cs_marked s)[nat i := True], cs_count := cs_count s + 1\<rparr> else s)"
    have inv: "selector_inv t"
      using "1.prems" True mark_step_inv by (simp add: t_def)
    have frame: "cs_chunkSize t = cs_chunkSize s" "cs_virtualSize t = cs_virtualSize s"
      "cs_gridChunks t = cs_gridChunks s" "length (cs_marked t) = length (cs_marked s)"
      by (simp_all add: t_def)
    have marked: "cs_marked t ! k \<longleftrightarrow> cs_marked s ! k \<or> int k = i"
      if "k < length (cs_marked s)" for k
      using that "1.prems"(2) by (cases "k = nat i") (auto simp: t_def)
    have step: "mark_cells i lst s = mark_cells (i + 1) lst t"
      using True by (simp add: mark_cells.simps [of i lst s] t_def)
    have IH: "selector_inv (mark_cells (i + 1) lst t) \<and>
         cs_chunkSize (mark_cells (i + 1) lst t) = cs_chunkSize t \<and>
         cs_virtualSize (mark_cells (i + 1) lst t) = cs_virtualSize t \<and>
         cs_gridChunks (mark_cells (i + 1) lst t) = cs_gridChunks t \<and>
         (\<forall>k < length (cs_marked t).
            cs_marked (mark_cells (i + 1) lst t) ! k
              \<longleftrightarrow> cs_marked t ! k \<or> i + 1 \<le> int k \<and> int k \<le> lst)"
      using "1.IH" True inv "1.prems"(2) unfolding t_def by simp
    show ?thesis
      using IH True by (auto simp: step frame marked)
  qed
qed

lemma Add_in_range:
  assumes "in64 (start + len)"
  shows "Add s start len =
    (if len \<le> 0 \<or> cs_gridChunks s = 0 \<or> max 0 start \<ge> min (cs_virtualSize s) (start + len) then s
     else mark_cells (go_div (max 0 start) (cs_chunkSize s))
            (go_div (wrap64 (min (cs_virtualSize s) (start + len) - 1)) (cs_chunkSize s)) s)"
proof -
  have "(if start < 0 then 0 else start) = max 0 start" by simp
  moreover have "(if start + len > cs_virtualSize s then cs_virtualSize s else start + len)
      = min (cs_virtualSize s) (start + len)" by simp
  ultimately show ?thesis unfolding Add_def Let_def wrap64_id [OF assms] by simp
qed

lemma Add_correct:
  assumes inv: "selector_inv s" and rng: "in64 (start + len)"
  shows "selector_inv (Add s start len) \<and>
         cs_chunkSize (Add s start len) = cs_chunkSize s \<and>
         cs_virtualSize (Add s start len) = cs_virtualSize s \<and>
         (\<forall>k < length (cs_marked s).
            cs_marked (Add s start len) ! k \<longleftrightarrow>
              cs_marked s ! k \<or> int k \<in> cell_of (cs_chunkSize s) ` covered_bytes (cs_virtualSize s) (start, len))"
    (is "?A \<and> ?B \<and> ?C \<and> ?D")
proof -
  define cs vs where "cs = cs_chunkSize s" and "vs = cs_virtualSize s"
  have ok: "0 < cs" "0 \<le> vs" "vs < 9223372036854775808"
    using inv by (auto simp: selector_inv_def grid_ok_def cs_def vs_def)
  define a b where "a = max 0 start" and "b = min vs (start + len)"
  have bytes: "covered_bytes vs (start, len) = {p. a \<le> p \<and> p < b}"
    using ok by (auto simp: covered_bytes_def a_def b_def)
  show ?thesis
  proof (cases "len \<le> 0 \<or> cs_gridChunks s = 0 \<or> a \<ge> b")
    case True
    have "Add s start len = s"
      using True unfolding Add_in_range [OF rng] a_def b_def vs_def by (simp only: if_True)
    moreover have "length (cs_marked s) = 0 \<or> covered_bytes vs (start, len) = {}"
    proof -
      have "len \<le> 0 \<Longrightarrow> covered_bytes vs (start, len) = {}" by (auto simp: covered_bytes_def)
      moreover have "a \<ge> b \<Longrightarrow> covered_bytes vs (start, len) = {}" by (auto simp: bytes)
      moreover have "cs_gridChunks s = 0 \<Longrightarrow> length (cs_marked s) = 0"
        using inv unfolding selector_inv_def by (metis nat_0)
      ultimately show ?thesis using True by blast
    qed
    ultimately show ?thesis using inv by (elim disjE) (simp_all add: cs_def vs_def)
  next
    case False
    have b64: "0 \<le> b - 1" "b - 1 < 9223372036854775808" and a0: "0 \<le> a"
      using False ok by (auto simp: a_def b_def split: if_splits)
    have w: "wrap64 (b - 1) = b - 1" "go_div a cs = a div cs" "go_div (b - 1) cs = (b - 1) div cs"
      using b64 a0 ok by (simp_all add: go_arith)
    have "Add s start len = mark_cells (go_div a cs) (go_div (wrap64 (b - 1)) cs) s"
      using False unfolding Add_in_range [OF rng] a_def b_def vs_def cs_def by (simp only: if_False)
    then have eq: "Add s start len = mark_cells (a div cs) ((b - 1) div cs) s"
      by (simp only: w)
    have "0 \<le> a div cs" using a0 ok by (simp add: pos_imp_zdiv_nonneg_iff)
    note mc = mark_cells_correct [OF inv this, of "(b - 1) div cs"]
    have "a div cs \<le> int k \<and> int k \<le> (b - 1) div cs \<longleftrightarrow>
            int k \<in> cell_of cs ` covered_bytes vs (start, len)" for k
      using cell_interval [of cs a b "int k"] ok a0 False
      by (force simp: bytes cell_of_def image_iff)
    with mc show ?thesis by (simp add: eq cs_def vs_def)
  qed
qed

fun add_ranges :: "ChunkSelector \<Rightarrow> (int \<times> int) list \<Rightarrow> ChunkSelector" where
  "add_ranges s [] = s"
| "add_ranges s (r # rs) = add_ranges (Add s (fst r) (snd r)) rs"

lemma add_ranges_correct:
  assumes "selector_inv s" "\<forall>r \<in> set rs. in64 (fst r + snd r)"
  shows "selector_inv (add_ranges s rs) \<and>
         cs_chunkSize (add_ranges s rs) = cs_chunkSize s \<and>
         cs_virtualSize (add_ranges s rs) = cs_virtualSize s \<and>
         (\<forall>k < length (cs_marked s).
            cs_marked (add_ranges s rs) ! k \<longleftrightarrow>
              cs_marked s ! k \<or>
              (\<exists>r \<in> set rs. int k \<in> cell_of (cs_chunkSize s) ` covered_bytes (cs_virtualSize s) r))"
  using assms
proof (induction rs arbitrary: s)
  case Nil
  then show ?case by simp
next
  case (Cons r rs)
  note add = Add_correct [OF Cons.prems(1), of "fst r" "snd r"]
  have r: "in64 (fst r + snd r)" using Cons.prems by simp
  have len: "length (cs_marked (Add s (fst r) (snd r))) = length (cs_marked s)"
    using add [OF r] Cons.prems(1) by (simp add: selector_inv_def)
  have IH: "\<forall>r' \<in> set rs. in64 (fst r' + snd r')" using Cons.prems by simp
  show ?case
    using Cons.IH [OF conjunct1 [OF add [OF r]] IH] add [OF r] len by auto
qed

lemma Indices_iff:
  "k \<in> set (Indices s) \<longleftrightarrow> 0 \<le> k \<and> nat k < length (cs_marked s) \<and> cs_marked s ! nat k"
  by (auto simp: Indices_def image_iff intro!: bexI [of _ "nat k"])

lemma Indices_sorted: "sorted_wrt (<) (Indices s)"
  by (simp add: Indices_def sorted_wrt_map sorted_wrt_filter)

lemma Indices_length: "selector_inv s \<Longrightarrow> int (length (Indices s)) = Count s"
proof -
  assume "selector_inv s"
  then have "cs_count s = int (length (filter id (cs_marked s)))" by (simp add: selector_inv_def)
  moreover have "length (filter (\<lambda>i. bs ! i) [0..<length bs]) = length (filter id bs)" for bs
  proof -
    have "length (filter id bs) = length (filter id (map ((!) bs) [0..<length bs]))"
      by (simp only: map_nth)
    then show ?thesis by (simp add: filter_map comp_def)
  qed
  ultimately show ?thesis by (simp add: Indices_def Count_def)
qed

text \<open>The selected cells are exactly the cells that hold a byte of some added range.\<close>

lemma selected_cells:
  assumes ok: "grid_ok cs vs" and new: "NewChunkSelector cs vs = Some s"
    and rng: "\<forall>r \<in> set rs. in64 (fst r + snd r)"
  shows "set (Indices (add_ranges s rs)) = (\<Union>r \<in> set rs. cell_of cs ` covered_bytes vs r)"
proof (rule set_eqI)
  fix k
  have inv: "selector_inv s" by (rule NewChunkSelector_inv [OF ok new])
  have s: "cs_chunkSize s = cs" "cs_virtualSize s = vs"
    "cs_marked s = replicate (nat (grid_cells cs vs)) False"
    using new by (auto simp: NewChunkSelector_eq [OF ok])
  note ar = add_ranges_correct [OF inv rng, unfolded s]
  have len: "length (cs_marked (add_ranges s rs)) = nat (grid_cells cs vs)"
    using ar by (simp add: selector_inv_def)
  have range: "0 \<le> k \<and> k < grid_cells cs vs" if cell: "k \<in> cell_of cs ` covered_bytes vs r" for r
  proof -
    obtain p where p: "0 \<le> p" "p < vs" "k = p div cs"
      using cell by (auto simp: covered_bytes_def cell_of_def)
    have "0 < cs" using ok by (simp add: grid_ok_def)
    then have "k * cs \<le> p" using p by (simp add: minus_mod_eq_div_mult [symmetric])
    with p show ?thesis
      using \<open>0 < cs\<close> by (simp add: grid_cells_iff pos_imp_zdiv_nonneg_iff)
  qed
  show "k \<in> set (Indices (add_ranges s rs)) \<longleftrightarrow> k \<in> (\<Union>r \<in> set rs. cell_of cs ` covered_bytes vs r)"
  proof (cases "0 \<le> k \<and> k < grid_cells cs vs")
    case True
    then have "nat k < nat (grid_cells cs vs)" by simp
    with True ar show ?thesis by (auto simp: Indices_iff len)
  next
    case False
    then show ?thesis using range by (auto simp: Indices_iff len)
  qed
qed

section \<open>Cell lengths and batches\<close>

definition index_ok :: "int \<Rightarrow> int \<Rightarrow> bool" where
  "index_ok chunkSize i \<longleftrightarrow> 0 \<le> i \<and> i * chunkSize < 9223372036854775808"

lemma index_offset: "grid_ok cs vs \<Longrightarrow> index_ok cs i \<Longrightarrow> wrap64 (i * cs) = i * cs"
  by (simp add: grid_ok_def index_ok_def go_arith)

lemma ChunkLength_eq:
  assumes "grid_ok cs vs" "index_ok cs i"
  shows "ChunkLength i cs vs = (if i * cs \<ge> vs then 0 else min cs (vs - i * cs))"
proof -
  have "0 \<le> i * cs" using assms by (simp add: grid_ok_def index_ok_def)
  then have "i * cs < vs \<Longrightarrow> wrap64 (vs - i * cs) = vs - i * cs"
    using assms by (intro wrap64_small) (auto simp: grid_ok_def)
  then show ?thesis
    using assms by (auto simp: ChunkLength_def Let_def index_offset [OF assms])
qed

lemma ChunkLength_bounds:
  assumes "grid_ok cs vs" "index_ok cs i"
  shows "0 \<le> ChunkLength i cs vs" "ChunkLength i cs vs \<le> cs"
    "0 < ChunkLength i cs vs \<longleftrightarrow> i * cs < vs"
    "0 < ChunkLength i cs vs \<Longrightarrow> i * cs + ChunkLength i cs vs \<le> vs"
  using assms by (auto simp: ChunkLength_eq [OF assms] grid_ok_def)

text \<open>
  A batch is well formed when it is one contiguous read: the recorded starts and lengths are those
  of its cells, cell \<open>j\<close> starts where the cells before it end, the whole lies inside the image,
  and only a single cell may exceed the batch limit.
\<close>

definition group_wf :: "int \<Rightarrow> int \<Rightarrow> int \<Rightarrow> ChunkGroup \<Rightarrow> bool" where
  "group_wf cs vs maxBatch g \<longleftrightarrow>
     g_Indices g \<noteq> [] \<and>
     g_Starts g = map (\<lambda>i. i * cs) (g_Indices g) \<and>
     g_Lengths g = map (\<lambda>i. ChunkLength i cs vs) (g_Indices g) \<and>
     (\<forall>i \<in> set (g_Indices g). index_ok cs i \<and> 0 < ChunkLength i cs vs) \<and>
     (\<forall>j < length (g_Indices g). g_Starts g ! j = g_Offset g + sum_list (take j (g_Lengths g))) \<and>
     0 \<le> g_Offset g \<and> g_Length g = sum_list (g_Lengths g) \<and> 0 < g_Length g \<and>
     g_Offset g + g_Length g \<le> vs \<and>
     (g_Length g \<le> maxBatch \<or> length (g_Indices g) = 1)"

lemma group_wf_single:
  assumes "grid_ok cs vs" "index_ok cs i" "0 < ChunkLength i cs vs"
  shows "group_wf cs vs mb
    (append_chunk (empty_group (wrap64 (i * cs))) i (wrap64 (i * cs)) (ChunkLength i cs vs))"
proof -
  have "wrap64 (ChunkLength i cs vs) = ChunkLength i cs vs"
    using ChunkLength_bounds [OF assms(1,2)] assms by (auto simp: grid_ok_def intro!: wrap64_small)
  moreover have "0 \<le> i * cs" using assms by (simp add: grid_ok_def index_ok_def)
  ultimately show ?thesis
    using assms ChunkLength_bounds [OF assms(1,2)]
    by (simp add: group_wf_def append_chunk_def empty_group_def index_offset [OF assms(1,2)])
qed

lemma group_wf_append:
  assumes ok: "grid_ok cs vs" and i: "index_ok cs i" "0 < ChunkLength i cs vs"
    and wf: "group_wf cs vs mb g"
    and cont: "contiguous mb g (wrap64 (i * cs)) (ChunkLength i cs vs)"
  shows "group_wf cs vs mb (append_chunk g i (wrap64 (i * cs)) (ChunkLength i cs vs))"
proof -
  note len = ChunkLength_bounds [OF ok i(1)]
  have g: "0 \<le> g_Offset g" "0 < g_Length g" "g_Offset g + g_Length g \<le> vs"
    using wf by (auto simp: group_wf_def)
  have vs: "vs + cs < 9223372036854775808" "0 < cs" using ok by (auto simp: grid_ok_def)
  have w1: "wrap64 (g_Length g + ChunkLength i cs vs) = g_Length g + ChunkLength i cs vs"
    using g len i vs by (intro wrap64_small) auto
  have w2: "wrap64 (g_Offset g + g_Length g) = g_Offset g + g_Length g"
    using g vs by (intro wrap64_small) auto
  have start: "g_Offset g + g_Length g = i * cs"
    using cont by (simp add: contiguous_def w2 index_offset [OF ok i(1)])
  have limit: "g_Length g + ChunkLength i cs vs \<le> mb"
    using cont by (simp add: contiguous_def w1)
  have app: "append_chunk g i (wrap64 (i * cs)) (ChunkLength i cs vs) =
    g\<lparr>g_Indices := g_Indices g @ [i], g_Starts := g_Starts g @ [i * cs],
      g_Lengths := g_Lengths g @ [ChunkLength i cs vs], g_Length := g_Length g + ChunkLength i cs vs\<rparr>"
    by (simp only: append_chunk_def w1 index_offset [OF ok i(1)])
  have nth: "(g_Starts g @ [i * cs]) ! j =
      g_Offset g + sum_list (take j (g_Lengths g @ [ChunkLength i cs vs]))"
    if j: "j < Suc (length (g_Indices g))" for j
  proof (cases "j < length (g_Indices g)")
    case True
    moreover have "g_Starts g ! j = g_Offset g + sum_list (take j (g_Lengths g))"
      "length (g_Starts g) = length (g_Indices g)" "length (g_Lengths g) = length (g_Indices g)"
      using wf True unfolding group_wf_def by auto
    ultimately show ?thesis by (simp add: nth_append)
  next
    case False
    then have "j = length (g_Indices g)" using j by simp
    then show ?thesis using wf start by (auto simp: group_wf_def nth_append)
  qed
  show ?thesis
    unfolding app group_wf_def using wf i g len(4) start limit nth by (auto simp: group_wf_def)
qed

definition cur_wf :: "int \<Rightarrow> int \<Rightarrow> int \<Rightarrow> ChunkGroup option \<Rightarrow> bool" where
  "cur_wf cs vs mb cur \<longleftrightarrow> (case cur of None \<Rightarrow> True | Some g \<Rightarrow> group_wf cs vs mb g)"

definition cur_indices :: "ChunkGroup option \<Rightarrow> int list" where
  "cur_indices cur = (case cur of None \<Rightarrow> [] | Some g \<Rightarrow> g_Indices g)"

lemma append_chunk_Indices [simp]:
  "g_Indices (append_chunk g i off len) = g_Indices g @ [i]"
  "g_Indices (empty_group off) = []"
  by (simp_all add: append_chunk_def empty_group_def)

lemma group_loop_correct:
  assumes ok: "grid_ok cs vs" and "\<forall>i \<in> set is. index_ok cs i"
    and "\<forall>g \<in> set groups. group_wf cs vs mb g" and "cur_wf cs vs mb cur"
  shows "(\<forall>g \<in> set (group_loop cs vs mb is cur groups). group_wf cs vs mb g) \<and>
         concat (map g_Indices (group_loop cs vs mb is cur groups)) =
           concat (map g_Indices groups) @ cur_indices cur @
             filter (\<lambda>i. 0 < ChunkLength i cs vs) is"
  using assms(2-)
proof (induction "is" arbitrary: cur groups)
  case Nil
  then show ?case by (auto simp: cur_wf_def cur_indices_def split: option.splits)
next
  case (Cons i "is")
  have i: "index_ok cs i" and rest: "\<forall>i \<in> set is. index_ok cs i" using Cons.prems by auto
  show ?case
  proof (cases "ChunkLength i cs vs \<le> 0")
    case True
    then show ?thesis using Cons.IH [OF rest Cons.prems(2,3)] by (simp add: Let_def)
  next
    case False
    then have pos: "0 < ChunkLength i cs vs" by simp
    note single = group_wf_single [OF ok i pos, of mb]
    show ?thesis
    proof (cases cur)
      case None
      then show ?thesis
        using Cons.IH [OF rest Cons.prems(2), of
            "Some (append_chunk (empty_group (wrap64 (i * cs))) i (wrap64 (i * cs)) (ChunkLength i cs vs))"]
          single pos by (simp add: Let_def cur_wf_def cur_indices_def)
    next
      case (Some g)
      have wf: "group_wf cs vs mb g" using Cons.prems(3) Some by (simp add: cur_wf_def)
      show ?thesis
      proof (cases "contiguous mb g (wrap64 (i * cs)) (ChunkLength i cs vs)")
        case True
        then show ?thesis
          using Cons.IH [OF rest Cons.prems(2), of
              "Some (append_chunk g i (wrap64 (i * cs)) (ChunkLength i cs vs))"]
            group_wf_append [OF ok i pos wf True] pos Some
          by (simp add: Let_def cur_wf_def cur_indices_def)
      next
        case False
        have "\<forall>g \<in> set (groups @ [g]). group_wf cs vs mb g" using Cons.prems(2) wf by auto
        from Cons.IH [OF rest this, of
            "Some (append_chunk (empty_group (wrap64 (i * cs))) i (wrap64 (i * cs)) (ChunkLength i cs vs))"]
        show ?thesis using single pos Some False
          by (simp add: Let_def cur_wf_def cur_indices_def)
      qed
    qed
  qed
qed

definition batch_limit :: "int \<Rightarrow> int" where
  "batch_limit maxBatch = (if maxBatch \<le> 0 then 32 * 1024 * 1024 else maxBatch)"

lemma GroupChunks_correct:
  assumes "grid_ok cs vs" "\<forall>i \<in> set indices. index_ok cs i"
  shows "(\<forall>g \<in> set (GroupChunks indices cs vs mb). group_wf cs vs (batch_limit mb) g) \<and>
         concat (map g_Indices (GroupChunks indices cs vs mb)) =
           filter (\<lambda>i. 0 < ChunkLength i cs vs) (sort indices)"
  using group_loop_correct [OF assms(1), of "sort indices" "[]" "batch_limit mb" None] assms(2)
  by (simp add: GroupChunks_def batch_limit_def Let_def cur_wf_def cur_indices_def)

lemma group_slice_bounds:
  assumes wf: "group_wf cs vs mb g" and j: "j < length (g_Indices g)"
  shows "0 \<le> g_Starts g ! j - g_Offset g"
    "g_Starts g ! j - g_Offset g + g_Lengths g ! j \<le> g_Length g"
proof -
  have len: "length (g_Lengths g) = length (g_Indices g)" using wf by (simp add: group_wf_def)
  have pos: "\<forall>x \<in> set (g_Lengths g). 0 \<le> x" using wf by (fastforce simp: group_wf_def)
  have start: "g_Starts g ! j - g_Offset g = sum_list (take j (g_Lengths g))"
    using wf j by (metis add_diff_cancel_left' group_wf_def)
  have nonneg: "0 \<le> sum_list (take k (g_Lengths g))" "0 \<le> sum_list (drop k (g_Lengths g))" for k
    using pos by (auto intro!: sum_list_nonneg dest: in_set_takeD in_set_dropD)
  show "0 \<le> g_Starts g ! j - g_Offset g" using start nonneg by simp
  have "sum_list (g_Lengths g) = sum_list (take (Suc j) (g_Lengths g)) + sum_list (drop (Suc j) (g_Lengths g))"
    by (simp flip: sum_list_append)
  moreover have "sum_list (take (Suc j) (g_Lengths g)) = sum_list (take j (g_Lengths g)) + g_Lengths g ! j"
    using j len by (simp add: take_Suc_conv_app_nth)
  ultimately show "g_Starts g ! j - g_Offset g + g_Lengths g ! j \<le> g_Length g"
    using start nonneg [of "Suc j"] wf by (simp add: group_wf_def)
qed

section \<open>What selection and batching guarantee\<close>

text \<open>
  C15: the selector marks exactly the cells touched. After any sequence of extents the selected chunk
  numbers are, in increasing order and without repetition, the cells of the grid that hold a byte of
  some extent inside the image, and \<open>Count\<close> is their number.
\<close>

theorem grid_selects_touched_cells:
  assumes "grid_ok cs vs" and "NewChunkSelector cs vs = Some s"
    and "\<forall>r \<in> set rs. in64 (fst r + snd r)"
  shows "set (Indices (add_ranges s rs)) = (\<Union>r \<in> set rs. cell_of cs ` covered_bytes vs r) \<and>
         sorted_wrt (<) (Indices (add_ranges s rs)) \<and>
         Count (add_ranges s rs) = int (length (Indices (add_ranges s rs)))"
  using selected_cells [OF assms] Indices_sorted Indices_length
    add_ranges_correct [OF NewChunkSelector_inv [OF assms(1,2)] assms(3)] by metis

theorem grid_selects_touched_cells_witness:
  "Indices (add_ranges (the (NewChunkSelector 4 10)) [(3, 2), (-5, 3), (9, 100)]) = [0, 1, 2] \<and>
   Count (add_ranges (the (NewChunkSelector 4 10)) [(3, 2), (-5, 3), (9, 100)]) = 3"
proof -
  have ok: "grid_ok 4 10" by (simp add: grid_ok_def)
  have n: "NewChunkSelector 4 10 = Some (the (NewChunkSelector 4 10))" by (simp add: NewChunkSelector_eq [OF ok])
  have i: "Indices (add_ranges (the (NewChunkSelector 4 10)) [(3, 2), (-5, 3), (9, 100)]) = [0, 1, 2]"
    by code_simp
  show ?thesis
    using grid_selects_touched_cells [OF ok n, of "[(3, 2), (-5, 3), (9, 100)]"] i by (simp add: in64_def)
qed

text \<open>
  Batches partition the work. Grouping gives contiguous reads inside the image, none above the
  batch limit unless it is a single chunk; their chunks are exactly the requested chunks of the image
  in increasing order; and every chunk of a batch lies inside the buffer one read of the batch returns.
\<close>

lemma batches_partition:
  assumes "grid_ok cs vs" and "\<forall>i \<in> set indices. index_ok cs i"
  shows "concat (map g_Indices (GroupChunks indices cs vs mb)) = filter (\<lambda>i. i * cs < vs) (sort indices) \<and>
         (\<forall>g \<in> set (GroupChunks indices cs vs mb).
            0 \<le> g_Offset g \<and> g_Offset g + g_Length g \<le> vs \<and>
            (g_Length g \<le> batch_limit mb \<or> length (g_Indices g) = 1) \<and>
            (\<forall>j < length (g_Indices g).
               g_Starts g ! j = g_Indices g ! j * cs \<and>
               0 \<le> g_Starts g ! j - g_Offset g \<and>
               g_Starts g ! j - g_Offset g + g_Lengths g ! j \<le> g_Length g))"
proof -
  note gc = GroupChunks_correct [OF assms, of mb]
  have "filter (\<lambda>i. 0 < ChunkLength i cs vs) (sort indices) = filter (\<lambda>i. i * cs < vs) (sort indices)"
    using assms ChunkLength_bounds(3) by (intro filter_cong) auto
  moreover have "0 \<le> g_Offset g \<and> g_Offset g + g_Length g \<le> vs \<and>
            (g_Length g \<le> batch_limit mb \<or> length (g_Indices g) = 1)"
    if "g \<in> set (GroupChunks indices cs vs mb)" for g
    using gc that unfolding group_wf_def by blast
  moreover have "g_Starts g ! j = g_Indices g ! j * cs \<and> 0 \<le> g_Starts g ! j - g_Offset g \<and>
               g_Starts g ! j - g_Offset g + g_Lengths g ! j \<le> g_Length g"
    if g: "g \<in> set (GroupChunks indices cs vs mb)" and j: "j < length (g_Indices g)" for g j
  proof -
    have wf: "group_wf cs vs (batch_limit mb) g" using gc g by blast
    then have "g_Starts g = map (\<lambda>i. i * cs) (g_Indices g)" by (simp add: group_wf_def)
    then show ?thesis using group_slice_bounds [OF wf j] j by simp
  qed
  ultimately show ?thesis using gc by (simp only: simp_thms ball_simps) blast
qed

end
