(* ===== verification/Manifest.thy ===== *)
theory Manifest
  imports Model Grid
begin

text \<open>
  The storage format (\<open>internal/backup/format.go\<close>): the chunk map of one disk, the documents of a
  run, the checks a reader makes before it trusts a manifest, and the encoding of a manifest as
  compressed JSON. JSON and zstd are parameters of the encoder and decoder.

  The field \<open>Index\<close> of the Go structs is \<open>ch_Index\<close> for a chunk and \<open>dm_Index\<close> for a disk;
  the other fields carry the same prefixes.
\<close>

section \<open>Documents\<close>

definition FormatName :: string where "FormatName = ''jhvirt-disk''"
definition FormatVersion :: int where "FormatVersion = 1"

definition Compressions :: "string list" where
  "Compressions = [''zstd'', ''gzip'', ''s2'', ''none'']"

definition KnownCompression :: "string \<Rightarrow> bool" where
  "KnownCompression name = list_ex (\<lambda>c. c = name) Compressions"

record Chunk =
  ch_Index :: int
  ch_Length :: int
  ch_BlobOffset :: int
  ch_StoredLength :: int
  ch_Hash :: string

definition chunk_Offset :: "Chunk \<Rightarrow> int \<Rightarrow> int" where
  "chunk_Offset c chunkSize = wrap64 (ch_Index c * chunkSize)"

record DiskManifest =
  dm_Format :: string
  dm_Version :: int
  dm_RunID :: string
  dm_ChainID :: string
  dm_ParentRunID :: string
  dm_ChainIndex :: int
  dm_Type :: BackupType
  dm_ServerID :: string
  dm_VMID :: string
  dm_VMName :: string
  dm_DiskID :: string
  dm_Alias :: string
  dm_Index :: int
  dm_Bootable :: bool
  dm_Target :: string
  dm_Bus :: string
  dm_BootOrder :: int
  dm_VirtualSize :: int
  dm_DiskFormat :: string
  dm_ChunkSize :: int
  dm_Compression :: string
  dm_Encrypted :: bool
  dm_FromCheckpointID :: string
  dm_ToCheckpointID :: string
  dm_CreatedAt :: int
  dm_DataKey :: string
  dm_DataSHA256 :: string
  dm_LogicalBytes :: int
  dm_StoredBytes :: int
  dm_SourceChecksum :: string
  dm_SourceChecksumAlgo :: string
  dm_SourceBlockSize :: int
  dm_Chunks :: "Chunk list"

definition ChunkCount :: "DiskManifest \<Rightarrow> int" where
  "ChunkCount m = int (length (dm_Chunks m))"

definition manifest_GridChunks :: "DiskManifest \<Rightarrow> int" where
  "manifest_GridChunks m =
     (if dm_ChunkSize m \<le> 0 then 0
      else go_div (wrap64 (wrap64 (dm_VirtualSize m + dm_ChunkSize m) - 1)) (dm_ChunkSize m))"

datatype manifest_error =
    ForeignFormat string
  | NewerVersion int
  | BadChunkSize int
  | BadVirtualSize int
  | UnknownCompression string

definition manifest_Validate :: "DiskManifest \<Rightarrow> manifest_error + unit" where
  "manifest_Validate m =
     (if dm_Format m \<noteq> FormatName then Inl (ForeignFormat (dm_Format m))
      else if dm_Version m > FormatVersion then Inl (NewerVersion (dm_Version m))
      else if dm_ChunkSize m \<le> 0 then Inl (BadChunkSize (dm_ChunkSize m))
      else if dm_VirtualSize m < 0 then Inl (BadVirtualSize (dm_VirtualSize m))
      else if \<not> KnownCompression (dm_Compression m) then Inl (UnknownCompression (dm_Compression m))
      else Inr ())"

record VMProfileNIC =
  nic_ID :: string
  nic_Name :: string
  nic_Model :: string
  nic_MAC :: string
  nic_Network :: string
  nic_SourceProfile :: string
  nic_SourceKind :: string

record VMProfileDisk =
  vd_DiskID :: string
  vd_Target :: string
  vd_Bus :: string
  vd_BootOrder :: int

record VMProfile =
  vp_BIOSType :: string
  vp_OSType :: string
  vp_CPUCores :: int
  vp_CPUSockets :: int
  vp_CPUThreads :: int
  vp_Version :: int
  vp_Source :: string
  vp_Architecture :: string
  vp_Machine :: string
  vp_Firmware :: string
  vp_SecureBoot :: bool
  vp_ClockOffset :: string
  vp_MemoryMiB :: int
  vp_VCPUs :: int
  vp_Disks :: "VMProfileDisk list"
  vp_NICs :: "VMProfileNIC list"

record RunManifestDisk =
  rd_DiskID :: string
  rd_Alias :: string
  rd_Index :: int
  rd_VirtualSize :: int
  rd_Bootable :: bool
  rd_Target :: string
  rd_Bus :: string
  rd_BootOrder :: int
  rd_ManifestKey :: string
  rd_DataKey :: string
  rd_ChunkCount :: int
  rd_StoredBytes :: int
  rd_DataSHA256 :: string

record RunManifestArtifact =
  ra_ID :: string
  ra_DiskID :: string
  ra_DiskAlias :: string
  ra_Kind :: string
  ra_ManifestKey :: string
  ra_DataKey :: string
  ra_SizeBytes :: int
  ra_StoredBytes :: int
  ra_SHA256 :: string
  ra_StoredSHA256 :: string
  ra_Encrypted :: bool

record ProviderBackup =
  pb_Name :: string
  pb_GuestKind :: string
  pb_SourceNode :: string
  pb_ProvisionedBytes :: int
  pb_RootFSSize :: string
  pb_NativeArtifactKind :: string

record RunManifest =
  rm_Format :: string
  rm_Version :: int
  rm_RunID :: string
  rm_JobID :: string
  rm_JobName :: string
  rm_ChainID :: string
  rm_ParentRunID :: string
  rm_ChainIndex :: int
  rm_Type :: BackupType
  rm_ServerID :: string
  rm_ServerName :: string
  rm_VMID :: string
  rm_VMName :: string
  rm_EngineBackupID :: string
  rm_FromCheckpointID :: string
  rm_ToCheckpointID :: string
  rm_SnapshotID :: string
  rm_LegacyIncrementalMode :: string
  rm_CreatedAt :: int
  rm_EndedAt :: int
  rm_Compression :: string
  rm_Encrypted :: bool
  rm_Consistency :: string
  rm_ConsistencyNote :: string
  rm_LogicalBytes :: int
  rm_StoredBytes :: int
  rm_VMProfile :: "VMProfile option"
  rm_ConfigKey :: string
  rm_ConfigFormat :: string
  rm_Disks :: "RunManifestDisk list"
  rm_Artifacts :: "RunManifestArtifact list"
  rm_Provider :: "ProviderBackup option"

section \<open>Encoding\<close>

definition zstdMagic :: bytes where
  "zstdMagic = [0x28, 0xB5, 0x2F, 0xFD]"

datatype codec_step = MarshalFailed | CompressFailed | DecompressFailed | UnmarshalFailed

text \<open>\<open>marshal\<close>, \<open>unmarshal\<close>, \<open>zstd\<close> and \<open>unzstd\<close> are \<open>encoding/json\<close> and the zstd library;
  \<open>None\<close> is an error.\<close>

definition EncodeManifest ::
  "('v \<Rightarrow> bytes option) \<Rightarrow> (bytes \<Rightarrow> bytes option) \<Rightarrow> 'v \<Rightarrow> codec_step + bytes" where
  "EncodeManifest marshal zstd v =
     (case marshal v of
        None \<Rightarrow> Inl MarshalFailed
      | Some raw \<Rightarrow> (case zstd raw of None \<Rightarrow> Inl CompressFailed | Some packed \<Rightarrow> Inr packed))"

definition manifest_limit :: nat where
  "manifest_limit = 2147483648"

definition DecodeManifest ::
  "(bytes \<Rightarrow> 'v option) \<Rightarrow> (bytes \<Rightarrow> bytes option) \<Rightarrow> bytes \<Rightarrow> codec_step + 'v" where
  "DecodeManifest unmarshal unzstd stored =
     (let raw = take manifest_limit stored in
      bindR
        (if length raw \<ge> 4 \<and> take 4 raw = zstdMagic
         then (case unzstd raw of None \<Rightarrow> Inl DecompressFailed | Some plain \<Rightarrow> Inr plain)
         else Inr raw)
        (\<lambda>doc. case unmarshal doc of None \<Rightarrow> Inl UnmarshalFailed | Some v \<Rightarrow> Inr v))"

section \<open>What a valid manifest guarantees\<close>

lemma KnownCompression_iff: "KnownCompression name \<longleftrightarrow> name \<in> set Compressions"
  by (auto simp: KnownCompression_def list_ex_iff)

lemma manifest_Validate_ok:
  "manifest_Validate m = Inr () \<longleftrightarrow>
     dm_Format m = FormatName \<and> dm_Version m \<le> FormatVersion \<and> 0 < dm_ChunkSize m \<and>
     0 \<le> dm_VirtualSize m \<and> dm_Compression m \<in> set Compressions"
  by (auto simp: manifest_Validate_def KnownCompression_iff)

lemma manifest_GridChunks_eq:
  assumes "grid_ok (dm_ChunkSize m) (dm_VirtualSize m)"
  shows "manifest_GridChunks m = grid_cells (dm_ChunkSize m) (dm_VirtualSize m)"
proof -
  have "0 < dm_ChunkSize m" "0 \<le> dm_VirtualSize m"
    "dm_VirtualSize m + dm_ChunkSize m < 9223372036854775808"
    using assms by (auto simp: grid_ok_def)
  then show ?thesis by (simp add: manifest_GridChunks_def grid_cells_def go_arith)
qed

text \<open>
  Reading back what was written. A manifest encoded with JSON and zstd is decoded to the same
  document, provided the two libraries round-trip it, the frame carries the zstd magic and the
  object is below the two-gibibyte limit of the reader; an uncompressed document whose text does not
  start like a zstd frame decodes as well.
\<close>

lemma manifest_roundtrip:
  assumes "marshal v = Some raw" and "unmarshal raw = Some v"
    and "zstd raw = Some packed" and "unzstd packed = Some raw"
    and "take 4 packed = zstdMagic" and "length packed \<le> manifest_limit" and "length raw \<le> manifest_limit"
  shows "bindR (EncodeManifest marshal zstd v) (DecodeManifest unmarshal unzstd) = Inr v \<and>
         (take 4 raw \<noteq> zstdMagic \<longrightarrow> DecodeManifest unmarshal unzstd raw = Inr v)"
proof -
  have "length packed \<ge> 4"
    using arg_cong [OF assms(5), of length] by (simp add: zstdMagic_def)
  then show ?thesis
    using assms by (auto simp: EncodeManifest_def DecodeManifest_def Let_def)
qed

end
