(* ===== verification/Codec.thy ===== *)
theory Codec
  imports Manifest
begin

text \<open>
  Encryption of secrets and chunks (\<open>internal/secret/cipher.go\<close>) and the chunk codec
  (\<open>internal/backup/codec.go\<close>): choice of the algorithm, compression that is dropped when it does
  not pay, encryption, and the reverse path with its length check. The compression libraries, the
  AES-GCM primitive, base64 and SHA-256 are the fields of two records that every operation takes.
\<close>

section \<open>Authenticated encryption\<close>

text \<open>
  \<open>ae_seal nonce plain\<close> and \<open>ae_open nonce sealed\<close> are the two directions of the AEAD; a failed
  authentication is \<open>None\<close>. GCM's standard nonce has twelve bytes. A random nonce is an argument
  (\<open>None\<close>: the random source failed).
\<close>

record Cipher =
  ae_seal :: "bytes \<Rightarrow> bytes \<Rightarrow> bytes"
  ae_open :: "bytes \<Rightarrow> bytes \<Rightarrow> bytes option"

definition NonceSize :: nat where "NonceSize = 12"

datatype cipher_error = RandomFailed | TooShort | AuthFailed | NotBase64

definition cipher_New :: "(bytes \<Rightarrow> Cipher) \<Rightarrow> bytes \<Rightarrow> int + Cipher" where
  "cipher_New gcm key = (if length key \<noteq> 32 then Inl (int (length key)) else Inr (gcm key))"

definition EncryptBytes :: "Cipher \<Rightarrow> bytes option \<Rightarrow> bytes \<Rightarrow> cipher_error + bytes" where
  "EncryptBytes c nonce plain =
     (case nonce of None \<Rightarrow> Inl RandomFailed | Some n \<Rightarrow> Inr (n @ ae_seal c n plain))"

definition DecryptBytes :: "Cipher \<Rightarrow> bytes \<Rightarrow> cipher_error + bytes" where
  "DecryptBytes c sealed =
     (if length sealed < NonceSize then Inl TooShort
      else case ae_open c (take NonceSize sealed) (drop NonceSize sealed) of
             None \<Rightarrow> Inl AuthFailed
           | Some plain \<Rightarrow> Inr plain)"

definition Encrypt :: "(bytes \<Rightarrow> bytes) \<Rightarrow> Cipher \<Rightarrow> bytes option \<Rightarrow> bytes \<Rightarrow> cipher_error + bytes" where
  "Encrypt to64 c nonce plain =
     (if plain = [] then Inr []
      else case nonce of None \<Rightarrow> Inl RandomFailed
           | Some n \<Rightarrow> Inr (to64 (n @ ae_seal c n plain)))"

definition Decrypt :: "(bytes \<Rightarrow> bytes option) \<Rightarrow> Cipher \<Rightarrow> bytes \<Rightarrow> cipher_error + bytes" where
  "Decrypt from64 c enc =
     (if enc = [] then Inr []
      else case from64 enc of
             None \<Rightarrow> Inl NotBase64
           | Some raw \<Rightarrow>
               if length raw < NonceSize then Inl TooShort
               else case ae_open c (take NonceSize raw) (drop NonceSize raw) of
                      None \<Rightarrow> Inl AuthFailed
                    | Some plain \<Rightarrow> Inr plain)"

section \<open>Compression algorithms\<close>

datatype zstd_level = SpeedFastest | SpeedDefault | SpeedBetterCompression | SpeedBestCompression
datatype s2_level = S2Encode | S2EncodeBetter | S2EncodeBest

text \<open>
  The libraries. \<open>gunzip data n\<close> is the outcome of opening a gzip reader on \<open>data\<close> and reading at
  most \<open>n\<close> bytes from it; \<open>sha256\<close> is the digest with its hex form.
\<close>

record complib =
  lib_zstd :: "zstd_level \<Rightarrow> bytes \<Rightarrow> bytes"
  lib_unzstd :: "bytes \<Rightarrow> bytes option"
  lib_gzip :: "int \<Rightarrow> bytes \<Rightarrow> bytes option"
  lib_gunzip :: "bytes \<Rightarrow> nat \<Rightarrow> bytes option"
  lib_s2 :: "s2_level \<Rightarrow> bytes \<Rightarrow> bytes"
  lib_uns2 :: "bytes \<Rightarrow> bytes option"
  lib_sha256 :: "bytes \<Rightarrow> string"

datatype compressor = ZstdCompressor zstd_level | GzipCompressor int | S2Compressor int

definition newZstdCompressor :: "int \<Rightarrow> compressor" where
  "newZstdCompressor level = ZstdCompressor
     (if level \<le> 1 then SpeedFastest
      else if level \<ge> 9 then SpeedBestCompression
      else if level \<ge> 6 then SpeedBetterCompression
      else SpeedDefault)"

definition newGzipCompressor :: "int \<Rightarrow> compressor" where
  "newGzipCompressor level = GzipCompressor (if level \<le> 0 then -1 else if level > 9 then 9 else level)"

definition newS2Compressor :: "int \<Rightarrow> compressor" where
  "newS2Compressor level = S2Compressor level"

definition s2_level_of :: "int \<Rightarrow> s2_level" where
  "s2_level_of level =
     (if level \<ge> 9 then S2EncodeBest else if level \<ge> 6 then S2EncodeBetter else S2Encode)"

fun compress :: "complib \<Rightarrow> compressor \<Rightarrow> bytes \<Rightarrow> bytes option" where
  "compress lib (ZstdCompressor l) plain = Some (lib_zstd lib l plain)"
| "compress lib (GzipCompressor level) plain = lib_gzip lib level plain"
| "compress lib (S2Compressor level) plain = Some (lib_s2 lib (s2_level_of level) plain)"

text \<open>The length a caller asks for is a capacity hint for zstd and s2 and a limit for gzip; it is
  not negative here (see \<open>decode\<close>).\<close>

fun decompress :: "complib \<Rightarrow> compressor \<Rightarrow> bytes \<Rightarrow> nat \<Rightarrow> bytes option" where
  "decompress lib (ZstdCompressor l) stored wantLen = lib_unzstd lib stored"
| "decompress lib (GzipCompressor level) stored wantLen = lib_gunzip lib stored (wantLen + 1)"
| "decompress lib (S2Compressor level) stored wantLen = lib_uns2 lib stored"

section \<open>The codec\<close>

record codec =
  cd_compression :: string
  cd_algo :: "compressor option"
  cd_cipher :: "Cipher option"

datatype codec_error =
    LevelOutOfRange int
  | UnknownAlgorithm string
  | CompressError string
  | EncryptError cipher_error
  | DecryptError cipher_error
  | DecompressError string
  | LengthMismatch int int
  | NegativeCapacity int
  | DigestMismatch string string

definition newCodec :: "string \<Rightarrow> int \<Rightarrow> Cipher option \<Rightarrow> codec_error + codec" where
  "newCodec compression level cipher =
     (let c = \<lparr>cd_compression = compression, cd_algo = None, cd_cipher = cipher\<rparr>
      in if compression \<noteq> '''' \<and> compression \<noteq> ''none'' \<and> (level < 1 \<or> level > 9)
         then Inl (LevelOutOfRange level)
         else if compression = '''' \<or> compression = ''none'' then Inr c
         else if compression = ''zstd'' then Inr (c\<lparr>cd_algo := Some (newZstdCompressor level)\<rparr>)
         else if compression = ''gzip'' then Inr (c\<lparr>cd_algo := Some (newGzipCompressor level)\<rparr>)
         else if compression = ''s2'' then Inr (c\<lparr>cd_algo := Some (newS2Compressor level)\<rparr>)
         else Inl (UnknownAlgorithm compression))"

definition encode :: "complib \<Rightarrow> codec \<Rightarrow> bytes option \<Rightarrow> bytes \<Rightarrow> codec_error + bytes \<times> string" where
  "encode lib c nonce plain =
     bindR
       (case cd_algo c of
          None \<Rightarrow> Inr plain
        | Some algo \<Rightarrow>
            (case compress lib algo plain of
               None \<Rightarrow> Inl (CompressError (cd_compression c))
             | Some compressed \<Rightarrow> Inr (if length compressed < length plain then compressed else plain)))
       (\<lambda>out. bindR
         (case cd_cipher c of
            None \<Rightarrow> Inr out
          | Some ci \<Rightarrow> (case EncryptBytes ci nonce out of
               Inl e \<Rightarrow> Inl (EncryptError e) | Inr sealed \<Rightarrow> Inr sealed))
         (\<lambda>out. Inr (out, lib_sha256 lib plain)))"

text \<open>All three decompressors first allocate a buffer of capacity \<open>wantLen\<close>, which panics for a
  negative length (gzip opens the stream before that): \<open>NegativeCapacity\<close>.\<close>

definition decode :: "complib \<Rightarrow> codec \<Rightarrow> bytes \<Rightarrow> int \<Rightarrow> codec_error + bytes" where
  "decode lib c stored wantLen =
     bindR
       (case cd_cipher c of
          None \<Rightarrow> Inr stored
        | Some ci \<Rightarrow> (case DecryptBytes ci stored of
             Inl e \<Rightarrow> Inl (DecryptError e) | Inr plain \<Rightarrow> Inr plain))
       (\<lambda>buf. bindR
         (case cd_algo c of
            None \<Rightarrow> Inr buf
          | Some algo \<Rightarrow>
              if int (length buf) \<noteq> wantLen then
                (if wantLen < 0 then Inl (NegativeCapacity wantLen)
                 else case decompress lib algo buf (nat wantLen) of
                   None \<Rightarrow> Inl (DecompressError (cd_compression c)) | Some plain \<Rightarrow> Inr plain)
              else Inr buf)
         (\<lambda>buf. if int (length buf) \<noteq> wantLen then Inl (LengthMismatch (int (length buf)) wantLen)
                else Inr buf))"

definition verifyDigest :: "complib \<Rightarrow> bytes \<Rightarrow> string \<Rightarrow> codec_error + unit" where
  "verifyDigest lib plain want =
     (let got = lib_sha256 lib plain in if got \<noteq> want then Inl (DigestMismatch got want) else Inr ())"

section \<open>Round trips\<close>

text \<open>What the code relies on: each decompressor undoes its compressor on the data at hand, and the
  cipher opens what it sealed under a nonce of the standard size.\<close>

definition lib_inverts :: "complib \<Rightarrow> bytes \<Rightarrow> bool" where
  "lib_inverts lib plain \<longleftrightarrow>
     (\<forall>l. lib_unzstd lib (lib_zstd lib l plain) = Some plain) \<and>
     (\<forall>level packed n. lib_gzip lib level plain = Some packed \<longrightarrow>
        lib_gunzip lib packed n = Some (take n plain)) \<and>
     (\<forall>l. lib_uns2 lib (lib_s2 lib l plain) = Some plain)"

definition cipher_inverts :: "Cipher \<Rightarrow> bytes \<Rightarrow> bool" where
  "cipher_inverts ci nonce \<longleftrightarrow>
     length nonce = NonceSize \<and> (\<forall>plain. ae_open ci nonce (ae_seal ci nonce plain) = Some plain)"

lemma decompress_compress:
  assumes "lib_inverts lib plain" "compress lib algo plain = Some packed"
  shows "decompress lib algo packed (length plain) = Some plain"
  using assms by (cases algo) (auto simp: lib_inverts_def)

lemma DecryptBytes_EncryptBytes:
  assumes "cipher_inverts ci n" "EncryptBytes ci (Some n) plain = Inr sealed"
  shows "DecryptBytes ci sealed = Inr plain"
  using assms by (auto simp: cipher_inverts_def EncryptBytes_def DecryptBytes_def)

lemma newCodec_cipher: "newCodec compression level cipher = Inr c \<Longrightarrow> cd_cipher c = cipher"
  by (auto simp: newCodec_def Let_def split: if_splits)

text \<open>The level of a codec matters for encoding only.\<close>

lemma decode_same:
  assumes "cd_cipher c = cd_cipher c'" "cd_compression c = cd_compression c'"
    and "cd_algo c = None \<and> cd_algo c' = None \<or>
         (\<exists>a a'. cd_algo c = Some a \<and> cd_algo c' = Some a' \<and> decompress lib a = decompress lib a')"
  shows "decode lib c = decode lib c'"
  using assms(3) unfolding decode_def assms(1,2) by (elim disjE exE conjE) (simp_all cong: if_cong)

lemma decode_level:
  assumes "newCodec compression level cipher = Inr c" "newCodec compression level' cipher = Inr c'"
  shows "decode lib c = decode lib c'"
proof (rule decode_same)
  show "cd_algo c = None \<and> cd_algo c' = None \<or>
      (\<exists>a a'. cd_algo c = Some a \<and> cd_algo c' = Some a' \<and> decompress lib a = decompress lib a')"
    using assms by (auto simp: newCodec_def Let_def fun_eq_iff newZstdCompressor_def newGzipCompressor_def
        newS2Compressor_def split: if_splits)
qed (use assms in \<open>auto simp: newCodec_def Let_def split: if_splits\<close>)

lemma encode_decode:
  assumes lib: "lib_inverts lib plain"
    and ci: "\<forall>ci. cd_cipher c = Some ci \<longrightarrow> cipher_inverts ci n"
    and enc: "encode lib c (Some n) plain = Inr (stored, digest)"
  shows "decode lib c stored (int (length plain)) = Inr plain" and "verifyDigest lib plain digest = Inr ()"
proof -
  obtain out where alg: "(case cd_algo c of None \<Rightarrow> Inr plain
        | Some algo \<Rightarrow> (case compress lib algo plain of
               None \<Rightarrow> Inl (CompressError (cd_compression c))
             | Some compressed \<Rightarrow> Inr (if length compressed < length plain then compressed else plain)))
       = Inr out"
    and sealed: "cd_cipher c = None \<and> stored = out \<or>
       (\<exists>ci. cd_cipher c = Some ci \<and> EncryptBytes ci (Some n) out = Inr stored)"
    and dig: "digest = lib_sha256 lib plain"
    using enc by (auto simp: encode_def result_simps split: option.splits sum.splits)
  have opened: "(case cd_cipher c of None \<Rightarrow> Inr stored
        | Some ci \<Rightarrow> (case DecryptBytes ci stored of
             Inl e \<Rightarrow> Inl (DecryptError e) | Inr plain \<Rightarrow> Inr plain)) = Inr out"
    using sealed ci by (auto simp: DecryptBytes_EncryptBytes)
  show "decode lib c stored (int (length plain)) = Inr plain"
  proof (cases "cd_algo c")
    case None
    then show ?thesis using alg by (simp add: decode_def opened)
  next
    case (Some algo)
    then obtain packed where "compress lib algo plain = Some packed"
      and "out = (if length packed < length plain then packed else plain)"
      using alg by (auto split: option.splits)
    then show ?thesis
      using Some decompress_compress [OF lib] by (simp add: decode_def opened)
  qed
  show "verifyDigest lib plain digest = Inr ()" by (simp add: verifyDigest_def dig)
qed

lemma decode_length: "decode lib c stored n = Inr plain \<Longrightarrow> int (length plain) = n"
  by (auto simp: decode_def result_simps split: if_splits)

text \<open>
  C14: a stored chunk reads back. Whatever algorithm and level the codec was created with and
  whether or not it encrypts, decoding what \<open>encode\<close> produced with the recorded length gives the
  original bytes, and they pass the recorded digest.
\<close>

theorem codec_roundtrip:
  assumes "newCodec compression level cipher = Inr c" and "lib_inverts lib plain"
    and "\<forall>ci. cipher = Some ci \<longrightarrow> cipher_inverts ci n"
    and "encode lib c (Some n) plain = Inr (stored, digest)"
  shows "decode lib c stored (int (length plain)) = Inr plain \<and> verifyDigest lib plain digest = Inr ()"
  using encode_decode [OF assms(2) _ assms(4)] assms(3) newCodec_cipher [OF assms(1)] by blast

text \<open>A library that stores runs of one repeated byte as a pair, and a cipher that adds the first
  byte of its nonce.\<close>

definition toy_pack :: "bytes \<Rightarrow> bytes" where
  "toy_pack b = (case b of [] \<Rightarrow> [0] | x # xs \<Rightarrow>
     if list_all (\<lambda>y. y = x) xs \<and> length b < 256 then [1, x, word_of_nat (length b)] else 0 # b)"

fun toy_unpack :: "bytes \<Rightarrow> bytes option" where
  "toy_unpack [] = None"
| "toy_unpack (t # rest) =
     (if t = 0 then Some rest else case rest of [x, k] \<Rightarrow> Some (replicate (unat k) x) | _ \<Rightarrow> None)"

definition toy_lib :: complib where
  "toy_lib = \<lparr>lib_zstd = \<lambda>_. toy_pack, lib_unzstd = toy_unpack,
     lib_gzip = \<lambda>_ b. Some (toy_pack b), lib_gunzip = \<lambda>b n. map_option (take n) (toy_unpack b),
     lib_s2 = \<lambda>_. toy_pack, lib_uns2 = toy_unpack,
     lib_sha256 = \<lambda>b. map (\<lambda>w. CHR ''x'') b\<rparr>"

definition toy_cipher :: Cipher where
  "toy_cipher = \<lparr>ae_seal = \<lambda>n. map (\<lambda>b. b + hd n), ae_open = \<lambda>n s. Some (map (\<lambda>b. b - hd n) s)\<rparr>"

lemma toy_pack_inverse: "toy_unpack (toy_pack b) = Some b"
proof (cases b)
  case (Cons x xs)
  show ?thesis
  proof (cases "list_all (\<lambda>y. y = x) xs \<and> length b < 256")
    case True
    have same: "replicate (length b) x = b"
    proof -
      have "\<forall>y \<in> set b. y = x" using True Cons by (simp add: list_all_iff)
      then show ?thesis by (rule replicate_length_same)
    qed
    have "unat (word_of_nat (length b) :: byte) = length b"
      using True by (simp add: unat_of_nat)
    then have "toy_unpack [1, x, word_of_nat (length b)] = Some b" using same by simp
    then show ?thesis using True Cons by (simp only: toy_pack_def list.case if_True simp_thms)
  next
    case False
    then show ?thesis using Cons by (auto simp: toy_pack_def)
  qed
qed (simp add: toy_pack_def)

lemma toy_lib_inverts: "lib_inverts toy_lib b"
  by (simp add: lib_inverts_def toy_lib_def toy_pack_inverse)

lemma toy_cipher_inverts: "length n = NonceSize \<Longrightarrow> cipher_inverts toy_cipher n"
  by (simp add: cipher_inverts_def toy_cipher_def comp_def)

theorem codec_roundtrip_witness:
  "\<exists>c stored digest. newCodec ''zstd'' 3 (Some toy_cipher) = Inr c \<and>
     encode toy_lib c (Some (replicate 12 7)) (replicate 20 5) = Inr (stored, digest) \<and>
     length stored = 15 \<and>
     decode toy_lib c stored 20 = Inr (replicate 20 5) \<and> verifyDigest toy_lib (replicate 20 5) digest = Inr ()"
proof -
  define c where "c = \<lparr>cd_compression = ''zstd'', cd_algo = Some (ZstdCompressor SpeedDefault),
    cd_cipher = Some toy_cipher\<rparr>"
  have nc: "newCodec ''zstd'' 3 (Some toy_cipher) = Inr c"
    by (simp add: newCodec_def newZstdCompressor_def c_def)
  have enc: "encode toy_lib c (Some (replicate 12 7)) (replicate 20 5) =
     Inr (replicate 12 7 @ [8, 12, 27], replicate 20 (CHR ''x''))"
    unfolding c_def by code_simp
  show ?thesis
    using codec_roundtrip [OF nc toy_lib_inverts _ enc]
      toy_cipher_inverts [of "replicate 12 7"] nc enc by (auto simp: NonceSize_def)
qed

text \<open>
  A secret survives storage. \<open>Decrypt\<close> undoes \<open>Encrypt\<close>, the empty secret included, and
  \<open>Encrypt\<close> never turns a non-empty secret into the empty string that means "no secret stored".
\<close>

lemma secret_roundtrip:
  assumes "cipher_inverts c n" and "\<forall>b. from64 (to64 b) = Some b" and "\<forall>b. b \<noteq> [] \<longrightarrow> to64 b \<noteq> []"
  shows "\<exists>enc. Encrypt to64 c (Some n) plain = Inr enc \<and> Decrypt from64 c enc = Inr plain \<and>
           (enc = [] \<longleftrightarrow> plain = [])"
proof -
  have "n \<noteq> []" using assms(1) by (auto simp: cipher_inverts_def NonceSize_def)
  then show ?thesis
    using assms by (auto simp: Encrypt_def Decrypt_def cipher_inverts_def)
qed

end
