(* ===== verification/DiskWriter.thy ===== *)
theory DiskWriter
  imports Codec
begin

text \<open>
  The disk writer (\<open>internal/backup/writer.go\<close>): chunks are encoded, pushed through a pipe to the
  goroutine that uploads the data object, and recorded in the manifest. What the uploader does is an
  argument of each operation: \<open>pipe_write\<close> is the outcome of one write into the pipe, \<open>putResult\<close> what
  \<open>Backend.Put\<close> returned.

  \<open>dw_sent\<close> is what has gone through the pipe so far (the content of the object), \<open>dw_hashed\<close> what
  has been fed to the running digest.
\<close>

section \<open>State and operations\<close>

record WriterOptions =
  wo_DataKey :: string
  wo_ChunkSize :: int
  wo_Compression :: string
  wo_Level :: int
  wo_Cipher :: "Cipher option"

record putResult =
  put_written :: int
  put_err :: "string option"

record DiskWriter =
  dw_manifest :: DiskManifest
  dw_codec :: codec
  dw_blobOffset :: int
  dw_closed :: bool
  dw_hashed :: bytes
  dw_sent :: bytes

text \<open>A write into the pipe is taken whole, or fails after \<open>k\<close> bytes with the pipe's error; the
  uploader's result is there to be read, or not yet.\<close>

datatype pipe_write = PipeTaken | PipeBroken nat string "putResult option"

datatype writer_error =
    WriterCodec codec_error
  | WriterClosed string
  | NotIncreasing int int
  | UploadAborted string
  | PipeError string
  | UploadFailed string string
  | WrongCount int int string

definition zero_time :: int where "zero_time = -62135596800000000000"

definition to_int32 :: "int \<Rightarrow> int" where
  "to_int32 x = (x + 2147483648) mod 4294967296 - 2147483648"

definition NewDiskWriter :: "int \<Rightarrow> DiskManifest \<Rightarrow> WriterOptions \<Rightarrow> writer_error + DiskWriter" where
  "NewDiskWriter now manifest opts0 =
     (let o1 = (if wo_ChunkSize opts0 \<le> 0 then opts0\<lparr>wo_ChunkSize := DefaultChunkSize\<rparr> else opts0);
          o2 = (if wo_Compression o1 = '''' then o1\<lparr>wo_Compression := ''none''\<rparr> else o1);
          opts = (if wo_Level o2 = 0 then o2\<lparr>wo_Level := 3\<rparr> else o2)
      in case newCodec (wo_Compression opts) (wo_Level opts) (wo_Cipher opts) of
           Inl e \<Rightarrow> Inl (WriterCodec e)
         | Inr cd \<Rightarrow>
             Inr \<lparr>dw_manifest = manifest\<lparr>dm_Format := FormatName, dm_Version := FormatVersion,
                     dm_ChunkSize := wo_ChunkSize opts, dm_Compression := wo_Compression opts,
                     dm_Encrypted := (wo_Cipher opts \<noteq> None), dm_DataKey := wo_DataKey opts,
                     dm_CreatedAt := (if dm_CreatedAt manifest = zero_time then now else dm_CreatedAt manifest)\<rparr>,
                  dw_codec = cd, dw_blobOffset = 0, dw_closed = False, dw_hashed = [], dw_sent = []\<rparr>)"

definition uploadError :: "string \<Rightarrow> putResult option \<Rightarrow> writer_error" where
  "uploadError pipeErr done =
     (case done of
        Some res \<Rightarrow> (case put_err res of Some e \<Rightarrow> UploadAborted e | None \<Rightarrow> PipeError pipeErr)
      | None \<Rightarrow> PipeError pipeErr)"

definition append_stored :: "DiskWriter \<Rightarrow> int \<Rightarrow> bytes \<Rightarrow> bytes \<Rightarrow> string \<Rightarrow> DiskWriter" where
  "append_stored w index plain stored digest =
     (let m = dw_manifest w;
          c = \<lparr>ch_Index = index, ch_Length = to_int32 (int (length plain)), ch_BlobOffset = dw_blobOffset w,
               ch_StoredLength = to_int32 (int (length stored)), ch_Hash = digest\<rparr>
      in w\<lparr>dw_sent := dw_sent w @ stored, dw_hashed := dw_hashed w @ stored,
           dw_manifest := m\<lparr>dm_Chunks := dm_Chunks m @ [c],
                             dm_LogicalBytes := wrap64 (dm_LogicalBytes m + int (length plain))\<rparr>,
           dw_blobOffset := wrap64 (dw_blobOffset w + int (length stored))\<rparr>)"

definition WriteChunk ::
  "complib \<Rightarrow> DiskWriter \<Rightarrow> int \<Rightarrow> bytes \<Rightarrow> bytes option \<Rightarrow> pipe_write \<Rightarrow> (writer_error + unit) \<times> DiskWriter" where
  "WriteChunk lib w index plain nonce pipe =
     (let chunks = dm_Chunks (dw_manifest w) in
      if dw_closed w then (Inl (WriterClosed (dm_DataKey (dw_manifest w))), w)
      else if plain = [] then (Inr (), w)
      else if chunks \<noteq> [] \<and> ch_Index (last chunks) \<ge> index
      then (Inl (NotIncreasing index (ch_Index (last chunks))), w)
      else case encode lib (dw_codec w) nonce plain of
             Inl e \<Rightarrow> (Inl (WriterCodec e), w)
           | Inr (stored, digest) \<Rightarrow>
               (case pipe of
                  PipeBroken k err done \<Rightarrow>
                    (Inl (uploadError err done), w\<lparr>dw_sent := dw_sent w @ take k stored\<rparr>)
                | PipeTaken \<Rightarrow> (Inr (), append_stored w index plain stored digest)))"

definition LogicalBytes :: "DiskWriter \<Rightarrow> int" where
  "LogicalBytes w = dm_LogicalBytes (dw_manifest w)"

definition StoredBytes :: "DiskWriter \<Rightarrow> int" where
  "StoredBytes w = dw_blobOffset w"

text \<open>Closing the writing end of an \<open>io.Pipe\<close> never fails; then the uploader's result is awaited.\<close>

definition Close :: "complib \<Rightarrow> DiskWriter \<Rightarrow> putResult \<Rightarrow> (writer_error + DiskManifest) \<times> DiskWriter" where
  "Close lib w res =
     (if dw_closed w then (Inr (dw_manifest w), w)
      else let w1 = w\<lparr>dw_closed := True\<rparr> in
        case put_err res of
          Some e \<Rightarrow> (Inl (UploadFailed (dm_DataKey (dw_manifest w)) e), w1)
        | None \<Rightarrow>
            let m = (dw_manifest w)\<lparr>dm_StoredBytes := dw_blobOffset w,
                       dm_DataSHA256 := lib_sha256 lib (dw_hashed w)\<rparr>;
                w2 = w1\<lparr>dw_manifest := m\<rparr>
            in if put_written res \<noteq> dw_blobOffset w
               then (Inl (WrongCount (put_written res) (dw_blobOffset w) (dm_DataKey m)), w2)
               else (Inr m, w2))"

text \<open>\<open>Abort\<close> returns the key of the object it deletes, if it deletes one.\<close>

definition Abort :: "DiskWriter \<Rightarrow> string option \<times> DiskWriter" where
  "Abort w =
     (if dw_closed w then (None, w)
      else (Some (dm_DataKey (dw_manifest w)), w\<lparr>dw_closed := True\<rparr>))"

section \<open>Sequences of writes\<close>

record write_req =
  wr_index :: int
  wr_plain :: bytes
  wr_nonce :: "bytes option"
  wr_pipe :: pipe_write

text \<open>The caller's loop: stop at the first error.\<close>

fun write_all :: "complib \<Rightarrow> DiskWriter \<Rightarrow> write_req list \<Rightarrow> (writer_error + unit) \<times> DiskWriter" where
  "write_all lib w [] = (Inr (), w)"
| "write_all lib w (q # qs) =
     (case WriteChunk lib w (wr_index q) (wr_plain q) (wr_nonce q) (wr_pipe q) of
        (Inl e, w') \<Rightarrow> (Inl e, w')
      | (Inr _, w') \<Rightarrow> write_all lib w' qs)"

section \<open>The layout invariant\<close>

text \<open>The blob holds the chunk: its slice decodes to the plain bytes, which match length and digest.\<close>

definition holds_chunk :: "complib \<Rightarrow> codec \<Rightarrow> bytes \<Rightarrow> Chunk \<Rightarrow> bytes \<Rightarrow> bool" where
  "holds_chunk lib cd blob c plain \<longleftrightarrow>
     0 \<le> ch_BlobOffset c \<and> 0 \<le> ch_StoredLength c \<and>
     ch_BlobOffset c + ch_StoredLength c \<le> int (length blob) \<and>
     plain \<noteq> [] \<and> ch_Length c = int (length plain) \<and>
     decode lib cd (slice blob (ch_BlobOffset c) (ch_StoredLength c)) (ch_Length c) = Inr plain \<and>
     ch_Hash c = lib_sha256 lib plain"

fun packed_from :: "int \<Rightarrow> Chunk list \<Rightarrow> bool" where
  "packed_from off [] = True"
| "packed_from off (c # cs) \<longleftrightarrow> ch_BlobOffset c = off \<and> packed_from (off + ch_StoredLength c) cs"

definition stored_total :: "Chunk list \<Rightarrow> int" where
  "stored_total cs = (\<Sum>c\<leftarrow>cs. ch_StoredLength c)"

definition logical_total :: "Chunk list \<Rightarrow> int" where
  "logical_total cs = (\<Sum>c\<leftarrow>cs. ch_Length c)"

definition writer_inv :: "complib \<Rightarrow> DiskWriter \<Rightarrow> bytes list \<Rightarrow> bool" where
  "writer_inv lib w plains \<longleftrightarrow>
     (let cs = dm_Chunks (dw_manifest w) in
      sorted_wrt (<) (map ch_Index cs) \<and>
      list_all2 (holds_chunk lib (dw_codec w) (dw_hashed w)) cs plains \<and>
      packed_from 0 cs \<and> stored_total cs = int (length (dw_hashed w)) \<and>
      dw_blobOffset w = int (length (dw_hashed w)) \<and>
      dm_LogicalBytes (dw_manifest w) = logical_total cs \<and>
      length (dw_hashed w) \<le> length (dw_sent w) \<and> take (length (dw_hashed w)) (dw_sent w) = dw_hashed w)"

lemma packed_from_snoc: "packed_from off (cs @ [c]) \<longleftrightarrow> packed_from off cs \<and> ch_BlobOffset c = off + stored_total cs"
  by (induction cs arbitrary: off) (simp_all add: stored_total_def add.assoc)

lemma totals_snoc:
  "stored_total (cs @ [c]) = stored_total cs + ch_StoredLength c"
  "logical_total (cs @ [c]) = logical_total cs + ch_Length c"
  by (simp_all add: stored_total_def logical_total_def)

lemma holds_chunk_append: "holds_chunk lib cd b c p \<Longrightarrow> holds_chunk lib cd (b @ b') c p"
  by (auto simp: holds_chunk_def slice_append)

lemma to_int32_id: "0 \<le> x \<Longrightarrow> x < 2147483648 \<Longrightarrow> to_int32 x = x"
  by (simp add: to_int32_def)

lemma sorted_snoc: "sorted_wrt (<) (map f cs) \<Longrightarrow> (cs \<noteq> [] \<Longrightarrow> f (last cs) < (x :: int)) \<Longrightarrow>
   sorted_wrt (<) (map f cs @ [x])"
proof -
  assume s: "sorted_wrt (<) (map f cs)" and l: "cs \<noteq> [] \<Longrightarrow> f (last cs) < x"
  have "f c < x" if c: "c \<in> set cs" for c
  proof (cases cs rule: rev_cases)
    case (snoc ys y)
    then show ?thesis using s l c by (fastforce simp: sorted_wrt_append)
  qed (use c in simp)
  then show ?thesis using s by (auto simp: sorted_wrt_append)
qed

text \<open>The sizes for which neither the 32-bit lengths nor the 64-bit offsets wrap.\<close>

definition write_fits :: "DiskWriter \<Rightarrow> bytes \<Rightarrow> bytes \<Rightarrow> bool" where
  "write_fits w plain stored \<longleftrightarrow>
     length plain < 2147483648 \<and> length stored < 2147483648 \<and>
     int (length (dw_hashed w)) + int (length stored) < 9223372036854775808 \<and>
     dm_LogicalBytes (dw_manifest w) + int (length plain) < 9223372036854775808"

lemma append_stored_inv:
  assumes inv: "writer_inv lib w plains" and lib: "lib_inverts lib plain"
    and ci: "\<forall>ci. cd_cipher (dw_codec w) = Some ci \<longrightarrow> cipher_inverts ci n"
    and enc: "encode lib (dw_codec w) (Some n) plain = Inr (stored, digest)"
    and fits: "write_fits w plain stored" and ne: "plain \<noteq> []"
    and inc: "dm_Chunks (dw_manifest w) \<noteq> [] \<Longrightarrow> ch_Index (last (dm_Chunks (dw_manifest w))) < index"
    and sync: "dw_sent w = dw_hashed w"
  shows "writer_inv lib (append_stored w index plain stored digest) (plains @ [plain])"
proof -
  let ?cs = "dm_Chunks (dw_manifest w)"
  define c where "c = \<lparr>ch_Index = index, ch_Length = int (length plain), ch_BlobOffset = dw_blobOffset w,
               ch_StoredLength = int (length stored), ch_Hash = digest\<rparr>"
  have sizes: "to_int32 (int (length plain)) = int (length plain)"
    "to_int32 (int (length stored)) = int (length stored)"
    using fits by (simp_all add: write_fits_def to_int32_id)
  have off: "dw_blobOffset w = int (length (dw_hashed w))" using inv by (simp add: writer_inv_def Let_def)
  have "0 \<le> logical_total ?cs"
    using inv unfolding writer_inv_def Let_def logical_total_def
    by (intro sum_list_nonneg) (auto simp: list_all2_conv_all_nth holds_chunk_def in_set_conv_nth)
  then have wraps: "wrap64 (dw_blobOffset w + int (length stored)) = int (length (dw_hashed w @ stored))"
    "wrap64 (dm_LogicalBytes (dw_manifest w) + int (length plain)) = logical_total ?cs + int (length plain)"
    using fits off inv by (simp_all add: write_fits_def writer_inv_def Let_def go_arith)
  have held: "holds_chunk lib (dw_codec w) (dw_hashed w @ stored) c plain"
    using encode_decode [OF lib ci enc] ne off
    by (simp add: holds_chunk_def c_def slice_end verifyDigest_def Let_def split: if_splits)
  have old: "list_all2 (holds_chunk lib (dw_codec w) (dw_hashed w @ stored)) ?cs plains"
    using inv unfolding writer_inv_def Let_def
    by (meson holds_chunk_append list_all2_mono)
  have sorted: "sorted_wrt (<) (map ch_Index ?cs @ [index])"
    using inv inc by (intro sorted_snoc) (auto simp: writer_inv_def Let_def)
  have state: "dm_Chunks (dw_manifest (append_stored w index plain stored digest)) = ?cs @ [c]"
    "dw_hashed (append_stored w index plain stored digest) = dw_hashed w @ stored"
    "dw_sent (append_stored w index plain stored digest) = dw_hashed w @ stored"
    "dw_codec (append_stored w index plain stored digest) = dw_codec w"
    "dw_blobOffset (append_stored w index plain stored digest) = int (length (dw_hashed w @ stored))"
    "dm_LogicalBytes (dw_manifest (append_stored w index plain stored digest)) =
       logical_total ?cs + int (length plain)"
    using wraps sync by (simp_all add: append_stored_def Let_def sizes c_def)
  show ?thesis
    using inv sorted off list_all2_appendI [OF old, of "[c]" "[plain]"] held
    unfolding writer_inv_def Let_def state by (simp add: packed_from_snoc totals_snoc c_def)
qed

lemma WriteChunk_cases:
  assumes "WriteChunk lib w index plain nonce pipe = (r, w')"
  obtains (closed) "dw_closed w" "r \<noteq> Inr ()" "w' = w"
  | (empty) "\<not> dw_closed w" "plain = []" "r = Inr ()" "w' = w"
  | (order) "\<not> dw_closed w" "plain \<noteq> []" "dm_Chunks (dw_manifest w) \<noteq> []"
      "ch_Index (last (dm_Chunks (dw_manifest w))) \<ge> index" "r \<noteq> Inr ()" "w' = w"
  | (codec) e where "encode lib (dw_codec w) nonce plain = Inl e" "r = Inl (WriterCodec e)" "w' = w"
  | (broken) stored digest k err d where "encode lib (dw_codec w) nonce plain = Inr (stored, digest)"
      "pipe = PipeBroken k err d" "r = Inl (uploadError err d)"
      "w' = w\<lparr>dw_sent := dw_sent w @ take k stored\<rparr>"
  | (stored) stored digest where "\<not> dw_closed w" "plain \<noteq> []"
      "dm_Chunks (dw_manifest w) = [] \<or> ch_Index (last (dm_Chunks (dw_manifest w))) < index"
      "encode lib (dw_codec w) nonce plain = Inr (stored, digest)" "pipe = PipeTaken"
      "r = Inr ()" "w' = append_stored w index plain stored digest"
proof (cases "dw_closed w \<or> plain = [] \<or>
    dm_Chunks (dw_manifest w) \<noteq> [] \<and> ch_Index (last (dm_Chunks (dw_manifest w))) \<ge> index")
  case True
  show thesis
  proof (cases "dw_closed w")
    case True
    then show thesis using assms by (intro closed) (auto simp: WriteChunk_def Let_def)
  next
    case live: False
    show thesis
    proof (cases "plain = []")
      case True
      then show thesis using assms live by (intro empty) (auto simp: WriteChunk_def Let_def)
    next
      case False
      then show thesis
        using assms live True by (intro order) (auto simp: WriteChunk_def Let_def)
    qed
  qed
next
  case False
  then have body: "(case encode lib (dw_codec w) nonce plain of
             Inl e \<Rightarrow> (Inl (WriterCodec e), w)
           | Inr (stored, digest) \<Rightarrow>
               (case pipe of
                  PipeBroken k err done \<Rightarrow>
                    (Inl (uploadError err done), w\<lparr>dw_sent := dw_sent w @ take k stored\<rparr>)
                | PipeTaken \<Rightarrow> (Inr (), append_stored w index plain stored digest))) = (r, w')"
    using assms
    by (cases "dm_Chunks (dw_manifest w) = []") (simp_all add: WriteChunk_def Let_def)
  show thesis
  proof (cases "encode lib (dw_codec w) nonce plain")
    case (Inl e)
    then show thesis using body by (intro codec [of e]) simp_all
  next
    case (Inr sd)
    obtain st dg where sd: "sd = (st, dg)" by (cases sd)
    show thesis
    proof (cases pipe)
      case PipeTaken
      then show thesis using body False Inr sd by (intro stored [of st dg]) (simp_all add: not_le)
    next
      case (PipeBroken k err d)
      then show thesis using body Inr sd by (intro broken [of st dg k err d]) simp_all
    qed
  qed
qed

text \<open>What a caller supplies: a nonce of the right size and inputs the libraries round-trip.\<close>

definition req_ok :: "complib \<Rightarrow> codec \<Rightarrow> write_req \<Rightarrow> bool" where
  "req_ok lib cd q \<longleftrightarrow> lib_inverts lib (wr_plain q) \<and>
     (\<exists>n. wr_nonce q = Some n \<and> (\<forall>ci. cd_cipher cd = Some ci \<longrightarrow> cipher_inverts ci n))"

text \<open>The bytes a sequence of writes stores stay below the limits of the length and offset fields.\<close>

fun fits_all :: "complib \<Rightarrow> DiskWriter \<Rightarrow> write_req list \<Rightarrow> bool" where
  "fits_all lib w [] = True"
| "fits_all lib w (q # qs) \<longleftrightarrow>
     (\<forall>stored digest. encode lib (dw_codec w) (wr_nonce q) (wr_plain q) = Inr (stored, digest) \<longrightarrow>
        write_fits w (wr_plain q) stored) \<and>
     fits_all lib (snd (WriteChunk lib w (wr_index q) (wr_plain q) (wr_nonce q) (wr_pipe q))) qs"

definition nonempty_plains :: "write_req list \<Rightarrow> bytes list" where
  "nonempty_plains qs = filter (\<lambda>p. p \<noteq> []) (map wr_plain qs)"

definition nonempty_indices :: "write_req list \<Rightarrow> int list" where
  "nonempty_indices qs = map wr_index (filter (\<lambda>q. wr_plain q \<noteq> []) qs)"

lemma append_stored_proj [simp]:
  "dw_codec (append_stored w i p s d) = dw_codec w"
  "dw_closed (append_stored w i p s d) = dw_closed w"
  "dw_sent (append_stored w i p s d) = dw_sent w @ s"
  "dw_hashed (append_stored w i p s d) = dw_hashed w @ s"
  "map ch_Index (dm_Chunks (dw_manifest (append_stored w i p s d))) =
     map ch_Index (dm_Chunks (dw_manifest w)) @ [i]"
  by (simp_all add: append_stored_def Let_def)

lemma write_all_inv:
  assumes "write_all lib w qs = (Inr (), w')" "writer_inv lib w plains" "dw_sent w = dw_hashed w"
    and "\<forall>q \<in> set qs. req_ok lib (dw_codec w) q" "fits_all lib w qs" "\<not> dw_closed w"
  shows "writer_inv lib w' (plains @ nonempty_plains qs) \<and> dw_sent w' = dw_hashed w' \<and>
         dw_codec w' = dw_codec w \<and> \<not> dw_closed w' \<and>
         map ch_Index (dm_Chunks (dw_manifest w')) =
           map ch_Index (dm_Chunks (dw_manifest w)) @ nonempty_indices qs"
  using assms
proof (induction qs arbitrary: w plains)
  case Nil
  then show ?case by (simp add: nonempty_plains_def nonempty_indices_def)
next
  case (Cons q qs)
  obtain r w1 where step: "WriteChunk lib w (wr_index q) (wr_plain q) (wr_nonce q) (wr_pipe q) = (r, w1)"
    by (cases "WriteChunk lib w (wr_index q) (wr_plain q) (wr_nonce q) (wr_pipe q)")
  have r: "r = Inr ()" and rest: "write_all lib w1 qs = (Inr (), w')"
    using Cons.prems(1) step by (auto split: sum.splits)
  obtain n where n: "wr_nonce q = Some n" "\<forall>ci. cd_cipher (dw_codec w) = Some ci \<longrightarrow> cipher_inverts ci n"
    and lib: "lib_inverts lib (wr_plain q)"
    using Cons.prems(4) by (auto simp: req_ok_def)
  have fits1: "fits_all lib w1 qs" using Cons.prems(5) step by simp
  from step show ?case
  proof (cases rule: WriteChunk_cases)
    case empty
    then show ?thesis
      using Cons.IH [OF rest] Cons.prems fits1 by (simp add: nonempty_plains_def nonempty_indices_def)
  next
    case (stored st dg)
    have "writer_inv lib w1 (plains @ [wr_plain q])"
      unfolding stored(7)
      using Cons.prems(2,3,5) n lib stored by (intro append_stored_inv) auto
    from Cons.IH [OF rest this] show ?thesis
      using Cons.prems(3,4,6) fits1 stored by (simp add: nonempty_plains_def nonempty_indices_def)
  qed (use r in auto)
qed

lemma newCodec_known: "newCodec c level ci = Inr cd \<Longrightarrow> c \<noteq> '''' \<Longrightarrow> KnownCompression c"
  by (auto simp: newCodec_def KnownCompression_def Compressions_def Let_def split: if_splits)

lemma NewDiskWriter_fields:
  assumes "NewDiskWriter now manifest opts = Inr w" "dm_Chunks manifest = []" "dm_LogicalBytes manifest = 0"
  shows "writer_inv lib w [] \<and> dw_sent w = [] \<and> dw_hashed w = [] \<and> \<not> dw_closed w \<and>
         dm_Chunks (dw_manifest w) = [] \<and> 0 < dm_ChunkSize (dw_manifest w) \<and>
         dm_Format (dw_manifest w) = FormatName \<and> dm_Version (dw_manifest w) = FormatVersion \<and>
         KnownCompression (dm_Compression (dw_manifest w)) \<and>
         dm_VirtualSize (dw_manifest w) = dm_VirtualSize manifest \<and>
         dm_Type (dw_manifest w) = dm_Type manifest \<and> dm_DataKey (dw_manifest w) = wo_DataKey opts \<and>
         dm_Encrypted (dw_manifest w) = (wo_Cipher opts \<noteq> None) \<and>
         newCodec (dm_Compression (dw_manifest w)) (if wo_Level opts = 0 then 3 else wo_Level opts)
           (wo_Cipher opts) = Inr (dw_codec w)"
proof -
  define comp where "comp = (if wo_Compression opts = '''' then ''none'' else wo_Compression opts)"
  define cs where "cs = (if wo_ChunkSize opts \<le> 0 then DefaultChunkSize else wo_ChunkSize opts)"
  define level where "level = (if wo_Level opts = 0 then 3 else wo_Level opts)"
  define t where "t = (if dm_CreatedAt manifest = zero_time then now else dm_CreatedAt manifest)"
  obtain cd where cd: "newCodec comp level (wo_Cipher opts) = Inr cd"
    and w: "w = \<lparr>dw_manifest = manifest\<lparr>dm_Format := FormatName, dm_Version := FormatVersion,
                     dm_ChunkSize := cs, dm_Compression := comp,
                     dm_Encrypted := (wo_Cipher opts \<noteq> None), dm_DataKey := wo_DataKey opts,
                     dm_CreatedAt := t\<rparr>,
                  dw_codec = cd, dw_blobOffset = 0, dw_closed = False, dw_hashed = [], dw_sent = []\<rparr>"
    using assms(1) unfolding NewDiskWriter_def Let_def comp_def cs_def level_def t_def
    by (cases "wo_ChunkSize opts \<le> 0"; cases "wo_Compression opts = ''''"; cases "wo_Level opts = 0")
      (auto split: sum.splits)
  have "KnownCompression comp" by (rule newCodec_known [OF cd]) (simp add: comp_def)
  moreover have "0 < cs" by (simp add: cs_def DefaultChunkSize_def)
  ultimately show ?thesis
    using assms(2,3) cd unfolding w
    by (simp add: writer_inv_def stored_total_def logical_total_def level_def)
qed

lemma Close_ok:
  assumes "Close lib w res = (Inr m, w')" "\<not> dw_closed w"
  shows "put_err res = None \<and> put_written res = dw_blobOffset w \<and> dw_closed w' \<and>
         m = (dw_manifest w)\<lparr>dm_StoredBytes := dw_blobOffset w, dm_DataSHA256 := lib_sha256 lib (dw_hashed w)\<rparr>"
  using assms by (auto simp: Close_def Let_def split: if_splits option.splits)

lemma write_all_manifest:
  assumes "write_all lib w qs = (r, w')"
  shows "dm_Format (dw_manifest w') = dm_Format (dw_manifest w) \<and>
         dm_Version (dw_manifest w') = dm_Version (dw_manifest w) \<and>
         dm_ChunkSize (dw_manifest w') = dm_ChunkSize (dw_manifest w) \<and>
         dm_VirtualSize (dw_manifest w') = dm_VirtualSize (dw_manifest w) \<and>
         dm_Compression (dw_manifest w') = dm_Compression (dw_manifest w) \<and>
         dm_Type (dw_manifest w') = dm_Type (dw_manifest w) \<and>
         dm_DataKey (dw_manifest w') = dm_DataKey (dw_manifest w) \<and>
         dm_Encrypted (dw_manifest w') = dm_Encrypted (dw_manifest w)"
  using assms
proof (induction qs arbitrary: w)
  case (Cons q qs)
  obtain r1 w1 where step: "WriteChunk lib w (wr_index q) (wr_plain q) (wr_nonce q) (wr_pipe q) = (r1, w1)"
    by (cases "WriteChunk lib w (wr_index q) (wr_plain q) (wr_nonce q) (wr_pipe q)")
  have one: "dm_Format (dw_manifest w1) = dm_Format (dw_manifest w) \<and>
         dm_Version (dw_manifest w1) = dm_Version (dw_manifest w) \<and>
         dm_ChunkSize (dw_manifest w1) = dm_ChunkSize (dw_manifest w) \<and>
         dm_VirtualSize (dw_manifest w1) = dm_VirtualSize (dw_manifest w) \<and>
         dm_Compression (dw_manifest w1) = dm_Compression (dw_manifest w) \<and>
         dm_Type (dw_manifest w1) = dm_Type (dw_manifest w) \<and>
         dm_DataKey (dw_manifest w1) = dm_DataKey (dw_manifest w) \<and>
         dm_Encrypted (dw_manifest w1) = dm_Encrypted (dw_manifest w)"
    using step by (cases rule: WriteChunk_cases) (simp_all add: append_stored_def Let_def)
  show ?case
  proof (cases r1)
    case (Inl e)
    then show ?thesis using Cons.prems step one by simp
  next
    case (Inr u)
    then show ?thesis using Cons.prems Cons.IH [of w1] step one by simp
  qed
qed simp

lemma closed_object:
  assumes "NewDiskWriter now manifest opts = Inr w0"
    and "dm_Chunks manifest = []" "dm_LogicalBytes manifest = 0" "0 \<le> dm_VirtualSize manifest"
    and "write_all lib w0 qs = (Inr (), w)"
    and "\<forall>q \<in> set qs. req_ok lib (dw_codec w0) q" "fits_all lib w0 qs"
    and "Close lib w res = (Inr m, w')"
  shows "manifest_Validate m = Inr () \<and>
         map ch_Index (dm_Chunks m) = nonempty_indices qs \<and> sorted_wrt (<) (nonempty_indices qs) \<and>
         packed_from 0 (dm_Chunks m) \<and>
         list_all2 (holds_chunk lib (dw_codec w0) (dw_sent w)) (dm_Chunks m) (nonempty_plains qs) \<and>
         dm_StoredBytes m = int (length (dw_sent w)) \<and> put_written res = int (length (dw_sent w)) \<and>
         dm_DataSHA256 m = lib_sha256 lib (dw_sent w) \<and>
         dm_LogicalBytes m = logical_total (dm_Chunks m)"
proof -
  note new = NewDiskWriter_fields [OF assms(1-3), of lib]
  have inv: "writer_inv lib w (nonempty_plains qs) \<and> dw_sent w = dw_hashed w \<and> dw_codec w = dw_codec w0 \<and>
      \<not> dw_closed w \<and> map ch_Index (dm_Chunks (dw_manifest w)) = nonempty_indices qs"
    using write_all_inv [OF assms(5), of "[]"] new assms(6,7) by simp
  note cl = Close_ok [OF assms(8)]
  have chunks: "dm_Chunks m = dm_Chunks (dw_manifest w)" using cl inv by simp
  have "manifest_Validate m = Inr ()"
    using cl inv write_all_manifest [OF assms(5)] new assms(4)
    by (simp add: manifest_Validate_ok KnownCompression_iff)
  moreover have "sorted_wrt (<) (nonempty_indices qs)"
    using inv by (metis writer_inv_def)
  ultimately show ?thesis
    using inv cl unfolding chunks writer_inv_def Let_def by auto
qed

text \<open>
  C9: a closed disk object is what its manifest says. After \<open>NewDiskWriter\<close>, any sequence of
  accepted writes and a \<open>Close\<close> that succeeds, the manifest is valid for a reader; it lists the
  non-empty chunks in increasing order, stored one after another without gaps from offset zero; the
  slice of the object each entry names decodes to exactly the bytes written for it and matches its
  digest; and size and digest of the whole object are recorded.
\<close>

theorem disk_object_correct:
  assumes "NewDiskWriter now manifest opts = Inr w0"
    and "dm_Chunks manifest = []" "dm_LogicalBytes manifest = 0" "0 \<le> dm_VirtualSize manifest"
    and "write_all lib w0 qs = (Inr (), w)"
    and "\<forall>q \<in> set qs. req_ok lib (dw_codec w0) q" "fits_all lib w0 qs"
    and "Close lib w res = (Inr m, w')"
  shows "manifest_Validate m = Inr () \<and>
         map ch_Index (dm_Chunks m) = nonempty_indices qs \<and> sorted_wrt (<) (nonempty_indices qs) \<and>
         packed_from 0 (dm_Chunks m) \<and>
         list_all2 (holds_chunk lib (dw_codec w0) (dw_sent w)) (dm_Chunks m) (nonempty_plains qs) \<and>
         dm_StoredBytes m = int (length (dw_sent w)) \<and> put_written res = int (length (dw_sent w)) \<and>
         dm_DataSHA256 m = lib_sha256 lib (dw_sent w) \<and>
         dm_LogicalBytes m = logical_total (dm_Chunks m)"
  by (rule closed_object [OF assms])

definition sample_manifest :: DiskManifest where
  "sample_manifest =
     \<lparr>dm_Format = [], dm_Version = 0, dm_RunID = ''r'', dm_ChainID = ''c'', dm_ParentRunID = [],
      dm_ChainIndex = 0, dm_Type = BackupFull, dm_ServerID = ''s'', dm_VMID = ''vm'', dm_VMName = ''vm'',
      dm_DiskID = ''d'', dm_Alias = ''d'', dm_Index = 0, dm_Bootable = True, dm_Target = [], dm_Bus = [],
      dm_BootOrder = 0, dm_VirtualSize = 10, dm_DiskFormat = ''raw'', dm_ChunkSize = 0,
      dm_Compression = [], dm_Encrypted = False, dm_FromCheckpointID = [], dm_ToCheckpointID = [],
      dm_CreatedAt = 0, dm_DataKey = [], dm_DataSHA256 = [], dm_LogicalBytes = 0, dm_StoredBytes = 0,
      dm_SourceChecksum = [], dm_SourceChecksumAlgo = [], dm_SourceBlockSize = 0, dm_Chunks = []\<rparr>"

definition sample_opts :: WriterOptions where
  "sample_opts = \<lparr>wo_DataKey = ''k'', wo_ChunkSize = 4, wo_Compression = ''gzip'', wo_Level = 0,
     wo_Cipher = Some toy_cipher\<rparr>"

definition sample_req :: "int \<Rightarrow> bytes \<Rightarrow> write_req" where
  "sample_req i p = \<lparr>wr_index = i, wr_plain = p, wr_nonce = Some (replicate 12 7), wr_pipe = PipeTaken\<rparr>"

definition sample_reqs :: "write_req list" where
  "sample_reqs = [sample_req 0 [5, 5, 5, 5], sample_req 1 [], sample_req 2 [1, 2]]"

definition sample_w0 :: DiskWriter where
  "sample_w0 = projr (NewDiskWriter 0 sample_manifest sample_opts)"

lemma sample_w0_new: "NewDiskWriter 0 sample_manifest sample_opts = Inr sample_w0"
  by (simp add: NewDiskWriter_def sample_opts_def newCodec_def newGzipCompressor_def sample_w0_def)

lemma sample_encode:
  "encode toy_lib (dw_codec sample_w0) (Some (replicate 12 7)) [5, 5, 5, 5] =
     Inr (replicate 12 7 @ [8, 12, 11], replicate 4 (CHR ''x''))"
  "encode toy_lib (dw_codec sample_w0) (Some (replicate 12 7)) [1, 2] =
     Inr (replicate 12 7 @ [8, 9], replicate 2 (CHR ''x''))"
  by code_simp+

lemma sample_cipher: "cd_cipher (dw_codec sample_w0) = Some toy_cipher"
  by (simp add: sample_w0_def NewDiskWriter_def sample_opts_def newCodec_def)

lemma WriteChunk_codec: "dw_codec (snd (WriteChunk lib w i p n pipe)) = dw_codec w"
proof -
  obtain r w' where s: "WriteChunk lib w i p n pipe = (r, w')" by (cases "WriteChunk lib w i p n pipe")
  from s have "dw_codec w' = dw_codec w" by (cases rule: WriteChunk_cases) simp_all
  then show ?thesis by (simp add: s)
qed

lemma sample_fits: "fits_all toy_lib sample_w0 sample_reqs"
proof -
  define w1 where "w1 = snd (WriteChunk toy_lib sample_w0 0 [5, 5, 5, 5] (Some (replicate 12 7)) PipeTaken)"
  have codec: "dw_codec w1 = dw_codec sample_w0" unfolding w1_def by (rule WriteChunk_codec)
  have w1: "length (dw_hashed w1) = 15" "dm_LogicalBytes (dw_manifest w1) = 4" "\<not> dw_closed w1"
    unfolding w1_def by code_simp+
  have skip: "snd (WriteChunk toy_lib w1 1 [] (Some (replicate 12 7)) PipeTaken) = w1"
    using w1(3) by (simp add: WriteChunk_def Let_def)
  have empty: "encode toy_lib (dw_codec sample_w0) (Some (replicate 12 7)) [] =
      Inr (replicate 12 7, [])" by code_simp
  have start: "length (dw_hashed sample_w0) = 0" "dm_LogicalBytes (dw_manifest sample_w0) = 0"
    by code_simp+
  show ?thesis
    unfolding sample_reqs_def fits_all.simps
    by (simp add: sample_req_def w1_def [symmetric] skip codec w1 start sample_encode empty write_fits_def)
qed

theorem disk_object_correct_witness:
  "\<exists>w m w'. write_all toy_lib sample_w0 sample_reqs = (Inr (), w) \<and>
     Close toy_lib w \<lparr>put_written = 29, put_err = None\<rparr> = (Inr m, w') \<and>
     map ch_Index (dm_Chunks m) = [0, 2] \<and> packed_from 0 (dm_Chunks m) \<and>
     list_all2 (holds_chunk toy_lib (dw_codec sample_w0) (dw_sent w)) (dm_Chunks m) [[5, 5, 5, 5], [1, 2]]"
proof -
  define w where "w = snd (write_all toy_lib sample_w0 sample_reqs)"
  define res where "res = \<lparr>put_written = 29, put_err = None :: string option\<rparr>"
  have "fst (write_all toy_lib sample_w0 sample_reqs) = Inr ()" by code_simp
  then have all: "write_all toy_lib sample_w0 sample_reqs = (Inr (), w)"
    by (metis prod.collapse w_def)
  have "isl (fst (Close toy_lib w res)) = False" unfolding w_def res_def by code_simp
  then obtain m w' where cl: "Close toy_lib w res = (Inr m, w')"
    by (metis prod.collapse sum.collapse(2))
  have ok: "\<forall>q \<in> set sample_reqs. req_ok toy_lib (dw_codec sample_w0) q"
    by (simp add: sample_reqs_def sample_req_def req_ok_def toy_lib_inverts sample_cipher
        toy_cipher_inverts NonceSize_def)
  have "nonempty_indices sample_reqs = [0, 2]" "nonempty_plains sample_reqs = [[5, 5, 5, 5], [1, 2]]"
    by (simp_all add: nonempty_indices_def nonempty_plains_def sample_reqs_def sample_req_def)
  then show ?thesis
    using disk_object_correct [OF sample_w0_new _ _ _ all ok sample_fits cl] all cl
    unfolding res_def by (auto simp: sample_manifest_def)
qed

end
