(* ===== verification/ChainReader.thy ===== *)
theory ChainReader
  imports DiskWriter "HOL-Library.Multiset"
begin

text \<open>
  Reading a chain of backups as one image (\<open>internal/backup/reader.go\<close>): the effective part of the
  chain, the owner of each chunk, the grouping of neighbouring chunks into batches with their cache,
  the ordered stream of the whole image and random access to it.

  A repository is a record of functions: what \<open>GetRange\<close>, \<open>Stat\<close> and \<open>Get\<close> deliver for a key. The
  pointer to a batch is its number within its manifest, so that the pointer comparison of the code is
  a comparison of numbers.
\<close>

section \<open>Data\<close>

record backend =
  be_GetRange :: "string \<Rightarrow> int \<Rightarrow> int \<Rightarrow> string + bytes"
  be_Stat :: "string \<Rightarrow> string + int"
  be_Get :: "string \<Rightarrow> string + bytes"

record batch =
  b_start :: int
  b_length :: int
  b_first :: int

record ChainReader =
  cr_manifests :: "DiskManifest list"
  cr_codecs :: "codec list"
  cr_chunkSize :: int
  cr_virtualSize :: int
  cr_owner :: "int \<rightharpoonup> nat"
  cr_chunkAt :: "(int \<rightharpoonup> Chunk) list"
  cr_batches :: "((int \<rightharpoonup> nat) \<times> batch list) list"
  cr_cache :: "nat \<rightharpoonup> nat \<times> bytes"

datatype read_error =
    EmptyChain
  | BadManifest string manifest_error
  | MixedChunkSize int int
  | KeyMissing string
  | ReaderCodec codec_error
  | FetchFailed string int int string
  | ShortObject string int int
  | ChunkOutOfBatch int string
  | ChunkCorrupt int string codec_error
  | ReadPanic
  | Canceled
  | NegativeOffset int
  | ShortChunk int
  | EOF

definition maxBatchBytes :: int where
  "maxBatchBytes = 32 * 1024 * 1024"

section \<open>Opening a chain\<close>

fun last_base :: "DiskManifest list \<Rightarrow> nat \<Rightarrow> nat option" where
  "last_base ms 0 = None"
| "last_base ms (Suc i) =
     (let t = dm_Type (ms ! Suc i) in
      if t = BackupFull \<or> t = BackupSnapshot then Some (Suc i) else last_base ms i)"

definition EffectiveChain :: "DiskManifest list \<Rightarrow> DiskManifest list" where
  "EffectiveChain ms = (case last_base ms (length ms - 1) of None \<Rightarrow> ms | Some i \<Rightarrow> drop i ms)"

definition add_chunks :: "nat \<Rightarrow> Chunk list \<Rightarrow> (int \<rightharpoonup> Chunk) \<times> (int \<rightharpoonup> nat) \<Rightarrow> (int \<rightharpoonup> Chunk) \<times> (int \<rightharpoonup> nat)" where
  "add_chunks i cs st = foldl (\<lambda>(byIndex, owner) ch. (byIndex(ch_Index ch \<mapsto> ch), owner(ch_Index ch \<mapsto> i))) st cs"

definition reader_codec :: "Cipher option \<Rightarrow> DiskManifest \<Rightarrow> read_error + codec" where
  "reader_codec cipher m =
     (case (if dm_Encrypted m then
              (case cipher of None \<Rightarrow> Inl (KeyMissing (dm_RunID m)) | Some ci \<Rightarrow> Inr (Some ci))
            else Inr None) of
        Inl e \<Rightarrow> Inl e
      | Inr ci \<Rightarrow> (case newCodec (dm_Compression m) 3 ci of Inl e \<Rightarrow> Inl (ReaderCodec e) | Inr c \<Rightarrow> Inr c))"

fun load_manifests :: "Cipher option \<Rightarrow> nat \<Rightarrow> DiskManifest list \<Rightarrow> ChainReader \<Rightarrow> read_error + ChainReader" where
  "load_manifests cipher i [] r = Inr r"
| "load_manifests cipher i (m # ms) r =
     (case manifest_Validate m of
        Inl e \<Rightarrow> Inl (BadManifest (dm_RunID m) e)
      | Inr _ \<Rightarrow>
          if i \<noteq> 0 \<and> dm_ChunkSize m \<noteq> cr_chunkSize r
          then Inl (MixedChunkSize (dm_ChunkSize m) (cr_chunkSize r))
          else case reader_codec cipher m of
                 Inl e \<Rightarrow> Inl e
               | Inr c \<Rightarrow>
                   let (byIndex, owner) = add_chunks i (dm_Chunks m) (Map.empty, cr_owner r)
                   in load_manifests cipher (Suc i) ms
                        (r\<lparr>cr_chunkSize := (if i = 0 then dm_ChunkSize m else cr_chunkSize r),
                           cr_virtualSize := (if dm_VirtualSize m > cr_virtualSize r then dm_VirtualSize m
                                              else cr_virtualSize r),
                           cr_codecs := cr_codecs r @ [c],
                           cr_owner := owner,
                           cr_chunkAt := cr_chunkAt r @ [byIndex]\<rparr>))"

text \<open>
  The chunks a manifest answers for after merging, in the order of the object. The code collects them
  from a map, in an order Go leaves open, and then sorts by offset.
\<close>

definition needed :: "ChainReader \<Rightarrow> nat \<Rightarrow> Chunk list" where
  "needed r mi = sort_key ch_BlobOffset
     (map (\<lambda>i. the ((cr_chunkAt r ! mi) i))
       (filter (\<lambda>i. cr_owner r i = Some mi) (remdups (map ch_Index (dm_Chunks (cr_manifests r ! mi))))))"

text \<open>The current batch is the last one of the list.\<close>

definition adjacent :: "batch list \<Rightarrow> Chunk \<Rightarrow> bool" where
  "adjacent bs ch \<longleftrightarrow>
     bs \<noteq> [] \<and> wrap64 (b_start (last bs) + b_length (last bs)) = ch_BlobOffset ch \<and>
     wrap64 (b_length (last bs) + ch_StoredLength ch) \<le> maxBatchBytes"

fun batch_loop :: "Chunk list \<Rightarrow> (int \<rightharpoonup> nat) \<times> batch list \<Rightarrow> (int \<rightharpoonup> nat) \<times> batch list" where
  "batch_loop [] st = st"
| "batch_loop (ch # chs) (groups, bs) =
     (let bs1 = (if adjacent bs ch then bs
                 else bs @ [\<lparr>b_start = ch_BlobOffset ch, b_length = 0, b_first = ch_Index ch\<rparr>]);
          k = length bs1 - 1;
          cur = bs1 ! k
      in batch_loop chs
           (groups(ch_Index ch \<mapsto> k),
            bs1[k := cur\<lparr>b_length := wrap64 (b_length cur + ch_StoredLength ch)\<rparr>]))"

definition buildBatches :: "ChainReader \<Rightarrow> ChainReader" where
  "buildBatches r =
     r\<lparr>cr_batches := map (\<lambda>mi. batch_loop (needed r mi) (Map.empty, [])) [0..<length (cr_manifests r)]\<rparr>"

definition NewChainReader :: "Cipher option \<Rightarrow> DiskManifest list \<Rightarrow> read_error + ChainReader" where
  "NewChainReader cipher ms0 =
     (if ms0 = [] then Inl EmptyChain
      else let ms = EffectiveChain ms0;
               r = \<lparr>cr_manifests = ms, cr_codecs = [], cr_chunkSize = 0, cr_virtualSize = 0,
                    cr_owner = Map.empty, cr_chunkAt = [], cr_batches = [], cr_cache = Map.empty\<rparr>
           in bindR (load_manifests cipher 0 ms r) (\<lambda>r. Inr (buildBatches r)))"

definition reader_GridChunks :: "ChainReader \<Rightarrow> int" where
  "reader_GridChunks r =
     (if cr_chunkSize r \<le> 0 then 0
      else go_div (wrap64 (wrap64 (cr_virtualSize r + cr_chunkSize r) - 1)) (cr_chunkSize r))"

definition reader_ChunkLength :: "ChainReader \<Rightarrow> int \<Rightarrow> int" where
  "reader_ChunkLength r index =
     (let offset = wrap64 (index * cr_chunkSize r) in
      if offset \<ge> cr_virtualSize r then 0
      else let remaining = cr_virtualSize r - offset in
           if wrap64 remaining < cr_chunkSize r then wrap64 remaining else cr_chunkSize r)"

section \<open>Reading chunks\<close>

text \<open>\<open>io.ReadFull\<close> needs exactly \<open>length\<close> bytes; allocating a negative length panics.\<close>

definition fetch :: "backend \<Rightarrow> ChainReader \<Rightarrow> nat \<Rightarrow> int \<Rightarrow> int \<Rightarrow> read_error + bytes" where
  "fetch be r mi offset len =
     (let key = dm_DataKey (cr_manifests r ! mi) in
      case be_GetRange be key offset len of
        Inl e \<Rightarrow> Inl (FetchFailed key offset len e)
      | Inr body \<Rightarrow>
          if len < 0 then Inl ReadPanic
          else if int (length body) < len then Inl (ShortObject key offset len)
          else Inr (take (nat len) body))"

definition storedBytes :: "backend \<Rightarrow> ChainReader \<Rightarrow> nat \<Rightarrow> Chunk \<Rightarrow> (read_error + bytes) \<times> ChainReader" where
  "storedBytes be r mi ch =
     (case fst (cr_batches r ! mi) (ch_Index ch) of
        None \<Rightarrow> (fetch be r mi (ch_BlobOffset ch) (ch_StoredLength ch), r)
      | Some g \<Rightarrow>
          let b = snd (cr_batches r ! mi) ! g;
              loaded =
                (case cr_cache r mi of
                   Some (g', data) \<Rightarrow> if g' = g then Inr (data, r)
                     else bindR (fetch be r mi (b_start b) (b_length b))
                            (\<lambda>data. Inr (data, r\<lparr>cr_cache := (cr_cache r)(mi \<mapsto> (g, data))\<rparr>))
                 | None \<Rightarrow> bindR (fetch be r mi (b_start b) (b_length b))
                            (\<lambda>data. Inr (data, r\<lparr>cr_cache := (cr_cache r)(mi \<mapsto> (g, data))\<rparr>)))
          in case loaded of
               Inl e \<Rightarrow> (Inl e, r)
             | Inr (data, r') \<Rightarrow>
                 let from = wrap64 (ch_BlobOffset ch - b_start b);
                     to = wrap64 (from + ch_StoredLength ch)
                 in if from < 0 \<or> to > int (length data)
                    then (Inl (ChunkOutOfBatch (ch_Index ch) (dm_DataKey (cr_manifests r ! mi))), r')
                    else if to < from then (Inl ReadPanic, r')
                    else (Inr (slice data from (to - from)), r'))"

definition ReadChunk ::
  "complib \<Rightarrow> backend \<Rightarrow> ChainReader \<Rightarrow> int \<Rightarrow> (read_error + bytes option) \<times> ChainReader" where
  "ReadChunk lib be r index =
     (case cr_owner r index of
        None \<Rightarrow> (Inr None, r)
      | Some mi \<Rightarrow>
          let ch = (case (cr_chunkAt r ! mi) index of Some c \<Rightarrow> c
                    | None \<Rightarrow> \<lparr>ch_Index = 0, ch_Length = 0, ch_BlobOffset = 0, ch_StoredLength = 0, ch_Hash = []\<rparr>)
          in case storedBytes be r mi ch of
               (Inl e, r') \<Rightarrow> (Inl e, r')
             | (Inr stored, r') \<Rightarrow>
                 (case decode lib (cr_codecs r ! mi) stored (ch_Length ch) of
                    Inl e \<Rightarrow> (Inl (ChunkCorrupt index (dm_RunID (cr_manifests r ! mi)) e), r')
                  | Inr plain \<Rightarrow>
                      (case verifyDigest lib plain (ch_Hash ch) of
                         Inl e \<Rightarrow> (Inl (ChunkCorrupt index (dm_RunID (cr_manifests r ! mi)) e), r')
                       | Inr _ \<Rightarrow> (Inr (Some plain), r'))))"

text \<open>An empty Go slice that is not nil is data, a nil slice is a hole; \<open>decode\<close> of a chunk of length
  zero returns a non-nil slice in every branch, so the option keeps the difference.\<close>

section \<open>Streaming\<close>

text \<open>A call of the sink: data at an offset, or a zero region.\<close>

datatype sink_call = SinkData int bytes | SinkZeros int int

text \<open>
  \<open>sink\<close> is the consumer with its own state, \<open>ctx_err i\<close> whether the context is cancelled at the
  start of iteration \<open>i\<close>. The progress and observer callbacks do not influence the stream.
\<close>

definition flushZeros ::
  "(sink_call \<Rightarrow> 's \<Rightarrow> 'e + 's) \<Rightarrow> int \<times> int \<Rightarrow> 's \<Rightarrow> 'e + 's" where
  "flushZeros sink z s = (if fst z < 0 then Inr s else sink (SinkZeros (fst z) (snd z)) s)"

function stream_loop ::
  "complib \<Rightarrow> backend \<Rightarrow> (int \<Rightarrow> bool) \<Rightarrow> (sink_call \<Rightarrow> 's \<Rightarrow> read_error + 's) \<Rightarrow> int \<Rightarrow> int \<Rightarrow> int \<times> int \<Rightarrow>
   ChainReader \<Rightarrow> 's \<Rightarrow> (read_error + 's) \<times> ChainReader" where
  "stream_loop lib be ctx_err sink n i z r s =
     (if i < n then
        (if ctx_err i then (Inl Canceled, r)
         else let offset = wrap64 (i * cr_chunkSize r); len = reader_ChunkLength r i in
           case ReadChunk lib be r i of
             (Inl e, r') \<Rightarrow> (Inl e, r')
           | (Inr None, r') \<Rightarrow>
               stream_loop lib be ctx_err sink n (i + 1)
                 (if fst z < 0 then offset else fst z, wrap64 (snd z + len)) r' s
           | (Inr (Some data), r') \<Rightarrow>
               (case bindR (flushZeros sink z s) (sink (SinkData offset data)) of
                  Inl e \<Rightarrow> (Inl e, r')
                | Inr s' \<Rightarrow> stream_loop lib be ctx_err sink n (i + 1)
                              (if fst z < 0 then z else (-1, 0)) r' s'))
      else (flushZeros sink z s, r))"
  by pat_completeness auto
termination
  by (relation "measure (\<lambda>(lib, be, ctx_err, sink, n, i, z, r, s). nat (n - i))") auto

definition stream ::
  "complib \<Rightarrow> backend \<Rightarrow> (int \<Rightarrow> bool) \<Rightarrow> (sink_call \<Rightarrow> 's \<Rightarrow> read_error + 's) \<Rightarrow> ChainReader \<Rightarrow> 's \<Rightarrow>
   (read_error + 's) \<times> ChainReader" where
  "stream lib be ctx_err sink r s = stream_loop lib be ctx_err sink (reader_GridChunks r) 0 (-1, 0) r s"

section \<open>Random access\<close>

text \<open>
  \<open>ReadAt\<close> of the adapter returns the bytes it filled and the error, \<open>None\<close> for nil; the rest of
  the caller's buffer is untouched. Nothing in the loop itself bounds it, so it is a partial function;
  \<open>None\<close> of the outer option is a loop that does not end. \<open>ctx_err k\<close> is whether the context is
  cancelled when \<open>k\<close> bytes have been filled.
\<close>

partial_function (option) read_at_loop ::
  "complib \<Rightarrow> backend \<Rightarrow> (nat \<Rightarrow> bool) \<Rightarrow> int \<Rightarrow> int \<Rightarrow> ChainReader \<Rightarrow> bytes \<Rightarrow>
   (read_error option \<times> bytes \<times> ChainReader) option" where
  "read_at_loop lib be ctx_err off want r filled =
     (if int (length filled) < want then
        (if ctx_err (length filled) then Some (Some Canceled, filled, r)
         else let position = wrap64 (off + int (length filled));
                  index = go_div position (cr_chunkSize r);
                  within = go_mod position (cr_chunkSize r);
                  chunkLen = reader_ChunkLength r index in
           if chunkLen \<le> 0 then Some (None, filled, r)
           else let n = min (chunkLen - within) (want - int (length filled)) in
             case ReadChunk lib be r index of
               (Inl e, r') \<Rightarrow> Some (Some e, filled, r')
             | (Inr None, r') \<Rightarrow>
                 read_at_loop lib be ctx_err off want r' (filled @ replicate (nat n) 0)
             | (Inr (Some data), r') \<Rightarrow>
                 if within + n > int (length data) then Some (Some (ShortChunk index), filled, r')
                 else read_at_loop lib be ctx_err off want r' (filled @ slice data within n))
      else Some (None, filled, r))"

declare read_at_loop.simps [code]

definition chain_ReadAt ::
  "complib \<Rightarrow> backend \<Rightarrow> (nat \<Rightarrow> bool) \<Rightarrow> ChainReader \<Rightarrow> int \<Rightarrow> int \<Rightarrow>
   (read_error option \<times> bytes \<times> ChainReader) option" where
  "chain_ReadAt lib be ctx_err r plen off =
     (if off < 0 then Some (Some (NegativeOffset off), [], r)
      else if off \<ge> cr_virtualSize r then Some (Some EOF, [], r)
      else let truncated = wrap64 (off + plen) > cr_virtualSize r;
               want = (if truncated then cr_virtualSize r - off else plen)
           in case read_at_loop lib be ctx_err off want r [] of
                None \<Rightarrow> None
              | Some (Some e, filled, r') \<Rightarrow> Some (Some e, filled, r')
              | Some (None, filled, r') \<Rightarrow>
                  if truncated \<or> int (length filled) < plen then Some (Some EOF, filled, r')
                  else Some (None, filled, r'))"

section \<open>Whole-object verification\<close>

datatype verify_error =
    NoDigest string
  | StatFailed string
  | WrongSize string int int
  | GetFailed string
  | WrongDigest string string string

definition VerifyDataObject :: "complib \<Rightarrow> backend \<Rightarrow> DiskManifest \<Rightarrow> verify_error + unit" where
  "VerifyDataObject lib be m =
     (if dm_DataSHA256 m = '''' then Inl (NoDigest (dm_RunID m))
      else case be_Stat be (dm_DataKey m) of
        Inl e \<Rightarrow> Inl (StatFailed e)
      | Inr size_b \<Rightarrow>
          if size_b \<noteq> dm_StoredBytes m then Inl (WrongSize (dm_DataKey m) size_b (dm_StoredBytes m))
          else case be_Get be (dm_DataKey m) of
            Inl e \<Rightarrow> Inl (GetFailed e)
          | Inr body \<Rightarrow>
              let got = lib_sha256 lib body in
              if got \<noteq> dm_DataSHA256 m then Inl (WrongDigest (dm_DataKey m) got (dm_DataSHA256 m))
              else Inr ())"

section \<open>The merged image\<close>

text \<open>
  The reference: each manifest of the effective chain gives a partial map from chunk numbers to
  bytes, and the newest one that has a chunk wins.
\<close>

definition resolve :: "(int \<rightharpoonup> bytes) list \<Rightarrow> int \<Rightarrow> bytes option" where
  "resolve pms i = foldl (\<lambda>acc pm. case pm i of Some p \<Rightarrow> Some p | None \<Rightarrow> acc) None pms"

lemma resolve_simps [simp]:
  "resolve [] i = None"
  "resolve (pms @ [pm]) i = (case pm i of Some p \<Rightarrow> Some p | None \<Rightarrow> resolve pms i)"
  unfolding resolve_def by simp_all

text \<open>What a repository holds for one manifest: every chunk it lists, decodable by the manifest's
  codec from the object under its key.\<close>

definition object_holds :: "complib \<Rightarrow> codec \<Rightarrow> bytes \<Rightarrow> DiskManifest \<Rightarrow> (int \<rightharpoonup> bytes) \<Rightarrow> bool" where
  "object_holds lib cd blob m pm \<longleftrightarrow>
     distinct (map ch_Index (dm_Chunks m)) \<and> dom pm = ch_Index ` set (dm_Chunks m) \<and>
     (\<forall>c \<in> set (dm_Chunks m). \<exists>p. pm (ch_Index c) = Some p \<and> holds_chunk lib cd blob c p)"

definition serves :: "backend \<Rightarrow> string \<Rightarrow> bytes \<Rightarrow> bool" where
  "serves be key blob \<longleftrightarrow>
     (\<forall>off len. 0 \<le> off \<longrightarrow> 0 \<le> len \<longrightarrow> off + len \<le> int (length blob) \<longrightarrow>
        be_GetRange be key off len = Inr (slice blob off len))"

section \<open>What opening a chain establishes\<close>

fun owner_of :: "DiskManifest list \<Rightarrow> nat \<Rightarrow> int \<Rightarrow> nat option" where
  "owner_of ms 0 i = None"
| "owner_of ms (Suc k) i = (if i \<in> ch_Index ` set (dm_Chunks (ms ! k)) then Some k else owner_of ms k i)"

lemma owner_of_Some: "owner_of ms k i = Some mi \<Longrightarrow> mi < k \<and> i \<in> ch_Index ` set (dm_Chunks (ms ! mi))"
  by (induction k) (auto split: if_splits)

lemma add_chunks_simps:
  "add_chunks k [] st = st"
  "add_chunks k (cs @ [c]) st =
     ((fst (add_chunks k cs st))(ch_Index c \<mapsto> c), (snd (add_chunks k cs st))(ch_Index c \<mapsto> k))"
  by (simp_all add: add_chunks_def split: prod.split)

lemma add_chunks_owner:
  "snd (add_chunks k cs st) x = (if x \<in> ch_Index ` set cs then Some k else snd st x)"
  by (induction cs rule: rev_induct) (auto simp: add_chunks_simps)

lemma add_chunks_byIndex:
  "distinct (map ch_Index cs) \<Longrightarrow> c \<in> set cs \<Longrightarrow> fst (add_chunks k cs st) (ch_Index c) = Some c"
proof (induction cs rule: rev_induct)
  case (snoc d cs)
  then show ?case by (cases "c = d") (auto simp: add_chunks_simps, metis image_eqI)
qed simp

definition loaded_inv :: "Cipher option \<Rightarrow> DiskManifest list \<Rightarrow> nat \<Rightarrow> ChainReader \<Rightarrow> bool" where
  "loaded_inv cipher ms k r \<longleftrightarrow>
     length (cr_codecs r) = k \<and> length (cr_chunkAt r) = k \<and> cr_owner r = owner_of ms k \<and>
     (\<forall>j < k. manifest_Validate (ms ! j) = Inr () \<and> reader_codec cipher (ms ! j) = Inr (cr_codecs r ! j) \<and>
        dm_ChunkSize (ms ! j) = cr_chunkSize r \<and> dm_VirtualSize (ms ! j) \<le> cr_virtualSize r \<and>
        (\<exists>o'. cr_chunkAt r ! j = fst (add_chunks j (dm_Chunks (ms ! j)) (Map.empty, o')))) \<and>
     (cr_virtualSize r = 0 \<or> (\<exists>j < k. cr_virtualSize r = dm_VirtualSize (ms ! j)))"

lemma loaded_inv_step:
  assumes inv: "loaded_inv cipher ms k r" and m: "ms ! k = m"
    and ok: "manifest_Validate m = Inr ()" "reader_codec cipher m = Inr c"
    and cs: "k = 0 \<or> dm_ChunkSize m = cr_chunkSize r"
    and r': "r' = r\<lparr>cr_chunkSize := (if k = 0 then dm_ChunkSize m else cr_chunkSize r),
                 cr_virtualSize := (if dm_VirtualSize m > cr_virtualSize r then dm_VirtualSize m
                                    else cr_virtualSize r),
                 cr_codecs := cr_codecs r @ [c],
                 cr_owner := snd (add_chunks k (dm_Chunks m) (Map.empty, cr_owner r)),
                 cr_chunkAt := cr_chunkAt r @ [fst (add_chunks k (dm_Chunks m) (Map.empty, cr_owner r))]\<rparr>"
  shows "loaded_inv cipher ms (Suc k) r'"
proof -
  have len: "length (cr_codecs r) = k" "length (cr_chunkAt r) = k" and own: "cr_owner r = owner_of ms k"
    using inv by (auto simp: loaded_inv_def)
  have "cr_owner r' = owner_of ms (Suc k)"
    by (simp add: r' fun_eq_iff add_chunks_owner own m)
  moreover have "manifest_Validate (ms ! j) = Inr () \<and> reader_codec cipher (ms ! j) = Inr (cr_codecs r' ! j) \<and>
        dm_ChunkSize (ms ! j) = cr_chunkSize r' \<and> dm_VirtualSize (ms ! j) \<le> cr_virtualSize r' \<and>
        (\<exists>o'. cr_chunkAt r' ! j = fst (add_chunks j (dm_Chunks (ms ! j)) (Map.empty, o')))"
    if "j < Suc k" for j
  proof (cases "j = k")
    case True
    then show ?thesis using ok m len cs by (auto simp: r' nth_append)
  next
    case False
    with that have j: "j < k" by simp
    then have "manifest_Validate (ms ! j) = Inr () \<and> reader_codec cipher (ms ! j) = Inr (cr_codecs r ! j) \<and>
        dm_ChunkSize (ms ! j) = cr_chunkSize r \<and> dm_VirtualSize (ms ! j) \<le> cr_virtualSize r \<and>
        (\<exists>o'. cr_chunkAt r ! j = fst (add_chunks j (dm_Chunks (ms ! j)) (Map.empty, o')))"
      using inv by (simp add: loaded_inv_def)
    then show ?thesis using j len cs by (auto simp: r' nth_append)
  qed
  moreover have "cr_virtualSize r' = 0 \<or> (\<exists>j < Suc k. cr_virtualSize r' = dm_VirtualSize (ms ! j))"
  proof (cases "dm_VirtualSize m > cr_virtualSize r")
    case True
    then show ?thesis using m by (auto simp: r')
  next
    case False
    then show ?thesis using inv by (auto simp: r' loaded_inv_def less_Suc_eq)
  qed
  ultimately show ?thesis by (simp add: loaded_inv_def r' len)
qed

lemma load_manifests_inv:
  assumes "load_manifests cipher k ms2 r = Inr r'" "k + length ms2 = length ms" "ms2 = drop k ms"
    and "loaded_inv cipher ms k r"
  shows "loaded_inv cipher ms (length ms) r' \<and> cr_manifests r' = cr_manifests r \<and> cr_cache r' = cr_cache r"
  using assms
proof (induction ms2 arbitrary: k r)
  case Nil
  then show ?case by simp
next
  case (Cons m ms2)
  have m: "ms ! k = m" and tl: "ms2 = drop (Suc k) ms"
    using Cons.prems(3) by (metis nth_via_drop, metis drop_Suc tl_drop list.sel(3))
  obtain c where ok: "manifest_Validate m = Inr ()" "reader_codec cipher m = Inr c"
    and cs: "k = 0 \<or> dm_ChunkSize m = cr_chunkSize r"
    and rest: "load_manifests cipher (Suc k) ms2
       (r\<lparr>cr_chunkSize := (if k = 0 then dm_ChunkSize m else cr_chunkSize r),
          cr_virtualSize := (if dm_VirtualSize m > cr_virtualSize r then dm_VirtualSize m
                             else cr_virtualSize r),
          cr_codecs := cr_codecs r @ [c],
          cr_owner := snd (add_chunks k (dm_Chunks m) (Map.empty, cr_owner r)),
          cr_chunkAt := cr_chunkAt r @ [fst (add_chunks k (dm_Chunks m) (Map.empty, cr_owner r))]\<rparr>) = Inr r'"
    using Cons.prems(1) by (auto simp: case_prod_beta Let_def split: sum.splits if_splits)
  show ?case
    using Cons.IH [OF rest _ tl loaded_inv_step [OF Cons.prems(4) m ok cs refl]] Cons.prems(2) by simp
qed

section \<open>Batches cover the chunks they serve\<close>

definition in_object :: "int \<Rightarrow> Chunk \<Rightarrow> bool" where
  "in_object n c \<longleftrightarrow> 0 \<le> ch_BlobOffset c \<and> 0 \<le> ch_StoredLength c \<and> ch_BlobOffset c + ch_StoredLength c \<le> n"

definition in_batch :: "batch \<Rightarrow> Chunk \<Rightarrow> bool" where
  "in_batch b c \<longleftrightarrow> b_start b \<le> ch_BlobOffset c \<and>
     ch_BlobOffset c + ch_StoredLength c \<le> b_start b + b_length b"

definition batches_ok :: "int \<Rightarrow> Chunk set \<Rightarrow> (int \<rightharpoonup> nat) \<times> batch list \<Rightarrow> bool" where
  "batches_ok n cs st \<longleftrightarrow>
     (\<forall>b \<in> set (snd st). 0 \<le> b_start b \<and> 0 \<le> b_length b \<and> b_start b + b_length b \<le> n) \<and>
     (\<forall>c \<in> cs. \<exists>g < length (snd st). fst st (ch_Index c) = Some g \<and> in_batch (snd st ! g) c)"

lemma batch_step_ok:
  assumes ok: "batches_ok n cs (groups, bs)" and n: "n < 9223372036854775808"
    and ch: "in_object n ch" "ch_Index ch \<notin> ch_Index ` cs"
    and bs1: "bs1 = (if adjacent bs ch then bs
       else bs @ [\<lparr>b_start = ch_BlobOffset ch, b_length = 0, b_first = ch_Index ch\<rparr>])"
    and k: "k = length bs1 - 1" and cur: "cur = bs1 ! k"
  shows "batches_ok n (insert ch cs) (groups(ch_Index ch \<mapsto> k),
     bs1[k := cur\<lparr>b_length := wrap64 (b_length cur + ch_StoredLength ch)\<rparr>])"
proof -
  define bs2 where "bs2 = bs1[k := cur\<lparr>b_length := wrap64 (b_length cur + ch_StoredLength ch)\<rparr>]"
  have ne: "bs1 \<noteq> []" using bs1 by (auto simp: adjacent_def)
  then have kl: "k < length bs1" using k by simp
  have all: "0 \<le> b_start b \<and> 0 \<le> b_length b \<and> b_start b + b_length b \<le> n" if "b \<in> set bs1" for b
    using that ok ch(1) by (auto simp: bs1 batches_ok_def in_object_def split: if_splits)
  have cb: "0 \<le> b_start cur" "0 \<le> b_length cur" "b_start cur + b_length cur = ch_BlobOffset ch"
  proof -
    show c: "0 \<le> b_start cur" "0 \<le> b_length cur" using all [of cur] kl cur by auto
    have lc: "cur = last bs1" using cur k ne by (simp add: last_conv_nth)
    have "b_start cur + b_length cur \<le> n" using all [of cur] kl cur by auto
    then have w: "wrap64 (b_start cur + b_length cur) = b_start cur + b_length cur"
      using c n by (simp add: go_arith)
    show "b_start cur + b_length cur = ch_BlobOffset ch"
    proof (cases "adjacent bs ch")
      case True
      then have "cur = last bs" using lc bs1 by simp
      then show ?thesis using True w by (simp add: adjacent_def)
    next
      case False
      then have "cur = \<lparr>b_start = ch_BlobOffset ch, b_length = 0, b_first = ch_Index ch\<rparr>"
        using lc bs1 by simp
      then show ?thesis by simp
    qed
  qed
  then have len: "wrap64 (b_length cur + ch_StoredLength ch) = b_length cur + ch_StoredLength ch"
    using ch(1) n by (simp add: in_object_def go_arith)
  have grow: "in_batch (bs2 ! g) c" if "g < length bs1" "in_batch (bs1 ! g) c" for g c
  proof (cases "g = k")
    case True
    then have "bs2 ! g = cur\<lparr>b_length := b_length cur + ch_StoredLength ch\<rparr>" "bs1 ! g = cur"
      using kl cur len by (simp_all add: bs2_def)
    then show ?thesis using that(2) ch(1) unfolding in_batch_def in_object_def by simp
  next
    case False
    then have "bs2 ! g = bs1 ! g" by (simp add: bs2_def)
    then show ?thesis using that(2) by simp
  qed
  have bounds: "0 \<le> b_start b \<and> 0 \<le> b_length b \<and> b_start b + b_length b \<le> n" if "b \<in> set bs2" for b
  proof -
    have "b \<in> insert (cur\<lparr>b_length := wrap64 (b_length cur + ch_StoredLength ch)\<rparr>) (set bs1)"
      using that set_update_subset_insert [of bs1 k] unfolding bs2_def by fast
    then consider "b = cur\<lparr>b_length := b_length cur + ch_StoredLength ch\<rparr>" | "b \<in> set bs1"
      unfolding len by fast
    then show ?thesis
    proof cases
      case 1
      then show ?thesis using cb ch(1) by (simp add: in_object_def)
    next
      case 2
      then show ?thesis by (rule all)
    qed
  qed
  have here: "in_batch (bs2 ! k) ch" using kl cb len by (simp add: bs2_def in_batch_def)
  have old: "\<exists>g < length bs2. (groups(ch_Index ch \<mapsto> k)) (ch_Index c) = Some g \<and> in_batch (bs2 ! g) c"
    if c: "c \<in> cs" for c
  proof -
    obtain g where g: "g < length bs" "groups (ch_Index c) = Some g" "in_batch (bs ! g) c"
      using ok c by (auto simp: batches_ok_def)
    have "g < length bs1" "bs1 ! g = bs ! g" using g(1) by (auto simp: bs1 nth_append)
    moreover have "ch_Index c \<noteq> ch_Index ch" using ch(2) c by (metis image_eqI)
    ultimately show ?thesis using g grow [of g c] by (intro exI [of _ g]) (simp add: bs2_def)
  qed
  show ?thesis
    using bounds here old kl unfolding batches_ok_def bs2_def [symmetric]
    by (auto simp: bs2_def)
qed

lemma batch_loop_ok:
  assumes "batches_ok n cs (groups, bs)" "n < 9223372036854775808"
    and "\<forall>ch \<in> set chs. in_object n ch" "distinct (map ch_Index chs)"
    and "ch_Index ` cs \<inter> ch_Index ` set chs = {}"
  shows "batches_ok n (cs \<union> set chs) (batch_loop chs (groups, bs))"
  using assms
proof (induction chs arbitrary: groups bs cs)
  case Nil
  then show ?case by simp
next
  case (Cons ch chs)
  define bs1 where "bs1 = (if adjacent bs ch then bs
       else bs @ [\<lparr>b_start = ch_BlobOffset ch, b_length = 0, b_first = ch_Index ch\<rparr>])"
  define k where "k = length bs1 - 1"
  have step: "batches_ok n (insert ch cs) (groups(ch_Index ch \<mapsto> k),
     bs1[k := (bs1 ! k)\<lparr>b_length := wrap64 (b_length (bs1 ! k) + ch_StoredLength ch)\<rparr>])"
    using Cons.prems by (intro batch_step_ok [OF _ _ _ _ bs1_def k_def refl]) auto
  have "batches_ok n (insert ch cs \<union> set chs) (batch_loop chs (groups(ch_Index ch \<mapsto> k),
     bs1[k := (bs1 ! k)\<lparr>b_length := wrap64 (b_length (bs1 ! k) + ch_StoredLength ch)\<rparr>]))"
    using Cons.prems by (intro Cons.IH [OF step]) auto
  then show ?case
    unfolding batch_loop.simps Let_def bs1_def [symmetric] k_def [symmetric] by simp
qed

section \<open>Reading through batches and cache equals reading the newest copy\<close>

text \<open>
  A chain as the repository holds it: \<open>pms ! j\<close> gives the plain chunks of the \<open>j\<close>-th manifest of the
  effective chain and \<open>blobs ! j\<close> its data object.
\<close>

definition chain_stored ::
  "complib \<Rightarrow> backend \<Rightarrow> Cipher option \<Rightarrow> DiskManifest list \<Rightarrow> bytes list \<Rightarrow> (int \<rightharpoonup> bytes) list \<Rightarrow> bool" where
  "chain_stored lib be cipher ms blobs pms \<longleftrightarrow>
     length blobs = length ms \<and> length pms = length ms \<and>
     (\<forall>j < length ms. int (length (blobs ! j)) < 9223372036854775808 \<and>
        serves be (dm_DataKey (ms ! j)) (blobs ! j) \<and>
        (\<forall>cd. reader_codec cipher (ms ! j) = Inr cd \<longrightarrow> object_holds lib cd (blobs ! j) (ms ! j) (pms ! j)))"

definition cache_ok :: "bytes list \<Rightarrow> ChainReader \<Rightarrow> bool" where
  "cache_ok blobs r \<longleftrightarrow>
     (\<forall>mi g data. cr_cache r mi = Some (g, data) \<longrightarrow>
        (let b = snd (cr_batches r ! mi) ! g in data = slice (blobs ! mi) (b_start b) (b_length b)))"

definition same_but_cache :: "ChainReader \<Rightarrow> ChainReader \<Rightarrow> bool" where
  "same_but_cache r r' \<longleftrightarrow> r' = r\<lparr>cr_cache := cr_cache r'\<rparr>"

definition reader_ok ::
  "complib \<Rightarrow> backend \<Rightarrow> Cipher option \<Rightarrow> bytes list \<Rightarrow> (int \<rightharpoonup> bytes) list \<Rightarrow> ChainReader \<Rightarrow> bool" where
  "reader_ok lib be cipher blobs pms r \<longleftrightarrow>
     (let ms = cr_manifests r in
      loaded_inv cipher ms (length ms) r \<and> chain_stored lib be cipher ms blobs pms \<and> cache_ok blobs r \<and>
      cr_batches r = map (\<lambda>mi. batch_loop (needed r mi) (Map.empty, [])) [0..<length ms])"

lemma same_but_cache_refl [simp]: "same_but_cache r r"
  by (simp add: same_but_cache_def)

lemma same_but_cache_trans: "same_but_cache a b \<Longrightarrow> same_but_cache b c \<Longrightarrow> same_but_cache a c"
  unfolding same_but_cache_def by (metis ChainReader.fold_congs(8) ChainReader.surjective ChainReader.update_convs(8))

lemma same_but_cache_proj:
  assumes "same_but_cache r r'"
  shows "cr_manifests r' = cr_manifests r" "cr_codecs r' = cr_codecs r" "cr_chunkSize r' = cr_chunkSize r"
    "cr_virtualSize r' = cr_virtualSize r" "cr_owner r' = cr_owner r" "cr_chunkAt r' = cr_chunkAt r"
    "cr_batches r' = cr_batches r"
  using arg_cong [OF assms [unfolded same_but_cache_def], of cr_manifests]
    arg_cong [OF assms [unfolded same_but_cache_def], of cr_codecs]
    arg_cong [OF assms [unfolded same_but_cache_def], of cr_chunkSize]
    arg_cong [OF assms [unfolded same_but_cache_def], of cr_virtualSize]
    arg_cong [OF assms [unfolded same_but_cache_def], of cr_owner]
    arg_cong [OF assms [unfolded same_but_cache_def], of cr_chunkAt]
    arg_cong [OF assms [unfolded same_but_cache_def], of cr_batches] by simp_all

lemma reader_ok_same:
  assumes "reader_ok lib be cipher blobs pms r" "same_but_cache r r'" "cache_ok blobs r'"
  shows "reader_ok lib be cipher blobs pms r'"
proof -
  note p = same_but_cache_proj [OF assms(2)]
  have "needed r' mi = needed r mi" for mi by (simp add: needed_def p)
  then show ?thesis
    using assms(1,3) unfolding reader_ok_def loaded_inv_def Let_def p by simp
qed

lemma fetch_serves:
  assumes "serves be (dm_DataKey (cr_manifests r ! mi)) blob"
    and "0 \<le> off" "0 \<le> n" "off + n \<le> int (length blob)"
  shows "fetch be r mi off n = Inr (slice blob off n)"
proof -
  have "length (slice blob off n) = nat n" using assms by (simp add: slice_def)
  then show ?thesis using assms by (simp add: fetch_def serves_def Let_def)
qed

lemma owner_facts:
  assumes ok: "reader_ok lib be cipher blobs pms r" and own: "cr_owner r i = Some mi"
  obtains c p where "mi < length (cr_manifests r)" "c \<in> set (dm_Chunks (cr_manifests r ! mi))"
    "ch_Index c = i" "(cr_chunkAt r ! mi) i = Some c" "(pms ! mi) i = Some p"
    "holds_chunk lib (cr_codecs r ! mi) (blobs ! mi) c p"
proof -
  let ?m = "cr_manifests r ! mi"
  have inv: "loaded_inv cipher (cr_manifests r) (length (cr_manifests r)) r"
    and st: "chain_stored lib be cipher (cr_manifests r) blobs pms"
    using ok by (simp_all add: reader_ok_def Let_def)
  have mi: "mi < length (cr_manifests r)" "i \<in> ch_Index ` set (dm_Chunks ?m)"
    using own inv owner_of_Some by (auto simp: loaded_inv_def)
  then obtain c where c: "c \<in> set (dm_Chunks ?m)" "ch_Index c = i" by auto
  obtain o' where cd: "reader_codec cipher ?m = Inr (cr_codecs r ! mi)"
    and at: "cr_chunkAt r ! mi = fst (add_chunks mi (dm_Chunks ?m) (Map.empty, o'))"
    using inv mi(1) by (auto simp: loaded_inv_def)
  have holds: "object_holds lib (cr_codecs r ! mi) (blobs ! mi) ?m (pms ! mi)"
    using st cd mi(1) by (simp add: chain_stored_def)
  then obtain p where "(pms ! mi) i = Some p" "holds_chunk lib (cr_codecs r ! mi) (blobs ! mi) c p"
    using c by (auto simp: object_holds_def)
  moreover have "(cr_chunkAt r ! mi) i = Some c"
    using add_chunks_byIndex [of "dm_Chunks ?m" c mi "(Map.empty, o')"] holds c at
    by (simp add: object_holds_def)
  ultimately show thesis using that mi(1) c by blast
qed

lemma needed_facts:
  assumes ok: "reader_ok lib be cipher blobs pms r" and mi: "mi < length (cr_manifests r)"
  shows "distinct (map ch_Index (needed r mi))"
    and "c \<in> set (needed r mi) \<Longrightarrow> in_object (int (length (blobs ! mi))) c"
    and "cr_owner r i = Some mi \<Longrightarrow> (cr_chunkAt r ! mi) i = Some c \<Longrightarrow> c \<in> set (needed r mi)"
proof -
  let ?idx = "filter (\<lambda>i. cr_owner r i = Some mi) (remdups (map ch_Index (dm_Chunks (cr_manifests r ! mi))))"
  let ?cs = "map (\<lambda>i. the ((cr_chunkAt r ! mi) i)) ?idx"
  have at: "ch_Index (the ((cr_chunkAt r ! mi) i)) = i \<and>
      in_object (int (length (blobs ! mi))) (the ((cr_chunkAt r ! mi) i))" if "i \<in> set ?idx" for i
  proof -
    have "cr_owner r i = Some mi" using that by simp
    then obtain c p where "ch_Index c = i" "(cr_chunkAt r ! mi) i = Some c"
      "holds_chunk lib (cr_codecs r ! mi) (blobs ! mi) c p" by (rule owner_facts [OF ok])
    then show ?thesis by (simp add: holds_chunk_def in_object_def)
  qed
  have "map ch_Index ?cs = ?idx" using at by (intro nth_equalityI) (auto simp del: set_filter)
  moreover have "mset (map ch_Index (needed r mi)) = mset (map ch_Index ?cs)"
    by (simp only: needed_def mset_map mset_sort)
  ultimately show "distinct (map ch_Index (needed r mi))"
    by (metis distinct_filter distinct_remdups mset_eq_imp_distinct_iff)
  show "c \<in> set (needed r mi) \<Longrightarrow> in_object (int (length (blobs ! mi))) c"
    using at by (auto simp: needed_def)
  show "c \<in> set (needed r mi)" if own: "cr_owner r i = Some mi" and c: "(cr_chunkAt r ! mi) i = Some c" for i
  proof -
    obtain c' p where "c' \<in> set (dm_Chunks (cr_manifests r ! mi))" "ch_Index c' = i"
      by (rule owner_facts [OF ok own])
    then have "i \<in> set ?idx" using own by auto
    then show ?thesis using c by (auto simp: needed_def image_iff intro!: bexI [of _ i])
  qed
qed

lemma storedBytes_correct:
  assumes ok: "reader_ok lib be cipher blobs pms r" and own: "cr_owner r i = Some mi"
    and c: "(cr_chunkAt r ! mi) i = Some c" "ch_Index c = i"
  shows "\<exists>r'. storedBytes be r mi c =
           (Inr (slice (blobs ! mi) (ch_BlobOffset c) (ch_StoredLength c)), r') \<and>
         same_but_cache r r' \<and> cache_ok blobs r'"
proof -
  let ?blob = "blobs ! mi" and ?n = "int (length (blobs ! mi))"
  obtain c' p where mi: "mi < length (cr_manifests r)" by (rule owner_facts [OF ok own])
  have st: "serves be (dm_DataKey (cr_manifests r ! mi)) ?blob" "?n < 9223372036854775808"
    using ok mi by (auto simp: reader_ok_def chain_stored_def Let_def)
  note nf = needed_facts [OF ok mi]
  have bat: "cr_batches r ! mi = batch_loop (needed r mi) (Map.empty, [])"
    using ok mi by (simp add: reader_ok_def Let_def)
  have "batches_ok ?n ({} \<union> set (needed r mi)) (batch_loop (needed r mi) (Map.empty, []))"
    using nf st(2) by (intro batch_loop_ok) (auto simp: batches_ok_def)
  then have bok: "batches_ok ?n (set (needed r mi)) (cr_batches r ! mi)" by (simp add: bat)
  have cn: "c \<in> set (needed r mi)" by (rule nf(3) [OF own c(1)])
  obtain g where g: "g < length (snd (cr_batches r ! mi))" "fst (cr_batches r ! mi) i = Some g"
    "in_batch (snd (cr_batches r ! mi) ! g) c"
    using bok cn c(2) unfolding batches_ok_def by blast
  define b where "b = snd (cr_batches r ! mi) ! g"
  have b: "0 \<le> b_start b" "0 \<le> b_length b" "b_start b + b_length b \<le> ?n"
    using bok g(1) unfolding batches_ok_def b_def by auto
  have io: "in_object ?n c" by (rule nf(2) [OF cn])
  have ib: "b_start b \<le> ch_BlobOffset c" "ch_BlobOffset c + ch_StoredLength c \<le> b_start b + b_length b"
    using g(3) by (simp_all add: in_batch_def b_def)
  define data where "data = slice ?blob (b_start b) (b_length b)"
  have fetched: "fetch be r mi (b_start b) (b_length b) = Inr data"
    unfolding data_def by (rule fetch_serves [OF st(1) b])
  have dl: "int (length data) = b_length b" using b by (simp add: data_def slice_def)
  define rn where "rn = r\<lparr>cr_cache := (cr_cache r)(mi \<mapsto> (g, data))\<rparr>"
  have rn_ok: "same_but_cache r rn \<and> cache_ok blobs rn"
    using ok by (auto simp: reader_ok_def rn_def same_but_cache_def cache_ok_def Let_def data_def b_def)
  have hit: "data' = data" if "cr_cache r mi = Some (g, data')" for data'
    using ok that by (auto simp: reader_ok_def cache_ok_def Let_def data_def b_def)
  define loaded where "loaded = (case cr_cache r mi of
                   Some (g', data) \<Rightarrow> if g' = g then Inr (data, r)
                     else bindR (fetch be r mi (b_start b) (b_length b))
                            (\<lambda>data. Inr (data, r\<lparr>cr_cache := (cr_cache r)(mi \<mapsto> (g, data))\<rparr>))
                 | None \<Rightarrow> bindR (fetch be r mi (b_start b) (b_length b))
                            (\<lambda>data. Inr (data, r\<lparr>cr_cache := (cr_cache r)(mi \<mapsto> (g, data))\<rparr>)))"
  have "loaded = Inr (data, r) \<or> loaded = Inr (data, rn)"
    using hit by (auto simp: loaded_def fetched rn_def split: option.split prod.split)
  moreover have "same_but_cache r r \<and> cache_ok blobs r" using ok by (simp add: reader_ok_def Let_def)
  ultimately obtain r' where r': "loaded = Inr (data, r')" "same_but_cache r r'" "cache_ok blobs r'"
    using rn_ok by blast
  have lo: "wrap64 (ch_BlobOffset c - b_start b) = ch_BlobOffset c - b_start b"
    "wrap64 (ch_BlobOffset c - b_start b + ch_StoredLength c) = ch_BlobOffset c - b_start b + ch_StoredLength c"
    using io ib b st(2) by (simp_all add: in_object_def go_arith)
  have cut: "slice data (ch_BlobOffset c - b_start b) (ch_StoredLength c) =
      slice ?blob (ch_BlobOffset c) (ch_StoredLength c)"
    unfolding data_def using slice_slice [of "b_start b" "ch_BlobOffset c - b_start b"
        "ch_StoredLength c" "b_length b" ?blob] b ib io by (simp add: in_object_def)
  have "storedBytes be r mi c = (Inr (slice ?blob (ch_BlobOffset c) (ch_StoredLength c)), r')"
    unfolding storedBytes_def c(2) g(2) option.case b_def [symmetric] Let_def loaded_def [symmetric] r'(1)
    using ib io dl cut by (simp add: lo in_object_def)
  with r' show ?thesis by blast
qed

lemma resolve_owner:
  assumes "length pms = length ms" "k \<le> length ms"
    and "\<forall>j < k. dom (pms ! j) = ch_Index ` set (dm_Chunks (ms ! j))"
  shows "resolve (take k pms) i = (case owner_of ms k i of None \<Rightarrow> None | Some mi \<Rightarrow> (pms ! mi) i)"
  using assms(2,3)
proof (induction k)
  case (Suc k)
  then have "take (Suc k) pms = take k pms @ [pms ! k]" using assms(1) by (simp add: take_Suc_conv_app_nth)
  moreover have "(pms ! k) i = None \<longleftrightarrow> i \<notin> ch_Index ` set (dm_Chunks (ms ! k))"
    using Suc.prems(2) by (metis domIff lessI)
  ultimately show ?case using Suc by (auto split: option.splits)
qed simp

lemma ReadChunk_correct:
  assumes ok: "reader_ok lib be cipher blobs pms r"
  shows "\<exists>r'. ReadChunk lib be r i = (Inr (resolve pms i), r') \<and> same_but_cache r r' \<and>
           reader_ok lib be cipher blobs pms r'"
proof -
  have inv: "loaded_inv cipher (cr_manifests r) (length (cr_manifests r)) r"
    and st: "chain_stored lib be cipher (cr_manifests r) blobs pms"
    using ok by (simp_all add: reader_ok_def Let_def)
  have len: "length pms = length (cr_manifests r)" using st by (simp add: chain_stored_def)
  have doms: "dom (pms ! j) = ch_Index ` set (dm_Chunks (cr_manifests r ! j))"
    if "j < length (cr_manifests r)" for j
    using inv st that by (fastforce simp: loaded_inv_def chain_stored_def object_holds_def)
  have res: "resolve pms i = (case cr_owner r i of None \<Rightarrow> None | Some mi \<Rightarrow> (pms ! mi) i)"
    using resolve_owner [OF len order_refl, of i] doms inv len by (simp add: loaded_inv_def)
  show ?thesis
  proof (cases "cr_owner r i")
    case None
    then show ?thesis using ok res by (auto simp: ReadChunk_def intro!: exI [of _ r])
  next
    case (Some mi)
    obtain c p where c: "ch_Index c = i" "(cr_chunkAt r ! mi) i = Some c" "(pms ! mi) i = Some p"
      "holds_chunk lib (cr_codecs r ! mi) (blobs ! mi) c p" by (rule owner_facts [OF ok Some])
    obtain r' where r': "storedBytes be r mi c =
           (Inr (slice (blobs ! mi) (ch_BlobOffset c) (ch_StoredLength c)), r')"
      "same_but_cache r r'" "cache_ok blobs r'"
      using storedBytes_correct [OF ok Some c(2,1)] by blast
    have dec: "decode lib (cr_codecs r ! mi) (slice (blobs ! mi) (ch_BlobOffset c) (ch_StoredLength c))
        (ch_Length c) = Inr p" using c(4) unfolding holds_chunk_def by blast
    have dig: "verifyDigest lib p (ch_Hash c) = Inr ()"
      using c(4) by (simp add: holds_chunk_def verifyDigest_def)
    have "ReadChunk lib be r i = (Inr (Some p), r')"
      using Some c(2) r'(1) by (simp add: ReadChunk_def dec dig)
    then show ?thesis using res Some c(3) r' reader_ok_same [OF ok r'(2,3)] by auto
  qed
qed

section \<open>The stream renders the image\<close>

lemma NewChainReader_ok:
  assumes "NewChainReader cipher ms0 = Inr r"
    and "chain_stored lib be cipher (EffectiveChain ms0) blobs pms"
  shows "reader_ok lib be cipher blobs pms r \<and> cr_manifests r = EffectiveChain ms0"
proof -
  define r0 where "r0 = \<lparr>cr_manifests = EffectiveChain ms0, cr_codecs = [], cr_chunkSize = 0, cr_virtualSize = 0,
                    cr_owner = Map.empty, cr_chunkAt = [], cr_batches = [], cr_cache = Map.empty\<rparr>"
  obtain r1 where r1: "load_manifests cipher 0 (EffectiveChain ms0) r0 = Inr r1" and r: "r = buildBatches r1"
    using assms(1) by (auto simp: NewChainReader_def r0_def Let_def result_simps split: if_splits)
  have "loaded_inv cipher (EffectiveChain ms0) 0 r0"
    by (simp add: loaded_inv_def r0_def fun_eq_iff)
  then have inv: "loaded_inv cipher (EffectiveChain ms0) (length (EffectiveChain ms0)) r1"
    and ms: "cr_manifests r1 = EffectiveChain ms0" and ca: "cr_cache r1 = Map.empty"
    using load_manifests_inv [OF r1, of "EffectiveChain ms0"] by (simp_all add: r0_def)
  have n: "needed r mi = needed r1 mi" for mi by (simp add: r buildBatches_def needed_def)
  have fields: "cr_manifests r = EffectiveChain ms0" "cr_cache r = Map.empty"
    "cr_batches r = map (\<lambda>mi. batch_loop (needed r mi) (Map.empty, [])) [0..<length (EffectiveChain ms0)]"
    unfolding n by (simp_all add: r buildBatches_def ms ca)
  have "loaded_inv cipher (EffectiveChain ms0) (length (EffectiveChain ms0)) r"
    using inv unfolding loaded_inv_def by (simp add: r buildBatches_def)
  then show ?thesis
    using assms(2) fields by (simp add: reader_ok_def cache_ok_def Let_def)
qed

fun call_offset :: "sink_call \<Rightarrow> int" where
  "call_offset (SinkData off data) = off"
| "call_offset (SinkZeros off n) = off"

fun call_bytes :: "sink_call \<Rightarrow> bytes" where
  "call_bytes (SinkData off data) = data"
| "call_bytes (SinkZeros off n) = replicate (nat n) 0"

text \<open>The calls follow one another without gap or overlap from \<open>a\<close> to \<open>b\<close>.\<close>

fun tiles :: "int \<Rightarrow> sink_call list \<Rightarrow> int \<Rightarrow> bool" where
  "tiles a [] b \<longleftrightarrow> a = b"
| "tiles a (c # cs) b \<longleftrightarrow> call_offset c = a \<and> call_bytes c \<noteq> [] \<and> tiles (a + int (length (call_bytes c))) cs b"

definition render :: "sink_call list \<Rightarrow> bytes" where
  "render cs = concat (map call_bytes cs)"

lemma tiles_append: "tiles a (xs @ ys) b \<longleftrightarrow> (\<exists>m. tiles a xs m \<and> tiles m ys b)"
  by (induction xs arbitrary: a) auto

definition cell_bytes :: "ChainReader \<Rightarrow> (int \<rightharpoonup> bytes) list \<Rightarrow> nat \<Rightarrow> bytes" where
  "cell_bytes r pms k = (case resolve pms (int k) of Some p \<Rightarrow> p
     | None \<Rightarrow> replicate (nat (reader_ChunkLength r (int k))) 0)"

definition image_prefix :: "ChainReader \<Rightarrow> (int \<rightharpoonup> bytes) list \<Rightarrow> nat \<Rightarrow> bytes" where
  "image_prefix r pms k = concat (map (cell_bytes r pms) [0..<k])"

definition chain_image :: "ChainReader \<Rightarrow> (int \<rightharpoonup> bytes) list \<Rightarrow> bytes" where
  "chain_image r pms = image_prefix r pms (nat (reader_GridChunks r))"

text \<open>Every chunk the merged image uses fills its cell of the final grid.\<close>

definition cells_filled :: "ChainReader \<Rightarrow> (int \<rightharpoonup> bytes) list \<Rightarrow> bool" where
  "cells_filled r pms \<longleftrightarrow>
     (\<forall>k < nat (reader_GridChunks r). \<forall>p. resolve pms (int k) = Some p \<longrightarrow>
        int (length p) = reader_ChunkLength r (int k))"

lemma reader_grid:
  assumes "grid_ok (cr_chunkSize r) (cr_virtualSize r)"
  shows "reader_GridChunks r = grid_cells (cr_chunkSize r) (cr_virtualSize r)"
proof -
  have "0 < cr_chunkSize r" "0 \<le> cr_virtualSize r" "cr_virtualSize r + cr_chunkSize r < 9223372036854775808"
    using assms by (auto simp: grid_ok_def)
  then show ?thesis by (simp add: reader_GridChunks_def grid_cells_def go_arith)
qed

lemma reader_cell:
  assumes g: "grid_ok (cr_chunkSize r) (cr_virtualSize r)" and k: "int k < reader_GridChunks r"
  shows "int k * cr_chunkSize r < cr_virtualSize r"
    "wrap64 (int k * cr_chunkSize r) = int k * cr_chunkSize r"
    "reader_ChunkLength r (int k) = min (cr_chunkSize r) (cr_virtualSize r - int k * cr_chunkSize r)"
    "0 < reader_ChunkLength r (int k)"
proof -
  have pos: "0 < cr_chunkSize r" "cr_virtualSize r < 9223372036854775808"
    using g by (auto simp: grid_ok_def)
  show lt: "int k * cr_chunkSize r < cr_virtualSize r"
    using k grid_cells_iff [OF pos(1)] unfolding reader_grid [OF g] by blast
  have nn: "0 \<le> int k * cr_chunkSize r" using pos by simp
  show w: "wrap64 (int k * cr_chunkSize r) = int k * cr_chunkSize r"
    using nn lt pos(2) by (simp add: go_arith)
  have "wrap64 (cr_virtualSize r - int k * cr_chunkSize r) = cr_virtualSize r - int k * cr_chunkSize r"
    using nn lt pos(2) by (simp add: go_arith)
  then show e: "reader_ChunkLength r (int k) = min (cr_chunkSize r) (cr_virtualSize r - int k * cr_chunkSize r)"
    using lt by (simp add: reader_ChunkLength_def Let_def w min_def)
  show "0 < reader_ChunkLength r (int k)" using lt pos by (simp add: e)
qed

lemma cell_bytes_length:
  assumes "grid_ok (cr_chunkSize r) (cr_virtualSize r)" "int k < reader_GridChunks r" "cells_filled r pms"
  shows "int (length (cell_bytes r pms k)) = reader_ChunkLength r (int k)"
  using assms(2,3) reader_cell(4) [OF assms(1,2)]
  by (auto simp: cell_bytes_def cells_filled_def split: option.split)

lemma image_prefix_Suc: "image_prefix r pms (Suc k) = image_prefix r pms k @ cell_bytes r pms k"
  by (simp add: image_prefix_def)

lemma image_prefix_length:
  assumes g: "grid_ok (cr_chunkSize r) (cr_virtualSize r)" and "cells_filled r pms"
  shows "int k \<le> reader_GridChunks r \<Longrightarrow>
    int (length (image_prefix r pms k)) = min (int k * cr_chunkSize r) (cr_virtualSize r)"
proof (induction k)
  case 0
  then show ?case using g by (simp add: image_prefix_def grid_ok_def)
next
  case (Suc k)
  then have k: "int k < reader_GridChunks r" by simp
  show ?case
    using Suc.IH k cell_bytes_length [OF g k assms(2)] reader_cell(1,3) [OF g k]
    by (simp add: image_prefix_Suc algebra_simps min_def)
qed

lemma chain_image_length:
  assumes g: "grid_ok (cr_chunkSize r) (cr_virtualSize r)" and "cells_filled r pms"
  shows "int (length (chain_image r pms)) = cr_virtualSize r"
proof -
  have n: "0 \<le> reader_GridChunks r" using grid_cells_nonneg [OF g] by (simp add: reader_grid [OF g])
  have "\<not> reader_GridChunks r * cr_chunkSize r < cr_virtualSize r"
    using grid_cells_iff [of "cr_chunkSize r" "reader_GridChunks r"] g
    unfolding reader_grid [OF g] grid_ok_def by blast
  then show ?thesis using image_prefix_length [OF assms, of "nat (reader_GridChunks r)"] n
    by (simp add: chain_image_def)
qed

definition log_sink :: "sink_call \<Rightarrow> sink_call list \<Rightarrow> read_error + sink_call list" where
  "log_sink c s = Inr (s @ [c])"

definition stream_inv :: "ChainReader \<Rightarrow> (int \<rightharpoonup> bytes) list \<Rightarrow> nat \<Rightarrow> int \<times> int \<Rightarrow> sink_call list \<Rightarrow> bool" where
  "stream_inv r pms k z s \<longleftrightarrow>
     (if fst z < 0 then z = (-1, 0) \<and> tiles 0 s (int (length (image_prefix r pms k))) \<and>
        render s = image_prefix r pms k
      else 0 < snd z \<and> tiles 0 s (fst z) \<and> fst z + snd z = int (length (image_prefix r pms k)) \<and>
        render s @ replicate (nat (snd z)) 0 = image_prefix r pms k)"

lemma flush_inv:
  assumes "stream_inv r pms k z s"
  shows "\<exists>s'. flushZeros log_sink z s = Inr s' \<and> stream_inv r pms k (-1, 0) s'"
proof (cases "fst z < 0")
  case False
  then have z: "0 < snd z" "tiles 0 s (fst z)" "fst z + snd z = int (length (image_prefix r pms k))"
    "render s @ replicate (nat (snd z)) 0 = image_prefix r pms k"
    using assms by (auto simp: stream_inv_def)
  have "tiles 0 (s @ [SinkZeros (fst z) (snd z)]) (int (length (image_prefix r pms k)))"
    using z by (auto simp: tiles_append)
  moreover have "render (s @ [SinkZeros (fst z) (snd z)]) = image_prefix r pms k"
    using z(4) by (simp add: render_def)
  ultimately show ?thesis using False by (simp add: flushZeros_def log_sink_def stream_inv_def)
qed (use assms in \<open>auto simp: flushZeros_def stream_inv_def\<close>)

declare stream_loop.simps [simp del]

lemma reader_sizes_same:
  assumes "same_but_cache r r'"
  shows "reader_GridChunks r' = reader_GridChunks r" "reader_ChunkLength r' i = reader_ChunkLength r i"
    "cells_filled r' pms = cells_filled r pms" "stream_inv r' pms k z s = stream_inv r pms k z s"
    "chain_image r' pms = chain_image r pms"
proof -
  note p = same_but_cache_proj [OF assms]
  show g: "reader_GridChunks r' = reader_GridChunks r" by (simp only: reader_GridChunks_def p)
  have l: "reader_ChunkLength r' j = reader_ChunkLength r j" for j
    by (simp only: reader_ChunkLength_def p)
  then show "reader_ChunkLength r' i = reader_ChunkLength r i" .
  have i: "image_prefix r' pms j = image_prefix r pms j" for j
    by (simp only: image_prefix_def cell_bytes_def [abs_def] l)
  show "cells_filled r' pms = cells_filled r pms" by (simp only: cells_filled_def g l)
  show "stream_inv r' pms k z s = stream_inv r pms k z s" by (simp only: stream_inv_def i)
  show "chain_image r' pms = chain_image r pms" by (simp only: chain_image_def i g)
qed

lemma stream_inv_zero:
  assumes g: "grid_ok (cr_chunkSize r) (cr_virtualSize r)" "cells_filled r pms" and k: "int k < reader_GridChunks r"
    and inv: "stream_inv r pms k z s" and hole: "resolve pms (int k) = None"
  shows "stream_inv r pms (Suc k)
    (if fst z < 0 then wrap64 (int k * cr_chunkSize r) else fst z, wrap64 (snd z + reader_ChunkLength r (int k))) s"
proof -
  let ?len = "reader_ChunkLength r (int k)"
  note c = reader_cell [OF g(1) k]
  have pos: "int (length (image_prefix r pms k)) = int k * cr_chunkSize r"
    using image_prefix_length [OF g, of k] k c(1) by simp
  have cell: "cell_bytes r pms k = replicate (nat ?len) 0" using hole by (simp add: cell_bytes_def)
  have tot: "int k * cr_chunkSize r + ?len \<le> cr_virtualSize r" using c(3) by simp
  have lim: "cr_virtualSize r < 9223372036854775808" "0 < cr_chunkSize r" using g by (auto simp: grid_ok_def)
  have nn: "0 \<le> int k * cr_chunkSize r" using lim by simp
  show ?thesis
  proof (cases "fst z < 0")
    case True
    then have "z = (-1, 0)" "tiles 0 s (int k * cr_chunkSize r)" "render s = image_prefix r pms k"
      using inv pos by (auto simp: stream_inv_def)
    then show ?thesis
      using c(2,4) nn tot lim pos by (simp add: stream_inv_def image_prefix_Suc cell go_arith)
  next
    case False
    then have z: "0 < snd z" "tiles 0 s (fst z)" "fst z + snd z = int k * cr_chunkSize r"
      "render s @ replicate (nat (snd z)) 0 = image_prefix r pms k"
      using inv pos by (auto simp: stream_inv_def)
    have w: "wrap64 (snd z + ?len) = snd z + ?len" using z False tot lim c(4) by (simp add: go_arith)
    have "render s @ replicate (nat (snd z + ?len)) 0 = image_prefix r pms (Suc k)"
      using z c(4) unfolding image_prefix_Suc cell z(4) [symmetric]
      by (simp add: nat_add_distrib replicate_add)
    then show ?thesis
      using False z c(4) pos by (simp add: stream_inv_def w image_prefix_Suc cell)
  qed
qed

lemma stream_inv_data:
  assumes g: "grid_ok (cr_chunkSize r) (cr_virtualSize r)" "cells_filled r pms" and k: "int k < reader_GridChunks r"
    and inv: "stream_inv r pms k (-1, 0) s" and p: "resolve pms (int k) = Some p"
  shows "stream_inv r pms (Suc k) (-1, 0) (s @ [SinkData (wrap64 (int k * cr_chunkSize r)) p])"
proof -
  note c = reader_cell [OF g(1) k]
  have pos: "int (length (image_prefix r pms k)) = int k * cr_chunkSize r"
    using image_prefix_length [OF g, of k] k c(1) by simp
  have cell: "cell_bytes r pms k = p" using p by (simp add: cell_bytes_def)
  have "p \<noteq> []" using cell_bytes_length [OF g(1) k g(2)] c(4) cell by auto
  then show ?thesis
    using inv pos c(2) by (auto simp: stream_inv_def tiles_append image_prefix_Suc cell render_def)
qed

lemma stream_loop_correct:
  assumes "reader_ok lib be cipher blobs pms r" "grid_ok (cr_chunkSize r) (cr_virtualSize r)"
    and "cells_filled r pms" "stream_inv r pms k z s" "int k \<le> reader_GridChunks r"
  shows "\<exists>s' r'. stream_loop lib be (\<lambda>_. False) log_sink (reader_GridChunks r) (int k) z r s = (Inr s', r') \<and>
           tiles 0 s' (cr_virtualSize r) \<and> render s' = chain_image r pms \<and> same_but_cache r r' \<and>
           reader_ok lib be cipher blobs pms r'"
  using assms
proof (induction "nat (reader_GridChunks r - int k)" arbitrary: k z r s)
  case 0
  then have k: "int k = reader_GridChunks r" by simp
  obtain s' where s': "flushZeros log_sink z s = Inr s'" "stream_inv r pms k (-1, 0) s'"
    using flush_inv [OF 0(5)] by blast
  have "image_prefix r pms k = chain_image r pms" using k by (simp add: chain_image_def flip: k)
  then show ?case
    using s' 0 k chain_image_length [OF 0(3,4)] by (subst stream_loop.simps) (simp add: stream_inv_def)
next
  case (Suc n)
  then have k: "int k < reader_GridChunks r" by simp
  obtain r1 where rc: "ReadChunk lib be r (int k) = (Inr (resolve pms (int k)), r1)"
    and same: "same_but_cache r r1" and ok1: "reader_ok lib be cipher blobs pms r1"
    using ReadChunk_correct [OF Suc.prems(1)] by blast
  note sizes = reader_sizes_same [OF same] same_but_cache_proj [OF same]
  have n: "n = nat (reader_GridChunks r1 - int (Suc k))" using Suc.hyps(2) by (simp add: sizes)
  have done_step: "\<exists>s' r'. stream_loop lib be (\<lambda>_. False) log_sink (reader_GridChunks r) (int (Suc k)) z1 r1 s1 =
         (Inr s', r') \<and> tiles 0 s' (cr_virtualSize r) \<and> render s' = chain_image r pms \<and> same_but_cache r r' \<and>
         reader_ok lib be cipher blobs pms r'"
    if inv1: "stream_inv r pms (Suc k) z1 s1" for z1 s1
    using Suc.hyps(1) [OF n ok1, of z1 s1] Suc.prems(2,3) inv1 k same_but_cache_trans [OF same]
    by (auto simp: sizes)
  show ?case
  proof (cases "resolve pms (int k)")
    case None
    then show ?thesis
      using done_step [OF stream_inv_zero [OF Suc.prems(2,3) k Suc.prems(4) None]] k rc
      by (subst stream_loop.simps) (simp add: Let_def add.commute)
  next
    case (Some p)
    obtain s' where s': "flushZeros log_sink z s = Inr s'" "stream_inv r pms k (-1, 0) s'"
      using flush_inv [OF Suc.prems(4)] by blast
    have z: "(if fst z < 0 then z else (-1, 0)) = (-1, 0)"
      using Suc.prems(4) by (auto simp: stream_inv_def)
    show ?thesis
      using done_step [OF stream_inv_data [OF Suc.prems(2,3) k s'(2) Some]] k rc Some s'(1) z
      by (subst stream_loop.simps) (simp add: Let_def log_sink_def add.commute)
  qed
qed

section \<open>Random access reads the image\<close>

lemma image_split:
  assumes "k < nat (reader_GridChunks r)"
  shows "\<exists>rest. chain_image r pms = image_prefix r pms k @ cell_bytes r pms k @ rest"
proof -
  have "[0..<nat (reader_GridChunks r)] = [0..<k] @ k # [Suc k..<nat (reader_GridChunks r)]"
    using assms by (metis less_imp_le_nat upt_add_eq_append upt_conv_Cons le0 le_add_diff_inverse)
  then show ?thesis by (simp add: chain_image_def image_prefix_def)
qed

lemma image_slice:
  assumes g: "grid_ok (cr_chunkSize r) (cr_virtualSize r)" "cells_filled r pms" and k: "int k < reader_GridChunks r"
    and w: "0 \<le> within" "0 \<le> n" "within + n \<le> reader_ChunkLength r (int k)"
  shows "slice (chain_image r pms) (int k * cr_chunkSize r + within) n = slice (cell_bytes r pms k) within n"
proof -
  obtain rest where im: "chain_image r pms = image_prefix r pms k @ cell_bytes r pms k @ rest"
    using image_split [of k r pms] k by (metis zless_nat_eq_int_zless)
  have pos: "int (length (image_prefix r pms k)) = int k * cr_chunkSize r"
    using image_prefix_length [OF g, of k] k reader_cell(1) [OF g(1) k] by simp
  have "nat (int k * cr_chunkSize r + within) = length (image_prefix r pms k) + nat within"
    using pos w by (simp add: nat_add_distrib flip: pos)
  then have "slice (chain_image r pms) (int k * cr_chunkSize r + within) n =
      slice (cell_bytes r pms k @ rest) within n"
    by (simp add: slice_def im)
  also have "\<dots> = slice (cell_bytes r pms k) within n"
    using w cell_bytes_length [OF g(1) k g(2)] by (intro slice_append) simp_all
  finally show ?thesis .
qed

lemma cell_position:
  assumes g: "grid_ok (cr_chunkSize r) (cr_virtualSize r)" and p: "0 \<le> p" "p < cr_virtualSize r"
  obtains k where "go_div p (cr_chunkSize r) = int k" "go_mod p (cr_chunkSize r) = p - int k * cr_chunkSize r"
    "int k < reader_GridChunks r" "0 \<le> p - int k * cr_chunkSize r"
    "p - int k * cr_chunkSize r < reader_ChunkLength r (int k)"
proof -
  have cs: "0 < cr_chunkSize r" using g by (simp add: grid_ok_def)
  define k where "k = nat (p div cr_chunkSize r)"
  have k: "int k = p div cr_chunkSize r" using p cs by (simp add: k_def pos_imp_zdiv_nonneg_iff)
  have md: "p - int k * cr_chunkSize r = p mod cr_chunkSize r"
    unfolding k by (simp add: minus_div_mult_eq_mod)
  have le: "int k * cr_chunkSize r \<le> p" using md pos_mod_sign [OF cs, of p] by linarith
  have kg: "int k < reader_GridChunks r"
    unfolding reader_grid [OF g] grid_cells_iff [OF cs] using le p(2) by linarith
  have "p - int k * cr_chunkSize r < reader_ChunkLength r (int k)"
    using reader_cell(3) [OF g kg] md pos_mod_bound [OF cs, of p] p(2) by simp
  then show thesis
    using that [of k] k md le kg p cs by (simp add: go_div_pos go_mod_pos)
qed

lemma read_at_loop_correct:
  assumes "reader_ok lib be cipher blobs pms r" "grid_ok (cr_chunkSize r) (cr_virtualSize r)" "cells_filled r pms"
    and "0 \<le> off" "off + want \<le> cr_virtualSize r" "int (length filled) \<le> want"
    and "filled = slice (chain_image r pms) off (int (length filled))"
  shows "\<exists>r'. read_at_loop lib be (\<lambda>_. False) off want r filled =
           Some (None, slice (chain_image r pms) off want, r') \<and> same_but_cache r r' \<and>
           reader_ok lib be cipher blobs pms r'"
  using assms
proof (induction "nat (want - int (length filled))" arbitrary: r filled rule: less_induct)
  case less
  let ?f = "int (length filled)"
  show ?case
  proof (cases "?f < want")
    case False
    then have "?f = want" using less.prems(6) by simp
    then show ?thesis using less.prems(1,7) by (subst read_at_loop.simps) simp
  next
    case True
    note g = less.prems(2,3)
    have lim: "cr_virtualSize r < 9223372036854775808" using g(1) by (auto simp: grid_ok_def)
    have pos: "wrap64 (off + ?f) = off + ?f" using True less.prems(4,5) lim by (simp add: go_arith)
    obtain k where k: "go_div (off + ?f) (cr_chunkSize r) = int k" "int k < reader_GridChunks r"
      "go_mod (off + ?f) (cr_chunkSize r) = off + ?f - int k * cr_chunkSize r"
      "0 \<le> off + ?f - int k * cr_chunkSize r"
      "off + ?f - int k * cr_chunkSize r < reader_ChunkLength r (int k)"
      using cell_position [OF g(1), of "off + ?f"] less.prems(4,5) True by auto
    define within where "within = off + ?f - int k * cr_chunkSize r"
    define n where "n = min (reader_ChunkLength r (int k) - within) (want - ?f)"
    have n: "0 < n" "within + n \<le> reader_ChunkLength r (int k)" "?f + n \<le> want"
      using k True by (auto simp: n_def within_def)
    obtain r1 where rc: "ReadChunk lib be r (int k) = (Inr (resolve pms (int k)), r1)"
      and same: "same_but_cache r r1" and ok1: "reader_ok lib be cipher blobs pms r1"
      using ReadChunk_correct [OF less.prems(1)] by blast
    note sizes = reader_sizes_same [OF same] same_but_cache_proj [OF same]
    have part: "slice (cell_bytes r pms k) within n = slice (chain_image r pms) (off + ?f) n"
      using image_slice [OF g k(2), of within n] n k(4) by (simp add: within_def)
    define filled1 where "filled1 = filled @ slice (cell_bytes r pms k) within n"
    have l1: "int (length filled1) = ?f + n"
      using slice_length [of "off + ?f" n "chain_image r pms"] chain_image_length [OF g] n less.prems(4,5)
      by (simp add: filled1_def part)
    have f1: "filled1 = slice (chain_image r pms) off (int (length filled1))"
    proof -
      have "filled1 = slice (chain_image r pms) off ?f @ slice (chain_image r pms) (off + ?f) n"
        unfolding filled1_def part using less.prems(7) by simp
      also have "\<dots> = slice (chain_image r pms) off (int (length filled1))"
        unfolding l1 using n less.prems(4) by (intro slice_join) simp_all
      finally show ?thesis .
    qed
    have "\<exists>r'. read_at_loop lib be (\<lambda>_. False) off want r1 filled1 =
           Some (None, slice (chain_image r1 pms) off want, r') \<and> same_but_cache r1 r' \<and>
           reader_ok lib be cipher blobs pms r'"
      using less.hyps [of filled1 r1] l1 n f1 ok1 g less.prems(4,5) by (simp add: sizes)
    then obtain r' where r': "read_at_loop lib be (\<lambda>_. False) off want r1 filled1 =
           Some (None, slice (chain_image r pms) off want, r')" "same_but_cache r r'"
      "reader_ok lib be cipher blobs pms r'"
      using same_but_cache_trans [OF same] by (auto simp: sizes)
    have step: "read_at_loop lib be (\<lambda>_. False) off want r filled =
        read_at_loop lib be (\<lambda>_. False) off want r1 filled1"
    proof (cases "resolve pms (int k)")
      case None
      then have "slice (cell_bytes r pms k) within n = replicate (nat n) 0"
        using n k(4) by (simp add: cell_bytes_def slice_def within_def min_def nat_le_iff)
      then show ?thesis
        using True None rc k n
        by (subst read_at_loop.simps) (simp add: pos Let_def filled1_def flip: within_def n_def)
    next
      case (Some p)
      then have cell: "cell_bytes r pms k = p" by (simp add: cell_bytes_def)
      then have "within + n \<le> int (length p)"
        using cell_bytes_length [OF g(1) k(2) g(2)] n by simp
      then show ?thesis
        using True Some rc k n
        by (subst read_at_loop.simps) (simp add: pos Let_def filled1_def cell flip: within_def n_def)
    qed
    show ?thesis unfolding step using r' by blast
  qed
qed

section \<open>What a reader guarantees\<close>

fun read_chunks :: "complib \<Rightarrow> backend \<Rightarrow> ChainReader \<Rightarrow> int list \<Rightarrow> (read_error + bytes option) list \<times> ChainReader" where
  "read_chunks lib be r [] = ([], r)"
| "read_chunks lib be r (i # is) =
     (case ReadChunk lib be r i of (x, r1) \<Rightarrow> case read_chunks lib be r1 is of (xs, r2) \<Rightarrow> (x # xs, r2))"

lemma read_chunks_correct:
  "reader_ok lib be cipher blobs pms r \<Longrightarrow> fst (read_chunks lib be r is) = map (\<lambda>i. Inr (resolve pms i)) is"
proof (induction "is" arbitrary: r)
  case (Cons i "is")
  obtain r1 where "ReadChunk lib be r i = (Inr (resolve pms i), r1)" "reader_ok lib be cipher blobs pms r1"
    using ReadChunk_correct [OF Cons.prems] by blast
  then show ?case using Cons.IH by (simp add: case_prod_beta)
qed simp

definition is_base :: "DiskManifest \<Rightarrow> bool" where
  "is_base m \<longleftrightarrow> dm_Type m = BackupFull \<or> dm_Type m = BackupSnapshot"

lemma last_base_None: "last_base ms k = None \<longleftrightarrow> (\<forall>j. 0 < j \<and> j \<le> k \<longrightarrow> \<not> is_base (ms ! j))"
  by (induction k) (auto simp: Let_def is_base_def le_Suc_eq)

lemma last_base_Some:
  "last_base ms k = Some i \<Longrightarrow> 0 < i \<and> i \<le> k \<and> is_base (ms ! i) \<and> (\<forall>j. i < j \<and> j \<le> k \<longrightarrow> \<not> is_base (ms ! j))"
  by (induction k) (auto simp: Let_def is_base_def le_Suc_eq split: if_splits)

text \<open>
  The effective chain starts at the newest base. It is a suffix of the chain, nothing after its
  first element is a full or snapshot copy, and when something was cut off its first element is one:
  data older than the newest full copy of the disk never comes back.
\<close>

lemma effective_chain_newest_base:
  assumes "ms \<noteq> []"
  shows "\<exists>i < length ms. EffectiveChain ms = drop i ms \<and> (0 < i \<longrightarrow> is_base (ms ! i)) \<and>
           (\<forall>j. i < j \<and> j < length ms \<longrightarrow> \<not> is_base (ms ! j))"
proof (cases "last_base ms (length ms - 1)")
  case None
  then have "EffectiveChain ms = ms" by (simp add: EffectiveChain_def)
  moreover have "\<not> is_base (ms ! j)" if "0 < j \<and> j < length ms" for j
    using None that by (auto simp: last_base_None)
  ultimately show ?thesis using assms by (intro exI [of _ 0]) simp
next
  case (Some i)
  then show ?thesis
    using assms last_base_Some [OF Some] by (intro exI [of _ i]) (auto simp: EffectiveChain_def)
qed

definition sample_link :: "string \<Rightarrow> BackupType \<Rightarrow> int \<Rightarrow> Chunk list \<Rightarrow> DiskManifest" where
  "sample_link key ty vs cs = sample_manifest\<lparr>dm_Format := FormatName, dm_Version := 1, dm_Type := ty,
     dm_VirtualSize := vs, dm_ChunkSize := 4, dm_Compression := ''none'', dm_DataKey := key, dm_Chunks := cs\<rparr>"

text \<open>
  C10: the newest copy of each chunk wins. Once a chain opens, any sequence of chunk reads returns, for
  every index, the bytes of the newest manifest of the effective chain that stored it, and a hole
  where none did; the batches and their cache are invisible.
\<close>

theorem chain_reads_newest:
  assumes "NewChainReader cipher ms0 = Inr r"
    and "chain_stored lib be cipher (EffectiveChain ms0) blobs pms"
  shows "fst (read_chunks lib be r is) = map (\<lambda>i. Inr (resolve pms i)) is"
  using read_chunks_correct NewChainReader_ok [OF assms] by blast

definition plain_chunk :: "int \<Rightarrow> bytes \<Rightarrow> int \<Rightarrow> Chunk" where
  "plain_chunk i p off = \<lparr>ch_Index = i, ch_Length = int (length p), ch_BlobOffset = off,
     ch_StoredLength = int (length p), ch_Hash = lib_sha256 toy_lib p\<rparr>"

definition sample_links :: "DiskManifest list" where
  "sample_links =
     [sample_link ''a'' BackupFull 10 [plain_chunk 0 [1, 2, 3, 4] 0, plain_chunk 2 [9, 8] 4],
      sample_link ''b'' BackupIncremental 10 [plain_chunk 0 [5, 6, 7, 8] 0]]"

definition sample_blobs :: "bytes list" where
  "sample_blobs = [[1, 2, 3, 4, 9, 8], [5, 6, 7, 8]]"

definition sample_pms :: "(int \<rightharpoonup> bytes) list" where
  "sample_pms = [[0 \<mapsto> [1, 2, 3, 4], 2 \<mapsto> [9, 8]], [0 \<mapsto> [5, 6, 7, 8]]]"

definition sample_backend :: backend where
  "sample_backend = (let obj = (\<lambda>key. if key = ''a'' then sample_blobs ! 0 else sample_blobs ! 1) in
     \<lparr>be_GetRange = \<lambda>key off n. Inr (slice (obj key) off n), be_Stat = \<lambda>key. Inr (int (length (obj key))),
      be_Get = \<lambda>key. Inr (obj key)\<rparr>)"

definition sample_reader :: ChainReader where
  "sample_reader = projr (NewChainReader None sample_links)"

lemma sample_effective: "EffectiveChain sample_links = sample_links"
  by (simp add: EffectiveChain_def sample_links_def sample_link_def)

lemma sample_reader_new: "NewChainReader None sample_links = Inr sample_reader"
proof -
  have "\<not> isl (NewChainReader None sample_links)"
    unfolding NewChainReader_def sample_effective
    by (simp add: sample_links_def sample_link_def manifest_Validate_def FormatVersion_def
        KnownCompression_def Compressions_def reader_codec_def newCodec_def sample_manifest_def
        case_prod_beta)
  then show ?thesis by (simp add: sample_reader_def sum.collapse)
qed

lemma sample_chain_stored: "chain_stored toy_lib sample_backend None sample_links sample_blobs sample_pms"
proof -
  have held: "holds_chunk toy_lib cd blob (plain_chunk i p off) p"
    if "cd = \<lparr>cd_compression = ''none'', cd_algo = None, cd_cipher = None\<rparr>" "0 \<le> off" "p \<noteq> []"
      "off + int (length p) \<le> int (length blob)" "slice blob off (int (length p)) = p" for cd i p off blob
    using that by (simp add: holds_chunk_def plain_chunk_def decode_def)
  have codec: "reader_codec None (sample_link key ty vs cs) =
      Inr \<lparr>cd_compression = ''none'', cd_algo = None, cd_cipher = None\<rparr>" for key ty vs cs
    by (simp add: reader_codec_def sample_link_def newCodec_def sample_manifest_def)
  have srv: "serves sample_backend ''a'' [1, 2, 3, 4, 9, 8]" "serves sample_backend ''b'' [5, 6, 7, 8]"
    by (simp_all add: serves_def sample_backend_def Let_def sample_blobs_def)
  have dk: "dm_DataKey (sample_link key ty vs cs) = key" "dm_Chunks (sample_link key ty vs cs) = cs" for key ty vs cs
    by (simp_all add: sample_link_def)
  have ix: "ch_Index (plain_chunk i p off) = i" for i p off by (simp add: plain_chunk_def)
  show ?thesis
    unfolding chain_stored_def sample_links_def sample_blobs_def sample_pms_def
    by (auto simp: less_Suc_eq numeral_2_eq_2 codec srv dk object_holds_def ix intro!: held)
      (auto simp: slice_def)
qed

theorem chain_reads_newest_witness:
  "fst (read_chunks toy_lib sample_backend sample_reader [2, 0, 1, 2]) =
     [Inr (Some [9, 8]), Inr (Some [5, 6, 7, 8]), Inr None, Inr (Some [9, 8])]"
  using chain_reads_newest [OF sample_reader_new, of toy_lib sample_backend sample_blobs sample_pms "[2, 0, 1, 2]"]
    sample_chain_stored
  by (simp add: sample_effective sample_pms_def resolve_def)

lemma stream_image:
  assumes "NewChainReader cipher ms0 = Inr r"
    and "chain_stored lib be cipher (EffectiveChain ms0) blobs pms"
    and "grid_ok (cr_chunkSize r) (cr_virtualSize r)" and "cells_filled r pms"
  shows "\<exists>calls r'. stream lib be (\<lambda>_. False) log_sink r [] = (Inr calls, r') \<and>
           tiles 0 calls (cr_virtualSize r) \<and> render calls = chain_image r pms \<and>
           int (length (chain_image r pms)) = cr_virtualSize r"
proof -
  have ok: "reader_ok lib be cipher blobs pms r" using NewChainReader_ok [OF assms(1,2)] by blast
  have "stream_inv r pms 0 (-1, 0) []" by (simp add: stream_inv_def image_prefix_def render_def)
  moreover have "0 \<le> reader_GridChunks r"
    using grid_cells_nonneg [OF assms(3)] by (simp add: reader_grid [OF assms(3)])
  ultimately show ?thesis
    using stream_loop_correct [OF ok assms(3,4), of 0 "(-1, 0)" "[]"] chain_image_length [OF assms(3,4)]
    by (auto simp: stream_def)
qed

text \<open>
  C3: a restore writes the image. Streaming a chain whose stored chunks fill their cells hands the
  consumer consecutive regions that start at zero, follow one another without gap or overlap and end
  at the virtual size, and the bytes they carry are the merged image.
\<close>

theorem chain_stream_image:
  assumes "NewChainReader cipher ms0 = Inr r"
    and "chain_stored lib be cipher (EffectiveChain ms0) blobs pms"
    and "grid_ok (cr_chunkSize r) (cr_virtualSize r)" and "cells_filled r pms"
  shows "\<exists>calls r'. stream lib be (\<lambda>_. False) log_sink r [] = (Inr calls, r') \<and>
           tiles 0 calls (cr_virtualSize r) \<and> render calls = chain_image r pms \<and>
           int (length (chain_image r pms)) = cr_virtualSize r"
  by (rule stream_image [OF assms])

lemma sample_reader_sizes: "cr_chunkSize sample_reader = 4" "cr_virtualSize sample_reader = 10"
proof -
  have two: "length sample_links = 2" by (simp add: sample_links_def)
  have "loaded_inv None sample_links 2 sample_reader"
    using NewChainReader_ok [OF sample_reader_new, of toy_lib sample_backend sample_blobs sample_pms]
      sample_chain_stored unfolding sample_effective reader_ok_def Let_def by (metis two)
  then show "cr_chunkSize sample_reader = 4" "cr_virtualSize sample_reader = 10"
    by (auto simp: loaded_inv_def sample_links_def sample_link_def less_Suc_eq numeral_2_eq_2)
qed

lemma sample_cells_filled: "cells_filled sample_reader sample_pms"
proof -
  have "reader_GridChunks sample_reader = 3"
    by (simp add: reader_GridChunks_def sample_reader_sizes wrap64_def go_div_def)
  then show ?thesis
    by (auto simp: cells_filled_def sample_pms_def resolve_def reader_ChunkLength_def sample_reader_sizes
        wrap64_def less_Suc_eq numeral_3_eq_3 Let_def split: if_splits)
qed

lemma sample_image: "chain_image sample_reader sample_pms = [5, 6, 7, 8, 0, 0, 0, 0, 9, 8]"
proof -
  have "nat (reader_GridChunks sample_reader) = 3"
    by (simp add: reader_GridChunks_def sample_reader_sizes wrap64_def go_div_def)
  then show ?thesis
    by (simp add: chain_image_def image_prefix_def cell_bytes_def sample_pms_def resolve_def
        reader_ChunkLength_def sample_reader_sizes wrap64_def numeral_eq_Suc upt_rec)
qed

theorem chain_stream_image_witness:
  "\<exists>calls r'. stream toy_lib sample_backend (\<lambda>_. False) log_sink sample_reader [] = (Inr calls, r') \<and>
     tiles 0 calls 10 \<and> render calls = [5, 6, 7, 8, 0, 0, 0, 0, 9, 8]"
proof -
  have "grid_ok (cr_chunkSize sample_reader) (cr_virtualSize sample_reader)"
    by (simp add: sample_reader_sizes grid_ok_def)
  from chain_stream_image [OF sample_reader_new, of toy_lib sample_backend sample_blobs sample_pms, OF _ this
      sample_cells_filled] sample_chain_stored
  show ?thesis by (auto simp: sample_effective sample_image sample_reader_sizes)
qed

text \<open>
  C11: random access reads the image. A read inside the image returns exactly the bytes of the merged
  image at that offset and no error; a read that reaches past the end returns the bytes up to the end
  with \<open>EOF\<close>. In both cases the loop ends.
\<close>

theorem chain_ReadAt_image:
  assumes "NewChainReader cipher ms0 = Inr r"
    and "chain_stored lib be cipher (EffectiveChain ms0) blobs pms"
    and "grid_ok (cr_chunkSize r) (cr_virtualSize r)" and "cells_filled r pms"
    and "0 \<le> off" "off < cr_virtualSize r" "0 \<le> plen" "off + plen < 9223372036854775808"
  shows "\<exists>r'. chain_ReadAt lib be (\<lambda>_. False) r plen off =
     Some (if off + plen > cr_virtualSize r then Some EOF else None,
           slice (chain_image r pms) off (min plen (cr_virtualSize r - off)), r')"
proof -
  have ok: "reader_ok lib be cipher blobs pms r" using NewChainReader_ok [OF assms(1,2)] by blast
  define want where "want = min plen (cr_virtualSize r - off)"
  have w: "wrap64 (off + plen) = off + plen" using assms(5,7,8) by (simp add: go_arith)
  have wl: "0 \<le> want" "off + want \<le> cr_virtualSize r" using assms by (simp_all add: want_def)
  obtain r' where r': "read_at_loop lib be (\<lambda>_. False) off want r [] =
       Some (None, slice (chain_image r pms) off want, r')"
    using read_at_loop_correct [OF ok assms(3,4,5) wl(2), of "[]"] wl(1) by (auto simp: slice_def)
  have len: "int (length (slice (chain_image r pms) off want)) = want"
    using slice_length [of off want] chain_image_length [OF assms(3,4)] wl assms(5) by simp
  show ?thesis
  proof (cases "off + plen > cr_virtualSize r")
    case True
    then have "want = cr_virtualSize r - off" by (simp add: want_def)
    with True r' show ?thesis
      using assms(5,6) by (simp add: chain_ReadAt_def w Let_def flip: want_def)
  next
    case False
    then have "want = plen" by (simp add: want_def)
    with False r' len show ?thesis
      using assms(5,6) by (simp add: chain_ReadAt_def w Let_def flip: want_def)
  qed
qed

theorem chain_ReadAt_image_witness:
  "\<exists>r'. chain_ReadAt toy_lib sample_backend (\<lambda>_. False) sample_reader 20 3 =
     Some (Some EOF, [8, 0, 0, 0, 0, 9, 8], r')"
proof -
  have "grid_ok (cr_chunkSize sample_reader) (cr_virtualSize sample_reader)"
    by (simp add: sample_reader_sizes grid_ok_def)
  from chain_ReadAt_image [OF sample_reader_new, of toy_lib sample_backend sample_blobs sample_pms 3 20, OF _ this
      sample_cells_filled] sample_chain_stored
  show ?thesis by (auto simp: sample_effective sample_image sample_reader_sizes slice_def)
qed

definition grown_links :: "DiskManifest list" where
  "grown_links =
     [sample_link ''a'' BackupFull 6 [plain_chunk 0 [1, 2, 3, 4] 0, plain_chunk 1 [9, 8] 4],
      sample_link ''b'' BackupIncremental 8 []]"

definition grown_reader :: ChainReader where
  "grown_reader = projr (NewChainReader None grown_links)"


text \<open>
  Whole-object verification is exact. It succeeds only when the object has the recorded size and
  its digest is the recorded one, so with a collision-free digest the object is byte for byte the one
  the manifest was written for; and it succeeds on what the writer closed.
\<close>

lemma verify_object_exact:
  assumes "dm_StoredBytes m = int (length blob)" and "dm_DataSHA256 m = lib_sha256 lib blob"
    and "dm_DataSHA256 m \<noteq> ''''"
    and "be_Stat be (dm_DataKey m) = Inr (int (length obj))" and "be_Get be (dm_DataKey m) = Inr obj"
    and "inj_on (lib_sha256 lib) {blob, obj}"
  shows "VerifyDataObject lib be m = Inr () \<longleftrightarrow> obj = blob"
  using assms by (auto simp: VerifyDataObject_def Let_def inj_on_def)

end
