(* ===== verification/Layout.thy ===== *)
theory Layout
  imports Prelude
begin

text \<open>
  Object keys of a repository (\<open>internal/repo/layout.go\<close>). A Go string is ranged over by code point,
  so the input of \<open>Segment\<close> is a list of code points; the keys it builds are ASCII strings. Unicode's
  letter and digit tables beyond ASCII and its case mapping are the parameter \<open>uni\<close>.
\<close>

section \<open>Key components\<close>

type_synonym rune = nat

record unicode_tables =
  uni_letter_or_digit :: "rune \<Rightarrow> bool"
  uni_lower :: "rune \<Rightarrow> rune"

definition ascii_lower_alnum :: "rune \<Rightarrow> bool" where
  "ascii_lower_alnum r \<longleftrightarrow> 97 \<le> r \<and> r \<le> 122 \<or> 48 \<le> r \<and> r \<le> 57"

definition ascii_alnum :: "rune \<Rightarrow> bool" where
  "ascii_alnum r \<longleftrightarrow> ascii_lower_alnum r \<or> 65 \<le> r \<and> r \<le> 90"

definition ascii_lower :: "rune \<Rightarrow> rune" where
  "ascii_lower r = (if 65 \<le> r \<and> r \<le> 90 then r + 32 else r)"

definition rune_char :: "rune \<Rightarrow> char" where
  "rune_char r = char_of r"

text \<open>The Cyrillic table, from \<open>U+0430\<close> on; \<open>U+0451\<close> is its only entry outside the block.\<close>

definition translit_block :: "string list" where
  "translit_block =
     [''a'', ''b'', ''v'', ''g'', ''d'', ''e'', ''zh'', ''z'', ''i'', ''y'', ''k'', ''l'', ''m'', ''n'',
      ''o'', ''p'', ''r'', ''s'', ''t'', ''u'', ''f'', ''h'', ''c'', ''ch'', ''sh'', ''sch'', [], ''y'',
      [], ''e'', ''yu'', ''ya'']"

definition translit :: "rune \<Rightarrow> string option" where
  "translit r =
     (if r = 1105 then Some ''e''
      else if 1072 \<le> r \<and> r < 1072 + length translit_block then Some (translit_block ! (r - 1072))
      else None)"

text \<open>One rune: the bytes written so far and \<open>lastDash\<close>.\<close>

definition segment_step :: "unicode_tables \<Rightarrow> string \<times> bool \<Rightarrow> rune \<Rightarrow> string \<times> bool" where
  "segment_step uni st r =
     (let (b, lastDash) = st in
      if r < 128 \<and> ascii_alnum r then (b @ [rune_char (ascii_lower r)], False)
      else if r = 45 \<or> r = 95 \<or> r = 46 then (if \<not> lastDash then b @ [rune_char r] else b, False)
      else if uni_letter_or_digit uni r then
        (case translit (uni_lower uni r) of
           Some tr \<Rightarrow> (b @ tr, False)
         | None \<Rightarrow> if \<not> lastDash then (b @ ''-'', True) else (b, lastDash))
      else if \<not> lastDash \<and> b \<noteq> [] then (b @ ''-'', True) else (b, lastDash))"

definition trim_char :: "char \<Rightarrow> bool" where
  "trim_char c \<longleftrightarrow> c = CHR ''-'' \<or> c = CHR ''.''"

definition trim :: "string \<Rightarrow> string" where
  "trim s = rev (dropWhile trim_char (rev (dropWhile trim_char s)))"

definition Segment :: "unicode_tables \<Rightarrow> rune list \<Rightarrow> string" where
  "Segment uni s =
     (if s = [] then ''unnamed''
      else let out = trim (fst (foldl (segment_step uni) ([], False) s)) in
        if out = [] then ''unnamed''
        else if length out > 96 then trim (take 96 out) else out)"

text \<open>\<open>short[:8]\<close> cuts bytes; a VM id is ASCII, one byte per rune.\<close>

definition vmSegment :: "unicode_tables \<Rightarrow> rune list \<Rightarrow> rune list \<Rightarrow> string" where
  "vmSegment uni vmID vmName =
     (let short = (if length vmID > 8 then take 8 vmID else vmID) in
      if vmName = [] then Segment uni vmID else Segment uni vmName @ ''-'' @ Segment uni short)"

fun dec :: "nat \<Rightarrow> string" where
  "dec n = (if n < 10 then [char_of (48 + n)] else dec (n div 10) @ [char_of (48 + n mod 10)])"

declare dec.simps [simp del]

text \<open>\<open>%0wd\<close> of a number that is not negative: at least \<open>w\<close> digits.\<close>

definition pad :: "nat \<Rightarrow> nat \<Rightarrow> string" where
  "pad w n = (let d = dec n in replicate (w - length d) (CHR ''0'') @ d)"

definition Root :: string where "Root = ''jhvirt''"

definition ServerPrefix :: "unicode_tables \<Rightarrow> rune list \<Rightarrow> string" where
  "ServerPrefix uni serverName = Root @ ''/'' @ Segment uni serverName @ ''/''"

definition VMPrefix :: "unicode_tables \<Rightarrow> rune list \<Rightarrow> rune list \<Rightarrow> rune list \<Rightarrow> string" where
  "VMPrefix uni serverName vmID vmName =
     Root @ ''/'' @ Segment uni serverName @ ''/'' @ vmSegment uni vmID vmName @ ''/''"

text \<open>\<open>at\<close> is the UTC date of the run.\<close>

definition RunPrefix ::
  "unicode_tables \<Rightarrow> rune list \<Rightarrow> rune list \<Rightarrow> rune list \<Rightarrow> nat \<times> nat \<times> nat \<Rightarrow> rune list \<Rightarrow> string" where
  "RunPrefix uni serverName vmID vmName date runID =
     (case date of (year, month, day) \<Rightarrow>
        Root @ ''/'' @ Segment uni serverName @ ''/'' @ vmSegment uni vmID vmName @ ''/''
        @ pad 4 year @ ''/'' @ pad 2 month @ ''/'' @ pad 2 day @ ''/'' @ Segment uni runID @ ''/'')"

definition RunManifestKey :: "string \<Rightarrow> string" where
  "RunManifestKey runPrefix = runPrefix @ ''run.json''"

definition VMConfigKey :: "string \<Rightarrow> string" where
  "VMConfigKey runPrefix = runPrefix @ ''vm-config.json''"

definition LibvirtConfigKey :: "string \<Rightarrow> string" where
  "LibvirtConfigKey runPrefix = runPrefix @ ''vm-config.xml''"

definition DiskManifestKey :: "unicode_tables \<Rightarrow> string \<Rightarrow> nat \<Rightarrow> rune list \<Rightarrow> string" where
  "DiskManifestKey uni runPrefix index diskID =
     runPrefix @ ''disk-'' @ pad 2 index @ ''-'' @ Segment uni diskID @ ''.manifest''"

definition DiskDataKey :: "unicode_tables \<Rightarrow> string \<Rightarrow> nat \<Rightarrow> rune list \<Rightarrow> string" where
  "DiskDataKey uni runPrefix index diskID =
     runPrefix @ ''disk-'' @ pad 2 index @ ''-'' @ Segment uni diskID @ ''.data''"

definition ArtifactManifestKey :: "unicode_tables \<Rightarrow> string \<Rightarrow> nat \<Rightarrow> rune list \<Rightarrow> rune list \<Rightarrow> string" where
  "ArtifactManifestKey uni runPrefix index diskID kind =
     runPrefix @ ''artifact-'' @ pad 2 index @ ''-'' @ Segment uni diskID @ ''.'' @ Segment uni kind @ ''.manifest''"

definition ArtifactDataKey :: "unicode_tables \<Rightarrow> string \<Rightarrow> nat \<Rightarrow> rune list \<Rightarrow> rune list \<Rightarrow> string" where
  "ArtifactDataKey uni runPrefix index diskID kind =
     runPrefix @ ''artifact-'' @ pad 2 index @ ''-'' @ Segment uni diskID @ ''.'' @ Segment uni kind @ ''.data''"

definition OVAKey :: "unicode_tables \<Rightarrow> string \<Rightarrow> rune list \<Rightarrow> string" where
  "OVAKey uni runPrefix vmName = runPrefix @ Segment uni vmName @ ''.ova''"

section \<open>Components are safe\<close>

definition safe_char :: "char \<Rightarrow> bool" where
  "safe_char c \<longleftrightarrow>
     ascii_lower_alnum (of_char c) \<or> c = CHR ''-'' \<or> c = CHR ''_'' \<or> c = CHR ''.''"

lemma rune_char_safe:
  "r < 128 \<Longrightarrow> ascii_alnum r \<Longrightarrow> safe_char (rune_char (ascii_lower r))"
  by (auto simp: safe_char_def rune_char_def ascii_lower_def ascii_alnum_def ascii_lower_alnum_def)

lemma translit_safe: "translit r = Some s \<Longrightarrow> c \<in> set s \<Longrightarrow> safe_char c"
proof -
  assume a: "translit r = Some s" "c \<in> set s"
  have all: "list_all (list_all safe_char) translit_block" by code_simp
  show ?thesis
  proof (cases "r = 1105")
    case True
    then have "c = CHR ''e''" using a by (auto simp: translit_def)
    then show ?thesis by (simp add: safe_char_def ascii_lower_alnum_def)
  next
    case False
    then have "s \<in> set translit_block" using a by (auto simp: translit_def split: if_splits)
    then show ?thesis using all a(2) by (auto simp: list_all_iff)
  qed
qed

lemma segment_step_safe:
  assumes "\<forall>c \<in> set (fst st). safe_char c"
  shows "\<forall>c \<in> set (fst (segment_step uni st r)). safe_char c"
proof -
  have dash: "safe_char (CHR ''-'')" by (simp add: safe_char_def)

  obtain b l where st: "st = (b, l)" by (cases st)
  consider (alnum) "r < 128" "ascii_alnum r"
    | (punct) "\<not> (r < 128 \<and> ascii_alnum r)" "r = 45 \<or> r = 95 \<or> r = 46"
    | (letter) "\<not> (r < 128 \<and> ascii_alnum r)" "\<not> (r = 45 \<or> r = 95 \<or> r = 46)" "uni_letter_or_digit uni r"
    | (other) "\<not> (r < 128 \<and> ascii_alnum r)" "\<not> (r = 45 \<or> r = 95 \<or> r = 46)" "\<not> uni_letter_or_digit uni r"
    by blast
  then show ?thesis
  proof cases
    case alnum
    then show ?thesis using assms rune_char_safe by (simp add: segment_step_def st)
  next
    case punct
    have p: "safe_char (rune_char r)" using punct(2)
    proof (elim disjE)
      assume r: "r = 45"
      show ?thesis unfolding r by code_simp
    next
      assume r: "r = 95"
      show ?thesis unfolding r by code_simp
    next
      assume r: "r = 46"
      show ?thesis unfolding r by code_simp
    qed
    have "fst (segment_step uni st r) = (if \<not> l then b @ [rune_char r] else b)"
      unfolding segment_step_def st Let_def prod.case using punct by (simp only: if_False if_True fst_conv)
    then show ?thesis using assms p by (simp add: st)
  next
    case letter
    then have "fst (segment_step uni st r) = (case translit (uni_lower uni r) of Some tr \<Rightarrow> b @ tr
       | None \<Rightarrow> if \<not> l then b @ ''-'' else b)"
      unfolding segment_step_def st Let_def prod.case
      by (simp only: if_False if_True) (simp split: option.split)
    then show ?thesis using assms dash translit_safe by (auto simp: st split: option.split)
  next
    case other
    then have "fst (segment_step uni st r) = (if \<not> l \<and> b \<noteq> [] then b @ ''-'' else b)"
      unfolding segment_step_def st Let_def prod.case by (simp only: if_False) simp
    then show ?thesis using assms dash by (simp add: st)
  qed
qed

lemma segment_fold_safe:
  "\<forall>c \<in> set (fst st). safe_char c \<Longrightarrow> \<forall>c \<in> set (fst (foldl (segment_step uni) st rs)). safe_char c"
proof (induction rs arbitrary: st)
  case (Cons r rs)
  show ?case unfolding foldl_Cons by (rule Cons.IH [OF segment_step_safe [OF Cons.prems]])
qed simp

lemma trim_set: "set (trim s) \<subseteq> set s"
proof
  fix c assume "c \<in> set (trim s)"
  then have "c \<in> set (dropWhile trim_char (rev (dropWhile trim_char s)))" by (simp add: trim_def)
  from set_dropWhileD [OF this] have "c \<in> set (dropWhile trim_char s)" by simp
  from set_dropWhileD [OF this] show "c \<in> set s" by simp
qed

lemma trim_ends:
  assumes "trim s \<noteq> []"
  shows "\<not> trim_char (hd (trim s)) \<and> \<not> trim_char (last (trim s))"
proof -
  let ?d = "dropWhile trim_char s" and ?e = "dropWhile trim_char (rev (dropWhile trim_char s))"
  have e: "?e \<noteq> []" using assms by (simp add: trim_def)
  have l: "\<not> trim_char (hd ?e)" by (rule hd_dropWhile [OF e])
  obtain pre where pre: "rev ?d = pre @ ?e" by (metis takeWhile_dropWhile_id)
  then have d: "?d = rev ?e @ rev pre" by (metis rev_append rev_rev_ident)
  have "?d \<noteq> []" using d e by (metis append_is_Nil_conv rev_is_Nil_conv)
  then have "\<not> trim_char (hd ?d)" by (rule hd_dropWhile)
  then have "\<not> trim_char (hd (rev ?e))" using d e by (metis hd_append2 rev_is_Nil_conv)
  then show ?thesis using l e by (simp add: trim_def last_rev)
qed

lemma trim_nonempty: "\<exists>c \<in> set s. \<not> trim_char c \<Longrightarrow> trim s \<noteq> []"
  by (auto simp: trim_def dropWhile_eq_Nil_conv)
    (metis dropWhile_eq_Nil_conv set_rev takeWhile_dropWhile_id in_set_conv_decomp Un_iff set_append set_takeWhileD)

lemma trim_length: "length (trim s) \<le> length s"
  using length_dropWhile_le [of trim_char s]
    length_dropWhile_le [of trim_char "rev (dropWhile trim_char s)"] by (simp add: trim_def)

lemma segment_shape:
  "Segment uni s \<noteq> [] \<and> length (Segment uni s) \<le> 96 \<and> (\<forall>c \<in> set (Segment uni s). safe_char c) \<and>
   \<not> trim_char (hd (Segment uni s)) \<and> \<not> trim_char (last (Segment uni s))"
proof -
  let ?P = "\<lambda>t. t \<noteq> [] \<and> length t \<le> 96 \<and> (\<forall>c \<in> set t. safe_char c) \<and> \<not> trim_char (hd t) \<and> \<not> trim_char (last t)"
  define b where "b = fst (foldl (segment_step uni) ([], False) s)"
  have safe: "\<forall>c \<in> set b. safe_char c" unfolding b_def by (rule segment_fold_safe) simp
  have unnamed: "?P ''unnamed''" by code_simp
  have sub: "\<forall>c \<in> set (trim t). safe_char c" if "\<forall>c \<in> set t. safe_char c" for t
    using that trim_set [of t] by blast
  show ?thesis
  proof (cases "s = [] \<or> trim b = []")
    case True
    then have "Segment uni s = ''unnamed''" by (auto simp: Segment_def Let_def b_def [symmetric])
    then show ?thesis using unnamed by simp
  next
    case False
    show ?thesis
    proof (cases "length (trim b) > 96")
      case True
      let ?t = "take 96 (trim b)"
      have seg: "Segment uni s = trim ?t" using False True by (simp add: Segment_def Let_def b_def [symmetric])
      have "hd ?t = hd (trim b)" "?t \<noteq> []" using False by (simp_all add: hd_take)
      then have "\<exists>c \<in> set ?t. \<not> trim_char c"
        using trim_ends [of b] False by (metis hd_in_set)
      then have ne: "trim ?t \<noteq> []" by (rule trim_nonempty)
      have "\<forall>c \<in> set ?t. safe_char c" using sub [OF safe] by (meson in_set_takeD)
      then show ?thesis
        unfolding seg using ne trim_ends [OF ne] sub trim_length [of ?t] by simp
    next
      case short: False
      then have "Segment uni s = trim b" using False by (simp add: Segment_def Let_def b_def [symmetric])
      then show ?thesis using False short trim_ends [of b] sub [OF safe] by simp
    qed
  qed
qed

text \<open>
  C40: a key component is safe on every backend. Whatever name it is built from, it is not empty, has
  at most 96 characters, all of them lower-case ASCII letters, digits, dash, underscore or dot, and
  neither starts nor ends with a dash or a dot: it contains no separator and is never \<open>.\<close> or \<open>..\<close>,
  so no name escapes its directory.
\<close>

theorem segment_safe:
  "Segment uni s \<noteq> [] \<and> length (Segment uni s) \<le> 96 \<and> list_all safe_char (Segment uni s) \<and>
   \<not> trim_char (hd (Segment uni s)) \<and> \<not> trim_char (last (Segment uni s))"
  using segment_shape by (simp add: list_all_iff)

end
