(* ===== verification/ChainLoad.thy ===== *)
theory ChainLoad
  imports ChainReader Layout
begin

text \<open>
  Resolving a restore point into the manifests a reader opens: from the service's database
  (\<open>internal/backup/chain.go\<close>) and from a bare repository without a database
  (\<open>internal/backup/scan.go\<close>). Both walk the parent links with a guard against cycles; the guarded
  walk is the locale \<open>guarded_walk\<close>, interpreted on both.

  The database is a record of tables; a query that fails for another reason than a missing row does so
  by an error function. Opening a repository and decoding a document are fields of the same record.
\<close>

section \<open>The database and the repository\<close>

datatype store_error = ErrNotFound | StoreFailed string

record store =
  st_runs :: "BackupRun list"
  st_copies :: "BackupCopy list"
  st_targets :: "StorageTarget list"
  st_run_err :: "string \<Rightarrow> string option"
  st_copy_err :: "string \<Rightarrow> string option"
  st_target_err :: "string \<Rightarrow> string option"

definition query :: "('a \<Rightarrow> bool) \<Rightarrow> string option \<Rightarrow> 'a list \<Rightarrow> store_error + 'a" where
  "query p err rows =
     (case err of Some e \<Rightarrow> Inl (StoreFailed e)
      | None \<Rightarrow> (case find p rows of None \<Rightarrow> Inl ErrNotFound | Some r \<Rightarrow> Inr r))"

definition GetBackupRunFull :: "store \<Rightarrow> string \<Rightarrow> store_error + BackupRun" where
  "GetBackupRunFull db rid = query (\<lambda>r. br_ID r = rid) (st_run_err db rid) (st_runs db)"

definition GetBackupCopy :: "store \<Rightarrow> string \<Rightarrow> store_error + BackupCopy" where
  "GetBackupCopy db cid = query (\<lambda>c. bc_ID c = cid) (st_copy_err db cid) (st_copies db)"

definition GetBackupCopyForTarget :: "store \<Rightarrow> string \<Rightarrow> string \<Rightarrow> store_error + BackupCopy" where
  "GetBackupCopyForTarget db rid tid =
     query (\<lambda>c. bc_RunID c = rid \<and> bc_StorageTargetID c = tid) (st_copy_err db rid) (st_copies db)"

definition ListBackupCopies :: "store \<Rightarrow> string \<Rightarrow> store_error + BackupCopy list" where
  "ListBackupCopies db rid =
     (case st_copy_err db rid of Some e \<Rightarrow> Inl (StoreFailed e)
      | None \<Rightarrow> Inr (sort_key (\<lambda>c. if bc_Role c = CopyPrimary then 0 else (1 :: int))
                (sort_key bc_CreatedAt (filter (\<lambda>c. bc_RunID c = rid) (st_copies db)))))"

definition GetStorageTarget :: "store \<Rightarrow> string \<Rightarrow> store_error + StorageTarget" where
  "GetStorageTarget db tid = query (\<lambda>t. st_ID t = tid) (st_target_err db tid) (st_targets db)"

text \<open>What reading and decoding an object gives, for the two kinds of documents.\<close>

record documents =
  doc_open :: "StorageTarget \<Rightarrow> string option"
  doc_disk :: "string \<Rightarrow> string + DiskManifest"
  doc_run :: "string \<Rightarrow> string + RunManifest"

datatype load_error =
    StoreError store_error
  | RunDeleted string
  | OVANotRestorable
  | ConfigHasNoDisks
  | WrongRun string
  | CopyNotReady string BackupCopyStatus
  | TargetDisabled string
  | NoHealthyCopy string
  | ChainCycle string
  | ParentMissing string string
  | ParentDeleted string string
  | RootNotFull string BackupType
  | ChainCopyNotReady string string
  | OpenFailed string string
  | ManifestUnreadable string string
  | ManifestInvalid string manifest_error
  | NoManifests string
  | BaseLost string string
  | NoDisks string
  | DiskAbsent string string
  | ReaderFailed read_error
  | ForeignRunFormat string string
  | NewerRunManifest int
  | NotInRepository string

section \<open>Loading from the database\<close>

definition usable_for :: "bool \<Rightarrow> BackupCopy \<Rightarrow> bool" where
  "usable_for allowVerifying c \<longleftrightarrow> Healthy (Some c) \<or> allowVerifying \<and> bc_Status c = CopyVerifying"

fun first_healthy :: "store \<Rightarrow> BackupCopy list \<Rightarrow> (BackupCopy \<times> StorageTarget) option" where
  "first_healthy db [] = None"
| "first_healthy db (c # cs) =
     (if \<not> Healthy (Some c) then first_healthy db cs
      else case GetStorageTarget db (bc_StorageTargetID c) of
             Inr t \<Rightarrow> if st_Enabled t then Some (c, t) else first_healthy db cs
           | Inl _ \<Rightarrow> first_healthy db cs)"

definition selectHealthyCopy ::
  "store \<Rightarrow> BackupRun \<Rightarrow> string \<Rightarrow> bool \<Rightarrow> load_error + BackupCopy \<times> StorageTarget" where
  "selectHealthyCopy db run copyID allowVerifying =
     (if copyID \<noteq> '''' then
        (case GetBackupCopy db copyID of
           Inl e \<Rightarrow> Inl (StoreError e)
         | Inr c \<Rightarrow>
             if bc_RunID c \<noteq> br_ID run then Inl (WrongRun copyID)
             else if \<not> usable_for allowVerifying c then Inl (CopyNotReady copyID (bc_Status c))
             else case GetStorageTarget db (bc_StorageTargetID c) of
                    Inl e \<Rightarrow> Inl (StoreError e)
                  | Inr t \<Rightarrow> if \<not> st_Enabled t then Inl (TargetDisabled (st_Name t)) else Inr (c, t))
      else case ListBackupCopies db (br_ID run) of
             Inl e \<Rightarrow> Inl (StoreError e)
           | Inr cs \<Rightarrow> (case first_healthy db cs of
                None \<Rightarrow> Inl (NoHealthyCopy (br_ID run)) | Some ct \<Rightarrow> Inr ct))"

text \<open>The parent of a run, with the checks the walk makes on it.\<close>

definition db_parent :: "store \<Rightarrow> BackupRun \<Rightarrow> load_error + BackupRun" where
  "db_parent db cur =
     (case GetBackupRunFull db (br_ParentRunID cur) of
        Inl ErrNotFound \<Rightarrow> Inl (ParentMissing (br_ParentRunID cur) (br_ID cur))
      | Inl e \<Rightarrow> Inl (StoreError e)
      | Inr parent \<Rightarrow> if br_Deleted parent then Inl (ParentDeleted (br_ID parent) (br_ID cur)) else Inr parent)"

lemma query_mem: "query p err rows = Inr r \<Longrightarrow> r \<in> set rows \<and> p r"
  by (auto simp: query_def find_Some_iff split: option.splits)

lemma db_parent_mem: "db_parent db cur = Inr p \<Longrightarrow> p \<in> set (st_runs db) \<and> br_ID p = br_ParentRunID cur \<and> \<not> br_Deleted p"
  by (auto simp: db_parent_def GetBackupRunFull_def dest: query_mem split: sum.splits store_error.splits if_splits)

lemma walk_measure:
  assumes "finite U" "x \<notin> S" "y \<in> U"
  shows "card (insert y U - insert x S) < card (insert x U - S)"
proof (rule psubset_card_mono)
  show "finite (insert x U - S)" using assms(1) by simp
  have "x \<in> insert x U - S" "x \<notin> insert y U - insert x S" using assms(2) by auto
  moreover have "insert y U - insert x S \<subseteq> insert x U - S" using assms(3) by auto
  ultimately show "insert y U - insert x S \<subset> insert x U - S" by blast
qed

text \<open>\<open>acc\<close> holds the runs met so far, the leaf first; their ids are \<open>seen\<close>.\<close>

function walk_up :: "store \<Rightarrow> BackupRun list \<Rightarrow> BackupRun \<Rightarrow> load_error + BackupRun list" where
  "walk_up db acc cur =
     (if br_ID cur \<in> br_ID ` set acc then Inl (ChainCycle (br_ID cur))
      else if br_ParentRunID cur = '''' then Inr (acc @ [cur])
      else case db_parent db cur of
             Inl e \<Rightarrow> Inl e
           | Inr parent \<Rightarrow> walk_up db (acc @ [cur]) parent)"
  by pat_completeness auto
termination
proof (relation "measure (\<lambda>(db, acc, cur).
    card (insert (br_ID cur) (br_ID ` set (st_runs db)) - br_ID ` set acc))")
  fix db :: store and acc :: "BackupRun list" and cur x2 :: BackupRun
  assume a: "br_ID cur \<notin> br_ID ` set acc" "db_parent db cur = Inr x2"
  have "br_ID x2 \<in> br_ID ` set (st_runs db)" using db_parent_mem [OF a(2)] by blast
  with a show "((db, acc @ [cur], x2), db, acc, cur) \<in> measure (\<lambda>(db, acc, cur).
      card (insert (br_ID cur) (br_ID ` set (st_runs db)) - br_ID ` set acc))"
    using walk_measure [of "br_ID ` set (st_runs db)" "br_ID cur" "br_ID ` set acc" "br_ID x2"] by simp
qed simp

declare walk_up.simps [simp del]

fun copies_ready ::
  "store \<Rightarrow> bool \<Rightarrow> BackupRun \<Rightarrow> BackupCopy \<Rightarrow> string \<Rightarrow> BackupRun list \<Rightarrow> load_error + unit" where
  "copies_ready db allowVerifying leaf selected targetName [] = Inr ()"
| "copies_ready db allowVerifying leaf selected targetName (run # runs) =
     (let got = GetBackupCopyForTarget db (br_ID run) (bc_StorageTargetID selected);
          ready = (case got of Inl _ \<Rightarrow> False
                   | Inr c \<Rightarrow> Healthy (Some c) \<or>
                       allowVerifying \<and> br_ID run = br_ID leaf \<and> bc_ID c = bc_ID selected \<and>
                       bc_Status c = CopyVerifying)
      in if \<not> ready then Inl (ChainCopyNotReady (br_ID run) targetName)
         else copies_ready db allowVerifying leaf selected targetName runs)"

record ChainSet =
  set_Leaf :: BackupRun
  set_Runs :: "BackupRun list"
  set_Manifests :: "string \<rightharpoonup> DiskManifest list"
  set_DiskOrder :: "string list"
  set_RunManifest :: "RunManifest option"
  set_Target :: StorageTarget
  set_Copy :: BackupCopy

text \<open>\<open>ReadRunManifest\<close> and \<open>loadDiskManifest\<close>: decode, then check.\<close>

definition ReadRunManifest :: "documents \<Rightarrow> string \<Rightarrow> load_error + RunManifest" where
  "ReadRunManifest docs key =
     (case doc_run docs key of
        Inl e \<Rightarrow> Inl (ManifestUnreadable key e)
      | Inr doc \<Rightarrow>
          if rm_Format doc \<noteq> FormatName then Inl (ForeignRunFormat key (rm_Format doc))
          else if rm_Version doc > FormatVersion then Inl (NewerRunManifest (rm_Version doc))
          else Inr doc)"

definition loadDiskManifest :: "documents \<Rightarrow> string \<Rightarrow> load_error + DiskManifest" where
  "loadDiskManifest docs key =
     (case doc_disk docs key of
        Inl e \<Rightarrow> Inl (ManifestUnreadable key e)
      | Inr m \<Rightarrow> (case manifest_Validate m of Inl e \<Rightarrow> Inl (ManifestInvalid key e) | Inr _ \<Rightarrow> Inr m))"

definition push_manifest :: "string \<Rightarrow> DiskManifest \<Rightarrow> (string \<rightharpoonup> DiskManifest list) \<Rightarrow> (string \<rightharpoonup> DiskManifest list)" where
  "push_manifest d m ms = ms(d \<mapsto> (case ms d of None \<Rightarrow> [m] | Some l \<Rightarrow> l @ [m]))"

fun load_disks ::
  "documents \<Rightarrow> string list \<Rightarrow> BackupDisk list \<Rightarrow> (string \<rightharpoonup> DiskManifest list) \<Rightarrow> load_error + (string \<rightharpoonup> DiskManifest list)" where
  "load_disks docs order [] ms = Inr ms"
| "load_disks docs order (d # ds) ms =
     (if bd_Status d \<noteq> RunSucceeded \<or> bd_ManifestKey d = '''' \<or> bd_DiskID d \<notin> set order
      then load_disks docs order ds ms
      else case loadDiskManifest docs (bd_ManifestKey d) of
             Inl e \<Rightarrow> Inl e
           | Inr m \<Rightarrow> load_disks docs order ds (push_manifest (bd_DiskID d) m ms))"

fun effective_disks ::
  "string list \<Rightarrow> (string \<rightharpoonup> DiskManifest list) \<Rightarrow> load_error + (string \<rightharpoonup> DiskManifest list)" where
  "effective_disks [] ms = Inr ms"
| "effective_disks (d # ds) ms =
     (let chain = EffectiveChain (case ms d of None \<Rightarrow> [] | Some l \<Rightarrow> l) in
      if chain = [] then Inl (NoManifests d)
      else if dm_Type (hd chain) = BackupIncremental \<or> dm_Type (hd chain) = BackupDifferential
      then Inl (BaseLost d (dm_RunID (hd chain)))
      else effective_disks ds (ms(d \<mapsto> chain)))"

definition native_artifact :: "RunManifest option \<Rightarrow> bool" where
  "native_artifact doc =
     (case doc of None \<Rightarrow> False
      | Some d \<Rightarrow> (case rm_Provider d of None \<Rightarrow> False
          | Some p \<Rightarrow> pb_Name p = ''proxmox'' \<and>
              list_ex (\<lambda>a. ra_Kind a = ''proxmox-vzdump'' \<and> ra_ManifestKey a \<noteq> '''' \<and> ra_DataKey a \<noteq> '''')
                (rm_Artifacts d)))"

definition root_ok :: "bool \<Rightarrow> BackupRun \<Rightarrow> bool" where
  "root_ok allowConfig root \<longleftrightarrow>
     br_Type root = BackupFull \<or> br_Type root = BackupSnapshot \<or> allowConfig \<and> br_Type root = BackupConfig"

text \<open>The part after the runs are known: open the repository and collect the manifests.\<close>

definition assemble ::
  "documents \<Rightarrow> bool \<Rightarrow> BackupRun \<Rightarrow> BackupRun list \<Rightarrow> BackupCopy \<Rightarrow> StorageTarget \<Rightarrow> load_error + ChainSet" where
  "assemble docs allowConfig leaf runs selected target =
     (case doc_open docs target of
        Some e \<Rightarrow> Inl (OpenFailed (st_Name target) e)
      | None \<Rightarrow>
          let doc = (case ReadRunManifest docs (RunManifestKey (bc_RepoPath selected)) of
                       Inr d \<Rightarrow> Some d | Inl _ \<Rightarrow> None);
              order = map bd_DiskID (filter (\<lambda>d. bd_Status d = RunSucceeded) (br_Disks leaf))
          in bindR (load_disks docs order (concat (map br_Disks runs)) Map.empty)
               (\<lambda>ms. bindR (effective_disks order ms)
                 (\<lambda>ms. if order = [] \<and> \<not> (allowConfig \<and> br_Type leaf = BackupConfig) \<and> \<not> native_artifact doc
                       then Inl (NoDisks (br_ID leaf))
                       else Inr \<lparr>set_Leaf = leaf, set_Runs = runs, set_Manifests = ms, set_DiskOrder = order,
                                 set_RunManifest = doc, set_Target = target, set_Copy = selected\<rparr>)))"

definition loadChainCopy ::
  "store \<Rightarrow> documents \<Rightarrow> string \<Rightarrow> string \<Rightarrow> bool \<Rightarrow> bool \<Rightarrow> load_error + ChainSet" where
  "loadChainCopy db docs runID copyID allowVerifying allowConfig =
     (case GetBackupRunFull db runID of
        Inl e \<Rightarrow> Inl (StoreError e)
      | Inr leaf \<Rightarrow>
          if br_Deleted leaf then Inl (RunDeleted runID)
          else if br_Type leaf = BackupOVA then Inl OVANotRestorable
          else if br_Type leaf = BackupConfig \<and> \<not> allowConfig then Inl ConfigHasNoDisks
          else bindR (selectHealthyCopy db leaf copyID allowVerifying)
            (\<lambda>(selected, target). bindR (walk_up db [] leaf)
              (\<lambda>ups. let runs = rev ups in
                 if \<not> root_ok allowConfig (hd runs) then Inl (RootNotFull (br_ID (hd runs)) (br_Type (hd runs)))
                 else bindR (copies_ready db allowVerifying leaf selected (st_Name target) runs)
                   (\<lambda>_. assemble docs allowConfig leaf runs selected target))))"

definition LoadChainCopy :: "store \<Rightarrow> documents \<Rightarrow> string \<Rightarrow> string \<Rightarrow> load_error + ChainSet" where
  "LoadChainCopy db docs runID copyID = loadChainCopy db docs runID copyID False False"

definition LoadChain :: "store \<Rightarrow> documents \<Rightarrow> string \<Rightarrow> load_error + ChainSet" where
  "LoadChain db docs runID = LoadChainCopy db docs runID ''''"

definition LoadVMChainCopy :: "store \<Rightarrow> documents \<Rightarrow> string \<Rightarrow> string \<Rightarrow> load_error + ChainSet" where
  "LoadVMChainCopy db docs runID copyID = loadChainCopy db docs runID copyID False True"

definition DiskAliases :: "ChainSet \<Rightarrow> string \<Rightarrow> string option" where
  "DiskAliases c d =
     (case set_Manifests c d of Some (m # ms) \<Rightarrow> Some (dm_Alias (last (m # ms))) | _ \<Rightarrow> None)"

definition ReaderFor :: "Cipher option \<Rightarrow> ChainSet \<Rightarrow> string \<Rightarrow> load_error + ChainReader" where
  "ReaderFor cipher cset diskID =
     (case set_Manifests cset diskID of
        None \<Rightarrow> Inl (DiskAbsent diskID (br_ID (set_Leaf cset)))
      | Some chain \<Rightarrow> (case NewChainReader cipher chain of Inl e \<Rightarrow> Inl (ReaderFailed e) | Inr r \<Rightarrow> Inr r))"

section \<open>Loading from a bare repository\<close>

record StoredRun =
  sr_Prefix :: string
  sr_Manifest :: RunManifest

definition sr_id :: "StoredRun \<Rightarrow> string" where "sr_id s = rm_RunID (sr_Manifest s)"
definition sr_parent :: "StoredRun \<Rightarrow> string" where "sr_parent s = rm_ParentRunID (sr_Manifest s)"

definition stored_by_id :: "StoredRun list \<Rightarrow> (string \<rightharpoonup> StoredRun)" where
  "stored_by_id runs = foldl (\<lambda>m r. m(sr_id r \<mapsto> r)) Map.empty runs"

definition has_suffix :: "string \<Rightarrow> string \<Rightarrow> bool" where
  "has_suffix suf s \<longleftrightarrow> length suf \<le> length s \<and> drop (length s - length suf) s = suf"

definition trim_suffix :: "string \<Rightarrow> string \<Rightarrow> string" where
  "trim_suffix suf s = (if has_suffix suf s then take (length s - length suf) s else s)"

definition trim_prefix :: "string \<Rightarrow> string \<Rightarrow> string" where
  "trim_prefix pre s = (if take (length pre) s = pre then drop (length pre) s else s)"

fun scan_objects :: "documents \<Rightarrow> string list \<Rightarrow> StoredRun list" where
  "scan_objects docs [] = []"
| "scan_objects docs (key # keys) =
     (if \<not> has_suffix ''/run.json'' key then scan_objects docs keys
      else case ReadRunManifest docs key of
             Inl _ \<Rightarrow> scan_objects docs keys
           | Inr m \<Rightarrow> \<lparr>sr_Prefix = trim_suffix ''run.json'' key, sr_Manifest = m\<rparr> # scan_objects docs keys)"

text \<open>\<open>objects prefix\<close> is the listing of the backend. The result is sorted by time; \<open>sort.Slice\<close> leaves
  the order of runs created at the same instant open, the model keeps the listing's.\<close>

definition ScanRepository ::
  "documents \<Rightarrow> (string \<Rightarrow> string + string list) \<Rightarrow> string \<Rightarrow> string + StoredRun list" where
  "ScanRepository docs objects prefix0 =
     (let prefix = (if prefix0 = '''' then Root @ ''/'' else prefix0) in
      case objects prefix of
        Inl e \<Rightarrow> Inl e
      | Inr keys \<Rightarrow> Inr (sort_key (\<lambda>r. rm_CreatedAt (sr_Manifest r)) (scan_objects docs keys)))"

definition repo_parent :: "StoredRun list \<Rightarrow> StoredRun \<Rightarrow> load_error + StoredRun" where
  "repo_parent runs cur =
     (case stored_by_id runs (sr_parent cur) of
        None \<Rightarrow> Inl (ParentMissing (sr_parent cur) (sr_id cur))
      | Some p \<Rightarrow> Inr p)"

lemma stored_by_id_simps:
  "stored_by_id [] = Map.empty" "stored_by_id (rs @ [r]) = (stored_by_id rs)(sr_id r \<mapsto> r)"
  by (simp_all add: stored_by_id_def)

lemma stored_by_id_mem: "stored_by_id rs x = Some r \<Longrightarrow> r \<in> set rs \<and> sr_id r = x"
  by (induction rs rule: rev_induct) (auto simp: stored_by_id_simps split: if_splits)

lemma repo_parent_mem: "repo_parent rs cur = Inr p \<Longrightarrow> p \<in> set rs \<and> sr_id p = sr_parent cur"
  by (auto simp: repo_parent_def dest: stored_by_id_mem split: option.splits)

function find_walk :: "StoredRun list \<Rightarrow> StoredRun list \<Rightarrow> StoredRun \<Rightarrow> load_error + StoredRun list" where
  "find_walk runs acc cur =
     (if sr_id cur \<in> sr_id ` set acc then Inl (ChainCycle (sr_id cur))
      else if sr_parent cur = '''' then Inr (acc @ [cur])
      else case repo_parent runs cur of
             Inl e \<Rightarrow> Inl e
           | Inr parent \<Rightarrow> find_walk runs (acc @ [cur]) parent)"
  by pat_completeness auto
termination
proof (relation "measure (\<lambda>(runs, acc, cur).
    card (insert (sr_id cur) (sr_id ` set runs) - sr_id ` set acc))")
  fix runs acc :: "StoredRun list" and cur x2 :: StoredRun
  assume a: "sr_id cur \<notin> sr_id ` set acc" "repo_parent runs cur = Inr x2"
  have "sr_id x2 \<in> sr_id ` set runs" using repo_parent_mem [OF a(2)] by blast
  with a show "((runs, acc @ [cur], x2), runs, acc, cur) \<in> measure (\<lambda>(runs, acc, cur).
      card (insert (sr_id cur) (sr_id ` set runs) - sr_id ` set acc))"
    using walk_measure [of "sr_id ` set runs" "sr_id cur" "sr_id ` set acc" "sr_id x2"] by simp
qed simp

declare find_walk.simps [simp del]

definition FindChain :: "StoredRun list \<Rightarrow> string \<Rightarrow> load_error + StoredRun list" where
  "FindChain runs leafRunID =
     (case stored_by_id runs leafRunID of
        None \<Rightarrow> Inl (NotInRepository leafRunID)
      | Some leaf \<Rightarrow>
          bindR (find_walk runs [] leaf)
            (\<lambda>ups. let chain = rev ups; root = sr_Manifest (hd chain) in
               if rm_Type root \<noteq> BackupFull \<and> rm_Type root \<noteq> BackupSnapshot
               then Inl (RootNotFull (rm_RunID root) (rm_Type root)) else Inr chain))"

definition usable_base :: "StoredRun list \<Rightarrow> string \<Rightarrow> bool \<Rightarrow> StoredRun \<Rightarrow> bool" where
  "usable_base runs vmID onlyFull r \<longleftrightarrow>
     (let m = sr_Manifest r in
      (rm_VMID m = vmID \<or> rm_VMName m = vmID) \<and> rm_ToCheckpointID m \<noteq> '''' \<and>
      (onlyFull \<longrightarrow> rm_Type m = BackupFull) \<and> \<not> isl (FindChain runs (rm_RunID m)))"

fun latest_loop :: "StoredRun list \<Rightarrow> string \<Rightarrow> bool \<Rightarrow> StoredRun option \<Rightarrow> StoredRun list \<Rightarrow> StoredRun option" where
  "latest_loop runs vmID onlyFull best [] = best"
| "latest_loop runs vmID onlyFull best (r # rs) =
     (if \<not> usable_base runs vmID onlyFull r then latest_loop runs vmID onlyFull best rs
      else latest_loop runs vmID onlyFull
        (case best of None \<Rightarrow> Some r
         | Some b \<Rightarrow> if rm_CreatedAt (sr_Manifest r) > rm_CreatedAt (sr_Manifest b) then Some r else best) rs)"

definition LatestUsable :: "StoredRun list \<Rightarrow> string \<Rightarrow> bool \<Rightarrow> StoredRun option" where
  "LatestUsable runs vmID onlyFull = latest_loop runs vmID onlyFull None runs"

fun chain_disks ::
  "documents \<Rightarrow> string list \<Rightarrow> (string \<times> RunManifestDisk) list \<Rightarrow> (string \<rightharpoonup> DiskManifest list) \<Rightarrow>
   load_error + (string \<rightharpoonup> DiskManifest list)" where
  "chain_disks docs present [] ms = Inr ms"
| "chain_disks docs present ((prefix, d) # ds) ms =
     (if rd_DiskID d \<notin> set present then chain_disks docs present ds ms
      else let key = (if rd_ManifestKey d = '''' then prefix @ trim_prefix prefix (rd_DataKey d)
                      else rd_ManifestKey d)
           in case loadDiskManifest docs key of
                Inl e \<Rightarrow> Inl e
              | Inr m \<Rightarrow> chain_disks docs present ds (push_manifest (rd_DiskID d) m ms))"

definition LoadChainManifests ::
  "documents \<Rightarrow> StoredRun list \<Rightarrow> load_error + (string \<rightharpoonup> DiskManifest list) \<times> string list" where
  "LoadChainManifests docs chain =
     (let order = map rd_DiskID (rm_Disks (sr_Manifest (last chain)));
          all = concat (map (\<lambda>r. map (\<lambda>d. (sr_Prefix r, d)) (rm_Disks (sr_Manifest r))) chain)
      in bindR (chain_disks docs order all Map.empty)
           (\<lambda>ms. case find (\<lambda>d. ms d = None) order of
                   Some d \<Rightarrow> Inl (NoManifests d)
                 | None \<Rightarrow> Inr (ms, order)))"

section \<open>The guarded walk\<close>

text \<open>Leaf first: each node's parent is the next one, ids are distinct and the last has no parent.\<close>

definition linked :: "('n \<Rightarrow> string) \<Rightarrow> ('n \<Rightarrow> string) \<Rightarrow> ('n \<Rightarrow> 'e + 'n) \<Rightarrow> 'n list \<Rightarrow> bool" where
  "linked nid pid parent ns \<longleftrightarrow>
     distinct (map nid ns) \<and>
     (\<forall>i. Suc i < length ns \<longrightarrow> parent (ns ! i) = Inr (ns ! Suc i) \<and> pid (ns ! i) \<noteq> '''')"

lemma linked_snoc:
  assumes "linked nid pid parent acc" "acc \<noteq> [] \<Longrightarrow> parent (last acc) = Inr cur \<and> pid (last acc) \<noteq> ''''"
    and "nid cur \<notin> nid ` set acc"
  shows "linked nid pid parent (acc @ [cur])"
proof -
  have "parent ((acc @ [cur]) ! i) = Inr ((acc @ [cur]) ! Suc i) \<and> pid ((acc @ [cur]) ! i) \<noteq> ''''"
    if i: "Suc i < length (acc @ [cur])" for i
  proof (cases "Suc i < length acc")
    case True
    then show ?thesis using assms(1) by (auto simp: linked_def nth_append)
  next
    case False
    then have "Suc i = length acc" "acc \<noteq> []" using i by auto
    then have "acc ! i = last acc" by (metis diff_Suc_1 last_conv_nth)
    then show ?thesis using assms(2) \<open>acc \<noteq> []\<close> \<open>Suc i = length acc\<close> by (simp add: nth_append)
  qed
  then show ?thesis using assms(1,3) by (simp add: linked_def)
qed

locale guarded_walk =
  fixes nid pid :: "'n \<Rightarrow> string" and parent :: "'n \<Rightarrow> load_error + 'n"
    and walk :: "'n list \<Rightarrow> 'n \<Rightarrow> load_error + 'n list" and U :: "'n set"
  assumes fin: "finite U"
    and parent_in: "parent n = Inr p \<Longrightarrow> p \<in> U \<and> nid p = pid n"
    and walk_eq: "walk acc cur =
       (if nid cur \<in> nid ` set acc then Inl (ChainCycle (nid cur))
        else if pid cur = '''' then Inr (acc @ [cur])
        else case parent cur of Inl e \<Rightarrow> Inl e | Inr p \<Rightarrow> walk (acc @ [cur]) p)"
begin

lemma walk_induct:
  assumes "\<And>acc cur. (\<And>p. nid cur \<notin> nid ` set acc \<Longrightarrow> pid cur \<noteq> '''' \<Longrightarrow> parent cur = Inr p \<Longrightarrow>
     P (acc @ [cur]) p) \<Longrightarrow> P acc cur"
  shows "P acc cur"
proof (induction "card (insert (nid cur) (nid ` U) - nid ` set acc)" arbitrary: acc cur rule: less_induct)
  case less
  show ?case
  proof (rule assms)
    fix p assume a: "nid cur \<notin> nid ` set acc" "parent cur = Inr p"
    have "nid p \<in> nid ` U" using parent_in [OF a(2)] by blast
    then show "P (acc @ [cur]) p"
      using less [of p "acc @ [cur]"] walk_measure [OF finite_imageI [OF fin] a(1), of "nid p" nid] by simp
  qed
qed

lemma walk_linked:
  "walk acc cur = Inr ns \<Longrightarrow> linked nid pid parent acc \<Longrightarrow>
   (acc \<noteq> [] \<longrightarrow> parent (last acc) = Inr cur \<and> pid (last acc) \<noteq> '''') \<Longrightarrow>
   linked nid pid parent ns \<and> pid (last ns) = '''' \<and> (\<exists>rest. ns = (acc @ [cur]) @ rest \<and> set rest \<subseteq> U)"
proof (induction acc cur rule: walk_induct)
  case (1 acc cur)
  have fresh: "nid cur \<notin> nid ` set acc" using "1.prems"(1) by (auto simp: walk_eq [of acc] split: if_splits)
  have ext: "linked nid pid parent (acc @ [cur])" using "1.prems"(2,3) fresh by (intro linked_snoc) auto
  show ?case
  proof (cases "pid cur = ''''")
    case True
    then have "ns = acc @ [cur]" using "1.prems"(1) fresh by (simp add: walk_eq [of acc])
    then show ?thesis using True ext by simp
  next
    case False
    then obtain p where p: "parent cur = Inr p" "walk (acc @ [cur]) p = Inr ns"
      using "1.prems"(1) fresh by (auto simp: walk_eq [of acc] split: sum.splits)
    have "linked nid pid parent ns \<and> pid (last ns) = '''' \<and>
        (\<exists>rest. ns = ((acc @ [cur]) @ [p]) @ rest \<and> set rest \<subseteq> U)"
      using "1.IH" [OF fresh False p(1) p(2) ext] p(1) False by simp
    then show ?thesis using parent_in [OF p(1)] by auto
  qed
qed

lemma rootless_cycle:
  assumes "\<And>n. n \<in> S \<Longrightarrow> pid n \<noteq> '''' \<and> (\<exists>p \<in> S. parent n = Inr p)"
  shows "cur \<in> S \<Longrightarrow> \<exists>x. walk acc cur = Inl (ChainCycle x)"
proof (induction acc cur rule: walk_induct)
  case (1 acc cur)
  show ?case
  proof (cases "nid cur \<in> nid ` set acc")
    case True
    then show ?thesis by (simp add: walk_eq [of acc])
  next
    case False
    then show ?thesis using "1.IH" assms [OF "1.prems"] by (auto simp: walk_eq [of acc])
  qed
qed

end

interpretation db_walk: guarded_walk br_ID br_ParentRunID "db_parent db" "walk_up db" "set (st_runs db)"
  for db
proof
  show "finite (set (st_runs db))" by simp
  show "p \<in> set (st_runs db) \<and> br_ID p = br_ParentRunID n" if "db_parent db n = Inr p" for n p
    using db_parent_mem [OF that] by blast
qed (rule walk_up.simps)

interpretation repo_walk: guarded_walk sr_id sr_parent "repo_parent runs" "find_walk runs" "set runs"
  for runs
proof
  show "finite (set runs)" by simp
  show "p \<in> set runs \<and> sr_id p = sr_parent n" if "repo_parent runs n = Inr p" for n p
    using repo_parent_mem [OF that] by blast
qed (rule find_walk.simps)

section \<open>What loading guarantees\<close>

lemma linked_rev:
  assumes "linked nid pid parent ns" "Suc i < length ns"
  shows "parent (rev ns ! Suc i) = Inr (rev ns ! i)"
proof -
  have "rev ns ! Suc i = ns ! (length ns - Suc (Suc i))" "rev ns ! i = ns ! (length ns - Suc i)"
    using assms(2) by (simp_all add: rev_nth)
  moreover have "Suc (length ns - Suc (Suc i)) = length ns - Suc i" using assms(2) by simp
  ultimately show ?thesis
    using assms(1) assms(2) unfolding linked_def
    by (metis Suc_diff_Suc Suc_lessD diff_Suc_less length_greater_0_conv list.size(3) not_less_zero)
qed

text \<open>The order of a restore chain: root first, each run the parent of the next.\<close>

definition root_to_leaf :: "('n \<Rightarrow> string) \<Rightarrow> ('n \<Rightarrow> string) \<Rightarrow> 'n list \<Rightarrow> bool" where
  "root_to_leaf nid pid ns \<longleftrightarrow>
     ns \<noteq> [] \<and> distinct (map nid ns) \<and> pid (hd ns) = '''' \<and>
     (\<forall>i. Suc i < length ns \<longrightarrow> pid (ns ! Suc i) = nid (ns ! i))"

lemma linked_root_to_leaf:
  assumes "linked nid pid parent ns" "pid (last ns) = ''''" "ns \<noteq> []"
    and "\<And>n p. parent n = Inr p \<Longrightarrow> nid p = pid n"
  shows "root_to_leaf nid pid (rev ns)"
  unfolding root_to_leaf_def
proof (intro conjI allI impI)
  show "rev ns \<noteq> []" "pid (hd (rev ns)) = ''''" using assms(2,3) by (simp_all add: hd_rev)
  show "distinct (map nid (rev ns))" using assms(1) by (simp add: linked_def rev_map [symmetric])
  fix i assume "Suc i < length (rev ns)"
  then show "pid (rev ns ! Suc i) = nid (rev ns ! i)"
    using linked_rev [OF assms(1), of i] assms(4) by fastforce
qed

lemma walk_up_runs:
  assumes "walk_up db [] leaf = Inr ups"
  shows "root_to_leaf br_ID br_ParentRunID (rev ups) \<and> last (rev ups) = leaf \<and>
         (\<forall>r \<in> set ups. r = leaf \<or> \<not> br_Deleted r)"
proof -
  have start: "linked br_ID br_ParentRunID (db_parent db) []" by (simp add: linked_def)
  have e: "([] :: BackupRun list) \<noteq> [] \<longrightarrow> db_parent db (last []) = Inr leaf \<and>
      br_ParentRunID (last ([] :: BackupRun list)) \<noteq> ''''" by blast
  note w = db_walk.walk_linked [OF assms start e]
  have lk: "linked br_ID br_ParentRunID (db_parent db) ups" "br_ParentRunID (last ups) = ''''"
    by (rule conjunct1 [OF w], rule conjunct1 [OF conjunct2 [OF w]])
  obtain rest where "ups = ([] @ [leaf]) @ rest" using conjunct2 [OF conjunct2 [OF w]] by (elim exE conjE)
  then have ext: "ups = leaf # rest" by (simp only: append.simps)
  have "\<not> br_Deleted r" if mem: "r \<in> set ups" and ne: "r \<noteq> leaf" for r
  proof -
    obtain i where i: "i < length ups" "ups ! i = r" using mem by (auto simp: in_set_conv_nth)
    with ne ext have "i \<noteq> 0" by (intro notI) simp
    then obtain j where "i = Suc j" using not0_implies_Suc by blast
    then have "db_parent db (ups ! j) = Inr r" using lk(1) i by (auto simp: linked_def)
    then show ?thesis using db_parent_mem by blast
  qed
  moreover have "root_to_leaf br_ID br_ParentRunID (rev ups)"
    using linked_root_to_leaf [OF lk] ext db_parent_mem by blast
  moreover have "last (rev ups) = leaf" using ext by auto
  ultimately show ?thesis by blast
qed

lemma copies_ready_all:
  assumes "copies_ready db av leaf selected tn runs = Inr ()" "r \<in> set runs"
  shows "\<exists>c \<in> set (st_copies db). bc_RunID c = br_ID r \<and> bc_StorageTargetID c = bc_StorageTargetID selected \<and>
     (Healthy (Some c) \<or> av \<and> br_ID r = br_ID leaf \<and> bc_ID c = bc_ID selected \<and> bc_Status c = CopyVerifying)"
  using assms
proof (induction runs)
  case (Cons a runs)
  show ?case
  proof (cases "r = a")
    case True
    then obtain c where "GetBackupCopyForTarget db (br_ID r) (bc_StorageTargetID selected) = Inr c"
      "Healthy (Some c) \<or> av \<and> br_ID r = br_ID leaf \<and> bc_ID c = bc_ID selected \<and> bc_Status c = CopyVerifying"
      using Cons.prems(1) by (auto simp: Let_def split: if_splits sum.splits)
    then show ?thesis using query_mem by (fastforce simp: GetBackupCopyForTarget_def)
  next
    case False
    then show ?thesis using Cons by (auto simp: Let_def split: if_splits)
  qed
qed simp

lemma EffectiveChain_idem: "EffectiveChain (EffectiveChain ms) = EffectiveChain ms"
proof (cases "last_base ms (length ms - 1)")
  case None
  then show ?thesis by (simp add: EffectiveChain_def)
next
  case (Some i)
  note i = last_base_Some [OF Some]
  have d: "EffectiveChain ms = drop i ms" using Some by (simp add: EffectiveChain_def)
  have "last_base (drop i ms) (length (drop i ms) - 1) = None"
    unfolding last_base_None using i by auto
  then show ?thesis unfolding d by (simp add: EffectiveChain_def)
qed

lemma effective_disks_other: "effective_disks ds ms = Inr ms' \<Longrightarrow> d \<notin> set ds \<Longrightarrow> ms' d = ms d"
  by (induction ds arbitrary: ms) (auto simp: Let_def split: if_splits)

lemma effective_disks_all:
  assumes "effective_disks ds ms = Inr ms'" "d \<in> set ds"
  shows "\<exists>l. ms' d = Some l \<and> l \<noteq> [] \<and> EffectiveChain l = l \<and>
     dm_Type (hd l) \<noteq> BackupIncremental \<and> dm_Type (hd l) \<noteq> BackupDifferential"
  using assms
proof (induction ds arbitrary: ms)
  case (Cons a ds)
  define chain where "chain = EffectiveChain (case ms a of None \<Rightarrow> [] | Some l \<Rightarrow> l)"
  have c: "chain \<noteq> []" "dm_Type (hd chain) \<noteq> BackupIncremental" "dm_Type (hd chain) \<noteq> BackupDifferential"
    and rest: "effective_disks ds (ms(a \<mapsto> chain)) = Inr ms'"
    using Cons.prems(1) by (auto simp: Let_def chain_def split: if_splits)
  show ?case
  proof (cases "d \<in> set ds")
    case True
    then show ?thesis using Cons.IH [OF rest] by blast
  next
    case False
    then have "ms' d = Some chain" using Cons.prems(2) effective_disks_other [OF rest] by simp
    then show ?thesis using c EffectiveChain_idem by (simp add: chain_def)
  qed
qed simp

lemma selectHealthyCopy_enabled: "selectHealthyCopy db run cid av = Inr (c, t) \<Longrightarrow> st_Enabled t"
proof -
  have fh: "first_healthy db cs = Some (c, t) \<Longrightarrow> st_Enabled t" for cs
    by (induction cs) (auto split: if_splits sum.splits)
  assume "selectHealthyCopy db run cid av = Inr (c, t)"
  then show ?thesis
    using fh by (auto simp: selectHealthyCopy_def split: if_splits sum.splits option.splits)
qed

lemma loadChainCopy_parts:
  assumes "loadChainCopy db docs runID copyID av ac = Inr cs"
  obtains leaf selected target ups where
    "leaf \<in> set (st_runs db)" "br_ID leaf = runID" "\<not> br_Deleted leaf"
    "selectHealthyCopy db leaf copyID av = Inr (selected, target)" "walk_up db [] leaf = Inr ups"
    "root_ok ac (hd (rev ups))" "copies_ready db av leaf selected (st_Name target) (rev ups) = Inr ()"
    "assemble docs ac leaf (rev ups) selected target = Inr cs"
proof -
  obtain leaf where l: "GetBackupRunFull db runID = Inr leaf" "\<not> br_Deleted leaf"
    "bindR (selectHealthyCopy db leaf copyID av)
            (\<lambda>(selected, target). bindR (walk_up db [] leaf)
              (\<lambda>ups. let runs = rev ups in
                 if \<not> root_ok ac (hd runs) then Inl (RootNotFull (br_ID (hd runs)) (br_Type (hd runs)))
                 else bindR (copies_ready db av leaf selected (st_Name target) runs)
                   (\<lambda>_. assemble docs ac leaf runs selected target))) = Inr cs"
    using assms unfolding loadChainCopy_def by (cases "GetBackupRunFull db runID") (auto split: if_splits)
  have m: "leaf \<in> set (st_runs db)" "br_ID leaf = runID"
    using query_mem [OF l(1) [unfolded GetBackupRunFull_def]] by auto
  obtain selected target where s: "selectHealthyCopy db leaf copyID av = Inr (selected, target)"
    using l(3) by (auto simp: result_simps)
  obtain ups where u: "walk_up db [] leaf = Inr ups" using l(3) by (auto simp: result_simps)
  have "root_ok ac (hd (rev ups))" "copies_ready db av leaf selected (st_Name target) (rev ups) = Inr ()"
    "assemble docs ac leaf (rev ups) selected target = Inr cs"
    using l(3) by (auto simp: s u Let_def result_simps split: if_splits)
  then show thesis using that m l(2) s u by blast
qed

lemma assemble_parts:
  assumes "assemble docs ac leaf runs selected target = Inr cs"
  shows "set_Leaf cs = leaf \<and> set_Runs cs = runs \<and> set_Target cs = target \<and> set_Copy cs = selected \<and>
    set_DiskOrder cs = map bd_DiskID (filter (\<lambda>d. bd_Status d = RunSucceeded) (br_Disks leaf)) \<and>
    (\<exists>ms. effective_disks (set_DiskOrder cs) ms = Inr (set_Manifests cs))"
  using assms by (auto simp: assemble_def Let_def result_simps split: option.splits if_splits)

text \<open>
  C29: what a restore opens is complete. When a restore point loads from the database, its runs go
  from a full or snapshot root to the requested run, each the parent of the next, without repetition
  and none deleted; every run has a ready copy on the one enabled repository that was chosen; and each
  disk of the point has a non-empty chain of manifests that starts at a base, is already the effective
  chain, and does not start at an increment.
\<close>

theorem load_chain_complete:
  assumes "loadChainCopy db docs runID copyID av ac = Inr cs"
  shows "root_to_leaf br_ID br_ParentRunID (set_Runs cs) \<and> br_ID (last (set_Runs cs)) = runID \<and>
         last (set_Runs cs) = set_Leaf cs \<and> root_ok ac (hd (set_Runs cs)) \<and>
         (\<forall>r \<in> set (set_Runs cs). \<not> br_Deleted r) \<and> st_Enabled (set_Target cs) \<and>
         (\<forall>r \<in> set (set_Runs cs). \<exists>c \<in> set (st_copies db). bc_RunID c = br_ID r \<and>
            bc_StorageTargetID c = bc_StorageTargetID (set_Copy cs) \<and>
            (Healthy (Some c) \<or> av \<and> br_ID r = runID \<and> bc_Status c = CopyVerifying)) \<and>
         (\<forall>d \<in> set (set_DiskOrder cs). \<exists>l. set_Manifests cs d = Some l \<and> l \<noteq> [] \<and> EffectiveChain l = l \<and>
            dm_Type (hd l) \<noteq> BackupIncremental \<and> dm_Type (hd l) \<noteq> BackupDifferential)"
  using assms
proof (rule loadChainCopy_parts)
  fix leaf selected target ups
  assume p: "leaf \<in> set (st_runs db)" "br_ID leaf = runID" "\<not> br_Deleted leaf"
    "selectHealthyCopy db leaf copyID av = Inr (selected, target)" "walk_up db [] leaf = Inr ups"
    "root_ok ac (hd (rev ups))" "copies_ready db av leaf selected (st_Name target) (rev ups) = Inr ()"
    "assemble docs ac leaf (rev ups) selected target = Inr cs"
  note a = assemble_parts [OF p(8)] and w = walk_up_runs [OF p(5)]
  have f: "set_Runs cs = rev ups" "set_Leaf cs = leaf" "set_Target cs = target" "set_Copy cs = selected"
    using a by auto
  have del: "\<forall>r \<in> set (rev ups). \<not> br_Deleted r" using w p(3) by auto
  have cop: "\<forall>r \<in> set (rev ups). \<exists>c \<in> set (st_copies db). bc_RunID c = br_ID r \<and>
      bc_StorageTargetID c = bc_StorageTargetID selected \<and>
      (Healthy (Some c) \<or> av \<and> br_ID r = runID \<and> bc_Status c = CopyVerifying)"
    using copies_ready_all [OF p(7)] p(2) by blast
  have en: "st_Enabled target" by (rule selectHealthyCopy_enabled [OF p(4)])
  have dk: "\<forall>d \<in> set (set_DiskOrder cs). \<exists>l. set_Manifests cs d = Some l \<and> l \<noteq> [] \<and> EffectiveChain l = l \<and>
            dm_Type (hd l) \<noteq> BackupIncremental \<and> dm_Type (hd l) \<noteq> BackupDifferential"
    using a effective_disks_all by blast
  show ?thesis
    unfolding f using w p(2,6) del cop en dk by blast
qed

definition sample_db :: "bool \<Rightarrow> store" where
  "sample_db cyclic =
     \<lparr>st_runs = [(sample_run ''f'' BackupFull (if cyclic then ''i'' else []) 1)
                   \<lparr>br_Disks := [\<lparr>bd_DiskID = ''d'', bd_ManifestKey = ''a'', bd_DataKey = ''a'', bd_Status = RunSucceeded\<rparr>]\<rparr>,
                 (sample_run ''i'' BackupIncremental ''f'' 2)
                   \<lparr>br_Disks := [\<lparr>bd_DiskID = ''d'', bd_ManifestKey = ''b'', bd_DataKey = ''b'', bd_Status = RunSucceeded\<rparr>]\<rparr>],
      st_copies = [sample_copy ''c1'' ''f'' 1 ''p/'',
                   sample_copy ''c2'' ''i'' 2 ''q/''],
      st_targets = [sample_target],
      st_run_err = \<lambda>_. None, st_copy_err = \<lambda>_. None, st_target_err = \<lambda>_. None\<rparr>"

definition sample_docs :: documents where
  "sample_docs = \<lparr>doc_open = \<lambda>_. None,
     doc_disk = \<lambda>key. Inr (sample_links ! (if key = ''a'' then 0 else 1)), doc_run = \<lambda>_. Inl ''absent''\<rparr>"

theorem load_chain_complete_witness:
  "\<exists>cs. loadChainCopy (sample_db False) sample_docs ''i'' [] False False = Inr cs \<and>
     map br_ID (set_Runs cs) = [''f'', ''i''] \<and>
     root_to_leaf br_ID br_ParentRunID (set_Runs cs) \<and> br_ID (last (set_Runs cs)) = ''i''"
proof -
  have "\<not> isl (loadChainCopy (sample_db False) sample_docs ''i'' [] False False)" by code_simp
  then obtain cs where cs: "loadChainCopy (sample_db False) sample_docs ''i'' [] False False = Inr cs"
    by (metis sum.collapse(2))
  have "map br_ID (set_Runs (projr (loadChainCopy (sample_db False) sample_docs ''i'' [] False False))) =
      [''f'', ''i'']" by code_simp
  then show ?thesis using load_chain_complete [OF cs] cs by auto
qed

text \<open>
  A cycle of parent links is reported. When the requested run belongs to a set of live runs of the
  database in which every run names a parent inside the set, loading ends with the error that names
  the cycle (or an earlier error of the request), unlike the retention walk over the same links.
\<close>

lemma load_chain_cycle_reported:
  assumes "\<forall>n \<in> S. br_ParentRunID n \<noteq> '''' \<and> (\<exists>p \<in> S. db_parent db n = Inr p)"
    and "GetBackupRunFull db runID = Inr leaf" "leaf \<in> S" "\<not> br_Deleted leaf"
    and "br_Type leaf = BackupIncremental"
    and "selectHealthyCopy db leaf copyID av = Inr (c, t)"
  shows "\<exists>x. loadChainCopy db docs runID copyID av ac = Inl (ChainCycle x)"
proof -
  obtain x where "walk_up db [] leaf = Inl (ChainCycle x)"
    using db_walk.rootless_cycle [of S db leaf "[]"] assms(1,3) by blast
  then show ?thesis using assms(2,4-6) by (simp add: loadChainCopy_def)
qed

lemma find_walk_runs:
  assumes "find_walk runs [] leaf = Inr ups"
  shows "root_to_leaf sr_id sr_parent (rev ups) \<and> last (rev ups) = leaf \<and> set ups \<subseteq> insert leaf (set runs)"
proof -
  have start: "linked sr_id sr_parent (repo_parent runs) []" by (simp add: linked_def)
  have e: "([] :: StoredRun list) \<noteq> [] \<longrightarrow> repo_parent runs (last []) = Inr leaf \<and>
      sr_parent (last ([] :: StoredRun list)) \<noteq> ''''" by blast
  note w = repo_walk.walk_linked [OF assms start e]
  have lk: "linked sr_id sr_parent (repo_parent runs) ups" "sr_parent (last ups) = ''''"
    by (rule conjunct1 [OF w], rule conjunct1 [OF conjunct2 [OF w]])
  obtain rest where r: "ups = ([] @ [leaf]) @ rest" "set rest \<subseteq> set runs"
    using conjunct2 [OF conjunct2 [OF w]] by (elim exE conjE)
  have ext: "ups = leaf # rest" using r(1) by (simp only: append.simps)
  have "root_to_leaf sr_id sr_parent (rev ups)"
    using linked_root_to_leaf [OF lk] ext repo_parent_mem by blast
  moreover have "set ups \<subseteq> insert leaf (set runs)" using ext r(2) by auto
  ultimately show ?thesis using ext by simp
qed

lemma FindChain_ok:
  assumes "FindChain runs leafID = Inr chain"
  shows "root_to_leaf sr_id sr_parent chain \<and> sr_id (last chain) = leafID \<and> set chain \<subseteq> set runs \<and>
         (rm_Type (sr_Manifest (hd chain)) = BackupFull \<or> rm_Type (sr_Manifest (hd chain)) = BackupSnapshot)"
proof -
  obtain leaf ups where l: "stored_by_id runs leafID = Some leaf" "find_walk runs [] leaf = Inr ups"
    "chain = rev ups"
    "rm_Type (sr_Manifest (hd chain)) = BackupFull \<or> rm_Type (sr_Manifest (hd chain)) = BackupSnapshot"
    using assms by (auto simp: FindChain_def Let_def result_simps split: option.splits if_splits)
  then show ?thesis
    using find_walk_runs [OF l(2)] stored_by_id_mem [OF l(1)] by auto
qed

lemma latest_loop_best:
  assumes "latest_loop runs vmID onlyFull best rs = res"
    and "\<forall>b. best = Some b \<longrightarrow> usable_base runs vmID onlyFull b"
  shows "(res = None \<longleftrightarrow> best = None \<and> (\<forall>r \<in> set rs. \<not> usable_base runs vmID onlyFull r)) \<and>
         (\<forall>x. res = Some x \<longrightarrow> usable_base runs vmID onlyFull x \<and> (best = Some x \<or> x \<in> set rs) \<and>
            (\<forall>r. (best = Some r \<or> r \<in> set rs) \<and> usable_base runs vmID onlyFull r \<longrightarrow>
               rm_CreatedAt (sr_Manifest r) \<le> rm_CreatedAt (sr_Manifest x)))"
  using assms
proof (induction rs arbitrary: best)
  case Nil
  then show ?case by auto
next
  case (Cons a rs)
  show ?case
  proof (cases "usable_base runs vmID onlyFull a")
    case False
    then show ?thesis using Cons.IH [of best] Cons.prems by auto
  next
    case True
    define nb where "nb = (case best of None \<Rightarrow> Some a
         | Some b \<Rightarrow> if rm_CreatedAt (sr_Manifest a) > rm_CreatedAt (sr_Manifest b) then Some a else best)"
    have "latest_loop runs vmID onlyFull nb rs = res" using Cons.prems(1) True by (simp add: nb_def)
    moreover have "\<forall>b. nb = Some b \<longrightarrow> usable_base runs vmID onlyFull b"
      using Cons.prems(2) True by (auto simp: nb_def split: option.splits if_splits)
    ultimately have ih: "(res = None \<longleftrightarrow> nb = None \<and> (\<forall>r \<in> set rs. \<not> usable_base runs vmID onlyFull r)) \<and>
         (\<forall>x. res = Some x \<longrightarrow> usable_base runs vmID onlyFull x \<and> (nb = Some x \<or> x \<in> set rs) \<and>
            (\<forall>r. (nb = Some r \<or> r \<in> set rs) \<and> usable_base runs vmID onlyFull r \<longrightarrow>
               rm_CreatedAt (sr_Manifest r) \<le> rm_CreatedAt (sr_Manifest x)))"
      by (rule Cons.IH)
    obtain n where n: "nb = Some n" "n = a \<or> best = Some n"
      "rm_CreatedAt (sr_Manifest a) \<le> rm_CreatedAt (sr_Manifest n)"
      "\<forall>b. best = Some b \<longrightarrow> rm_CreatedAt (sr_Manifest b) \<le> rm_CreatedAt (sr_Manifest n)"
    proof (cases best)
      case None
      then show ?thesis using that [of a] by (simp add: nb_def)
    next
      case (Some b)
      show ?thesis
      proof (cases "rm_CreatedAt (sr_Manifest a) > rm_CreatedAt (sr_Manifest b)")
        case True
        then show ?thesis using that [of a] Some by (simp add: nb_def)
      next
        case False
        then show ?thesis using that [of b] Some by (simp add: nb_def)
      qed
    qed
    have un: "usable_base runs vmID onlyFull n" using n(2) True Cons.prems(2) by auto
    show ?thesis
    proof (cases res)
      case None
      then show ?thesis using ih n(1) by simp
    next
      case (Some x)
      then have "rm_CreatedAt (sr_Manifest n) \<le> rm_CreatedAt (sr_Manifest x)" using ih n(1) un by blast
      then show ?thesis
        using ih Some n True by (auto intro: order_trans)
    qed
  qed
qed

text \<open>
  C30: disaster recovery without the database. A chain assembled from the documents of a repository
  goes from a full or snapshot root to the requested run, each the parent of the next; and the base
  chosen for a new increment is the newest run of the machine that carries a checkpoint and whose
  chain is intact, found whenever there is one.
\<close>

theorem repository_chain_complete:
  "(\<forall>chain. FindChain runs leafID = Inr chain \<longrightarrow>
      root_to_leaf sr_id sr_parent chain \<and> sr_id (last chain) = leafID \<and> set chain \<subseteq> set runs \<and>
      (rm_Type (sr_Manifest (hd chain)) = BackupFull \<or> rm_Type (sr_Manifest (hd chain)) = BackupSnapshot)) \<and>
   (LatestUsable runs vmID onlyFull = None \<longleftrightarrow> (\<forall>r \<in> set runs. \<not> usable_base runs vmID onlyFull r)) \<and>
   (\<forall>b. LatestUsable runs vmID onlyFull = Some b \<longrightarrow>
      b \<in> set runs \<and> usable_base runs vmID onlyFull b \<and>
      (\<forall>r \<in> set runs. usable_base runs vmID onlyFull r \<longrightarrow>
         rm_CreatedAt (sr_Manifest r) \<le> rm_CreatedAt (sr_Manifest b)))"
  using FindChain_ok [of runs leafID] latest_loop_best [of runs vmID onlyFull None runs]
  by (auto simp: LatestUsable_def)

definition sample_doc :: "string \<Rightarrow> BackupType \<Rightarrow> string \<Rightarrow> int \<Rightarrow> StoredRun" where
  "sample_doc rid ty parent day = \<lparr>sr_Prefix = rid @ ''/'', sr_Manifest =
     \<lparr>rm_Format = FormatName, rm_Version = 1, rm_RunID = rid, rm_JobID = [], rm_JobName = [],
      rm_ChainID = ''c'', rm_ParentRunID = parent, rm_ChainIndex = 0, rm_Type = ty, rm_ServerID = ''s'',
      rm_ServerName = ''s'', rm_VMID = ''vm'', rm_VMName = ''vm'', rm_EngineBackupID = [],
      rm_FromCheckpointID = [], rm_ToCheckpointID = ''cp'', rm_SnapshotID = [], rm_LegacyIncrementalMode = [],
      rm_CreatedAt = day, rm_EndedAt = day, rm_Compression = ''none'', rm_Encrypted = False,
      rm_Consistency = [], rm_ConsistencyNote = [], rm_LogicalBytes = 0, rm_StoredBytes = 0,
      rm_VMProfile = None, rm_ConfigKey = [], rm_ConfigFormat = [], rm_Disks = [], rm_Artifacts = [],
      rm_Provider = None\<rparr>\<rparr>"

definition sample_repo :: "StoredRun list" where
  "sample_repo = [sample_doc ''f'' BackupFull [] 1, sample_doc ''i'' BackupIncremental ''f'' 2,
     sample_doc ''x'' BackupIncremental ''lost'' 3]"

theorem repository_chain_complete_witness:
  "map sr_id (projr (FindChain sample_repo ''i'')) = [''f'', ''i''] \<and>
   map_option sr_id (LatestUsable sample_repo ''vm'' False) = Some ''i'' \<and>
   root_to_leaf sr_id sr_parent (projr (FindChain sample_repo ''i''))"
proof -
  have "\<not> isl (FindChain sample_repo ''i'')" by code_simp
  then obtain ch where "FindChain sample_repo ''i'' = Inr ch" by (metis sum.collapse(2))
  moreover have "map sr_id (projr (FindChain sample_repo ''i'')) = [''f'', ''i'']" by code_simp
  moreover have "map_option sr_id (LatestUsable sample_repo ''vm'' False) = Some ''i''" by code_simp
  ultimately show ?thesis using repository_chain_complete [of sample_repo "''i''" "''vm''" False] by auto
qed

end
