(* ===== verification/Approval.thy ===== *)
theory Approval
  imports Prelude
begin

text \<open>
  Approval of dangerous actions (\<open>internal/model/approval.go\<close>, \<open>internal/api/approvals.go\<close>,
  \<open>autoexecute.go\<close>, \<open>delegations.go\<close>, the approval handlers, and the approval tables of
  \<open>internal/store/approvals.go\<close>): the catalogue of guarded actions, policies, requests with their
  votes, delegation of votes, the guard around an action, and the sweeps that run every minute.

  The tables are lists in one record. A handler is one step: reading a row, checking it and writing it
  back are not interleaved with another handler. Texts are lists of code points. Alerts, audit records
  and the service log do not influence the outcome; what is kept is the list of guarded actions
  performed and the way each was let through.
\<close>

section \<open>Catalogue and policies\<close>

datatype ApprovalLevel = LevelQuorum | LevelVeto | LevelAudit | LevelOther string

datatype GuardedAction =
    GuardStorageDelete | GuardStorageRetarget | GuardAuditDisable | GuardPolicyUpdate
  | GuardRetentionApply | GuardJobDelete | GuardServerDelete
  | GuardBackupDelete | GuardRemediationManual
  | GuardOther string

definition guardedActions :: "(GuardedAction \<times> ApprovalLevel) list" where
  "guardedActions =
     [(GuardStorageDelete, LevelQuorum), (GuardStorageRetarget, LevelQuorum),
      (GuardAuditDisable, LevelQuorum), (GuardPolicyUpdate, LevelQuorum),
      (GuardRetentionApply, LevelVeto), (GuardJobDelete, LevelVeto), (GuardServerDelete, LevelVeto),
      (GuardBackupDelete, LevelAudit), (GuardRemediationManual, LevelAudit)]"

definition GuardedActionByKey :: "GuardedAction \<Rightarrow> ApprovalLevel option" where
  "GuardedActionByKey key = map_of guardedActions key"

record ApprovalGroup =
  ag_Name :: string
  ag_Members :: "string list"

definition group_Has :: "ApprovalGroup \<Rightarrow> string \<Rightarrow> bool" where
  "group_Has g username = list_ex (\<lambda>m. m = username) (ag_Members g)"

text \<open>Durations and times are nanoseconds.\<close>

record ApprovalPolicy =
  ap_Action :: GuardedAction
  ap_Level :: ApprovalLevel
  ap_Quorum :: int
  ap_GroupName :: string
  ap_FallbackGroupName :: string
  ap_Timeout :: int
  ap_VetoWindow :: int

section \<open>Requests and delegations\<close>

datatype ApprovalState =
    ApprovalPending | ApprovalEscalated | ApprovalApproved | ApprovalScheduled | ApprovalRejected
  | ApprovalVetoed | ApprovalExpired | ApprovalExecuted

fun Final :: "ApprovalState \<Rightarrow> bool" where
  "Final ApprovalRejected = True"
| "Final ApprovalVetoed = True"
| "Final ApprovalExpired = True"
| "Final ApprovalExecuted = True"
| "Final _ = False"

record ApprovalVote =
  av_RequestID :: string
  av_Voter :: string
  av_CastBy :: string
  av_Approve :: bool
  av_Comment :: string

record ApprovalRequest =
  aq_ID :: string
  aq_Action :: GuardedAction
  aq_ObjectID :: string
  aq_ObjectName :: string
  aq_Summary :: string
  aq_Requester :: string
  aq_Reason :: string
  aq_State :: ApprovalState
  aq_Level :: ApprovalLevel
  aq_Quorum :: int
  aq_GroupName :: string
  aq_Escalated :: bool
  aq_CreatedAt :: int
  aq_ExpiresAt :: int
  aq_DecidedAt :: "int option"
  aq_ExecuteAfter :: "int option"
  aq_Payload :: string
  aq_Error :: string
  aq_Votes :: "ApprovalVote list"

definition Approvals :: "ApprovalRequest \<Rightarrow> int" where
  "Approvals r = int (length (filter av_Approve (aq_Votes r)))"

definition VotedBy :: "ApprovalRequest \<Rightarrow> string \<Rightarrow> bool" where
  "VotedBy r username = list_ex (\<lambda>v. av_Voter v = username) (aq_Votes r)"

record ApprovalDelegation =
  ad_ID :: string
  ad_Delegator :: string
  ad_Delegate :: string
  ad_GroupName :: string
  ad_Prefix :: string
  ad_TokenHash :: string
  ad_PasswordHash :: string
  ad_ExpiresAt :: int
  ad_RevokedAt :: "int option"
  ad_UsedCount :: int
  ad_LastUsedAt :: "int option"

definition Usable :: "ApprovalDelegation \<Rightarrow> int \<Rightarrow> bool" where
  "Usable d now \<longleftrightarrow> ad_RevokedAt d = None \<and> now < ad_ExpiresAt d"

definition Covers :: "ApprovalDelegation \<Rightarrow> string \<Rightarrow> bool" where
  "Covers d grp \<longleftrightarrow> ad_GroupName d = '''' \<or> ad_GroupName d = grp"

record BreakGlassEvent =
  bg_Actor :: string
  bg_Action :: GuardedAction
  bg_ObjectID :: string
  bg_Reason :: string
  bg_Notified :: "string list"

text \<open>How an action was let through, whatever it answered then.\<close>

datatype passage = PassAudit | PassUnguarded | PassRequest string | PassBreakGlass string | PassAuto string

record approval_db =
  db_requests :: "ApprovalRequest list"
  db_groups :: "ApprovalGroup list"
  db_policies :: "ApprovalPolicy list"
  db_policies_readable :: bool
  db_delegations :: "ApprovalDelegation list"
  db_breakglass :: "BreakGlassEvent list"
  db_performed :: "(passage \<times> GuardedAction \<times> string) list"

section \<open>Tables\<close>

datatype api_error =
    NotFound | BadRequest string | Forbidden | Conflict

definition GetApprovalRequest :: "approval_db \<Rightarrow> string \<Rightarrow> ApprovalRequest option" where
  "GetApprovalRequest db rid = find (\<lambda>r. aq_ID r = rid) (db_requests db)"

definition CreateApprovalRequest :: "approval_db \<Rightarrow> ApprovalRequest \<Rightarrow> api_error + approval_db" where
  "CreateApprovalRequest db r =
     (if aq_ID r \<in> aq_ID ` set (db_requests db) then Inl Conflict
      else Inr (db\<lparr>db_requests := db_requests db @ [r]\<rparr>))"

definition SetApprovalState ::
  "approval_db \<Rightarrow> string \<Rightarrow> ApprovalState \<Rightarrow> int option \<Rightarrow> int option \<Rightarrow> bool \<Rightarrow> string \<Rightarrow> approval_db" where
  "SetApprovalState db rid state decidedAt executeAfter escalated groupName =
     db\<lparr>db_requests := map (\<lambda>r. if aq_ID r = rid
          then r\<lparr>aq_State := state, aq_DecidedAt := decidedAt, aq_ExecuteAfter := executeAfter,
                 aq_Escalated := escalated, aq_GroupName := groupName\<rparr>
          else r) (db_requests db)\<rparr>"

definition AddApprovalVote :: "approval_db \<Rightarrow> ApprovalVote \<Rightarrow> api_error + approval_db" where
  "AddApprovalVote db v =
     (if list_ex (\<lambda>r. aq_ID r = av_RequestID v \<and> VotedBy r (av_Voter v)) (db_requests db) then Inl Conflict
      else Inr (db\<lparr>db_requests := map (\<lambda>r. if aq_ID r = av_RequestID v
             then r\<lparr>aq_Votes := aq_Votes r @ [v]\<rparr> else r) (db_requests db)\<rparr>))"

definition SetApprovalError :: "approval_db \<Rightarrow> string \<Rightarrow> string \<Rightarrow> int \<Rightarrow> approval_db" where
  "SetApprovalError db rid msg retryAt =
     db\<lparr>db_requests := map (\<lambda>r. if aq_ID r = rid
          then r\<lparr>aq_Error := msg, aq_ExecuteAfter := Some retryAt\<rparr> else r) (db_requests db)\<rparr>"

definition ExpiredApprovalRequests :: "approval_db \<Rightarrow> int \<Rightarrow> ApprovalRequest list" where
  "ExpiredApprovalRequests db now =
     filter (\<lambda>r. (aq_State r = ApprovalPending \<or> aq_State r = ApprovalEscalated) \<and> aq_ExpiresAt r \<le> now)
       (db_requests db)"

definition DueApprovalRequests :: "approval_db \<Rightarrow> int \<Rightarrow> ApprovalRequest list" where
  "DueApprovalRequests db now =
     sort_key (\<lambda>r. the (aq_ExecuteAfter r))
       (filter (\<lambda>r. aq_State r = ApprovalScheduled \<and> aq_ExecuteAfter r \<noteq> None \<and> the (aq_ExecuteAfter r) \<le> now)
         (db_requests db))"

definition ApprovalGroupByName :: "approval_db \<Rightarrow> string \<Rightarrow> ApprovalGroup option" where
  "ApprovalGroupByName db name = find (\<lambda>g. ag_Name g = name) (db_groups db)"

section \<open>The guard\<close>

definition hours :: "int \<Rightarrow> int" where "hours n = n * 3600000000000"

definition policyFor :: "approval_db \<Rightarrow> GuardedAction \<Rightarrow> ApprovalPolicy" where
  "policyFor db action =
     (let policy = \<lparr>ap_Action = action,
            ap_Level = (case GuardedActionByKey action of Some l \<Rightarrow> l | None \<Rightarrow> LevelAudit),
            ap_Quorum = 2, ap_GroupName = ''approvers'', ap_FallbackGroupName = '''',
            ap_Timeout = hours 72, ap_VetoWindow = hours 24\<rparr>
      in if \<not> db_policies_readable db then policy
         else (case find (\<lambda>p. ap_Action p = action) (db_policies db) of
                None \<Rightarrow> policy
              | Some p \<Rightarrow>
                  policy\<lparr>ap_Level := ap_Level p,
                    ap_Quorum := (if ap_Quorum p > 0 then ap_Quorum p else ap_Quorum policy),
                    ap_GroupName := (if ap_GroupName p \<noteq> '''' then ap_GroupName p else ap_GroupName policy),
                    ap_FallbackGroupName := ap_FallbackGroupName p,
                    ap_Timeout := (if ap_Timeout p > 0 then ap_Timeout p else ap_Timeout policy),
                    ap_VetoWindow := (if ap_VetoWindow p > 0 then ap_VetoWindow p else ap_VetoWindow policy)\<rparr>))"

definition approversReady :: "approval_db \<Rightarrow> ApprovalPolicy \<Rightarrow> bool" where
  "approversReady db policy =
     (case ApprovalGroupByName db (ap_GroupName policy) of
        None \<Rightarrow> False
      | Some g \<Rightarrow>
          int (length (ag_Members g)) > (if ap_Level policy = LevelVeto then 1 else ap_Quorum policy))"

definition approverNames :: "approval_db \<Rightarrow> ApprovalPolicy \<Rightarrow> string list" where
  "approverNames db policy =
     concat (map (\<lambda>name. if name = '''' then []
        else case ApprovalGroupByName db name of None \<Rightarrow> [] | Some g \<Rightarrow> ag_Members g)
       [ap_GroupName policy, ap_FallbackGroupName policy])"

record guardedTarget =
  gt_ID :: string
  gt_Name :: string
  gt_Summary :: string
  gt_Payload :: string

text \<open>
  One HTTP call of a guarded action: the query parameters (trimmed), the id a new request would get,
  and the status the action itself answers with when it is let through.
\<close>

record guard_call =
  gc_action :: GuardedAction
  gc_target :: guardedTarget
  gc_actor :: string
  gc_approval :: string
  gc_break_glass :: bool
  gc_reason :: string
  gc_status :: int
  gc_new_id :: string

datatype guard_answer = Answered int | Refused api_error | Accepted string

definition perform :: "passage \<Rightarrow> guard_call \<Rightarrow> approval_db \<Rightarrow> approval_db" where
  "perform how c db = db\<lparr>db_performed := db_performed db @ [(how, gc_action c, gt_ID (gc_target c))]\<rparr>"

definition executeApproved :: "int \<Rightarrow> guard_call \<Rightarrow> approval_db \<Rightarrow> guard_answer \<times> approval_db" where
  "executeApproved now c db =
     (case GetApprovalRequest db (gc_approval c) of
        None \<Rightarrow> (Refused NotFound, db)
      | Some req \<Rightarrow>
          let what = gc_target c in
          if aq_Action req \<noteq> gc_action c \<or> aq_ObjectID req \<noteq> gt_ID what \<or> aq_Summary req \<noteq> gt_Summary what \<or>
             aq_Payload req \<noteq> gt_Payload what
          then (Refused (BadRequest ''other action or object''), db)
          else if \<not> (aq_State req = ApprovalApproved \<or>
                 aq_State req = ApprovalScheduled \<and>
                 (case aq_ExecuteAfter req of Some t \<Rightarrow> \<not> now < t | None \<Rightarrow> True))
          then (Refused (BadRequest ''not approved''), db)
          else let db1 = perform (PassRequest (aq_ID req)) c db in
            if gc_status c \<ge> 400 then (Answered (gc_status c), db1)
            else (Answered (gc_status c),
                  SetApprovalState db1 (aq_ID req) ApprovalExecuted (Some now) (aq_ExecuteAfter req)
                    (aq_Escalated req) (aq_GroupName req)))"

definition executeBreakGlass :: "guard_call \<Rightarrow> approval_db \<Rightarrow> guard_answer \<times> approval_db" where
  "executeBreakGlass c db =
     (if length (gc_reason c) < 20 then (Refused (BadRequest ''reason too short''), db)
      else let policy = policyFor db (gc_action c);
               event = \<lparr>bg_Actor = gc_actor c, bg_Action = gc_action c, bg_ObjectID = gt_ID (gc_target c),
                        bg_Reason = gc_reason c, bg_Notified = approverNames db policy\<rparr>;
               db1 = db\<lparr>db_breakglass := db_breakglass db @ [event]\<rparr>
           in (Answered (gc_status c), perform (PassBreakGlass (gc_reason c)) c db1))"

definition openApprovalRequest :: "int \<Rightarrow> ApprovalPolicy \<Rightarrow> guard_call \<Rightarrow> approval_db \<Rightarrow> guard_answer \<times> approval_db" where
  "openApprovalRequest now policy c db =
     (if length (gc_reason c) < 10 then (Refused (BadRequest ''reason too short''), db)
      else let what = gc_target c;
               req = \<lparr>aq_ID = gc_new_id c, aq_Action = gc_action c, aq_ObjectID = gt_ID what,
                      aq_ObjectName = gt_Name what, aq_Summary = gt_Summary what,
                      aq_Requester = gc_actor c, aq_Reason = gc_reason c, aq_State = ApprovalPending,
                      aq_Level = ap_Level policy,
                      aq_Quorum = (if ap_Level policy = LevelVeto then 1 else ap_Quorum policy),
                      aq_GroupName = ap_GroupName policy, aq_Escalated = False, aq_CreatedAt = now,
                      aq_ExpiresAt = now + ap_Timeout policy, aq_DecidedAt = None, aq_ExecuteAfter = None,
                      aq_Payload = gt_Payload what, aq_Error = '''', aq_Votes = []\<rparr>
           in case CreateApprovalRequest db req of
                Inl e \<Rightarrow> (Refused e, db)
              | Inr db' \<Rightarrow> (Accepted (aq_ID req), db'))"

definition guardAction :: "int \<Rightarrow> guard_call \<Rightarrow> approval_db \<Rightarrow> guard_answer \<times> approval_db" where
  "guardAction now c db =
     (let policy = policyFor db (gc_action c) in
      if ap_Level policy = LevelAudit then (Answered (gc_status c), perform PassAudit c db)
      else if \<not> approversReady db policy then (Answered (gc_status c), perform PassUnguarded c db)
      else if gc_approval c \<noteq> '''' then executeApproved now c db
      else if gc_break_glass c then executeBreakGlass c db
      else openApprovalRequest now policy c db)"

section \<open>Voting\<close>

text \<open>Hashing of tokens and the slow password check are library functions.\<close>

record hash_lib =
  hl_secret :: "string \<Rightarrow> string"
  hl_password :: "string \<Rightarrow> string \<Rightarrow> bool"

record delegationCredentials =
  dc_Token :: string
  dc_Password :: string

text \<open>\<open>strings.TrimSpace\<close> on the white space of ASCII.\<close>

definition is_space :: "char \<Rightarrow> bool" where
  "is_space c \<longleftrightarrow> c \<in> {CHR '' '', CHR 0x09, CHR 0x0A, CHR 0x0B, CHR 0x0C, CHR 0x0D}"

definition trim_space :: "string \<Rightarrow> string" where
  "trim_space s = rev (dropWhile is_space (rev (dropWhile is_space s)))"

definition present :: "delegationCredentials \<Rightarrow> bool" where
  "present c \<longleftrightarrow> trim_space (dc_Token c) \<noteq> '''' \<or> trim_space (dc_Password c) \<noteq> ''''"

fun split_on :: "char \<Rightarrow> string \<Rightarrow> string \<Rightarrow> string list" where
  "split_on sep cur [] = [cur]"
| "split_on sep cur (c # cs) = (if c = sep then cur # split_on sep [] cs else split_on sep (cur @ [c]) cs)"

definition splitDelegationToken :: "string \<Rightarrow> (string \<times> string) option" where
  "splitDelegationToken presented =
     (case split_on (CHR ''.'') [] presented of
        [scheme, prefix, secret] \<Rightarrow>
          if scheme = ''jhvd'' \<and> prefix \<noteq> '''' \<and> secret \<noteq> '''' then Some (prefix, secret) else None
      | _ \<Rightarrow> None)"

definition resolveDelegation ::
  "hash_lib \<Rightarrow> approval_db \<Rightarrow> int \<Rightarrow> delegationCredentials \<Rightarrow> string \<Rightarrow> string \<Rightarrow> api_error + ApprovalDelegation" where
  "resolveDelegation lib db now creds caller grp =
     (case splitDelegationToken (trim_space (dc_Token creds)) of
        None \<Rightarrow> Inl Forbidden
      | Some (prefix, secret) \<Rightarrow>
          if dc_Password creds = '''' then Inl Forbidden
          else case find (\<lambda>d. ad_Prefix d = prefix) (db_delegations db) of
                 None \<Rightarrow> Inl Forbidden
               | Some d \<Rightarrow>
                   if ad_TokenHash d \<noteq> hl_secret lib secret then Inl Forbidden
                   else if \<not> hl_password lib (ad_PasswordHash d) (dc_Password creds) then Inl Forbidden
                   else if \<not> Usable d now then Inl Forbidden
                   else if ad_Delegate d \<noteq> caller then Inl Forbidden
                   else if \<not> Covers d grp then Inl Forbidden
                   else Inr d)"

definition TouchApprovalDelegation :: "approval_db \<Rightarrow> string \<Rightarrow> int \<Rightarrow> approval_db" where
  "TouchApprovalDelegation db did now =
     db\<lparr>db_delegations := map (\<lambda>d. if ad_ID d = did
          then d\<lparr>ad_UsedCount := ad_UsedCount d + 1, ad_LastUsedAt := Some now\<rparr> else d) (db_delegations db)\<rparr>"

text \<open>Whose vote it is and who casts it: the caller for himself, or the delegate for the delegator.\<close>

definition voter_of ::
  "hash_lib \<Rightarrow> approval_db \<Rightarrow> int \<Rightarrow> ApprovalRequest \<Rightarrow> string \<Rightarrow> delegationCredentials \<Rightarrow>
   api_error + string \<times> string \<times> string option" where
  "voter_of lib db now req caller creds =
     (if present creds then
        bindR (resolveDelegation lib db now creds caller (aq_GroupName req))
          (\<lambda>d. if caller = aq_Requester req then Inl (BadRequest ''requester'')
               else Inr (ad_Delegator d, caller, Some (ad_ID d)))
      else Inr (caller, '''', None))"

text \<open>The verdict after a vote is recorded; \<open>req\<close> already carries the vote.\<close>

definition decide_vote :: "approval_db \<Rightarrow> int \<Rightarrow> ApprovalRequest \<Rightarrow> bool \<Rightarrow> approval_db \<times> ApprovalRequest" where
  "decide_vote db now req approve =
     (if \<not> approve then
        (SetApprovalState db (aq_ID req) ApprovalRejected (Some now) None (aq_Escalated req) (aq_GroupName req),
         req\<lparr>aq_State := ApprovalRejected, aq_DecidedAt := Some now\<rparr>)
      else if Approvals req \<ge> aq_Quorum req \<and> aq_Level req = LevelVeto then
        let executeAfter = now + ap_VetoWindow (policyFor db (aq_Action req)) in
        (SetApprovalState db (aq_ID req) ApprovalScheduled (Some now) (Some executeAfter)
           (aq_Escalated req) (aq_GroupName req),
         req\<lparr>aq_State := ApprovalScheduled, aq_ExecuteAfter := Some executeAfter, aq_DecidedAt := Some now\<rparr>)
      else if Approvals req \<ge> aq_Quorum req then
        (SetApprovalState db (aq_ID req) ApprovalApproved (Some now) None (aq_Escalated req) (aq_GroupName req),
         req\<lparr>aq_State := ApprovalApproved, aq_DecidedAt := Some now\<rparr>)
      else (db, req\<lparr>aq_DecidedAt := Some now\<rparr>))"

definition castVote ::
  "hash_lib \<Rightarrow> int \<Rightarrow> ApprovalRequest \<Rightarrow> string \<Rightarrow> bool \<Rightarrow> string \<Rightarrow> delegationCredentials \<Rightarrow> approval_db \<Rightarrow>
   (api_error + ApprovalRequest) \<times> approval_db" where
  "castVote lib now req caller approve comment creds db =
     (if Final (aq_State req) then (Inl (BadRequest ''final''), db)
      else case voter_of lib db now req caller creds of
        Inl e \<Rightarrow> (Inl e, db)
      | Inr (voter, castBy, delegation) \<Rightarrow>
          if voter = aq_Requester req then (Inl (BadRequest ''requester''), db)
          else case ApprovalGroupByName db (aq_GroupName req) of
            None \<Rightarrow> (Inl (BadRequest ''no group''), db)
          | Some g \<Rightarrow>
              if \<not> group_Has g voter then (Inl (BadRequest ''not a member''), db)
              else let vote = \<lparr>av_RequestID = aq_ID req, av_Voter = voter, av_CastBy = castBy,
                               av_Approve = approve, av_Comment = comment\<rparr>
                in case AddApprovalVote db vote of
                     Inl e \<Rightarrow> (Inl e, db)
                   | Inr db1 \<Rightarrow>
                       let db2 = (case delegation of None \<Rightarrow> db1 | Some d \<Rightarrow> TouchApprovalDelegation db1 d now);
                           (db3, req') = decide_vote db2 now (req\<lparr>aq_Votes := aq_Votes req @ [vote]\<rparr>) approve
                       in (Inr req', db3))"

definition handleVoteApproval ::
  "hash_lib \<Rightarrow> int \<Rightarrow> string \<Rightarrow> string \<Rightarrow> bool \<Rightarrow> string \<Rightarrow> delegationCredentials \<Rightarrow> approval_db \<Rightarrow> approval_db" where
  "handleVoteApproval lib now rid caller approve comment creds db =
     (case GetApprovalRequest db rid of
        None \<Rightarrow> db
      | Some req \<Rightarrow> snd (castVote lib now req caller approve comment creds db))"

definition handleCancelApproval :: "int \<Rightarrow> string \<Rightarrow> string \<Rightarrow> approval_db \<Rightarrow> approval_db" where
  "handleCancelApproval now rid actor db =
     (case GetApprovalRequest db rid of
        None \<Rightarrow> db
      | Some req \<Rightarrow>
          if Final (aq_State req) then db
          else if \<not> (actor = aq_Requester req \<or>
                 (case ApprovalGroupByName db (aq_GroupName req) of Some g \<Rightarrow> group_Has g actor | None \<Rightarrow> False))
          then db
          else SetApprovalState db rid
                 (if aq_State req = ApprovalScheduled then ApprovalVetoed else ApprovalRejected)
                 (Some now) None (aq_Escalated req) (aq_GroupName req))"

section \<open>Sweeps and settings\<close>

definition sweep_one :: "int \<Rightarrow> approval_db \<Rightarrow> ApprovalRequest \<Rightarrow> approval_db" where
  "sweep_one now db req =
     (let policy = policyFor db (aq_Action req) in
      if \<not> aq_Escalated req \<and> ap_FallbackGroupName policy \<noteq> ''''
      then SetApprovalState db (aq_ID req) ApprovalEscalated None None True (ap_FallbackGroupName policy)
      else SetApprovalState db (aq_ID req) ApprovalExpired (Some now) None (aq_Escalated req) (aq_GroupName req))"

definition sweepApprovals :: "int \<Rightarrow> approval_db \<Rightarrow> approval_db" where
  "sweepApprovals now db = foldl (sweep_one now) db (ExpiredApprovalRequests db now)"

definition executors :: "GuardedAction list" where
  "executors = [GuardJobDelete, GuardServerDelete, GuardRetentionApply]"

datatype exec_result = ExecOk | ExecNotFound | ExecFailed string

text \<open>\<open>exec\<close> is the outcome of the executor; quarter of an hour passes before a failed one is repeated.\<close>

definition executeDueApproval :: "int \<Rightarrow> (ApprovalRequest \<Rightarrow> exec_result) \<Rightarrow> approval_db \<Rightarrow> ApprovalRequest \<Rightarrow> approval_db" where
  "executeDueApproval now exec db req =
     (let db1 = db\<lparr>db_performed := db_performed db @ [(PassAuto (aq_ID req), aq_Action req, aq_ObjectID req)]\<rparr> in
      case exec req of
        ExecFailed msg \<Rightarrow> SetApprovalError db1 (aq_ID req) msg (now + 900000000000)
      | _ \<Rightarrow> SetApprovalState db1 (aq_ID req) ApprovalExecuted (Some now) None (aq_Escalated req) (aq_GroupName req))"

definition sweepDueApprovals :: "int \<Rightarrow> (ApprovalRequest \<Rightarrow> exec_result) \<Rightarrow> approval_db \<Rightarrow> approval_db" where
  "sweepDueApprovals now exec db =
     foldl (executeDueApproval now exec) db
       (filter (\<lambda>r. aq_Action r \<in> set executors) (DueApprovalRequests db now))"

text \<open>
  The store keeps durations in whole seconds; hours of a payload become an \<open>int64\<close> of nanoseconds first.
\<close>

definition toSeconds :: "int \<Rightarrow> int" where "toSeconds d = go_div d 1000000000"

definition fromSeconds :: "int \<Rightarrow> int" where "fromSeconds s = wrap64 (s * 1000000000)"

definition SetApprovalPolicy :: "approval_db \<Rightarrow> ApprovalPolicy \<Rightarrow> approval_db" where
  "SetApprovalPolicy db p =
     db\<lparr>db_policies := filter (\<lambda>q. ap_Action q \<noteq> ap_Action p) (db_policies db) @
          [p\<lparr>ap_Timeout := fromSeconds (toSeconds (ap_Timeout p)),
             ap_VetoWindow := fromSeconds (toSeconds (ap_VetoWindow p))\<rparr>]\<rparr>"

record approvalPolicyPayload =
  pp_Action :: GuardedAction
  pp_Level :: ApprovalLevel
  pp_Quorum :: int
  pp_GroupName :: string
  pp_FallbackGroupName :: string
  pp_TimeoutHours :: int
  pp_VetoWindowHours :: int

definition handleSetApprovalPolicy :: "approvalPolicyPayload \<Rightarrow> approval_db \<Rightarrow> api_error option \<times> approval_db" where
  "handleSetApprovalPolicy pl db =
     (if GuardedActionByKey (pp_Action pl) = None then (Some (BadRequest ''action''), db)
      else if pp_Level pl \<notin> {LevelQuorum, LevelVeto, LevelAudit} then (Some (BadRequest ''level''), db)
      else if pp_Level pl = LevelQuorum \<and> pp_Quorum pl < 2 then (Some (BadRequest ''quorum''), db)
      else (None, SetApprovalPolicy db
             \<lparr>ap_Action = pp_Action pl, ap_Level = pp_Level pl, ap_Quorum = pp_Quorum pl,
              ap_GroupName = trim_space (pp_GroupName pl),
              ap_FallbackGroupName = trim_space (pp_FallbackGroupName pl),
              ap_Timeout = wrap64 (hours (pp_TimeoutHours pl)),
              ap_VetoWindow = wrap64 (hours (pp_VetoWindowHours pl))\<rparr>))"

text \<open>Delegations that expired more than a week ago are removed.\<close>

definition sweepDelegations :: "int \<Rightarrow> approval_db \<Rightarrow> approval_db" where
  "sweepDelegations now db =
     db\<lparr>db_delegations := filter (\<lambda>d. \<not> ad_ExpiresAt d < now - hours (7 * 24)) (db_delegations db)\<rparr>"

text \<open>
  Everything that can happen to the tables, with the time it happens at. Groups and delegations are
  edited by administrators and owners without restriction here, and the policy table can become
  unreadable and readable again at any time.
\<close>

datatype approval_event =
    EvGuard guard_call
  | EvVote hash_lib string string bool string delegationCredentials
  | EvCancel string string
  | EvSweep
  | EvDue "ApprovalRequest \<Rightarrow> exec_result"
  | EvPurge
  | EvPolicy approvalPolicyPayload
  | EvPoliciesReadable bool
  | EvGroups "ApprovalGroup list"
  | EvDelegations "ApprovalDelegation list"

fun approval_step :: "approval_db \<Rightarrow> int \<times> approval_event \<Rightarrow> approval_db" where
  "approval_step db (now, EvGuard c) = snd (guardAction now c db)"
| "approval_step db (now, EvVote lib rid caller approve comment creds) =
     handleVoteApproval lib now rid caller approve comment creds db"
| "approval_step db (now, EvCancel rid actor) = handleCancelApproval now rid actor db"
| "approval_step db (now, EvSweep) = sweepApprovals now db"
| "approval_step db (now, EvDue exec) = sweepDueApprovals now exec db"
| "approval_step db (now, EvPurge) = sweepDelegations now db"
| "approval_step db (now, EvPolicy pl) = snd (handleSetApprovalPolicy pl db)"
| "approval_step db (now, EvPoliciesReadable b) = db\<lparr>db_policies_readable := b\<rparr>"
| "approval_step db (now, EvGroups gs) = db\<lparr>db_groups := gs\<rparr>"
| "approval_step db (now, EvDelegations ds) = db\<lparr>db_delegations := ds\<rparr>"

definition approval_run :: "approval_db \<Rightarrow> (int \<times> approval_event) list \<Rightarrow> approval_db" where
  "approval_run db evs = foldl approval_step db evs"

definition empty_db :: approval_db where
  "empty_db = \<lparr>db_requests = [], db_groups = [], db_policies = [], db_policies_readable = True, db_delegations = [],
     db_breakglass = [], db_performed = []\<rparr>"

section \<open>Invariant of the tables\<close>

text \<open>What every stored request satisfies, whatever its state.\<close>

definition decided_window :: "ApprovalRequest \<Rightarrow> bool" where
  "decided_window r \<longleftrightarrow>
     (case (aq_DecidedAt r, aq_ExecuteAfter r) of (Some d, Some t) \<Rightarrow> d < t | _ \<Rightarrow> False)"

definition request_ok :: "ApprovalRequest \<Rightarrow> bool" where
  "request_ok r \<longleftrightarrow>
     distinct (map av_Voter (aq_Votes r)) \<and>
     (\<forall>v \<in> set (aq_Votes r). av_Voter v \<noteq> aq_Requester r) \<and>
     (aq_Level r = LevelQuorum \<and> 2 \<le> aq_Quorum r \<or> aq_Level r = LevelVeto \<and> aq_Quorum r = 1) \<and>
     (aq_State r \<in> {ApprovalApproved, ApprovalScheduled, ApprovalExecuted} \<longrightarrow> aq_Quorum r \<le> Approvals r) \<and>
     (aq_State r = ApprovalApproved \<longrightarrow> aq_Level r = LevelQuorum) \<and>
     (aq_State r = ApprovalScheduled \<longrightarrow> aq_Level r = LevelVeto \<and> decided_window r)"

text \<open>How a stored request may change: it keeps its identity, its votes only grow, a final one stays.\<close>

definition evolves :: "ApprovalRequest \<Rightarrow> ApprovalRequest \<Rightarrow> bool" where
  "evolves r r' \<longleftrightarrow>
     aq_ID r' = aq_ID r \<and> aq_Action r' = aq_Action r \<and> aq_ObjectID r' = aq_ObjectID r \<and>
     aq_Requester r' = aq_Requester r \<and> aq_Level r' = aq_Level r \<and> aq_Quorum r' = aq_Quorum r \<and>
     (\<exists>more. aq_Votes r' = aq_Votes r @ more) \<and> (Final (aq_State r) \<longrightarrow> r' = r)"

definition backed :: "approval_db \<Rightarrow> string \<Rightarrow> GuardedAction \<Rightarrow> string \<Rightarrow> bool \<Rightarrow> bool" where
  "backed db rid a obj veto \<longleftrightarrow>
     (\<exists>r \<in> set (db_requests db). aq_ID r = rid \<and> aq_Action r = a \<and> aq_ObjectID r = obj \<and>
        aq_Quorum r \<le> Approvals r \<and> (veto \<longrightarrow> aq_Level r = LevelVeto))"

fun justified :: "approval_db \<Rightarrow> passage \<times> GuardedAction \<times> string \<Rightarrow> bool" where
  "justified db (PassRequest rid, a, obj) = backed db rid a obj False"
| "justified db (PassAuto rid, a, obj) = backed db rid a obj True"
| "justified db (PassBreakGlass reason, a, obj) =
     (20 \<le> length reason \<and>
      (\<exists>e \<in> set (db_breakglass db). bg_Action e = a \<and> bg_ObjectID e = obj \<and> bg_Reason e = reason))"
| "justified db (_, a, obj) = True"

definition policy_ok :: "ApprovalPolicy \<Rightarrow> bool" where
  "policy_ok p \<longleftrightarrow> ap_Level p = LevelQuorum \<and> 2 \<le> ap_Quorum p \<or> ap_Level p \<in> {LevelVeto, LevelAudit}"

definition db_ok :: "approval_db \<Rightarrow> bool" where
  "db_ok db \<longleftrightarrow>
     distinct (map aq_ID (db_requests db)) \<and> (\<forall>r \<in> set (db_requests db). request_ok r) \<and>
     (\<forall>p \<in> set (db_policies db). policy_ok p) \<and> (\<forall>l \<in> set (db_performed db). justified db l)"

text \<open>Every table operation on requests changes the rows of one id.\<close>

definition upd_req :: "approval_db \<Rightarrow> string \<Rightarrow> (ApprovalRequest \<Rightarrow> ApprovalRequest) \<Rightarrow> approval_db" where
  "upd_req db rid f = db\<lparr>db_requests := map (\<lambda>r. if aq_ID r = rid then f r else r) (db_requests db)\<rparr>"

lemma upd_req_simps [simp]:
  "db_policies (upd_req db rid f) = db_policies db"
  "db_policies_readable (upd_req db rid f) = db_policies_readable db"
  "db_performed (upd_req db rid f) = db_performed db"
  "db_breakglass (upd_req db rid f) = db_breakglass db"
  "db_requests (upd_req db rid f) = map (\<lambda>r. if aq_ID r = rid then f r else r) (db_requests db)"
  by (simp_all add: upd_req_def)

definition set_state ::
  "ApprovalState \<Rightarrow> int option \<Rightarrow> int option \<Rightarrow> bool \<Rightarrow> string \<Rightarrow> ApprovalRequest \<Rightarrow> ApprovalRequest" where
  "set_state st dec ex esc grp r = r\<lparr>aq_State := st, aq_DecidedAt := dec, aq_ExecuteAfter := ex,
     aq_Escalated := esc, aq_GroupName := grp\<rparr>"

lemma set_state_simps [simp]:
  "aq_ID (set_state st dec ex esc grp r) = aq_ID r"
  "aq_Action (set_state st dec ex esc grp r) = aq_Action r"
  "aq_ObjectID (set_state st dec ex esc grp r) = aq_ObjectID r"
  "aq_Requester (set_state st dec ex esc grp r) = aq_Requester r"
  "aq_Level (set_state st dec ex esc grp r) = aq_Level r"
  "aq_Quorum (set_state st dec ex esc grp r) = aq_Quorum r"
  "aq_Votes (set_state st dec ex esc grp r) = aq_Votes r"
  "aq_State (set_state st dec ex esc grp r) = st"
  "aq_DecidedAt (set_state st dec ex esc grp r) = dec"
  "aq_ExecuteAfter (set_state st dec ex esc grp r) = ex"
  "aq_ExpiresAt (set_state st dec ex esc grp r) = aq_ExpiresAt r"
  "aq_Escalated (set_state st dec ex esc grp r) = esc"
  "Approvals (set_state st dec ex esc grp r) = Approvals r"
  by (simp_all add: set_state_def Approvals_def)

lemma SetApprovalState_upd: "SetApprovalState db rid st dec ex esc grp = upd_req db rid (set_state st dec ex esc grp)"
  by (simp add: SetApprovalState_def upd_req_def set_state_def [abs_def])

lemma SetApprovalError_upd:
  "SetApprovalError db rid msg t = upd_req db rid (\<lambda>r. r\<lparr>aq_Error := msg, aq_ExecuteAfter := Some t\<rparr>)"
  by (simp add: SetApprovalError_def upd_req_def)

lemma AddApprovalVote_upd:
  "AddApprovalVote db v = Inr db' \<Longrightarrow>
     db' = upd_req db (av_RequestID v) (\<lambda>r. r\<lparr>aq_Votes := aq_Votes r @ [v]\<rparr>) \<and>
     (\<forall>r \<in> set (db_requests db). aq_ID r = av_RequestID v \<longrightarrow> \<not> VotedBy r (av_Voter v))"
  by (auto simp: AddApprovalVote_def upd_req_def list_ex_iff split: if_splits)

lemma GetApprovalRequest_Some:
  "GetApprovalRequest db rid = Some r \<Longrightarrow> r \<in> set (db_requests db) \<and> aq_ID r = rid"
  by (auto simp: GetApprovalRequest_def find_Some_iff)

lemma evolves_refl [simp]: "evolves r r"
  by (simp add: evolves_def)

lemma evolves_trans: "evolves r s \<Longrightarrow> evolves s t \<Longrightarrow> evolves r t"
  by (auto simp: evolves_def)

lemma evolves_Approvals: "evolves r s \<Longrightarrow> Approvals r \<le> Approvals s"
  by (auto simp: evolves_def Approvals_def)

lemma db_ok_unique:
  "db_ok db \<Longrightarrow> r \<in> set (db_requests db) \<Longrightarrow> s \<in> set (db_requests db) \<Longrightarrow> aq_ID r = aq_ID s \<Longrightarrow> r = s"
  unfolding db_ok_def distinct_map by (auto dest: inj_onD)

lemma request_okD: "db_ok db \<Longrightarrow> r \<in> set (db_requests db) \<Longrightarrow> request_ok r"
  by (simp add: db_ok_def)

lemma backed_evolves:
  assumes "backed db rid a obj veto"
    and "\<And>r. r \<in> set (db_requests db) \<Longrightarrow> \<exists>s \<in> set (db_requests db'). evolves r s"
  shows "backed db' rid a obj veto"
proof -
  obtain r where r: "r \<in> set (db_requests db)" "aq_ID r = rid" "aq_Action r = a" "aq_ObjectID r = obj"
      "aq_Quorum r \<le> Approvals r" "veto \<longrightarrow> aq_Level r = LevelVeto"
    using assms(1) by (auto simp: backed_def)
  obtain s where s: "s \<in> set (db_requests db')" "evolves r s" using assms(2) r(1) by blast
  then show ?thesis
    using r evolves_Approvals [OF s(2)] by (auto simp: backed_def evolves_def intro!: bexI [of _ s])
qed

lemma justified_mono:
  assumes "justified db l"
    and "\<And>r. r \<in> set (db_requests db) \<Longrightarrow> \<exists>s \<in> set (db_requests db'). evolves r s"
    and "set (db_breakglass db) \<subseteq> set (db_breakglass db')"
  shows "justified db' l"
  using assms(1) backed_evolves [OF _ assms(2)] assms(3)
  by (cases "(db, l)" rule: justified.cases) (simp_all, blast+)

lemma justified_sub:
  assumes "justified db l" "set (db_requests db) \<subseteq> set (db_requests db')"
    "set (db_breakglass db) \<subseteq> set (db_breakglass db')"
  shows "justified db' l"
  using assms by (intro justified_mono [of db l db']) (auto intro: evolves_refl)

text \<open>The operations one by one.\<close>

lemma db_ok_upd:
  assumes ok: "db_ok db" and r: "r \<in> set (db_requests db)" and f: "request_ok (f r)" "evolves r (f r)"
  shows "db_ok (upd_req db (aq_ID r) f)"
proof -
  let ?g = "\<lambda>s. if aq_ID s = aq_ID r then f s else s"
  have g: "request_ok (?g s) \<and> evolves s (?g s) \<and> aq_ID (?g s) = aq_ID s" if s: "s \<in> set (db_requests db)" for s
    using request_okD [OF ok s] f db_ok_unique [OF ok s r] by (auto simp: evolves_def)
  then have ids: "map aq_ID (map ?g (db_requests db)) = map aq_ID (db_requests db)" by simp
  have rs: "set (db_requests (upd_req db (aq_ID r) f)) = ?g ` set (db_requests db)" by simp
  have "justified (upd_req db (aq_ID r) f) l" if "l \<in> set (db_performed db)" for l
  proof (rule justified_mono [of db])
    show "justified db l" using ok that by (simp add: db_ok_def)
    show "\<exists>s \<in> set (db_requests (upd_req db (aq_ID r) f)). evolves q s" if "q \<in> set (db_requests db)" for q
      unfolding rs using g [OF that] that by blast
  qed simp
  moreover have "\<forall>q \<in> set (db_requests (upd_req db (aq_ID r) f)). request_ok q"
    unfolding rs using g by blast
  moreover have "distinct (map aq_ID (db_requests (upd_req db (aq_ID r) f)))"
    unfolding upd_req_simps ids using ok unfolding db_ok_def by blast
  ultimately show ?thesis using ok by (simp add: db_ok_def)
qed

lemma db_ok_perform:
  "db_ok db \<Longrightarrow> justified db (how, a, obj) \<Longrightarrow> db_ok (db\<lparr>db_performed := db_performed db @ [(how, a, obj)]\<rparr>)"
  by (auto simp: db_ok_def intro: justified_sub [of db])

lemma db_ok_frame:
  assumes "db_ok db" "db_requests db' = db_requests db" "db_policies db' = db_policies db"
    "db_performed db' = db_performed db" "set (db_breakglass db) \<subseteq> set (db_breakglass db')"
  shows "db_ok db'"
  using assms by (auto simp: db_ok_def intro: justified_sub [of db])

lemma db_ok_add:
  assumes "db_ok db" "CreateApprovalRequest db r = Inr db'" "request_ok r"
  shows "db_ok db'"
  using assms by (auto simp: db_ok_def CreateApprovalRequest_def split: if_splits intro: justified_sub [of db])

lemma policyFor_ok: "db_ok db \<Longrightarrow> policy_ok (policyFor db a)"
  by (cases "GuardedActionByKey a")
     (auto simp: policyFor_def Let_def db_ok_def policy_ok_def GuardedActionByKey_def guardedActions_def
        find_Some_iff split: option.splits if_splits)

lemma policyFor_window: "0 < ap_VetoWindow (policyFor db a)"
  by (auto simp: policyFor_def Let_def hours_def split: option.splits)

section \<open>Every event is a safe step\<close>

fun used :: "passage \<times> GuardedAction \<times> string \<Rightarrow> string option" where
  "used (PassRequest rid, _) = Some rid"
| "used (PassAuto rid, _) = Some rid"
| "used _ = None"

definition ready :: "int \<Rightarrow> ApprovalRequest \<Rightarrow> bool" where
  "ready now r \<longleftrightarrow> aq_Level r = LevelQuorum \<or>
     (\<exists>d t. aq_DecidedAt r = Some d \<and> aq_ExecuteAfter r = Some t \<and> d < t \<and> t \<le> now)"

text \<open>
  A step from one state of the tables to another: the invariant holds afterwards, requests evolve, and
  the actions performed through a request use one of \<open>R\<close> that is open and ready.
\<close>

definition safe_step :: "ApprovalRequest set \<Rightarrow> int \<Rightarrow> approval_db \<Rightarrow> approval_db \<Rightarrow> bool" where
  "safe_step R now db db' \<longleftrightarrow>
     db_ok db' \<and> (\<forall>r \<in> set (db_requests db). \<exists>s \<in> set (db_requests db'). evolves r s) \<and>
     (\<exists>logs. db_performed db' = db_performed db @ logs \<and>
        (\<forall>l \<in> set logs. \<forall>rid. used l = Some rid \<longrightarrow>
           (\<exists>r \<in> R. aq_ID r = rid \<and> \<not> Final (aq_State r) \<and> ready now r)))"

lemma safe_trans: "safe_step R now db1 db2 \<Longrightarrow> safe_step R now db2 db3 \<Longrightarrow> safe_step R now db1 db3"
  unfolding safe_step_def by (elim conjE exE, intro conjI) (meson evolves_trans | fastforce)+

lemma safe_refl: "db_ok db \<Longrightarrow> safe_step R now db db"
  by (auto simp: safe_step_def intro!: bexI evolves_refl)

lemma safe_upd:
  assumes "db_ok db" "r \<in> set (db_requests db)" "request_ok (f r)" "evolves r (f r)"
  shows "safe_step R now db (upd_req db (aq_ID r) f)"
proof -
  have "\<exists>s \<in> set (db_requests (upd_req db (aq_ID r) f)). evolves q s" if q: "q \<in> set (db_requests db)" for q
  proof (cases "aq_ID q = aq_ID r")
    case True
    then have "q = r" using db_ok_unique [OF assms(1) q assms(2)] by simp
    then show ?thesis using assms(2,4) by (auto intro!: bexI [of _ "f r"] image_eqI [of _ _ r])
  next
    case False
    then show ?thesis using q by (auto intro!: bexI [of _ q] image_eqI [of _ _ q])
  qed
  then show ?thesis using db_ok_upd [of db r f, OF assms] by (simp add: safe_step_def)
qed

lemma safe_perform:
  assumes "db_ok db" "justified db (how, a, obj)"
    and "\<And>rid. used (how, a, obj) = Some rid \<Longrightarrow> \<exists>r \<in> R. aq_ID r = rid \<and> \<not> Final (aq_State r) \<and> ready now r"
  shows "safe_step R now db (db\<lparr>db_performed := db_performed db @ [(how, a, obj)]\<rparr>)"
  using db_ok_perform [OF assms(1,2)] assms(3) by (auto simp: safe_step_def intro: bexI evolves_refl)

lemma safe_frame:
  assumes "db_ok db" "db_requests db' = db_requests db" "db_policies db' = db_policies db"
    "db_performed db' = db_performed db" "set (db_breakglass db) \<subseteq> set (db_breakglass db')"
  shows "safe_step R now db db'"
  using db_ok_frame [OF assms] assms(2,4) by (auto simp: safe_step_def intro: bexI evolves_refl)

lemma safe_add:
  assumes "db_ok db" "CreateApprovalRequest db r = Inr db'" "request_ok r"
  shows "safe_step R now db db'"
  using db_ok_add [OF assms] assms(2)
  by (auto simp: safe_step_def CreateApprovalRequest_def split: if_splits intro: bexI evolves_refl)

text \<open>Closing a request: any state but the three that need a quorum.\<close>

lemma request_ok_state:
  assumes "request_ok r" "st \<in> {ApprovalApproved, ApprovalScheduled} \<Longrightarrow> False"
    "st = ApprovalExecuted \<Longrightarrow> aq_Quorum r \<le> Approvals r"
  shows "request_ok (set_state st dec ex esc grp r)"
  using assms by (auto simp: request_ok_def)

lemma evolves_set_state: "\<not> Final (aq_State r) \<Longrightarrow> evolves r (set_state st dec ex esc grp r)"
  by (simp add: evolves_def)

lemma request_ok_quorum: "request_ok r \<Longrightarrow> aq_State r \<in> {ApprovalApproved, ApprovalScheduled} \<Longrightarrow> aq_Quorum r \<le> Approvals r"
  by (auto simp: request_ok_def)

lemma request_ok_ready:
  "request_ok r \<Longrightarrow> aq_State r = ApprovalApproved \<or>
     aq_State r = ApprovalScheduled \<and> (\<exists>t. aq_ExecuteAfter r = Some t \<and> t \<le> now) \<Longrightarrow> ready now r"
  by (auto simp: request_ok_def ready_def decided_window_def split: option.splits)

lemma executeApproved_safe:
  assumes ok: "db_ok db"
  shows "safe_step (set (db_requests db)) now db (snd (executeApproved now c db))"
proof (cases "GetApprovalRequest db (gc_approval c)")
  case None
  then show ?thesis using ok by (simp add: executeApproved_def safe_refl)
next
  case (Some r)
  have r: "r \<in> set (db_requests db)" using GetApprovalRequest_Some [OF Some] by simp
  note rok = request_okD [OF ok r]
  let ?pass = "aq_State r = ApprovalApproved \<or> aq_State r = ApprovalScheduled \<and>
                 (case aq_ExecuteAfter r of Some t \<Rightarrow> \<not> now < t | None \<Rightarrow> True)"
  let ?same = "aq_Action r = gc_action c \<and> aq_ObjectID r = gt_ID (gc_target c)"
  let ?db1 = "perform (PassRequest (aq_ID r)) c db"
  have perf: "safe_step (set (db_requests db)) now db ?db1" if "?pass" "?same"
    unfolding perform_def
  proof (rule safe_perform [OF ok])
    show "justified db (PassRequest (aq_ID r), gc_action c, gt_ID (gc_target c))"
      using r that request_ok_quorum [OF rok] by (auto simp: backed_def)
    have "ready now r" using that rok
      by (intro request_ok_ready) (auto simp: request_ok_def decided_window_def split: option.splits)
    then show "\<exists>q \<in> set (db_requests db). aq_ID q = rid \<and> \<not> Final (aq_State q) \<and> ready now q"
      if "used (PassRequest (aq_ID r), gc_action c, gt_ID (gc_target c)) = Some rid" for rid
      using r that \<open>?pass\<close> by (auto intro!: bexI [of _ r])
  qed
  have fin: "safe_step (set (db_requests db)) now ?db1
      (SetApprovalState ?db1 (aq_ID r) ApprovalExecuted (Some now) (aq_ExecuteAfter r) (aq_Escalated r) (aq_GroupName r))"
    if "?pass" "?same"
    unfolding SetApprovalState_upd
    using perf [OF that] r that(1) request_ok_quorum [OF rok]
    by (intro safe_upd request_ok_state evolves_set_state rok) (auto simp: safe_step_def perform_def)
  show ?thesis
    using Some safe_refl [OF ok] perf fin safe_trans [OF perf fin]
    by (auto simp: executeApproved_def Let_def)
qed

lemma executeBreakGlass_safe:
  assumes ok: "db_ok db"
  shows "safe_step R now db (snd (executeBreakGlass c db))"
proof (cases "length (gc_reason c) < 20")
  case True
  then show ?thesis using ok by (simp add: executeBreakGlass_def safe_refl)
next
  case False
  define e where "e = \<lparr>bg_Actor = gc_actor c, bg_Action = gc_action c, bg_ObjectID = gt_ID (gc_target c),
    bg_Reason = gc_reason c, bg_Notified = approverNames db (policyFor db (gc_action c))\<rparr>"
  let ?db1 = "db\<lparr>db_breakglass := db_breakglass db @ [e]\<rparr>"
  have s1: "safe_step R now db ?db1" using ok by (intro safe_frame) auto
  have "safe_step R now ?db1 (perform (PassBreakGlass (gc_reason c)) c ?db1)"
    unfolding perform_def using s1 False by (intro safe_perform) (auto simp: safe_step_def e_def)
  with s1 have "safe_step R now db (perform (PassBreakGlass (gc_reason c)) c ?db1)" by (rule safe_trans)
  then show ?thesis using False by (simp add: executeBreakGlass_def Let_def e_def)
qed

lemma openApprovalRequest_safe:
  assumes ok: "db_ok db" and pol: "policy_ok policy" "ap_Level policy \<noteq> LevelAudit"
  shows "safe_step R now db (snd (openApprovalRequest now policy c db))"
  using ok pol safe_refl [OF ok]
  by (auto simp: openApprovalRequest_def Let_def policy_ok_def request_ok_def split: sum.splits intro!: safe_add [OF ok])

lemma guardAction_safe:
  assumes ok: "db_ok db"
  shows "safe_step (set (db_requests db)) now db (snd (guardAction now c db))"
  using executeApproved_safe [OF ok] executeBreakGlass_safe [OF ok]
    openApprovalRequest_safe [OF ok policyFor_ok [OF ok]]
  by (auto simp: guardAction_def Let_def perform_def intro!: safe_perform [OF ok])

text \<open>A vote and its verdict change one request in one go.\<close>

definition vote_update :: "int \<Rightarrow> int \<Rightarrow> ApprovalRequest \<Rightarrow> ApprovalVote \<Rightarrow> ApprovalRequest" where
  "vote_update now window r v =
     (let r' = r\<lparr>aq_Votes := aq_Votes r @ [v]\<rparr> in
      if \<not> av_Approve v then set_state ApprovalRejected (Some now) None (aq_Escalated r) (aq_GroupName r) r'
      else if Approvals r' \<ge> aq_Quorum r then
        if aq_Level r = LevelVeto
        then set_state ApprovalScheduled (Some now) (Some (now + window)) (aq_Escalated r) (aq_GroupName r) r'
        else set_state ApprovalApproved (Some now) None (aq_Escalated r) (aq_GroupName r) r'
      else r')"

lemma vote_update_ok:
  assumes "request_ok r" "\<not> Final (aq_State r)" "\<not> VotedBy r (av_Voter v)" "av_Voter v \<noteq> aq_Requester r" "0 < window"
  shows "request_ok (vote_update now window r v) \<and> evolves r (vote_update now window r v)"
proof -
  let ?r' = "r\<lparr>aq_Votes := aq_Votes r @ [v]\<rparr>"
  have "distinct (map av_Voter (aq_Votes ?r'))"
    using assms(1,3) by (auto simp: request_ok_def VotedBy_def list_ex_iff)
  moreover have "Approvals r \<le> Approvals ?r'" by (simp add: Approvals_def)
  moreover have "Approvals (set_state st d x e g ?r') = Approvals ?r'" for st d x e g by simp
  moreover have "\<not> Final (aq_State r) \<Longrightarrow> aq_State r \<noteq> ApprovalExecuted" by auto
  ultimately show ?thesis
    using assms
    by (auto simp: vote_update_def Let_def request_ok_def evolves_def decided_window_def simp del: set_state_simps(13))
qed

lemma upd_req_upd:
  "(\<And>r. aq_ID (f r) = aq_ID r) \<Longrightarrow> upd_req (upd_req db rid f) rid g = upd_req db rid (\<lambda>r. g (f r))"
  by (simp add: upd_req_def comp_def if_distrib cong: if_cong)

lemma upd_req_at:
  "(\<And>r. r \<in> set (db_requests db) \<Longrightarrow> aq_ID r = rid \<Longrightarrow> r = req) \<Longrightarrow> f req = g req \<Longrightarrow>
   upd_req db rid f = upd_req db rid g"
  unfolding upd_req_def
  by (rule arg_cong [of _ _ "\<lambda>rs. db\<lparr>db_requests := rs\<rparr>"], rule map_cong [OF refl]) (metis (full_types))

lemma TouchApprovalDelegation_upd:
  "TouchApprovalDelegation (upd_req db rid f) d now = upd_req (TouchApprovalDelegation db d now) rid f"
  by (simp add: TouchApprovalDelegation_def upd_req_def)

lemma policyFor_frame:
  "db_policies db' = db_policies db \<Longrightarrow> db_policies_readable db' = db_policies_readable db \<Longrightarrow>
   policyFor db' a = policyFor db a"
  by (simp add: policyFor_def Let_def)

text \<open>What a recorded vote means, and what it does to the tables.\<close>

lemma castVote_Inr:
  assumes "castVote lib now req caller approve comment creds db = (Inr req', db')"
  obtains voter castBy dlg vote where
    "\<not> Final (aq_State req)" "voter_of lib db now req caller creds = Inr (voter, castBy, dlg)"
    "voter \<noteq> aq_Requester req"
    "\<exists>g. ApprovalGroupByName db (aq_GroupName req) = Some g \<and> group_Has g voter"
    "vote = \<lparr>av_RequestID = aq_ID req, av_Voter = voter, av_CastBy = castBy, av_Approve = approve, av_Comment = comment\<rparr>"
    "isl (AddApprovalVote db vote) = False"
    "db' = fst (decide_vote (case dlg of None \<Rightarrow> projr (AddApprovalVote db vote)
              | Some d \<Rightarrow> TouchApprovalDelegation (projr (AddApprovalVote db vote)) d now)
            now (req\<lparr>aq_Votes := aq_Votes req @ [vote]\<rparr>) approve)"
  using assms
  by (auto simp: castVote_def Let_def split: if_splits sum.splits option.splits prod.splits)

lemma decide_vote_upd:
  assumes db: "db1 = upd_req db0 (aq_ID req) (\<lambda>r. r\<lparr>aq_Votes := aq_Votes r @ [v]\<rparr>)"
    and uniq: "\<And>r. r \<in> set (db_requests db0) \<Longrightarrow> aq_ID r = aq_ID req \<Longrightarrow> r = req"
  shows "fst (decide_vote db1 now (req\<lparr>aq_Votes := aq_Votes req @ [v]\<rparr>) (av_Approve v)) =
         upd_req db0 (aq_ID req) (\<lambda>r. vote_update now (ap_VetoWindow (policyFor db0 (aq_Action req))) r v)"
proof -
  have pol: "policyFor (upd_req db0 rid f) a = policyFor db0 a" for rid f a
    by (rule policyFor_frame) simp_all
  show ?thesis
    unfolding decide_vote_def SetApprovalState_upd db pol Let_def
    by (auto simp: vote_update_def Let_def upd_req_upd intro!: upd_req_at [OF uniq])
qed

lemma castVote_safe:
  assumes ok: "db_ok db" and r: "req \<in> set (db_requests db)"
  shows "safe_step R now db (snd (castVote lib now req caller approve comment creds db))"
proof (cases "fst (castVote lib now req caller approve comment creds db)")
  case (Inl e)
  then have "snd (castVote lib now req caller approve comment creds db) = db"
    by (auto simp: castVote_def Let_def split: if_splits sum.splits option.splits prod.splits)
  then show ?thesis using safe_refl [OF ok] by simp
next
  case (Inr req')
  define db' where "db' = snd (castVote lib now req caller approve comment creds db)"
  from Inr have "castVote lib now req caller approve comment creds db = (Inr req', db')"
    by (simp add: db'_def prod_eq_iff)
  then show ?thesis unfolding db'_def [symmetric]
  proof (rule castVote_Inr)
    fix voter castBy dlg vote
    assume fin: "\<not> Final (aq_State req)" and ne: "voter \<noteq> aq_Requester req"
      and vote: "vote = \<lparr>av_RequestID = aq_ID req, av_Voter = voter, av_CastBy = castBy, av_Approve = approve, av_Comment = comment\<rparr>"
      and add: "isl (AddApprovalVote db vote) = False"
      and db': "db' = fst (decide_vote (case dlg of None \<Rightarrow> projr (AddApprovalVote db vote)
              | Some d \<Rightarrow> TouchApprovalDelegation (projr (AddApprovalVote db vote)) d now)
            now (req\<lparr>aq_Votes := aq_Votes req @ [vote]\<rparr>) approve)"
    obtain db1 where db1: "AddApprovalVote db vote = Inr db1"
      using add by (cases "AddApprovalVote db vote") auto
    note au = AddApprovalVote_upd [OF db1]
    define db0 where "db0 = (case dlg of None \<Rightarrow> db | Some d \<Rightarrow> TouchApprovalDelegation db d now)"
    have s0: "safe_step R now db db0"
      unfolding db0_def using ok
      by (intro safe_frame) (auto simp: TouchApprovalDelegation_def split: option.splits)
    have rs0: "db_requests db0 = db_requests db"
      by (auto simp: db0_def TouchApprovalDelegation_def split: option.splits)
    let ?f = "\<lambda>r. vote_update now (ap_VetoWindow (policyFor db0 (aq_Action req))) r vote"
    have "db' = upd_req db0 (aq_ID req) ?f"
      unfolding db'
    proof (subst decide_vote_upd [symmetric, of _ db0 req vote])
      show "(case dlg of None \<Rightarrow> projr (AddApprovalVote db vote)
              | Some d \<Rightarrow> TouchApprovalDelegation (projr (AddApprovalVote db vote)) d now) =
            upd_req db0 (aq_ID req) (\<lambda>r. r\<lparr>aq_Votes := aq_Votes r @ [vote]\<rparr>)"
        using au db1 vote by (auto simp: db0_def TouchApprovalDelegation_upd split: option.splits)
    qed (use db_ok_unique [OF ok _ r] rs0 vote in auto)
    moreover have "\<not> VotedBy req (av_Voter vote)" using au r vote by simp
    ultimately have "safe_step R now db0 db'"
      using vote_update_ok [OF request_okD [OF ok r] fin, of vote] ne vote policyFor_window s0 r rs0
      by (auto intro!: safe_upd simp: safe_step_def [of _ _ db db0])
    with s0 show "safe_step R now db db'" by (rule safe_trans)
  qed
qed

lemma handleVoteApproval_safe:
  "db_ok db \<Longrightarrow> safe_step R now db (handleVoteApproval lib now rid caller approve comment creds db)"
  using castVote_safe GetApprovalRequest_Some safe_refl
  by (auto simp: handleVoteApproval_def split: option.splits)

lemma close_safe:
  assumes "db_ok db" "r \<in> set (db_requests db)" "\<not> Final (aq_State r)"
    "st \<notin> {ApprovalApproved, ApprovalScheduled, ApprovalExecuted}"
  shows "safe_step R now db (SetApprovalState db (aq_ID r) st dec ex esc grp)"
  unfolding SetApprovalState_upd using assms
  by (intro safe_upd request_ok_state evolves_set_state) (auto dest: request_okD)

lemma handleCancelApproval_safe:
  assumes ok: "db_ok db"
  shows "safe_step R now db (handleCancelApproval now rid actor db)"
proof (cases "GetApprovalRequest db rid")
  case None
  then show ?thesis using safe_refl [OF ok] by (simp add: handleCancelApproval_def)
next
  case (Some r)
  then have "safe_step R now db (SetApprovalState db rid
      (if aq_State r = ApprovalScheduled then ApprovalVetoed else ApprovalRejected) dec ex esc grp)"
    if "\<not> Final (aq_State r)" for dec ex esc grp
    using close_safe [OF ok _ that] GetApprovalRequest_Some [OF Some] by auto
  then show ?thesis using Some safe_refl [OF ok] by (simp add: handleCancelApproval_def)
qed

text \<open>A sweep works through rows read before its first change; each change leaves the other rows alone.\<close>

lemma foldl_safe:
  assumes step: "\<And>db r. db_ok db \<Longrightarrow> r \<in> set (db_requests db) \<Longrightarrow> P r \<Longrightarrow>
      safe_step R now db (F db r) \<and> (\<forall>s \<in> set (db_requests db). aq_ID s \<noteq> aq_ID r \<longrightarrow> s \<in> set (db_requests (F db r)))"
  shows "db_ok db \<Longrightarrow> set L \<subseteq> set (db_requests db) \<Longrightarrow> distinct (map aq_ID L) \<Longrightarrow> \<forall>r \<in> set L. P r \<Longrightarrow>
    safe_step R now db (foldl F db L)"
proof (induction L arbitrary: db)
  case Nil
  then show ?case by (simp add: safe_refl)
next
  case (Cons r L)
  have st: "safe_step R now db (F db r)" "\<forall>s \<in> set (db_requests db). aq_ID s \<noteq> aq_ID r \<longrightarrow> s \<in> set (db_requests (F db r))"
    using step [of db r] Cons.prems by auto
  have "safe_step R now (F db r) (foldl F (F db r) L)"
  proof (rule Cons.IH)
    show "db_ok (F db r)" using st(1) by (simp add: safe_step_def)
    show "set L \<subseteq> set (db_requests (F db r))"
    proof
      fix s assume s: "s \<in> set L"
      then have "aq_ID s \<noteq> aq_ID r" using Cons.prems(3) by (auto simp: image_iff)
      moreover have "s \<in> set (db_requests db)" using s Cons.prems(2) by auto
      ultimately show "s \<in> set (db_requests (F db r))" using st(2) by simp
    qed
  qed (use Cons.prems in auto)
  with st(1) show ?case by (auto intro: safe_trans)
qed

lemma upd_req_other: "s \<in> set (db_requests db) \<Longrightarrow> aq_ID s \<noteq> rid \<Longrightarrow> s \<in> set (db_requests (upd_req db rid f))"
  by (auto intro: image_eqI [of _ _ s])

lemma ids_filter: "db_ok db \<Longrightarrow> distinct (map aq_ID (filter P (db_requests db)))"
  by (simp add: db_ok_def distinct_map_filter)

lemma sweepApprovals_safe:
  assumes ok: "db_ok db"
  shows "safe_step R now db (sweepApprovals now db)"
  unfolding sweepApprovals_def
proof (rule foldl_safe [where P = "\<lambda>r. \<not> Final (aq_State r)"])
  show "safe_step R now db (sweep_one now db r) \<and>
      (\<forall>s \<in> set (db_requests db). aq_ID s \<noteq> aq_ID r \<longrightarrow> s \<in> set (db_requests (sweep_one now db r)))"
    if "db_ok db" "r \<in> set (db_requests db)" "\<not> Final (aq_State r)" for db r
  proof
    show "safe_step R now db (sweep_one now db r)"
      using close_safe [OF that] by (simp add: sweep_one_def Let_def)
    show "\<forall>s \<in> set (db_requests db). aq_ID s \<noteq> aq_ID r \<longrightarrow> s \<in> set (db_requests (sweep_one now db r))"
      by (simp add: sweep_one_def Let_def SetApprovalState_upd upd_req_other del: upd_req_simps)
  qed
qed (use ok in \<open>auto simp: ExpiredApprovalRequests_def ids_filter\<close>)

lemma executeDueApproval_safe:
  assumes ok: "db_ok db" and r: "r \<in> set (db_requests db)" and R: "r \<in> R"
    and st: "aq_State r = ApprovalScheduled" "\<exists>t. aq_ExecuteAfter r = Some t \<and> t \<le> now"
  shows "safe_step R now db (executeDueApproval now exec db r)"
proof -
  define db1 where "db1 = db\<lparr>db_performed := db_performed db @ [(PassAuto (aq_ID r), aq_Action r, aq_ObjectID r)]\<rparr>"
  note rok = request_okD [OF ok r]
  have "ready now r" using rok st by (intro request_ok_ready) auto
  moreover have "justified db (PassAuto (aq_ID r), aq_Action r, aq_ObjectID r)"
    using rok r st by (auto simp: backed_def request_ok_def)
  ultimately have s1: "safe_step R now db db1"
    unfolding db1_def using R st by (intro safe_perform [OF ok]) (auto intro!: bexI [of _ r])
  have r1: "r \<in> set (db_requests db1)" and ok1: "db_ok db1" using r s1 by (simp_all add: db1_def safe_step_def)
  have "safe_step R now db1 (SetApprovalError db1 (aq_ID r) msg (now + 900000000000))" for msg
    unfolding SetApprovalError_upd
  proof (rule safe_upd [OF ok1 r1])
    show "request_ok (r\<lparr>aq_Error := msg, aq_ExecuteAfter := Some (now + 900000000000)\<rparr>)"
      using rok st by (auto simp: request_ok_def decided_window_def Approvals_def split: option.splits)
    show "evolves r (r\<lparr>aq_Error := msg, aq_ExecuteAfter := Some (now + 900000000000)\<rparr>)"
      using st by (simp add: evolves_def)
  qed
  moreover have "safe_step R now db1 (SetApprovalState db1 (aq_ID r) ApprovalExecuted dec ex esc grp)" for dec ex esc grp
    unfolding SetApprovalState_upd using ok1 r1 rok st request_ok_quorum [OF rok]
    by (intro safe_upd request_ok_state evolves_set_state) auto
  ultimately show ?thesis
    using safe_trans [OF s1] by (auto simp: executeDueApproval_def Let_def db1_def [symmetric] split: exec_result.splits)
qed

lemma sweepDueApprovals_safe:
  assumes ok: "db_ok db"
  shows "safe_step (set (db_requests db)) now db (sweepDueApprovals now exec db)"
  unfolding sweepDueApprovals_def
proof (rule foldl_safe [where P = "\<lambda>r. r \<in> set (db_requests db) \<and> aq_State r = ApprovalScheduled \<and>
    (\<exists>t. aq_ExecuteAfter r = Some t \<and> t \<le> now)"])
  fix db' r
  assume "db_ok db'" "r \<in> set (db_requests db')" and
    "r \<in> set (db_requests db) \<and> aq_State r = ApprovalScheduled \<and> (\<exists>t. aq_ExecuteAfter r = Some t \<and> t \<le> now)"
  then have "safe_step (set (db_requests db)) now db' (executeDueApproval now exec db' r)"
    by (intro executeDueApproval_safe) auto
  moreover have "\<forall>s \<in> set (db_requests db'). aq_ID s \<noteq> aq_ID r \<longrightarrow> s \<in> set (db_requests (executeDueApproval now exec db' r))"
    by (simp add: executeDueApproval_def Let_def SetApprovalState_upd SetApprovalError_upd upd_req_other
        del: upd_req_simps split: exec_result.splits)
  ultimately show "safe_step (set (db_requests db)) now db' (executeDueApproval now exec db' r) \<and>
      (\<forall>s \<in> set (db_requests db'). aq_ID s \<noteq> aq_ID r \<longrightarrow> s \<in> set (db_requests (executeDueApproval now exec db' r)))" ..
next
  have "distinct (map aq_ID (DueApprovalRequests db now))"
    using ids_filter [OF ok] unfolding DueApprovalRequests_def
    by (simp add: distinct_map inj_on_def)
  then show "distinct (map aq_ID (filter (\<lambda>r. aq_Action r \<in> set executors) (DueApprovalRequests db now)))"
    by (rule distinct_map_filter)
qed (use ok in \<open>auto simp: DueApprovalRequests_def\<close>)

lemma handleSetApprovalPolicy_safe:
  assumes ok: "db_ok db"
  shows "safe_step R now db (snd (handleSetApprovalPolicy pl db))"
proof -
  have "safe_step R now db (SetApprovalPolicy db p)" if "policy_ok p" for p
  proof -
    have "policy_ok (p\<lparr>ap_Timeout := a, ap_VetoWindow := b\<rparr>)" for a b using that by (simp add: policy_ok_def)
    then have "db_ok (SetApprovalPolicy db p)"
      using ok unfolding db_ok_def SetApprovalPolicy_def
      by (auto intro: justified_sub [of db])
    then show ?thesis by (auto simp: safe_step_def SetApprovalPolicy_def intro: bexI evolves_refl)
  qed
  then show ?thesis using safe_refl [OF ok]
    by (auto simp: handleSetApprovalPolicy_def policy_ok_def)
qed

lemma approval_step_safe:
  assumes ok: "db_ok db"
  shows "safe_step (set (db_requests db)) now db (approval_step db (now, e))"
proof (cases e)
  case (EvGuard c)
  then show ?thesis using guardAction_safe [OF ok] by simp
next
  case (EvDue exec)
  then show ?thesis using sweepDueApprovals_safe [OF ok] by simp
qed (use handleVoteApproval_safe [OF ok] handleCancelApproval_safe [OF ok] sweepApprovals_safe [OF ok]
      handleSetApprovalPolicy_safe [OF ok] in \<open>auto simp: sweepDelegations_def intro!: safe_frame [OF ok]\<close>)

lemma approval_run_snoc: "approval_run db (evs @ [ev]) = approval_step (approval_run db evs) ev"
  by (simp add: approval_run_def)

lemma approval_run_append: "approval_run db (evs @ later) = approval_run (approval_run db evs) later"
  by (simp add: approval_run_def)

lemma reachable_ok: "db_ok (approval_run empty_db evs)"
proof (induction evs rule: rev_induct)
  case Nil
  then show ?case by (simp add: approval_run_def empty_db_def db_ok_def)
next
  case (snoc ev evs)
  then show ?case using approval_step_safe [of _ "fst ev" "snd ev"] by (simp add: approval_run_snoc safe_step_def)
qed

section \<open>What the approval scheme guarantees\<close>

text \<open>A small office to evaluate the theorems on: three approvers and one reserve.\<close>

definition sample_call :: guard_call where
  "sample_call = \<lparr>gc_action = GuardStorageDelete,
     gc_target = \<lparr>gt_ID = ''s1'', gt_Name = ''s1'', gt_Summary = ''delete s1'', gt_Payload = ''''\<rparr>,
     gc_actor = ''ann'', gc_approval = '''', gc_break_glass = False, gc_reason = ''disk is broken'',
     gc_status = 204, gc_new_id = ''r1''\<rparr>"

definition sample_lib :: hash_lib where
  "sample_lib = \<lparr>hl_secret = (\<lambda>s. s), hl_password = (\<lambda>h p. h = p)\<rparr>"

definition no_creds :: delegationCredentials where
  "no_creds = \<lparr>dc_Token = '''', dc_Password = ''''\<rparr>"

definition sample_vote :: "string \<Rightarrow> bool \<Rightarrow> approval_event" where
  "sample_vote who approve = EvVote sample_lib ''r1'' who approve '''' no_creds"

definition sample_groups :: approval_event where
  "sample_groups = EvGroups [\<lparr>ag_Name = ''approvers'', ag_Members = [''ann'', ''bob'', ''cid'']\<rparr>,
     \<lparr>ag_Name = ''reserve'', ag_Members = [''dan'', ''eve'']\<rparr>]"

definition sample_events :: "(int \<times> approval_event) list" where
  "sample_events = [(0, sample_groups), (1, EvGuard sample_call), (2, sample_vote ''bob'' True),
     (3, sample_vote ''cid'' True), (4, EvGuard (sample_call\<lparr>gc_approval := ''r1''\<rparr>))]"

lemmas sample_defs = sample_call_def sample_lib_def no_creds_def sample_vote_def sample_groups_def sample_events_def

lemma approvers_card:
  assumes "request_ok r"
  shows "int (card (av_Voter ` {v \<in> set (aq_Votes r). av_Approve v})) = Approvals r"
proof -
  have d: "distinct (map av_Voter (filter av_Approve (aq_Votes r)))"
    using assms by (simp add: request_ok_def distinct_map_filter)
  have "av_Voter ` {v \<in> set (aq_Votes r). av_Approve v} = set (map av_Voter (filter av_Approve (aq_Votes r)))"
    by auto
  then show ?thesis using distinct_card [OF d] by (simp add: Approvals_def)
qed

text \<open>
  C17: In every history of the service starting from empty tables, a guarded action performed on the
  strength of a request is backed by that request: it is for that action and that object, and the
  people who approved it are pairwise different, do not include the requester and number at least two
  on the quorum level and at least one on the veto level, which is the only level executed without a
  person.
\<close>

theorem approval_backs_action:
  assumes "(how, a, obj) \<in> set (db_performed (approval_run empty_db evs))"
    and "how = PassRequest rid \<or> how = PassAuto rid"
  shows "\<exists>r \<in> set (db_requests (approval_run empty_db evs)).
           aq_ID r = rid \<and> aq_Action r = a \<and> aq_ObjectID r = obj \<and>
           (let approvers = av_Voter ` {v \<in> set (aq_Votes r). av_Approve v} in
            aq_Requester r \<notin> approvers \<and> int (card approvers) \<ge> aq_Quorum r \<and>
            (aq_Level r = LevelQuorum \<and> card approvers \<ge> 2 \<and> how = PassRequest rid \<or>
             aq_Level r = LevelVeto \<and> card approvers \<ge> 1))"
proof -
  have ok: "db_ok (approval_run empty_db evs)" by (rule reachable_ok)
  have "justified (approval_run empty_db evs) (how, a, obj)" using ok assms(1) by (simp add: db_ok_def)
  then have "backed (approval_run empty_db evs) rid a obj (how = PassAuto rid)" using assms(2) by auto
  then obtain r where r: "r \<in> set (db_requests (approval_run empty_db evs))" "aq_ID r = rid" "aq_Action r = a"
      "aq_ObjectID r = obj" "aq_Quorum r \<le> Approvals r" "how = PassAuto rid \<longrightarrow> aq_Level r = LevelVeto"
    by (auto simp: backed_def)
  have rok: "request_ok r" using request_okD [OF ok r(1)] .
  show ?thesis
    using r rok approvers_card [OF rok] assms(2)
    by (intro bexI [of _ r]) (auto simp: Let_def request_ok_def)
qed

theorem approval_backs_action_witness:
  "\<exists>r \<in> set (db_requests (approval_run empty_db sample_events)).
     aq_ID r = ''r1'' \<and> aq_Action r = GuardStorageDelete \<and> aq_ObjectID r = ''s1'' \<and>
     (let approvers = av_Voter ` {v \<in> set (aq_Votes r). av_Approve v} in
      aq_Requester r \<notin> approvers \<and> int (card approvers) \<ge> aq_Quorum r \<and>
      (aq_Level r = LevelQuorum \<and> card approvers \<ge> 2 \<and> PassRequest ''r1'' = PassRequest ''r1'' \<or>
       aq_Level r = LevelVeto \<and> card approvers \<ge> 1))"
proof (rule approval_backs_action [where how = "PassRequest ''r1''" and rid = "''r1''"])
  have "db_performed (approval_run empty_db sample_events) = [(PassRequest ''r1'', GuardStorageDelete, ''s1'')]"
    by code_simp
  then show "(PassRequest ''r1'', GuardStorageDelete, ''s1'') \<in> set (db_performed (approval_run empty_db sample_events))"
    by simp
qed simp



text \<open>
  The veto window is respected. Whatever event at time \<open>now\<close> performs an action on the strength of a
  request, that request was open just before, and on the veto level its confirmation was recorded at
  some time strictly before an execution time that has come.
\<close>

lemma veto_window_respected:
  assumes "db_performed (approval_run empty_db (evs @ [(now, e)])) =
             db_performed (approval_run empty_db evs) @ logs"
    and "(how, a, obj) \<in> set logs" and "how = PassRequest rid \<or> how = PassAuto rid"
  shows "\<exists>r \<in> set (db_requests (approval_run empty_db evs)).
           aq_ID r = rid \<and> \<not> Final (aq_State r) \<and>
           (aq_Level r \<noteq> LevelQuorum \<longrightarrow>
            (\<exists>d t. aq_DecidedAt r = Some d \<and> aq_ExecuteAfter r = Some t \<and> d < t \<and> t \<le> now))"
proof -
  let ?db = "approval_run empty_db evs"
  have "safe_step (set (db_requests ?db)) now ?db (approval_step ?db (now, e))"
    by (rule approval_step_safe) (rule reachable_ok)
  then have "\<forall>l \<in> set logs. \<forall>rid. used l = Some rid \<longrightarrow>
      (\<exists>r \<in> set (db_requests ?db). aq_ID r = rid \<and> \<not> Final (aq_State r) \<and> ready now r)"
    using assms(1) unfolding safe_step_def approval_run_snoc by auto
  moreover have "used (how, a, obj) = Some rid" using assms(3) by auto
  ultimately obtain r where "r \<in> set (db_requests ?db)" "aq_ID r = rid" "\<not> Final (aq_State r)" "ready now r"
    using assms(2) by blast
  then show ?thesis by (intro bexI [of _ r]) (auto simp: ready_def)
qed

definition veto_events :: "(int \<times> approval_event) list" where
  "veto_events = [(0, sample_groups), (1, EvGuard (sample_call\<lparr>gc_action := GuardJobDelete\<rparr>)),
     (2, sample_vote ''bob'' True)]"

lemma voter_of_Inr:
  assumes "voter_of lib db now req caller creds = Inr (voter, castBy, dlg)"
  shows "voter = caller \<and> castBy = '''' \<or>
    castBy = caller \<and> caller \<noteq> aq_Requester req \<and>
    (\<exists>d \<in> set (db_delegations db). ad_Delegator d = voter \<and> ad_Delegate d = caller \<and> Usable d now \<and>
       Covers d (aq_GroupName req) \<and> hl_password lib (ad_PasswordHash d) (dc_Password creds) \<and>
       (\<exists>secret. ad_TokenHash d = hl_secret lib secret \<and>
          splitDelegationToken (trim_space (dc_Token creds)) = Some (ad_Prefix d, secret)))"
  using assms
  by (auto simp: voter_of_def resolveDelegation_def find_Some_iff Let_def result_simps
      split: if_splits option.splits prod.splits)

text \<open>
  C19: A vote is recorded only with authority: the request is open, the voter is a member of its current
  group, is not the requester and has not voted before, and the vote is cast either by the voter in
  person or by somebody other than the requester who holds an unexpired, unrevoked delegation from the
  voter for this group and shows its token and password. The vote recorded carries both names.
\<close>

theorem vote_needs_authority:
  assumes "castVote lib now req caller approve comment creds db = (Inr req', db')"
    and "req \<in> set (db_requests db)"
  shows "\<not> Final (aq_State req) \<and>
    (\<exists>vote. aq_Votes req' = aq_Votes req @ [vote] \<and> av_Approve vote = approve \<and>
      av_Voter vote \<noteq> aq_Requester req \<and> \<not> VotedBy req (av_Voter vote) \<and>
      (\<exists>g. ApprovalGroupByName db (aq_GroupName req) = Some g \<and> av_Voter vote \<in> set (ag_Members g)) \<and>
      (av_Voter vote = caller \<and> av_CastBy vote = '''' \<or>
       av_CastBy vote = caller \<and> caller \<noteq> aq_Requester req \<and>
       (\<exists>d \<in> set (db_delegations db). ad_Delegator d = av_Voter vote \<and> ad_Delegate d = caller \<and>
          Usable d now \<and> Covers d (aq_GroupName req) \<and>
          hl_password lib (ad_PasswordHash d) (dc_Password creds) \<and>
          (\<exists>secret. ad_TokenHash d = hl_secret lib secret \<and>
             splitDelegationToken (trim_space (dc_Token creds)) = Some (ad_Prefix d, secret)))))"
  using assms(1)
proof (rule castVote_Inr)
  fix voter castBy dlg vote
  assume *: "\<not> Final (aq_State req)" "voter_of lib db now req caller creds = Inr (voter, castBy, dlg)"
    "voter \<noteq> aq_Requester req" "\<exists>g. ApprovalGroupByName db (aq_GroupName req) = Some g \<and> group_Has g voter"
    "isl (AddApprovalVote db vote) = False"
    and vote: "vote = \<lparr>av_RequestID = aq_ID req, av_Voter = voter, av_CastBy = castBy, av_Approve = approve,
      av_Comment = comment\<rparr>"
  have "aq_Votes req' = aq_Votes req @ [vote]"
    using assms(1) *(2) vote
    by (auto simp: castVote_def decide_vote_def Let_def split: if_splits sum.splits option.splits prod.splits)
  moreover have "\<not> VotedBy req voter"
    using *(5) vote assms(2) by (auto simp: AddApprovalVote_def list_ex_iff split: if_splits)
  ultimately show ?thesis
    using * vote voter_of_Inr [OF *(2)]
    by (intro conjI exI [of _ vote]) (auto simp: group_Has_def list_ex_iff)
qed

definition sample_delegation :: ApprovalDelegation where
  "sample_delegation = \<lparr>ad_ID = ''d1'', ad_Delegator = ''cid'', ad_Delegate = ''eve'', ad_GroupName = '''',
     ad_Prefix = ''p'', ad_TokenHash = ''s'', ad_PasswordHash = ''w'', ad_ExpiresAt = 9, ad_RevokedAt = None,
     ad_UsedCount = 0, ad_LastUsedAt = None\<rparr>"

definition delegated_db :: approval_db where
  "delegated_db = (approval_run empty_db (take 3 sample_events))\<lparr>db_delegations := [sample_delegation]\<rparr>"

definition delegated_cast :: "(api_error + ApprovalRequest) \<times> approval_db" where
  "delegated_cast = castVote sample_lib 3 (hd (db_requests delegated_db)) ''eve'' True ''''
     \<lparr>dc_Token = ''jhvd.p.s'', dc_Password = ''w''\<rparr> delegated_db"

theorem vote_needs_authority_witness:
  "map av_Voter (aq_Votes (projr (fst delegated_cast))) = [''bob'', ''cid''] \<and>
   \<not> Final (aq_State (hd (db_requests delegated_db)))"
proof -
  have v: "map av_Voter (aq_Votes (projr (fst delegated_cast))) = [''bob'', ''cid'']" by code_simp
  have "db_requests delegated_db \<noteq> []" "isl (fst delegated_cast) = False" by code_simp+
  then have "delegated_cast = (Inr (projr (fst delegated_cast)), snd delegated_cast)"
    by (cases "fst delegated_cast") (auto simp: prod_eq_iff)
  from vote_needs_authority [OF this [unfolded delegated_cast_def]] v \<open>db_requests delegated_db \<noteq> []\<close>
  show ?thesis by simp
qed

subsection \<open>Escalation\<close>

lemma sweep_frame:
  "db_policies (sweep_one now db s) = db_policies db" "db_policies_readable (sweep_one now db s) = db_policies_readable db"
  by (simp_all add: sweep_one_def Let_def SetApprovalState_upd)

lemma foldl_sweep_frame:
  "db_policies (foldl (sweep_one now) db L) = db_policies db \<and>
   db_policies_readable (foldl (sweep_one now) db L) = db_policies_readable db"
  by (induction L arbitrary: db) (simp_all add: sweep_frame)

lemma sweep_one_other:
  "s \<in> set (db_requests db) \<Longrightarrow> aq_ID s \<noteq> aq_ID r \<Longrightarrow> s \<in> set (db_requests (sweep_one now db r))"
  by (simp add: sweep_one_def Let_def SetApprovalState_upd upd_req_other del: upd_req_simps)

lemma foldl_sweep_other:
  "s \<in> set (db_requests db) \<Longrightarrow> aq_ID s \<notin> aq_ID ` set L \<Longrightarrow> s \<in> set (db_requests (foldl (sweep_one now) db L))"
  by (induction L arbitrary: db) (auto intro: sweep_one_other)

definition sweep_row :: "int \<Rightarrow> ApprovalPolicy \<Rightarrow> ApprovalRequest \<Rightarrow> ApprovalRequest" where
  "sweep_row now policy r =
     (if \<not> aq_Escalated r \<and> ap_FallbackGroupName policy \<noteq> ''''
      then set_state ApprovalEscalated None None True (ap_FallbackGroupName policy) r
      else set_state ApprovalExpired (Some now) None (aq_Escalated r) (aq_GroupName r) r)"

text \<open>What a sweep makes of one overdue row, whatever the other rows are.\<close>

lemma sweepApprovals_row:
  assumes ok: "db_ok db" and r: "r \<in> set (ExpiredApprovalRequests db now)"
  shows "sweep_row now (policyFor db (aq_Action r)) r \<in> set (db_requests (sweepApprovals now db))"
proof -
  obtain xs ys where L: "ExpiredApprovalRequests db now = xs @ r # ys" using r by (auto simp: in_set_conv_decomp)
  have "distinct (map aq_ID (ExpiredApprovalRequests db now))"
    using ids_filter [OF ok] by (simp add: ExpiredApprovalRequests_def)
  then have ids: "aq_ID r \<notin> aq_ID ` set xs" "aq_ID r \<notin> aq_ID ` set ys" by (auto simp: L)
  define db1 where "db1 = foldl (sweep_one now) db xs"
  have "r \<in> set (db_requests db)" using r by (simp add: ExpiredApprovalRequests_def)
  then have r1: "r \<in> set (db_requests db1)" unfolding db1_def using ids(1) by (rule foldl_sweep_other)
  have pol: "policyFor db1 a = policyFor db a" for a
    unfolding db1_def by (rule policyFor_frame) (simp_all add: foldl_sweep_frame)
  have "sweep_row now (policyFor db (aq_Action r)) r \<in> set (db_requests (sweep_one now db1 r))"
    using r1 by (auto simp: sweep_one_def sweep_row_def Let_def pol SetApprovalState_upd intro!: image_eqI [of _ _ r])
  then have "sweep_row now (policyFor db (aq_Action r)) r \<in> set (db_requests (foldl (sweep_one now) (sweep_one now db1 r) ys))"
    by (rule foldl_sweep_other) (use ids(2) in \<open>simp add: sweep_row_def\<close>)
  then show ?thesis by (simp add: sweepApprovals_def L db1_def)
qed

text \<open>
  C20: Escalation gives the reserve group no time of its own. A request handed over to the reserve group
  keeps the deadline that has just passed, so the very next sweep, at any later moment, closes it as
  expired with the votes it had.
\<close>

theorem escalation_expires_next_sweep:
  assumes "r \<in> set (db_requests (approval_run empty_db evs))"
    and "aq_State r = ApprovalPending" and "\<not> aq_Escalated r" and "aq_ExpiresAt r \<le> now" and "now \<le> now'"
    and "ap_FallbackGroupName (policyFor (approval_run empty_db evs) (aq_Action r)) \<noteq> ''''"
  shows "\<exists>s \<in> set (db_requests (sweepApprovals now (approval_run empty_db evs))).
           aq_ID s = aq_ID r \<and> aq_State s = ApprovalEscalated \<and> aq_ExpiresAt s = aq_ExpiresAt r \<and>
         (\<exists>t \<in> set (db_requests (sweepApprovals now' (sweepApprovals now (approval_run empty_db evs)))).
           aq_ID t = aq_ID r \<and> aq_State t = ApprovalExpired \<and> aq_Votes t = aq_Votes r)"
proof -
  let ?db = "approval_run empty_db evs"
  let ?s = "sweep_row now (policyFor ?db (aq_Action r)) r"
  have ok: "db_ok ?db" by (rule reachable_ok)
  have ok1: "db_ok (sweepApprovals now ?db)" using sweepApprovals_safe [OF ok] by (simp add: safe_step_def)
  have s: "?s \<in> set (db_requests (sweepApprovals now ?db))"
    using assms by (intro sweepApprovals_row [OF ok]) (simp add: ExpiredApprovalRequests_def)
  have f: "aq_ID ?s = aq_ID r" "aq_State ?s = ApprovalEscalated" "aq_ExpiresAt ?s = aq_ExpiresAt r"
    "aq_Escalated ?s" "aq_Votes ?s = aq_Votes r" using assms by (simp_all add: sweep_row_def)
  have t: "sweep_row now' (policyFor (sweepApprovals now ?db) (aq_Action ?s)) ?s
      \<in> set (db_requests (sweepApprovals now' (sweepApprovals now ?db)))"
    using assms s f by (intro sweepApprovals_row [OF ok1]) (simp add: ExpiredApprovalRequests_def)
  show ?thesis
    using f by (intro bexI [OF _ s] bexI [OF _ t] conjI) (simp_all add: sweep_row_def)
qed

definition escalation_events :: "(int \<times> approval_event) list" where
  "escalation_events = [(0, sample_groups),
     (0, EvPolicy \<lparr>pp_Action = GuardStorageDelete, pp_Level = LevelQuorum, pp_Quorum = 2, pp_GroupName = '''',
        pp_FallbackGroupName = ''reserve'', pp_TimeoutHours = 1, pp_VetoWindowHours = 0\<rparr>),
     (0, EvGuard sample_call)]"

theorem escalation_expires_next_sweep_witness:
  "\<exists>t \<in> set (db_requests (sweepApprovals (hours 1 + 60) (sweepApprovals (hours 1) (approval_run empty_db escalation_events)))).
     aq_ID t = ''r1'' \<and> aq_State t = ApprovalExpired"
proof -
  let ?db = "approval_run empty_db escalation_events"
  let ?r = "hd (db_requests ?db)"
  have "db_requests ?db \<noteq> []" "aq_State ?r = ApprovalPending" "\<not> aq_Escalated ?r" "aq_ExpiresAt ?r \<le> hours 1"
    "aq_ID ?r = ''r1''" "ap_FallbackGroupName (policyFor ?db (aq_Action ?r)) \<noteq> ''''" "hours 1 \<le> hours 1 + 60"
    by code_simp+
  then show ?thesis
    using escalation_expires_next_sweep [of ?r escalation_events "hours 1" "hours 1 + 60"] by auto
qed

end
