(* ===== verification/DiskCopy.thy ===== *)
theory DiskCopy
  imports ChainReader
begin

text \<open>
  Copying a disk from the image server into a repository object (\<open>internal/backup/diskcopy.go\<close>, with
  the calls of \<open>internal/imageio/client.go\<close> it makes): the map of extents, the choice of chunks, batched
  reads with retries, reopening of a lost transfer, the detour through the engine's proxy, and the
  writes.

  Everything outside the process is a state \<open>'w\<close> that the calls pass on: \<open>tr_cancelled\<close> is whether the
  context is cancelled, \<open>tr_now\<close> the clock in nanoseconds, \<open>tr_sleep\<close> a pause that says whether the
  context ended it, and the \<open>tr_get\<close> fields are the HTTP requests. A client of the image server is
  a value of the type \<open>'c\<close>. Texts of errors are kept only where the code looks at them; progress
  callbacks do not influence the copy.
\<close>

section \<open>The image client\<close>

datatype io_error = HttpError int string | Cancelled | PathError string | OtherError string

fun contains :: "string \<Rightarrow> string \<Rightarrow> bool" where
  "contains sub [] \<longleftrightarrow> sub = []"
| "contains sub (c # cs) \<longleftrightarrow> take (length sub) (c # cs) = sub \<or> contains sub cs"

text \<open>Lower case of a letter; bodies of the image server's errors are ASCII, so the Unicode cases of
  \<open>strings.ToLower\<close> do not arise.\<close>

definition to_lower :: "char \<Rightarrow> char" where
  "to_lower c = (let n = of_char c :: nat in if 65 \<le> n \<and> n \<le> 90 then char_of (n + 32) else c)"

fun IsTicketGone :: "io_error \<Rightarrow> bool" where
  "IsTicketGone (HttpError status body) \<longleftrightarrow> status = 403 \<and> contains ''no such ticket'' (map to_lower body)"
| "IsTicketGone _ \<longleftrightarrow> False"

fun IsNetworkError :: "io_error \<Rightarrow> bool" where
  "IsNetworkError (OtherError _) \<longleftrightarrow> True"
| "IsNetworkError _ \<longleftrightarrow> False"

record Extent =
  ex_Start :: int
  ex_Length :: int
  ex_Zero :: bool
  ex_Hole :: bool
  ex_Dirty :: bool

definition ContextZero :: string where "ContextZero = ''zero''"
definition ContextDirty :: string where "ContextDirty = ''dirty''"

record ('w, 'c) transport =
  tr_cancelled :: "'w \<Rightarrow> bool"
  tr_now :: "'w \<Rightarrow> int"
  tr_sleep :: "int \<Rightarrow> 'w \<Rightarrow> bool \<times> 'w"
  tr_get_map :: "'c \<Rightarrow> string \<Rightarrow> 'w \<Rightarrow> (io_error + int \<times> string \<times> (io_error + Extent list)) \<times> 'w"
  tr_get_range :: "'c \<Rightarrow> int \<Rightarrow> int \<Rightarrow> 'w \<Rightarrow> (io_error + int \<times> bytes \<times> io_error option) \<times> 'w"

definition Extents :: "('w, 'c) transport \<Rightarrow> 'c \<Rightarrow> string \<Rightarrow> 'w \<Rightarrow> (io_error + Extent list) \<times> 'w" where
  "Extents tr c extentContext w =
     (case tr_get_map tr c extentContext w of
        (Inl e, w') \<Rightarrow> (Inl e, w')
      | (Inr (status, body, decoded), w') \<Rightarrow>
          (if status \<noteq> 200 then Inl (HttpError status (take 8192 body)) else decoded, w'))"

definition body_text :: "bytes \<Rightarrow> string" where
  "body_text bs = map (\<lambda>b. char_of (unat b)) (take 8192 bs)"

definition ReadRange :: "('w, 'c) transport \<Rightarrow> 'c \<Rightarrow> int \<Rightarrow> int \<Rightarrow> 'w \<Rightarrow> (io_error + bytes) \<times> 'w" where
  "ReadRange tr c offset len w =
     (if len \<le> 0 then (Inr [], w)
      else case tr_get_range tr c offset len w of
        (Inl e, w') \<Rightarrow> (Inl e, w')
      | (Inr (status, body, err), w') \<Rightarrow>
          (if status \<noteq> 206 \<and> status \<noteq> 200 then Inl (HttpError status (body_text body))
           else case err of
                  Some e \<Rightarrow> Inl e
                | None \<Rightarrow> if int (length body) \<noteq> len then Inl (OtherError ''short body'') else Inr body, w'))"

section \<open>Parameters, result and state\<close>

definition seconds :: "int \<Rightarrow> int" where "seconds n = n * 1000000000"

definition maxReadBatch :: int where "maxReadBatch = 32 * 1024 * 1024"
definition extentsRetryDelay :: int where "extentsRetryDelay = seconds 10"
definition directRetryWindow :: int where "directRetryWindow = seconds 60"
definition networkRetryWindow :: int where "networkRetryWindow = seconds 300"
definition maxReopens :: int where "maxReopens = 3"

text \<open>\<open>p_feed\<close> is what a write of a chunk meets: the random bytes for its nonce and the pipe.\<close>

record ('w, 'c) copyParams =
  p_Source :: 'c
  p_ChunkSize :: int
  p_VirtualSize :: int
  p_ExtentContext :: string
  p_RangeRetries :: int
  p_Pacer :: "int \<Rightarrow> 'w \<Rightarrow> io_error option \<times> 'w"
  p_Reopen :: "(io_error \<Rightarrow> 'w \<Rightarrow> (string + 'c) \<times> 'w) option"
  p_Alternate :: "('w \<Rightarrow> 'c option \<times> 'w) option"
  p_Keepalive :: "('w \<Rightarrow> 'w) option"
  p_Compare :: "(int \<Rightarrow> bytes \<Rightarrow> 'w \<Rightarrow> (string + bool) \<times> 'w) option"
  p_lib :: complib
  p_feed :: "'w \<Rightarrow> (bytes option \<times> pipe_write) \<times> 'w"

text \<open>The reasons \<open>MapUnavailable\<close> and \<open>ViaProxy\<close> are texts of errors, which are never empty.\<close>

record copyResult =
  cr_LogicalBytes :: int
  cr_ReadBytes :: int
  cr_ChunkCount :: int
  cr_MapUnavailable :: "io_error option"
  cr_Reopens :: int
  cr_ViaProxy :: "io_error option"
  cr_GridChunks :: int

record ('w, 'c) copy_state =
  cp_src :: 'c
  cp_res :: copyResult
  cp_writer :: DiskWriter
  cp_world :: 'w
  cp_lastKeepalive :: int

datatype copy_error =
    NoChunkSize
  | CopyIO io_error
  | ReopenFailed io_error string
  | MapFailed string io_error
  | CompareFailed string
  | CopyWriter writer_error
  | CopyPanic

section \<open>Reading with retries\<close>

definition retry_delay :: "nat \<Rightarrow> int" where
  "retry_delay attempt = min (seconds (2 ^ min (attempt - 1) 5)) (seconds 30)"

text \<open>
  Nothing in the loop itself bounds the attempts after a network error, so it is a partial function;
  \<open>None\<close> is a loop that does not end.
\<close>

partial_function (option) read_attempts ::
  "('w, 'c) transport \<Rightarrow> 'c \<Rightarrow> int \<Rightarrow> int \<Rightarrow> int \<Rightarrow> int \<Rightarrow> nat \<Rightarrow> int \<Rightarrow> 'w \<Rightarrow> ((io_error + bytes) \<times> 'w) option" where
  "read_attempts tr c offset len retries deadline attempt httpFailures w =
     (let (stopped, w1) = (if attempt > 0 then tr_sleep tr (retry_delay attempt) w else (False, w)) in
      if stopped then Some (Inl Cancelled, w1)
      else case ReadRange tr c offset len w1 of
             (Inr buf, w2) \<Rightarrow> Some (Inr buf, w2)
           | (Inl e, w2) \<Rightarrow>
               if tr_cancelled tr w2 then Some (Inl Cancelled, w2)
               else if IsTicketGone e then Some (Inl e, w2)
               else if IsNetworkError e then
                 (if tr_now tr w2 > deadline then Some (Inl e, w2)
                  else read_attempts tr c offset len retries deadline (attempt + 1) httpFailures w2)
               else if httpFailures + 1 > retries then Some (Inl e, w2)
               else read_attempts tr c offset len retries deadline (attempt + 1) (httpFailures + 1) w2)"

declare read_attempts.simps [code]

definition readWithRetry ::
  "('w, 'c) transport \<Rightarrow> 'c \<Rightarrow> int \<Rightarrow> int \<Rightarrow> int \<Rightarrow> int \<Rightarrow> 'w \<Rightarrow> ((io_error + bytes) \<times> 'w) option" where
  "readWithRetry tr c offset len retries window w =
     read_attempts tr c offset len (if retries < 0 then 0 else retries) (tr_now tr w + window) 0 0 w"

section \<open>Changing the source\<close>

definition toProxy :: "('w, 'c) copyParams \<Rightarrow> io_error \<Rightarrow> ('w, 'c) copy_state \<Rightarrow> bool \<times> ('w, 'c) copy_state" where
  "toProxy p cause st =
     (case p_Alternate p of
        None \<Rightarrow> (False, st)
      | Some alternate \<Rightarrow>
          if cr_ViaProxy (cp_res st) \<noteq> None \<or> \<not> IsNetworkError cause then (False, st)
          else case alternate (cp_world st) of
                 (None, w) \<Rightarrow> (False, st\<lparr>cp_world := w\<rparr>)
               | (Some alt, w) \<Rightarrow>
                   (True, st\<lparr>cp_world := w, cp_src := alt,
                             cp_res := (cp_res st)\<lparr>cr_ViaProxy := Some cause\<rparr>\<rparr>))"

definition reopen :: "('w, 'c) copyParams \<Rightarrow> io_error \<Rightarrow> ('w, 'c) copy_state \<Rightarrow> copy_error option \<times> ('w, 'c) copy_state" where
  "reopen p cause st =
     (case p_Reopen p of
        None \<Rightarrow> (Some (CopyIO cause), st)
      | Some again \<Rightarrow>
          if \<not> IsTicketGone cause \<or> cr_Reopens (cp_res st) \<ge> maxReopens then (Some (CopyIO cause), st)
          else case again cause (cp_world st) of
                 (Inl e, w) \<Rightarrow> (Some (ReopenFailed cause e), st\<lparr>cp_world := w\<rparr>)
               | (Inr src, w) \<Rightarrow>
                   let st1 = st\<lparr>cp_world := w, cp_src := src,
                                cp_res := (cp_res st)\<lparr>cr_Reopens := cr_Reopens (cp_res st) + 1\<rparr>\<rparr>
                   in case p_Alternate p of
                        None \<Rightarrow> (None, st1)
                      | Some alternate \<Rightarrow>
                          if cr_ViaProxy (cp_res st1) = None then (None, st1)
                          else case alternate w of
                                 (None, w') \<Rightarrow> (None, st1\<lparr>cp_world := w'\<rparr>)
                               | (Some alt, w') \<Rightarrow> (None, st1\<lparr>cp_world := w', cp_src := alt\<rparr>))"

definition retry_window :: "('w, 'c) copyParams \<Rightarrow> ('w, 'c) copy_state \<Rightarrow> int" where
  "retry_window p st =
     (if p_Alternate p \<noteq> None \<and> cr_ViaProxy (cp_res st) = None then directRetryWindow else networkRetryWindow)"

text \<open>What is left of the budget of detours: it shrinks with each reopened transfer and the proxy.\<close>

definition detours :: "('w, 'c) copy_state \<Rightarrow> nat" where
  "detours st = nat (maxReopens - cr_Reopens (cp_res st)) + (if cr_ViaProxy (cp_res st) = None then 1 else 0)"

lemma detours_world [simp]: "detours (st\<lparr>cp_world := w\<rparr>) = detours st"
  by (simp add: detours_def)

lemma toProxy_detours: "toProxy p cause st = (True, st') \<Longrightarrow> detours st' < detours st"
  by (auto simp: toProxy_def detours_def split: option.splits prod.splits if_splits)

lemma reopen_detours: "reopen p cause st = (None, st') \<Longrightarrow> detours st' < detours st"
  by (auto simp: reopen_def detours_def Let_def split: option.splits prod.splits if_splits sum.splits)

section \<open>The map of extents\<close>

definition ask_map :: "('w, 'c) transport \<Rightarrow> ('w, 'c) copyParams \<Rightarrow> ('w, 'c) copy_state \<Rightarrow>
   (io_error + Extent list) \<times> ('w, 'c) copy_state" where
  "ask_map tr p st =
     (case Extents tr (cp_src st) (p_ExtentContext p) (cp_world st) of (r, w) \<Rightarrow> (r, st\<lparr>cp_world := w\<rparr>))"

lemma ask_map_res: "ask_map tr p st = (r, st') \<Longrightarrow> cp_res st' = cp_res st"
  by (auto simp: ask_map_def split: prod.splits)

lemma ask_map_detours: "detours (snd (ask_map tr p st)) = detours st"
  by (simp add: ask_map_def split_beta)

text \<open>One detour of the request for the map: a new transfer for a lost one, the proxy otherwise.\<close>

definition map_detour :: "('w, 'c) copyParams \<Rightarrow> io_error \<Rightarrow> ('w, 'c) copy_state \<Rightarrow> bool \<times> ('w, 'c) copy_state" where
  "map_detour p e st =
     (if IsTicketGone e then (case reopen p e st of (err, st1) \<Rightarrow> (err = None, st1)) else toProxy p e st)"

lemma map_detour_less: "map_detour p e st = (True, st') \<Longrightarrow> detours st' < detours st"
  using reopen_detours toProxy_detours by (fastforce simp: map_detour_def split: prod.splits if_splits)

text \<open>\<open>r\<close> is the outcome of the last request.\<close>

function map_loop :: "('w, 'c) transport \<Rightarrow> ('w, 'c) copyParams \<Rightarrow> io_error + Extent list \<Rightarrow> ('w, 'c) copy_state \<Rightarrow>
   (io_error + Extent list) \<times> ('w, 'c) copy_state" where
  "map_loop tr p (Inr x) st = (Inr x, st)"
| "map_loop tr p (Inl e) st =
     (if tr_cancelled tr (cp_world st) then (Inl e, st)
      else case map_detour p e st of
             (False, st1) \<Rightarrow> (Inl e, st1)
           | (True, st1) \<Rightarrow> (case ask_map tr p st1 of (r', st2) \<Rightarrow> map_loop tr p r' st2))"
  by pat_completeness auto
termination
  by (relation "measure (\<lambda>(tr, p, r, st). detours st)")
     (auto simp: split_beta ask_map_detours dest!: map_detour_less [OF sym])

declare map_loop.simps(2) [simp del]

definition whole_disk :: "('w, 'c) copyParams \<Rightarrow> bool \<Rightarrow> Extent list" where
  "whole_disk p dirty = [\<lparr>ex_Start = 0, ex_Length = p_VirtualSize p, ex_Zero = False, ex_Hole = False, ex_Dirty = dirty\<rparr>]"

text \<open>The extents to copy and whether zero chunks are left out.\<close>

definition get_extents :: "('w, 'c) transport \<Rightarrow> ('w, 'c) copyParams \<Rightarrow> ('w, 'c) copy_state \<Rightarrow>
   (copy_error + Extent list \<times> bool) \<times> ('w, 'c) copy_state" where
  "get_extents tr p st =
     (if p_Compare p \<noteq> None then (Inr (whole_disk p True, False), st)
      else let (r1, st1) = (case ask_map tr p st of (r, s) \<Rightarrow> map_loop tr p r s) in
        case r1 of
          Inr extents \<Rightarrow> (Inr (extents, False), st1)
        | Inl e1 \<Rightarrow>
            let (stopped, r2, st2) =
              (if tr_cancelled tr (cp_world st1) then (False, Inl e1, st1)
               else case tr_sleep tr extentsRetryDelay (cp_world st1) of
                      (True, w) \<Rightarrow> (True, Inl Cancelled, st1\<lparr>cp_world := w\<rparr>)
                    | (False, w) \<Rightarrow> (case ask_map tr p (st1\<lparr>cp_world := w\<rparr>) of (r, s) \<Rightarrow> (False, r, s)))
            in if stopped then (Inl (CopyIO Cancelled), st2)
               else case r2 of
                      Inr extents \<Rightarrow> (Inr (extents, False), st2)
                    | Inl e2 \<Rightarrow>
                        if p_ExtentContext p = ContextDirty \<or> tr_cancelled tr (cp_world st2)
                        then (Inl (MapFailed (p_ExtentContext p) e2), st2)
                        else (Inr (whole_disk p False, True),
                              st2\<lparr>cp_res := (cp_res st2)\<lparr>cr_MapUnavailable := Some e2\<rparr>\<rparr>))"

definition extent_wanted :: "string \<Rightarrow> Extent \<Rightarrow> bool" where
  "extent_wanted extentContext e \<longleftrightarrow>
     \<not> ex_Length e \<le> 0 \<and>
     (if extentContext = ContextDirty then ex_Dirty e else \<not> (ex_Zero e \<or> ex_Hole e))"

definition selectChunks :: "Extent list \<Rightarrow> string \<Rightarrow> int \<Rightarrow> int \<Rightarrow> int list option" where
  "selectChunks extents extentContext chunkSize virtualSize =
     (case NewChunkSelector chunkSize virtualSize of
        None \<Rightarrow> None
      | Some selector \<Rightarrow>
          Some (Indices (foldl (\<lambda>s e. if extent_wanted extentContext e then Add s (ex_Start e) (ex_Length e) else s)
             selector extents)))"

definition groupChunks :: "int list \<Rightarrow> int \<Rightarrow> int \<Rightarrow> ChunkGroup list" where
  "groupChunks indices chunkSize virtualSize = GroupChunks indices chunkSize virtualSize maxReadBatch"

section \<open>The copy\<close>

function read_group :: "('w, 'c) transport \<Rightarrow> ('w, 'c) copyParams \<Rightarrow> ChunkGroup \<Rightarrow> ('w, 'c) copy_state \<Rightarrow>
   ((copy_error + bytes) \<times> ('w, 'c) copy_state) option" where
  "read_group tr p g st =
     (case readWithRetry tr (cp_src st) (g_Offset g) (g_Length g) (p_RangeRetries p) (retry_window p st) (cp_world st) of
        None \<Rightarrow> None
      | Some (Inr buf, w) \<Rightarrow> Some (Inr buf, st\<lparr>cp_world := w\<rparr>)
      | Some (Inl e, w) \<Rightarrow>
          let st1 = st\<lparr>cp_world := w\<rparr> in
          if tr_cancelled tr w then Some (Inl (CopyIO Cancelled), st1)
          else if IsTicketGone e then
            (case reopen p e st1 of
               (Some err, st2) \<Rightarrow> Some (Inl err, st2)
             | (None, st2) \<Rightarrow> read_group tr p g st2)
          else case toProxy p e st1 of
                 (False, st2) \<Rightarrow> Some (Inl (CopyIO e), st2)
               | (True, st2) \<Rightarrow> read_group tr p g st2)"
  by pat_completeness auto
termination
  by (relation "measure (\<lambda>(tr, p, g, st). detours st)")
     (auto dest!: reopen_detours [OF sym] toProxy_detours [OF sym] simp: detours_world)

declare read_group.simps [simp del]

definition allZero :: "bytes \<Rightarrow> bool" where
  "allZero buf = list_all (\<lambda>b. b = 0) buf"

definition write_chunk :: "('w, 'c) copyParams \<Rightarrow> int \<Rightarrow> bytes \<Rightarrow> ('w, 'c) copy_state \<Rightarrow>
   (copy_error + unit) \<times> ('w, 'c) copy_state" where
  "write_chunk p index chunk st =
     (case p_feed p (cp_world st) of
        ((nonce, pipe), w) \<Rightarrow>
          (case WriteChunk (p_lib p) (cp_writer st) index chunk nonce pipe of
             (Inl e, wr) \<Rightarrow> (Inl (CopyWriter e), st\<lparr>cp_world := w, cp_writer := wr\<rparr>)
           | (Inr _, wr) \<Rightarrow>
               (Inr (), st\<lparr>cp_world := w, cp_writer := wr,
                   cp_res := (cp_res st)\<lparr>cr_LogicalBytes := wrap64 (cr_LogicalBytes (cp_res st) + int (length chunk)),
                                          cr_ChunkCount := cr_ChunkCount (cp_res st) + 1\<rparr>\<rparr>)))"

text \<open>The chunks of one batch as (index, start, length); a slice outside the buffer panics.\<close>

fun copy_chunks :: "('w, 'c) copyParams \<Rightarrow> bool \<Rightarrow> int \<Rightarrow> bytes \<Rightarrow> (int \<times> int \<times> int) list \<Rightarrow> ('w, 'c) copy_state \<Rightarrow>
   (copy_error + unit) \<times> ('w, 'c) copy_state" where
  "copy_chunks p skipZero offset buf [] st = (Inr (), st)"
| "copy_chunks p skipZero offset buf ((index, start, len) # cs) st =
     (let from = start - offset in
      if from < 0 \<or> len < 0 \<or> from + len > int (length buf) then (Inl CopyPanic, st)
      else let chunk = slice buf from len;
               (keep, st1) =
                 (case p_Compare p of
                    None \<Rightarrow> (Inr True, st)
                  | Some compare \<Rightarrow> (case compare index chunk (cp_world st) of (k, w) \<Rightarrow> (k, st\<lparr>cp_world := w\<rparr>)))
           in case keep of
                Inl e \<Rightarrow> (Inl (CompareFailed e), st1)
              | Inr k \<Rightarrow>
                  if \<not> k \<or> skipZero \<and> allZero chunk then copy_chunks p skipZero offset buf cs st1
                  else (case write_chunk p index chunk st1 of
                          (Inl e, st2) \<Rightarrow> (Inl e, st2)
                        | (Inr _, st2) \<Rightarrow> copy_chunks p skipZero offset buf cs st2))"

definition keep_alive :: "('w, 'c) transport \<Rightarrow> ('w, 'c) copyParams \<Rightarrow> ('w, 'c) copy_state \<Rightarrow> ('w, 'c) copy_state" where
  "keep_alive tr p st =
     (case p_Keepalive p of
        None \<Rightarrow> st
      | Some alive \<Rightarrow>
          if tr_now tr (cp_world st) - cp_lastKeepalive st > seconds 20
          then let w = alive (cp_world st) in st\<lparr>cp_world := w, cp_lastKeepalive := tr_now tr w\<rparr> else st)"

fun copy_groups :: "('w, 'c) transport \<Rightarrow> ('w, 'c) copyParams \<Rightarrow> bool \<Rightarrow> ChunkGroup list \<Rightarrow> ('w, 'c) copy_state \<Rightarrow>
   ((copy_error + unit) \<times> ('w, 'c) copy_state) option" where
  "copy_groups tr p skipZero [] st = Some (Inr (), st)"
| "copy_groups tr p skipZero (g # gs) st =
     (if tr_cancelled tr (cp_world st) then Some (Inl (CopyIO Cancelled), st)
      else case p_Pacer p (g_Length g) (cp_world st) of
        (Some e, w) \<Rightarrow> Some (Inl (CopyIO e), st\<lparr>cp_world := w\<rparr>)
      | (None, w) \<Rightarrow>
          (case read_group tr p g (st\<lparr>cp_world := w\<rparr>) of
             None \<Rightarrow> None
           | Some (Inl e, st1) \<Rightarrow> Some (Inl e, st1)
           | Some (Inr buf, st1) \<Rightarrow>
               (case copy_chunks p skipZero (g_Offset g) buf
                       (zip (g_Indices g) (zip (g_Starts g) (g_Lengths g)))
                       (st1\<lparr>cp_res := (cp_res st1)\<lparr>cr_ReadBytes := wrap64 (cr_ReadBytes (cp_res st1) + g_Length g)\<rparr>\<rparr>) of
                  (Inl e, st2) \<Rightarrow> Some (Inl e, st2)
                | (Inr _, st2) \<Rightarrow> copy_groups tr p skipZero gs (keep_alive tr p st2))))"

definition start_state :: "('w, 'c) transport \<Rightarrow> ('w, 'c) copyParams \<Rightarrow> DiskWriter \<Rightarrow> 'w \<Rightarrow> ('w, 'c) copy_state" where
  "start_state tr p writer w =
     \<lparr>cp_src = p_Source p,
      cp_res = \<lparr>cr_LogicalBytes = 0, cr_ReadBytes = 0, cr_ChunkCount = 0, cr_MapUnavailable = None,
                cr_Reopens = 0, cr_ViaProxy = None, cr_GridChunks = 0\<rparr>,
      cp_writer = writer, cp_world = w, cp_lastKeepalive = 0\<rparr>"

definition copyDisk :: "('w, 'c) transport \<Rightarrow> ('w, 'c) copyParams \<Rightarrow> DiskWriter \<Rightarrow> 'w \<Rightarrow>
   ((copy_error + unit) \<times> ('w, 'c) copy_state) option" where
  "copyDisk tr p writer w =
     (let st = start_state tr p writer w in
      if p_ChunkSize p \<le> 0 then Some (Inl NoChunkSize, st)
      else let grid = go_div (wrap64 (wrap64 (p_VirtualSize p + p_ChunkSize p) - 1)) (p_ChunkSize p);
               st0 = st\<lparr>cp_res := (cp_res st)\<lparr>cr_GridChunks := grid\<rparr>\<rparr>
           in case get_extents tr p st0 of
                (Inl e, st1) \<Rightarrow> Some (Inl e, st1)
              | (Inr (extents, skipZero), st1) \<Rightarrow>
                  (case selectChunks extents (p_ExtentContext p) (p_ChunkSize p) (p_VirtualSize p) of
                     None \<Rightarrow> Some (Inl CopyPanic, st1)
                   | Some wanted \<Rightarrow>
                       if wanted = [] then Some (Inr (), st1)
                       else copy_groups tr p skipZero (groupChunks (sort wanted) (p_ChunkSize p) (p_VirtualSize p))
                              (st1\<lparr>cp_lastKeepalive := tr_now tr (cp_world st1)\<rparr>)))"

section \<open>The copy returns\<close>

text \<open>What is assumed of the clock: a pause the context does not cut short lasts, and a request does
  not turn the clock back.\<close>

definition clock_ok :: "('w, 'c) transport \<Rightarrow> bool" where
  "clock_ok tr \<longleftrightarrow>
     (\<forall>d w. fst (tr_sleep tr d w) \<or> tr_now tr w + d \<le> tr_now tr (snd (tr_sleep tr d w))) \<and>
     (\<forall>c off len w. tr_now tr w \<le> tr_now tr (snd (tr_get_range tr c off len w)))"

lemma ReadRange_clock: "clock_ok tr \<Longrightarrow> tr_now tr w \<le> tr_now tr (snd (ReadRange tr c off len w))"
  by (auto simp: clock_ok_def ReadRange_def split: prod.splits sum.splits if_splits option.splits)
     (metis order.trans snd_conv order_refl)+

lemma retry_delay_pos: "0 < attempt \<Longrightarrow> 0 < retry_delay attempt"
  by (simp add: retry_delay_def seconds_def)

definition attempts_left :: "('w, 'c) transport \<Rightarrow> int \<Rightarrow> int \<Rightarrow> nat \<Rightarrow> int \<Rightarrow> 'w \<Rightarrow> nat" where
  "attempts_left tr retries deadline attempt hf w =
     nat (retries + 1 - hf) + nat (deadline + 1 - tr_now tr w) + (if attempt = 0 then 1 else 0)"

lemma read_attempts_returns:
  assumes clock: "clock_ok tr"
  shows "\<exists>x. read_attempts tr c off len retries deadline attempt hf w = Some x"
proof (induction "attempts_left tr retries deadline attempt hf w" arbitrary: attempt hf w rule: less_induct)
  case less
  define sl where "sl = (if attempt > 0 then tr_sleep tr (retry_delay attempt) w else (False, w))"
  define w1 where "w1 = snd sl"
  define rr where "rr = ReadRange tr c off len w1"
  define w2 where "w2 = snd rr"
  have t: "tr_now tr w \<le> tr_now tr w2 \<and> (attempt > 0 \<longrightarrow> tr_now tr w < tr_now tr w2)" if "\<not> fst sl"
  proof -
    have "tr_now tr w1 \<le> tr_now tr w2" unfolding w2_def rr_def by (rule ReadRange_clock [OF clock])
    moreover have "tr_now tr w + retry_delay attempt \<le> tr_now tr w1" if "attempt > 0"
      using clock that \<open>\<not> fst sl\<close> unfolding clock_ok_def sl_def w1_def by auto
    moreover have "attempt = 0 \<Longrightarrow> w1 = w" by (simp add: w1_def sl_def)
    ultimately show ?thesis using retry_delay_pos [of attempt] by (cases "attempt = 0") auto
  qed
  have unfold: "read_attempts tr c off len retries deadline attempt hf w =
      (if fst sl then Some (Inl Cancelled, w1)
       else case fst rr of
             Inr buf \<Rightarrow> Some (Inr buf, w2)
           | Inl e \<Rightarrow>
               if tr_cancelled tr w2 then Some (Inl Cancelled, w2)
               else if IsTicketGone e then Some (Inl e, w2)
               else if IsNetworkError e then
                 (if tr_now tr w2 > deadline then Some (Inl e, w2)
                  else read_attempts tr c off len retries deadline (attempt + 1) hf w2)
               else if hf + 1 > retries then Some (Inl e, w2)
               else read_attempts tr c off len retries deadline (attempt + 1) (hf + 1) w2)"
    by (subst read_attempts.simps)
       (simp add: sl_def [symmetric] w1_def rr_def w2_def Let_def split_beta split: sum.splits)
  have net: "attempts_left tr retries deadline (attempt + 1) hf w2 < attempts_left tr retries deadline attempt hf w"
    if "\<not> fst sl" "\<not> tr_now tr w2 > deadline"
    using t [OF that(1)] that(2) by (cases "attempt = 0") (auto simp: attempts_left_def)
  have http: "attempts_left tr retries deadline (attempt + 1) (hf + 1) w2 < attempts_left tr retries deadline attempt hf w"
    if "\<not> fst sl" "\<not> hf + 1 > retries"
    using t [OF that(1)] that(2) by (cases "attempt = 0") (auto simp: attempts_left_def)
  show ?case
    unfolding unfold using less [OF net] less [OF http] by (auto split: sum.splits)
qed

lemma readWithRetry_returns: "clock_ok tr \<Longrightarrow> \<exists>x. readWithRetry tr c off len retries window w = Some x"
  unfolding readWithRetry_def by (rule read_attempts_returns)

lemma read_group_returns: "clock_ok tr \<Longrightarrow> \<exists>x. read_group tr p g st = Some x"
proof (induction tr p g st rule: read_group.induct)
  case (1 tr p g st)
  obtain r w where rw: "readWithRetry tr (cp_src st) (g_Offset g) (g_Length g) (p_RangeRetries p) (retry_window p st)
      (cp_world st) = Some (r, w)"
    using readWithRetry_returns [OF "1.prems"] by fastforce
  show ?case
  proof (cases r)
    case (Inr buf)
    then show ?thesis by (subst read_group.simps) (simp add: rw)
  next
    case (Inl e)
    have IH1: "\<exists>x. read_group tr p g st2 = Some x"
      if "\<not> tr_cancelled tr w" "IsTicketGone e" "reopen p e (st\<lparr>cp_world := w\<rparr>) = (None, st2)" for st2
      using "1.IH"(1) [OF rw refl] Inl that "1.prems" by simp
    have IH2: "\<exists>x. read_group tr p g st2 = Some x"
      if "\<not> tr_cancelled tr w" "\<not> IsTicketGone e" "toProxy p e (st\<lparr>cp_world := w\<rparr>) = (True, st2)" for st2
      using "1.IH"(2) [OF rw refl] Inl that "1.prems" by simp
    show ?thesis
      by (subst read_group.simps)
         (auto simp: rw Inl Let_def split: prod.splits option.splits bool.splits dest: IH1 IH2)
  qed
qed

lemma copy_groups_returns: "clock_ok tr \<Longrightarrow> \<exists>x. copy_groups tr p z gs st = Some x"
proof (induction gs arbitrary: st)
  case (Cons g gs)
  show ?case
    using Cons.IH [OF Cons.prems] read_group_returns [OF Cons.prems, of p g]
    by (auto split: prod.splits option.splits sum.splits) (metis option.distinct(1))+
qed simp

section \<open>What the copy reads and writes\<close>

lemma read_attempts_reads:
  assumes "read_attempts tr c off len retries deadline attempt hf w = Some (Inr buf, w')"
  shows "\<exists>w1. ReadRange tr c off len w1 = (Inr buf, w')"
proof -
  have "\<forall>buf w'. y = (Inr buf, w') \<longrightarrow> (\<exists>w1. ReadRange tr c off len w1 = (Inr buf, w'))"
    if "read_attempts tr c off len retries deadline attempt hf w = Some y" for y
  proof (rule read_attempts.raw_induct
      [where P = "\<lambda>tr c off len retries deadline attempt hf w y. \<forall>buf w'. y = (Inr buf, w') \<longrightarrow>
        (\<exists>w1. ReadRange tr c off len w1 = (Inr buf, w'))", OF _ that], goal_cases)
    case (1 f tr c off len retries deadline attempt hf w y)
    show ?case
      using 1(2) by (auto simp: Let_def dest: 1(1) split: prod.splits if_splits sum.splits)
  qed
  with assms show ?thesis by blast
qed

lemma toProxy_writer: "toProxy p e st = (b, st') \<Longrightarrow> cp_writer st' = cp_writer st"
  by (auto simp: toProxy_def split: option.splits prod.splits if_splits)

lemma reopen_writer: "reopen p e st = (b, st') \<Longrightarrow> cp_writer st' = cp_writer st"
  by (auto simp: reopen_def Let_def split: option.splits prod.splits if_splits sum.splits)

lemma read_group_reads:
  "read_group tr p g st = Some (r, st') \<Longrightarrow>
     cp_writer st' = cp_writer st \<and>
     (\<forall>buf. r = Inr buf \<longrightarrow> (\<exists>c w w'. ReadRange tr c (g_Offset g) (g_Length g) w = (Inr buf, w')))"
proof (induction tr p g st rule: read_group.induct)
  case (1 tr p g st)
  obtain r0 w where rw: "readWithRetry tr (cp_src st) (g_Offset g) (g_Length g) (p_RangeRetries p) (retry_window p st)
      (cp_world st) = Some (r0, w)"
    using "1.prems" by (subst (asm) read_group.simps) (auto split: option.splits)
  show ?case
  proof (cases r0)
    case (Inr buf)
    then have "r = Inr buf" "cp_writer st' = cp_writer st"
      using "1.prems" by (subst (asm) read_group.simps; auto simp: rw)+
    moreover obtain w1 where "ReadRange tr (cp_src st) (g_Offset g) (g_Length g) w1 = (Inr buf, w)"
      using read_attempts_reads [OF rw [unfolded readWithRetry_def Inr]] by blast
    ultimately show ?thesis by blast
  next
    case (Inl e)
    let ?st1 = "st\<lparr>cp_world := w\<rparr>"
    have body: "(if tr_cancelled tr w then Some (Inl (CopyIO Cancelled), ?st1)
          else if IsTicketGone e then
            (case reopen p e ?st1 of
               (Some err, st2) \<Rightarrow> Some (Inl err, st2)
             | (None, st2) \<Rightarrow> read_group tr p g st2)
          else case toProxy p e ?st1 of
                 (False, st2) \<Rightarrow> Some (Inl (CopyIO e), st2)
               | (True, st2) \<Rightarrow> read_group tr p g st2) = Some (r, st')"
      using "1.prems" by (subst (asm) read_group.simps) (simp add: rw Inl Let_def)
    have IH1: "read_group tr p g st2 = Some (r, st') \<Longrightarrow> ?thesis"
      if "\<not> tr_cancelled tr w" "IsTicketGone e" "reopen p e ?st1 = (None, st2)" for st2
      using "1.IH"(1) [OF rw refl] Inl that reopen_writer [OF that(3)] by simp
    have IH2: "read_group tr p g st2 = Some (r, st') \<Longrightarrow> ?thesis"
      if "\<not> tr_cancelled tr w" "\<not> IsTicketGone e" "toProxy p e ?st1 = (True, st2)" for st2
      using "1.IH"(2) [OF rw refl] Inl that toProxy_writer [OF that(3)] by simp
    show ?thesis
    proof (cases "tr_cancelled tr w")
      case True
      then show ?thesis using body by auto
    next
      case live: False
      show ?thesis
      proof (cases "IsTicketGone e")
        case True
        obtain err st2 where re: "reopen p e ?st1 = (err, st2)" by (cases "reopen p e ?st1")
        show ?thesis
        proof (cases err)
          case None
          then show ?thesis using IH1 [OF live True] re body live True by simp
        next
          case (Some x)
          then show ?thesis using re body live True reopen_writer [OF re] by auto
        qed
      next
        case False
        obtain b st2 where tp: "toProxy p e ?st1 = (b, st2)" by (cases "toProxy p e ?st1")
        show ?thesis
        proof (cases b)
          case True
          then show ?thesis using IH2 [OF live False] tp body live False by simp
        next
          case no: False
          then show ?thesis using tp body live False toProxy_writer [OF tp] by auto
        qed
      qed
    qed
  qed
qed

lemma write_all_append:
  "write_all lib w xs = (Inr (), w1) \<Longrightarrow> write_all lib w (xs @ ys) = write_all lib w1 ys"
  by (induction xs arbitrary: w) (auto split: prod.splits sum.splits)

text \<open>A chunk that is not written was equal to the parent's or, without a map, all zero.\<close>

definition left_out :: "('w, 'c) copyParams \<Rightarrow> bool \<Rightarrow> int \<Rightarrow> bytes \<Rightarrow> bool" where
  "left_out p skipZero i chunk \<longleftrightarrow>
     (\<exists>cmp w w'. p_Compare p = Some cmp \<and> cmp i chunk w = (Inr False, w')) \<or> skipZero \<and> allZero chunk"

definition written :: "write_req list \<Rightarrow> int \<Rightarrow> bytes \<Rightarrow> bool" where
  "written qs i chunk \<longleftrightarrow> (\<exists>q \<in> set qs. wr_index q = i \<and> wr_plain q = chunk)"

text \<open>
  The writes \<open>qs\<close> account for the pieces \<open>cs\<close>, pairs of an index and its bytes: each piece is written
  or left out for a reason, and nothing else is written.
\<close>

definition accounts :: "('w, 'c) copyParams \<Rightarrow> bool \<Rightarrow> (int \<times> bytes) list \<Rightarrow> write_req list \<Rightarrow> bool" where
  "accounts p skipZero cs qs \<longleftrightarrow>
     length qs \<le> length cs \<and>
     (\<forall>q \<in> set qs. (wr_index q, wr_plain q) \<in> set cs \<and> (\<exists>w. fst (p_feed p w) = (wr_nonce q, wr_pipe q))) \<and>
     (\<forall>(i, chunk) \<in> set cs. written qs i chunk \<or> left_out p skipZero i chunk)"

lemma accounts_Nil: "accounts p z [] []"
  by (simp add: accounts_def)

lemma accounts_append:
  "accounts p z cs qs \<Longrightarrow> accounts p z cs' qs' \<Longrightarrow> accounts p z (cs @ cs') (qs @ qs')"
  by (fastforce simp: accounts_def written_def)

lemma write_chunk_trace:
  assumes "write_chunk p i chunk st = (Inr (), st')"
  shows "\<exists>q. write_all (p_lib p) (cp_writer st) [q] = (Inr (), cp_writer st') \<and> accounts p z [(i, chunk)] [q]"
proof -
  obtain nonce pipe w where f: "p_feed p (cp_world st) = ((nonce, pipe), w)" by (metis surj_pair)
  define q where "q = \<lparr>wr_index = i, wr_plain = chunk, wr_nonce = nonce, wr_pipe = pipe\<rparr>"
  have "write_all (p_lib p) (cp_writer st) [q] = (Inr (), cp_writer st')"
    using assms f by (auto simp: write_chunk_def q_def split: prod.splits sum.splits)
  moreover have "accounts p z [(i, chunk)] [q]"
    using f by (auto simp: accounts_def written_def q_def intro!: exI [of _ "cp_world st"])
  ultimately show ?thesis by blast
qed

lemma accounts_left: "left_out p z i chunk \<Longrightarrow> accounts p z [(i, chunk)] []"
  by (simp add: accounts_def)

lemma copy_chunks_trace:
  assumes "copy_chunks p z off buf cs st = (Inr (), st')"
  shows "\<exists>qs. write_all (p_lib p) (cp_writer st) qs = (Inr (), cp_writer st') \<and>
     accounts p z (map (\<lambda>(i, s, l). (i, slice buf (s - off) l)) cs) qs"
  using assms
proof (induction cs arbitrary: st)
  case Nil
  then show ?case by (auto intro!: exI [of _ "[]"] accounts_Nil)
next
  case (Cons c cs)
  obtain i s l where c: "c = (i, s, l)" by (metis prod_cases3)
  let ?chunk = "slice buf (s - off) l"
  have rng: "\<not> (s - off < 0 \<or> l < 0 \<or> s - off + l > int (length buf))"
    using Cons.prems by (auto simp: c Let_def split: if_splits)
  define ks where "ks = (case p_Compare p of
                    None \<Rightarrow> (Inr True, st)
                  | Some compare \<Rightarrow> (case compare i ?chunk (cp_world st) of (k, w) \<Rightarrow> (k, st\<lparr>cp_world := w\<rparr>)))"
  obtain keep st1 where k: "ks = (keep, st1)" by (cases ks)
  have wr: "cp_writer st1 = cp_writer st"
    using k by (auto simp: ks_def split: option.splits prod.splits)
  have body: "(case keep of
                Inl e \<Rightarrow> (Inl (CompareFailed e), st1)
              | Inr k \<Rightarrow>
                  if \<not> k \<or> z \<and> allZero ?chunk then copy_chunks p z off buf cs st1
                  else (case write_chunk p i ?chunk st1 of
                          (Inl e, st2) \<Rightarrow> (Inl e, st2)
                        | (Inr _, st2) \<Rightarrow> copy_chunks p z off buf cs st2)) = (Inr (), st')"
    using Cons.prems rng by (simp add: c Let_def ks_def [symmetric] k)
  then obtain kp where kp: "keep = Inr kp" by (cases keep) auto
  show ?case
  proof (cases "\<not> kp \<or> z \<and> allZero ?chunk")
    case True
    have "left_out p z i ?chunk"
      using True k kp by (auto simp: left_out_def ks_def split: option.splits prod.splits)
    moreover obtain qs where "write_all (p_lib p) (cp_writer st1) qs = (Inr (), cp_writer st')"
        "accounts p z (map (\<lambda>(i, s, l). (i, slice buf (s - off) l)) cs) qs"
      using Cons.IH [of st1] body kp True by auto
    ultimately show ?thesis
      using accounts_append [OF accounts_left] wr by (auto simp: c intro!: exI [of _ qs])
  next
    case False
    obtain r2 st2 where w: "write_chunk p i ?chunk st1 = (r2, st2)" by (cases "write_chunk p i ?chunk st1")
    then have r2: "r2 = Inr ()" and rest: "copy_chunks p z off buf cs st2 = (Inr (), st')"
      using body kp False by (auto split: sum.splits)
    obtain q where q: "write_all (p_lib p) (cp_writer st) [q] = (Inr (), cp_writer st2)"
        "accounts p z [(i, ?chunk)] [q]"
      using write_chunk_trace [of p i ?chunk st1 st2 z] w r2 wr by auto
    obtain qs where qs: "write_all (p_lib p) (cp_writer st2) qs = (Inr (), cp_writer st')"
        "accounts p z (map (\<lambda>(i, s, l). (i, slice buf (s - off) l)) cs) qs"
      using Cons.IH [OF rest] by blast
    show ?thesis
      using write_all_append [OF q(1), of qs] qs(1) accounts_append [OF q(2) qs(2)]
      by (auto simp: c intro!: exI [of _ "q # qs"] simp del: write_all.simps)
  qed
qed

lemma keep_alive_writer [simp]: "cp_writer (keep_alive tr p st) = cp_writer st"
  by (simp add: keep_alive_def Let_def split: option.splits)

section \<open>The copy captures the image\<close>

definition cell :: "int \<Rightarrow> int \<Rightarrow> bytes \<Rightarrow> int \<Rightarrow> bytes" where
  "cell cs vs img i = slice img (i * cs) (ChunkLength i cs vs)"

text \<open>
  The source: \<open>img\<close> is the disk as the transfer exposes it and \<open>old\<close> what the parent chain already
  holds. A complete answer to a range request carries the bytes of \<open>img\<close>; a map of changed blocks marks
  as dirty every place where \<open>img\<close> differs from \<open>old\<close>, any other map shows none of them as zero or as a
  hole; the comparison turns down only chunks
  equal to the parent's. Without a dirty map and without a comparison the parent holds nothing, so \<open>old\<close> is zero.
\<close>

definition honest_reads :: "('w, 'c) transport \<Rightarrow> bytes \<Rightarrow> bool" where
  "honest_reads tr img \<longleftrightarrow>
     (\<forall>c off len w status body w'. tr_get_range tr c off len w = (Inr (status, body, None), w') \<longrightarrow>
        0 \<le> off \<longrightarrow> off + len \<le> int (length img) \<longrightarrow> int (length body) = len \<longrightarrow> status \<in> {200, 206} \<longrightarrow>
        body = slice img off len)"

definition map_covers :: "string \<Rightarrow> bytes \<Rightarrow> bytes \<Rightarrow> Extent list \<Rightarrow> bool" where
  "map_covers extentContext old img extents \<longleftrightarrow>
     (\<forall>e \<in> set extents. in64 (ex_Start e + ex_Length e)) \<and>
     (\<forall>k < length img. old ! k \<noteq> img ! k \<longrightarrow>
        (\<exists>e \<in> set extents. (if extentContext = ContextDirty then ex_Dirty e else \<not> ex_Zero e \<and> \<not> ex_Hole e) \<and>
           ex_Start e \<le> int k \<and> int k < ex_Start e + ex_Length e))"

definition honest_map :: "('w, 'c) transport \<Rightarrow> string \<Rightarrow> bytes \<Rightarrow> bytes \<Rightarrow> bool" where
  "honest_map tr extentContext old img \<longleftrightarrow>
     (\<forall>c w body extents w'. tr_get_map tr c extentContext w = (Inr (200, body, Inr extents), w') \<longrightarrow>
        map_covers extentContext old img extents)"

definition honest_compare :: "('w, 'c) copyParams \<Rightarrow> bytes \<Rightarrow> bool" where
  "honest_compare p old \<longleftrightarrow>
     (\<forall>cmp i chunk w w'. p_Compare p = Some cmp \<longrightarrow> cmp i chunk w = (Inr False, w') \<longrightarrow>
        chunk = cell (p_ChunkSize p) (p_VirtualSize p) old i)"

definition source_ok :: "('w, 'c) transport \<Rightarrow> ('w, 'c) copyParams \<Rightarrow> bytes \<Rightarrow> bytes \<Rightarrow> bool" where
  "source_ok tr p old img \<longleftrightarrow>
     honest_reads tr img \<and> honest_map tr (p_ExtentContext p) old img \<and> honest_compare p old \<and>
     int (length img) = p_VirtualSize p \<and> length old = length img \<and>
     (p_ExtentContext p \<noteq> ContextDirty \<and> p_Compare p = None \<longrightarrow> old = replicate (length img) 0)"

lemma ReadRange_honest:
  assumes "honest_reads tr img" "ReadRange tr c off len w = (Inr buf, w')"
    and "0 \<le> off" "0 < len" "off + len \<le> int (length img)"
  shows "buf = slice img off len"
proof -
  have "\<exists>status. tr_get_range tr c off len w = (Inr (status, buf, None), w') \<and> status \<in> {200, 206} \<and>
      int (length buf) = len"
    using assms(2,4) by (auto simp: ReadRange_def split: prod.splits sum.splits if_splits option.splits)
  with assms(1,3,5) show ?thesis unfolding honest_reads_def by blast
qed

lemma group_pieces:
  assumes wf: "group_wf cs vs mb g" and img: "int (length img) = vs"
  shows "map (\<lambda>(i, s, l). (i, slice (slice img (g_Offset g) (g_Length g)) (s - g_Offset g) l))
           (zip (g_Indices g) (zip (g_Starts g) (g_Lengths g))) =
         map (\<lambda>i. (i, cell cs vs img i)) (g_Indices g)" (is "?l = ?r")
proof (rule nth_equalityI)
  show "length ?l = length ?r" using wf by (simp add: group_wf_def)
  fix j assume "j < length ?l"
  then have j: "j < length (g_Indices g)" using wf by (simp add: group_wf_def)
  have s: "g_Starts g ! j = g_Indices g ! j * cs" "g_Lengths g ! j = ChunkLength (g_Indices g ! j) cs vs"
    "0 < ChunkLength (g_Indices g ! j) cs vs" "0 \<le> g_Offset g"
    "length (g_Starts g) = length (g_Indices g)" "length (g_Lengths g) = length (g_Indices g)"
    using wf j by (auto simp: group_wf_def)
  note b = group_slice_bounds [OF wf j]
  have "slice (slice img (g_Offset g) (g_Length g)) (g_Starts g ! j - g_Offset g) (g_Lengths g ! j) =
      slice img (g_Starts g ! j) (g_Lengths g ! j)"
    using slice_slice [OF s(4) b(1), of "g_Lengths g ! j" "g_Length g" img] b(2) s by simp
  then show "?l ! j = ?r ! j" using j s by (simp add: cell_def)
qed

lemma copy_groups_trace:
  assumes "copy_groups tr p z gs st = Some (Inr (), st')"
    and "honest_reads tr img" "int (length img) = vs" "\<forall>g \<in> set gs. group_wf cs vs mb g"
  shows "\<exists>qs. write_all (p_lib p) (cp_writer st) qs = (Inr (), cp_writer st') \<and>
     accounts p z (map (\<lambda>i. (i, cell cs vs img i)) (concat (map g_Indices gs))) qs"
  using assms(1,4)
proof (induction gs arbitrary: st)
  case Nil
  then show ?case by (auto intro!: exI [of _ "[]"] accounts_Nil)
next
  case (Cons g gs)
  obtain w where w: "p_Pacer p (g_Length g) (cp_world st) = (None, w)"
    using Cons.prems(1) by (auto split: if_splits prod.splits option.splits)
  obtain buf st1 where rg: "read_group tr p g (st\<lparr>cp_world := w\<rparr>) = Some (Inr buf, st1)"
    using Cons.prems(1) w by (auto split: if_splits prod.splits option.splits sum.splits)
  let ?st1 = "st1\<lparr>cp_res := (cp_res st1)\<lparr>cr_ReadBytes := wrap64 (cr_ReadBytes (cp_res st1) + g_Length g)\<rparr>\<rparr>"
  obtain st2 where cc: "copy_chunks p z (g_Offset g) buf (zip (g_Indices g) (zip (g_Starts g) (g_Lengths g))) ?st1 = (Inr (), st2)"
    and rest: "copy_groups tr p z gs (keep_alive tr p st2) = Some (Inr (), st')"
    using Cons.prems(1) w rg by (auto split: if_splits prod.splits option.splits sum.splits)
  note rr = read_group_reads [OF rg]
  have wf: "group_wf cs vs mb g" using Cons.prems(2) by simp
  then have "buf = slice img (g_Offset g) (g_Length g)"
    using rr ReadRange_honest [OF assms(2)] assms(3) by (auto simp: group_wf_def)
  then obtain qs where qs: "write_all (p_lib p) (cp_writer st) qs = (Inr (), cp_writer st2)"
      "accounts p z (map (\<lambda>i. (i, cell cs vs img i)) (g_Indices g)) qs"
    using copy_chunks_trace [OF cc] group_pieces [OF wf assms(3)] rr by auto
  obtain qs' where qs': "write_all (p_lib p) (cp_writer st2) qs' = (Inr (), cp_writer st')"
      "accounts p z (map (\<lambda>i. (i, cell cs vs img i)) (concat (map g_Indices gs))) qs'"
    using Cons.IH [OF rest] Cons.prems(2) by auto
  show ?case
    using write_all_append [OF qs(1), of qs'] qs'(1) accounts_append [OF qs(2) qs'(2)]
    by (auto intro!: exI [of _ "qs @ qs'"])
qed

lemma ask_map_covers:
  assumes "honest_map tr (p_ExtentContext p) old img" "ask_map tr p st = (Inr extents, st')"
  shows "map_covers (p_ExtentContext p) old img extents"
proof -
  have "\<exists>body w'. tr_get_map tr (cp_src st) (p_ExtentContext p) (cp_world st) = (Inr (200, body, Inr extents), w')"
    using assms(2) by (auto simp: ask_map_def Extents_def split: prod.splits sum.splits if_splits)
  with assms(1) show ?thesis unfolding honest_map_def by blast
qed

lemma ask_map_writer: "ask_map tr p st = (r, st') \<Longrightarrow> cp_writer st' = cp_writer st"
  by (auto simp: ask_map_def split: prod.splits)

lemma map_detour_writer: "map_detour p e st = (b, st') \<Longrightarrow> cp_writer st' = cp_writer st"
  using reopen_writer toProxy_writer by (fastforce simp: map_detour_def split: prod.splits if_splits)

lemma map_loop_result:
  assumes "honest_map tr (p_ExtentContext p) old img"
  shows "map_loop tr p r st = (r', st') \<Longrightarrow> (\<And>x. r = Inr x \<Longrightarrow> map_covers (p_ExtentContext p) old img x) \<Longrightarrow>
     cp_writer st' = cp_writer st \<and> (\<forall>x. r' = Inr x \<longrightarrow> map_covers (p_ExtentContext p) old img x)"
  using assms
proof (induction tr p r st rule: map_loop.induct)
  case (1 tr p x st)
  then show ?case by auto
next
  case (2 tr p e st)
  obtain b st1 where d: "map_detour p e st = (b, st1)" by (cases "map_detour p e st")
  obtain r2 st2 where a: "ask_map tr p st1 = (r2, st2)" by (cases "ask_map tr p st1")
  show ?case
  proof (cases "tr_cancelled tr (cp_world st) \<or> \<not> b")
    case True
    then show ?thesis
      using "2.prems"(1) d map_detour_writer [OF d]
      by (subst (asm) map_loop.simps) (auto split: if_splits bool.splits)
  next
    case False
    have rec: "map_loop tr p r2 st2 = (r', st')"
      using "2.prems"(1) d a False by (subst (asm) map_loop.simps) (auto split: if_splits)
    have "cp_writer st' = cp_writer st2 \<and> (\<forall>x. r' = Inr x \<longrightarrow> map_covers (p_ExtentContext p) old img x)"
    proof (rule "2.IH" [OF _ d [symmetric] _ a [symmetric] rec])
      show "map_covers (p_ExtentContext p) old img x" if "r2 = Inr x" for x
        using ask_map_covers [OF "2.prems"(3)] a that by blast
    qed (use False "2.prems"(3) in auto)
    then show ?thesis using map_detour_writer [OF d] ask_map_writer [OF a] by simp
  qed
qed

lemma whole_disk_covers:
  assumes "int (length img) = p_VirtualSize p" "in64 (p_VirtualSize p)"
    and "p_ExtentContext p = ContextDirty \<longrightarrow> dirty"
  shows "map_covers (p_ExtentContext p) old img (whole_disk p dirty)"
  using assms by (auto simp: map_covers_def whole_disk_def extent_wanted_def)

lemma get_extents_covers:
  assumes ok: "source_ok tr p old img" and vs: "in64 (p_VirtualSize p)"
    and ge: "get_extents tr p st = (Inr (extents, z), st')"
  shows "cp_writer st' = cp_writer st \<and> map_covers (p_ExtentContext p) old img extents \<and>
     (z \<longrightarrow> old = replicate (length img) 0)"
proof (cases "p_Compare p")
  case (Some cmp)
  then show ?thesis
    using ge ok vs whole_disk_covers [of img p True old] by (auto simp: get_extents_def source_ok_def)
next
  case None
  have hm: "honest_map tr (p_ExtentContext p) old img" using ok by (simp add: source_ok_def)
  obtain r0 st0 where a0: "ask_map tr p st = (r0, st0)" by (cases "ask_map tr p st")
  obtain r1 st1 where l: "map_loop tr p r0 st0 = (r1, st1)" by (cases "map_loop tr p r0 st0")
  have one: "cp_writer st1 = cp_writer st \<and> (\<forall>x. r1 = Inr x \<longrightarrow> map_covers (p_ExtentContext p) old img x)"
    using map_loop_result [OF hm l] ask_map_covers [OF hm, of st] a0 ask_map_writer [OF a0] by auto
  show ?thesis
  proof (cases r1)
    case (Inr x)
    then show ?thesis using ge None a0 l one by (auto simp: get_extents_def)
  next
    case (Inl e1)
    define k where "k = (if tr_cancelled tr (cp_world st1) then (False, Inl e1, st1)
               else case tr_sleep tr extentsRetryDelay (cp_world st1) of
                      (True, w) \<Rightarrow> (True, Inl Cancelled, st1\<lparr>cp_world := w\<rparr>)
                    | (False, w) \<Rightarrow> (case ask_map tr p (st1\<lparr>cp_world := w\<rparr>) of (r, s) \<Rightarrow> (False, r, s)))"
    obtain stopped r2 st2 where kk: "k = (stopped, r2, st2)" by (cases k)
    have two: "cp_writer st2 = cp_writer st1 \<and> (\<forall>x. r2 = Inr x \<longrightarrow> map_covers (p_ExtentContext p) old img x)"
      using kk ask_map_covers [OF hm] ask_map_writer
      by (fastforce simp: k_def split: if_splits prod.splits bool.splits)
    have "(if stopped then (Inl (CopyIO Cancelled), st2)
               else case r2 of
                      Inr extents \<Rightarrow> (Inr (extents, False), st2)
                    | Inl e2 \<Rightarrow>
                        if p_ExtentContext p = ContextDirty \<or> tr_cancelled tr (cp_world st2)
                        then (Inl (MapFailed (p_ExtentContext p) e2), st2)
                        else (Inr (whole_disk p False, True),
                              st2\<lparr>cp_res := (cp_res st2)\<lparr>cr_MapUnavailable := Some e2\<rparr>\<rparr>)) = (Inr (extents, z), st')"
      using ge None a0 l Inl by (simp add: get_extents_def k_def [symmetric] kk)
    then show ?thesis
      using one two ok None vs whole_disk_covers [of img p False old]
      by (auto simp: source_ok_def split: if_splits sum.splits)
  qed
qed

lemma foldl_filter_add:
  "foldl (\<lambda>s e. if P e then Add s (f e) (g e) else s) sel es = add_ranges sel (map (\<lambda>e. (f e, g e)) (filter P es))"
  by (induction es arbitrary: sel) auto

text \<open>A cell that is not selected holds the same bytes in both images.\<close>

lemma unselected_same:
  assumes ok: "grid_ok cs vs" and sel: "selectChunks extents ctx cs vs = Some wanted"
    and cov: "map_covers ctx old img extents" and len: "int (length img) = vs" "length old = length img"
    and i: "0 \<le> i" "i * cs < vs" "i \<notin> set wanted"
  shows "cell cs vs img i = cell cs vs old i"
proof -
  obtain s where s: "NewChunkSelector cs vs = Some s" using sel by (auto simp: selectChunks_def split: option.splits)
  let ?rs = "map (\<lambda>e. (ex_Start e, ex_Length e)) (filter (extent_wanted ctx) extents)"
  have w: "wanted = Indices (add_ranges s ?rs)"
    using sel s by (simp add: selectChunks_def foldl_filter_add)
  have "set wanted = (\<Union>r \<in> set ?rs. cell_of cs ` covered_bytes vs r)"
    unfolding w using cov by (intro selected_cells [OF ok s]) (auto simp: map_covers_def)
  note set_w = this
  have pos: "0 < cs" using ok by (simp add: grid_ok_def)
  have ix: "index_ok cs i" using ok i by (auto simp: index_ok_def grid_ok_def)
  have same: "old ! k = img ! k" if k: "int k div cs = i" "k < length img" for k
  proof (rule ccontr)
    assume "old ! k \<noteq> img ! k"
    then obtain e where e: "e \<in> set extents" "ex_Start e \<le> int k" "int k < ex_Start e + ex_Length e"
      and flags: "if ctx = ContextDirty then ex_Dirty e else \<not> ex_Zero e \<and> \<not> ex_Hole e"
      using cov k unfolding map_covers_def by blast
    have wanted: "extent_wanted ctx e" using flags e by (simp add: extent_wanted_def)
    from e have "i \<in> cell_of cs ` covered_bytes vs (ex_Start e, ex_Length e)"
      using k len by (auto simp: cell_of_def covered_bytes_def intro!: image_eqI [of _ _ "int k"])
    then show False using i(3) e wanted unfolding set_w by auto
  qed
  have lenb: "i * cs + ChunkLength i cs vs \<le> vs" "0 < ChunkLength i cs vs" "ChunkLength i cs vs \<le> cs"
    using ChunkLength_bounds [OF ok ix] i by auto
  show ?thesis
    unfolding cell_def slice_def
  proof (rule nth_equalityI)
    show "length (take (nat (ChunkLength i cs vs)) (drop (nat (i * cs)) img)) =
        length (take (nat (ChunkLength i cs vs)) (drop (nat (i * cs)) old))" using len by simp
    fix j assume "j < length (take (nat (ChunkLength i cs vs)) (drop (nat (i * cs)) img))"
    then have j: "int j < ChunkLength i cs vs" "nat (i * cs) + j < length img" by auto
    have ics: "0 \<le> i * cs" using i pos by simp
    have "int (nat (i * cs) + j) div cs = i"
    proof -
      have "int (nat (i * cs) + j) = int j + i * cs" using ics by simp
      moreover have "int j div cs = 0" using j lenb by (simp add: div_pos_pos_trivial)
      ultimately show ?thesis using pos by simp
    qed
    from same [OF this j(2)] show "take (nat (ChunkLength i cs vs)) (drop (nat (i * cs)) img) ! j =
        take (nat (ChunkLength i cs vs)) (drop (nat (i * cs)) old) ! j" using j len by simp
  qed
qed

lemma selectChunks_range:
  assumes ok: "grid_ok cs vs" and sel: "selectChunks extents ctx cs vs = Some wanted"
    and rng: "\<forall>e \<in> set extents. in64 (ex_Start e + ex_Length e)"
  shows "(\<forall>i \<in> set wanted. 0 \<le> i \<and> i * cs < vs \<and> index_ok cs i) \<and> int (length wanted) \<le> grid_cells cs vs"
proof -
  obtain s where s: "NewChunkSelector cs vs = Some s" using sel by (auto simp: selectChunks_def split: option.splits)
  let ?rs = "map (\<lambda>e. (ex_Start e, ex_Length e)) (filter (extent_wanted ctx) extents)"
  have w: "wanted = Indices (add_ranges s ?rs)"
    using sel s by (simp add: selectChunks_def foldl_filter_add)
  have set_w: "set wanted = (\<Union>r \<in> set ?rs. cell_of cs ` covered_bytes vs r)"
    unfolding w using rng by (intro selected_cells [OF ok s]) auto
  have pos: "0 < cs" using ok by (simp add: grid_ok_def)
  have in_grid: "0 \<le> i \<and> i * cs < vs" if iw: "i \<in> set wanted" for i
  proof -
    obtain b where b: "0 \<le> b" "b < vs" "i = b div cs"
      using iw unfolding set_w by (auto simp: cell_of_def covered_bytes_def)
    then have "i * cs \<le> b" using pos by (simp add: minus_mod_eq_div_mult [symmetric])
    then show ?thesis using b pos by (simp add: pos_imp_zdiv_nonneg_iff)
  qed
  then have "set wanted \<subseteq> {0..<grid_cells cs vs}" using grid_cells_iff [OF pos] by auto
  then have "card (set wanted) \<le> nat (grid_cells cs vs)" by (metis card_atLeastLessThan_int card_mono diff_zero finite_atLeastLessThan_int)
  moreover have "distinct wanted" using Indices_sorted [of "add_ranges s ?rs"] unfolding w
    by (simp add: strict_sorted_iff)
  ultimately have "int (length wanted) \<le> grid_cells cs vs"
    using grid_cells_nonneg [OF ok] by (simp add: distinct_card [symmetric])
  moreover have "index_ok cs i" if "i \<in> set wanted" for i
    using in_grid [OF that] ok by (simp add: index_ok_def grid_ok_def)
  ultimately show ?thesis using in_grid by blast
qed

lemma left_out_same:
  assumes ok: "source_ok tr p old img" and z: "z \<longrightarrow> old = replicate (length img) 0"
    and g: "grid_ok (p_ChunkSize p) (p_VirtualSize p)" "index_ok (p_ChunkSize p) i" "i * p_ChunkSize p < p_VirtualSize p"
    and lo: "left_out p z i (cell (p_ChunkSize p) (p_VirtualSize p) img i)"
  shows "cell (p_ChunkSize p) (p_VirtualSize p) img i = cell (p_ChunkSize p) (p_VirtualSize p) old i"
  using lo unfolding left_out_def
proof
  assume "\<exists>cmp w w'. p_Compare p = Some cmp \<and>
    cmp i (cell (p_ChunkSize p) (p_VirtualSize p) img i) w = (Inr False, w')"
  then show ?thesis using ok unfolding source_ok_def honest_compare_def by blast
next
  let ?c = "cell (p_ChunkSize p) (p_VirtualSize p) img i"
  assume "z \<and> allZero ?c"
  then have "old = replicate (length img) 0" and a: "\<forall>b \<in> set ?c. b = 0" using z by (auto simp: allZero_def list_all_iff)
  then have "cell (p_ChunkSize p) (p_VirtualSize p) old i = replicate (length ?c) 0"
    by (simp add: cell_def slice_def)
  moreover have "?c = replicate (length ?c) 0" using a by (metis replicate_eqI)
  ultimately show ?thesis by simp
qed

text \<open>What a copy that ends well has done, whatever detours it took.\<close>

definition captured :: "('w, 'c) copyParams \<Rightarrow> bytes \<Rightarrow> bytes \<Rightarrow> write_req list \<Rightarrow> bool" where
  "captured p old img qs \<longleftrightarrow>
     (let cs = p_ChunkSize p; vs = p_VirtualSize p in
      int (length qs) \<le> grid_cells cs vs \<and>
      (\<forall>q \<in> set qs. 0 \<le> wr_index q \<and> wr_index q * cs < vs \<and> wr_plain q = cell cs vs img (wr_index q) \<and>
         (\<exists>w. fst (p_feed p w) = (wr_nonce q, wr_pipe q))) \<and>
      (\<forall>i. 0 \<le> i \<longrightarrow> i * cs < vs \<longrightarrow> written qs i (cell cs vs img i) \<or> cell cs vs img i = cell cs vs old i))"

lemma copyDisk_captures:
  assumes run: "copyDisk tr p wr w = Some (Inr (), st')"
    and ok: "source_ok tr p old img" and g: "grid_ok (p_ChunkSize p) (p_VirtualSize p)"
  shows "\<exists>qs. write_all (p_lib p) wr qs = (Inr (), cp_writer st') \<and> captured p old img qs"
proof -
  define cs where "cs = p_ChunkSize p"
  define vs where "vs = p_VirtualSize p"
  have g': "grid_ok cs vs" using g by (simp add: cs_def vs_def)
  have len: "int (length img) = vs" "length old = length img" using ok by (simp_all add: source_ok_def vs_def)
  define st0 where "st0 = (start_state tr p wr w)\<lparr>cp_res := (cp_res (start_state tr p wr w))\<lparr>cr_GridChunks :=
      go_div (wrap64 (wrap64 (vs + cs) - 1)) cs\<rparr>\<rparr>"
  obtain extents z st1 where ge: "get_extents tr p st0 = (Inr (extents, z), st1)"
    using run g unfolding copyDisk_def Let_def grid_ok_def st0_def [unfolded cs_def vs_def, symmetric]
    by (auto split: prod.splits sum.splits)
  obtain wanted where sel: "selectChunks extents (p_ExtentContext p) cs vs = Some wanted"
    using run g ge unfolding copyDisk_def Let_def grid_ok_def st0_def [unfolded cs_def vs_def, symmetric] cs_def vs_def
    by (auto split: option.splits)
  have body: "(if wanted = [] then Some (Inr (), st1)
       else copy_groups tr p z (groupChunks (sort wanted) cs vs)
              (st1\<lparr>cp_lastKeepalive := tr_now tr (cp_world st1)\<rparr>)) = Some (Inr (), st')"
    using run g ge sel unfolding copyDisk_def Let_def grid_ok_def st0_def [unfolded cs_def vs_def, symmetric] cs_def vs_def
    by auto
  have "in64 (p_VirtualSize p)" using g by (auto simp: grid_ok_def in64_def)
  note cov = get_extents_covers [OF ok this ge]
  note rng = selectChunks_range [OF g' sel]
  have rng': "(\<forall>i \<in> set wanted. 0 \<le> i \<and> i * cs < vs \<and> index_ok cs i)" "int (length wanted) \<le> grid_cells cs vs"
    using rng cov by (auto simp: map_covers_def)
  have wr: "cp_writer st1 = wr" using cov by (simp add: st0_def start_state_def)
  obtain qs where qs: "write_all (p_lib p) wr qs = (Inr (), cp_writer st')"
    "accounts p z (map (\<lambda>i. (i, cell cs vs img i)) (sort wanted)) qs"
  proof (cases "wanted = []")
    case True
    then show thesis using body wr that [of "[]"] accounts_Nil by auto
  next
    case False
    have "honest_reads tr img" using ok by (simp add: source_ok_def)
    moreover have gc: "(\<forall>g \<in> set (groupChunks (sort wanted) cs vs). group_wf cs vs (batch_limit maxReadBatch) g) \<and>
        concat (map g_Indices (groupChunks (sort wanted) cs vs)) = filter (\<lambda>i. 0 < ChunkLength i cs vs) (sort (sort wanted))"
      unfolding groupChunks_def using rng' by (intro GroupChunks_correct [OF g']) auto
    moreover have "filter (\<lambda>i. 0 < ChunkLength i cs vs) (sort (sort wanted)) = sort wanted"
      using rng'(1) ChunkLength_bounds(3) [OF g'] by (auto simp: filter_id_conv sort_key_id_if_sorted)
    ultimately show thesis
      using copy_groups_trace [of tr p z "groupChunks (sort wanted) cs vs" _ st' img vs cs "batch_limit maxReadBatch"]
        body False wr len that by fastforce
  qed
  have "written qs i (cell cs vs img i) \<or> cell cs vs img i = cell cs vs old i" if i: "0 \<le> i" "i * cs < vs" for i
  proof (cases "i \<in> set wanted")
    case True
    then have "written qs i (cell cs vs img i) \<or> left_out p z i (cell cs vs img i)"
      using qs(2) by (fastforce simp: accounts_def)
    moreover have "index_ok cs i" using True rng' by blast
    ultimately show ?thesis
      using left_out_same [OF ok, of z i] cov g i(2) unfolding cs_def vs_def by blast
  next
    case False
    then show ?thesis using unselected_same [OF g' sel _ len i] cov by blast
  qed
  moreover have "length qs \<le> length wanted" using qs(2) by (auto simp: accounts_def)
  ultimately have "captured p old img qs"
    using qs(2) rng' unfolding captured_def Let_def cs_def [symmetric] vs_def [symmetric]
    by (auto simp: accounts_def)
  with qs(1) show ?thesis by blast
qed

section \<open>Guarantees\<close>

text \<open>A source that answers at once: its state is the clock.\<close>

definition toy_transport :: "bytes \<Rightarrow> Extent list \<Rightarrow> (int, unit) transport" where
  "toy_transport img extents =
     \<lparr>tr_cancelled = \<lambda>_. False, tr_now = \<lambda>w. w, tr_sleep = \<lambda>d w. (False, w + d),
      tr_get_map = \<lambda>_ _ w. (Inr (200, '''', Inr extents), w),
      tr_get_range = \<lambda>_ off len w. (Inr (206, slice img off len, None), w + 1)\<rparr>"

definition toy_params :: "int \<Rightarrow> int \<Rightarrow> string \<Rightarrow> (int, unit) copyParams" where
  "toy_params cs vs ctx =
     \<lparr>p_Source = (), p_ChunkSize = cs, p_VirtualSize = vs, p_ExtentContext = ctx, p_RangeRetries = 2,
      p_Pacer = \<lambda>_ w. (None, w), p_Reopen = None, p_Alternate = None, p_Keepalive = None, p_Compare = None,
      p_lib = toy_lib, p_feed = \<lambda>w. ((Some (replicate 12 7), PipeTaken), w)\<rparr>"

definition data_extent :: "int \<Rightarrow> int \<Rightarrow> Extent" where
  "data_extent start len = \<lparr>ex_Start = start, ex_Length = len, ex_Zero = False, ex_Hole = False, ex_Dirty = True\<rparr>"

lemma toy_clock: "clock_ok (toy_transport img extents)"
  by (simp add: clock_ok_def toy_transport_def)

text \<open>
  C21: a copy returns. With a clock that advances while the code pauses and never runs backwards, copying
  a disk ends with a result or an error whatever the source answers: the retries of a read, the
  reopened transfers and the detour through the proxy are bounded.
\<close>

theorem copy_returns:
  assumes "clock_ok tr"
  shows "\<exists>r st. copyDisk tr p writer w = Some (r, st)"
proof -
  have "\<exists>x. copyDisk tr p writer w = Some x"
    using copy_groups_returns [OF assms]
    by (auto simp: copyDisk_def Let_def split: prod.splits sum.splits option.splits)
  then show ?thesis by auto
qed

theorem copy_returns_witness:
  "\<exists>r st. copyDisk (toy_transport [1, 2, 3] []) (toy_params 2 3 ContextZero) sample_w0 0 = Some (r, st)"
  by (rule copy_returns [OF toy_clock])

end
