(* ===== verification/BackupRestore.thy ===== *)
theory BackupRestore
  imports DiskCopy
begin

text \<open>
  Backup and restore together: a disk is copied through the writer (\<open>copyDisk\<close>, \<open>Close\<close>), the manifest
  is appended to its chain, and the chain is opened and streamed. The images a chain stands for are
  compared cell by cell.
\<close>

section \<open>Chains that stand for an image\<close>

definition represents :: "int \<Rightarrow> int \<Rightarrow> (int \<rightharpoonup> bytes) list \<Rightarrow> bytes \<Rightarrow> bool" where
  "represents cs vs pms img \<longleftrightarrow>
     int (length img) = vs \<and>
     (\<forall>i. 0 \<le> i \<longrightarrow> i * cs < vs \<longrightarrow>
        (case resolve pms i of Some b \<Rightarrow> b | None \<Rightarrow> replicate (nat (ChunkLength i cs vs)) 0) = cell cs vs img i)"

lemma representsD:
  "represents cs vs pms img \<Longrightarrow> 0 \<le> i \<Longrightarrow> i * cs < vs \<Longrightarrow>
   (case resolve pms i of Some b \<Rightarrow> b | None \<Rightarrow> replicate (nat (ChunkLength i cs vs)) 0) = cell cs vs img i"
  unfolding represents_def by blast

lemma cell_length:
  assumes "grid_ok cs vs" "0 \<le> i" "i * cs < vs" "int (length img) = vs"
  shows "int (length (cell cs vs img i)) = ChunkLength i cs vs" "0 < ChunkLength i cs vs"
proof -
  have ix: "index_ok cs i" using assms by (auto simp: index_ok_def grid_ok_def)
  note b = ChunkLength_bounds [OF assms(1) ix]
  show "0 < ChunkLength i cs vs" using b assms by simp
  have "0 \<le> i * cs" using assms by (simp add: grid_ok_def)
  then show "int (length (cell cs vs img i)) = ChunkLength i cs vs"
    unfolding cell_def using b assms by (intro slice_length) auto
qed

lemma reader_cell_length:
  assumes "grid_ok (cr_chunkSize r) (cr_virtualSize r)" "int k < reader_GridChunks r"
  shows "reader_ChunkLength r (int k) = ChunkLength (int k) (cr_chunkSize r) (cr_virtualSize r)"
proof -
  have "index_ok (cr_chunkSize r) (int k)"
    using reader_cell(1) [OF assms] assms(1) by (auto simp: index_ok_def grid_ok_def)
  then show ?thesis
    using reader_cell(1,3) [OF assms] ChunkLength_eq [OF assms(1)] by simp
qed

text \<open>A represented image is the image the reader streams.\<close>

lemma represents_image:
  assumes g: "grid_ok (cr_chunkSize r) (cr_virtualSize r)"
    and rep: "represents (cr_chunkSize r) (cr_virtualSize r) pms img"
  shows "cells_filled r pms \<and> chain_image r pms = img"
proof -
  let ?cs = "cr_chunkSize r" and ?vs = "cr_virtualSize r"
  have len: "int (length img) = ?vs" using rep by (simp add: represents_def)
  have cell: "cell_bytes r pms k = cell ?cs ?vs img (int k)" if k: "int k < reader_GridChunks r" for k
    using representsD [OF rep _ reader_cell(1) [OF g k]]
    unfolding cell_bytes_def reader_cell_length [OF g k] by simp
  have filled: "cells_filled r pms"
    unfolding cells_filled_def
  proof (intro allI impI)
    fix k b assume "k < nat (reader_GridChunks r)" and b: "resolve pms (int k) = Some b"
    then have k: "int k < reader_GridChunks r" by simp
    have "b = cell ?cs ?vs img (int k)" using cell [OF k] b by (simp add: cell_bytes_def)
    then show "int (length b) = reader_ChunkLength r (int k)"
      using cell_length(1) [OF g _ reader_cell(1) [OF g k] len] reader_cell_length [OF g k] by simp
  qed
  have pre: "int k \<le> reader_GridChunks r \<Longrightarrow> image_prefix r pms k = take (nat (min (int k * ?cs) ?vs)) img" for k
  proof (induction k)
    case 0
    then show ?case using g by (simp add: image_prefix_def grid_ok_def)
  next
    case (Suc k)
    then have k: "int k < reader_GridChunks r" by simp
    have lt: "int k * ?cs < ?vs" and pos: "0 < ?cs" using reader_cell(1) [OF g k] g by (auto simp: grid_ok_def)
    define n where "n = ChunkLength (int k) ?cs ?vs"
    have n: "n = min ?cs (?vs - int k * ?cs)"
      unfolding n_def using reader_cell(3) [OF g k] reader_cell_length [OF g k] by simp
    have "image_prefix r pms (Suc k) = take (nat (int k * ?cs)) img @ take (nat n) (drop (nat (int k * ?cs)) img)"
      using Suc.IH k lt cell [OF k] by (simp add: image_prefix_Suc cell_def slice_def n_def)
    also have "\<dots> = take (nat (int k * ?cs) + nat n) img" by (simp add: take_add)
    also have "nat (int k * ?cs) + nat n = nat (min (int (Suc k) * ?cs) ?vs)"
    proof -
      have "0 \<le> int k * ?cs" "0 \<le> n" using lt pos by (simp_all add: n)
      then have "nat (int k * ?cs) + nat n = nat (int k * ?cs + n)" by linarith
      also have "int k * ?cs + n = min (int (Suc k) * ?cs) ?vs" by (simp add: n min_def algebra_simps)
      finally show ?thesis .
    qed
    finally show ?case .
  qed
  have "0 \<le> reader_GridChunks r" using grid_cells_nonneg [OF g] by (simp add: reader_grid [OF g])
  then obtain x where x: "chain_image r pms = take x img"
    using pre [of "nat (reader_GridChunks r)"] unfolding chain_image_def by auto
  moreover have "length (chain_image r pms) = length img"
    using chain_image_length [OF g filled] len by simp
  ultimately have "chain_image r pms = img" by simp
  then show ?thesis using filled by simp
qed

section \<open>The chunks a copy stored\<close>

definition pm_of :: "write_req list \<Rightarrow> (int \<rightharpoonup> bytes)" where
  "pm_of qs = map_of (map (\<lambda>q. (wr_index q, wr_plain q)) qs)"

lemma pm_of_captured:
  assumes "captured p old img qs"
  shows "pm_of qs i = (if i \<in> wr_index ` set qs then Some (cell (p_ChunkSize p) (p_VirtualSize p) img i) else None)"
proof (cases "i \<in> wr_index ` set qs")
  case True
  then obtain b where b: "pm_of qs i = Some b"
    unfolding pm_of_def by (cases "map_of (map (\<lambda>q. (wr_index q, wr_plain q)) qs) i") (auto simp: map_of_eq_None_iff image_iff)
  then obtain q where "q \<in> set qs" "wr_index q = i" "wr_plain q = b"
    unfolding pm_of_def by (auto dest!: map_of_SomeD)
  then show ?thesis using True assms b by (auto simp: captured_def Let_def)
next
  case False
  then show ?thesis by (auto simp: pm_of_def map_of_eq_None_iff)
qed

text \<open>The new link on top of what the parents hold gives the new image.\<close>

lemma represents_snoc:
  assumes cap: "captured p old img qs" and len: "int (length img) = p_VirtualSize p"
    and rep: "represents (p_ChunkSize p) (p_VirtualSize p) pms old"
  shows "represents (p_ChunkSize p) (p_VirtualSize p) (pms @ [pm_of qs]) img"
  unfolding represents_def
proof (intro conjI allI impI len)
  fix i assume i: "0 \<le> i" "i * p_ChunkSize p < p_VirtualSize p"
  let ?c = "cell (p_ChunkSize p) (p_VirtualSize p)"
  show "(case resolve (pms @ [pm_of qs]) i of Some b \<Rightarrow> b
      | None \<Rightarrow> replicate (nat (ChunkLength i (p_ChunkSize p) (p_VirtualSize p))) 0) = ?c img i"
  proof (cases "i \<in> wr_index ` set qs")
    case True
    then show ?thesis using pm_of_captured [OF cap, of i] by simp
  next
    case False
    then have "\<not> written qs i (?c img i)" by (auto simp: written_def)
    then have "?c img i = ?c old i" using cap i by (auto simp: captured_def Let_def)
    then show ?thesis using False pm_of_captured [OF cap, of i] representsD [OF rep i] by simp
  qed
qed

lemma represents_zero:
  assumes "grid_ok cs vs"
  shows "represents cs vs [] (replicate (nat vs) 0)"
  unfolding represents_def
proof (intro conjI allI impI)
  show "int (length (replicate (nat vs) (0 :: byte))) = vs" using assms by (simp add: grid_ok_def)
  then show "(case resolve [] i of Some b \<Rightarrow> b | None \<Rightarrow> replicate (nat (ChunkLength i cs vs)) 0) =
      cell cs vs (replicate (nat vs) 0) i" if "0 \<le> i" "i * cs < vs" for i
    using cell_length [OF assms that, of "replicate (nat vs) 0"] that by (simp add: cell_def slice_def)
qed

section \<open>The object a copy leaves behind\<close>

text \<open>
  What is assumed of the libraries for chunks of the run's size: they round-trip, every write gets a
  nonce, and an encoded chunk stays below the 32-bit length field.
\<close>

definition storage_ok :: "('w, 'c) copyParams \<Rightarrow> codec \<Rightarrow> bool" where
  "storage_ok p cd \<longleftrightarrow>
     (\<forall>chunk. int (length chunk) \<le> p_ChunkSize p \<longrightarrow> lib_inverts (p_lib p) chunk) \<and>
     (\<forall>w. \<exists>n. fst (fst (p_feed p w)) = Some n \<and> (\<forall>ci. cd_cipher cd = Some ci \<longrightarrow> cipher_inverts ci n)) \<and>
     (\<forall>w chunk stored digest. int (length chunk) \<le> p_ChunkSize p \<longrightarrow>
        encode (p_lib p) cd (fst (fst (p_feed p w))) chunk = Inr (stored, digest) \<longrightarrow> length stored < 2147483648)"

text \<open>Up to \<open>2^31\<close> chunks of less than \<open>2^31\<close> bytes keep every sum below \<open>2^63\<close>.\<close>

definition sizes_ok :: "('w, 'c) copyParams \<Rightarrow> bool" where
  "sizes_ok p \<longleftrightarrow> grid_ok (p_ChunkSize p) (p_VirtualSize p) \<and> p_ChunkSize p < 2147483648 \<and>
     grid_cells (p_ChunkSize p) (p_VirtualSize p) < 4294967296"

lemma fits_all_bounded:
  assumes "\<forall>q \<in> set qs. length (wr_plain q) < 2147483648 \<and>
      (\<forall>stored d. encode lib (dw_codec w) (wr_nonce q) (wr_plain q) = Inr (stored, d) \<longrightarrow> length stored < 2147483648)"
    and "int (length (dw_hashed w)) + int (length qs) * 2147483648 < 9223372036854775808"
    and "0 \<le> dm_LogicalBytes (dw_manifest w)"
    and "dm_LogicalBytes (dw_manifest w) + int (length qs) * 2147483648 < 9223372036854775808"
  shows "fits_all lib w qs \<and>
    int (length (dw_hashed (snd (write_all lib w qs)))) \<le> int (length (dw_hashed w)) + int (length qs) * 2147483648"
  using assms
proof (induction qs arbitrary: w)
  case (Cons q qs)
  obtain r w1 where step: "WriteChunk lib w (wr_index q) (wr_plain q) (wr_nonce q) (wr_pipe q) = (r, w1)"
    by (cases "WriteChunk lib w (wr_index q) (wr_plain q) (wr_nonce q) (wr_pipe q)")
  have codec: "dw_codec w1 = dw_codec w"
    using WriteChunk_codec [of lib w "wr_index q" "wr_plain q" "wr_nonce q" "wr_pipe q"] step by simp
  have grow: "int (length (dw_hashed w1)) \<le> int (length (dw_hashed w)) + 2147483648 \<and>
      0 \<le> dm_LogicalBytes (dw_manifest w1) \<and> dm_LogicalBytes (dw_manifest w1) \<le> dm_LogicalBytes (dw_manifest w) + 2147483648"
    using step
  proof (cases rule: WriteChunk_cases)
    case (stored st dg)
    have "length st < 2147483648" "length (wr_plain q) < 2147483648" using Cons.prems(1) stored by auto
    moreover have "wrap64 (dm_LogicalBytes (dw_manifest w) + int (length (wr_plain q))) =
        dm_LogicalBytes (dw_manifest w) + int (length (wr_plain q))"
      using Cons.prems(3,4) calculation by (intro wrap64_small) auto
    ultimately show ?thesis unfolding stored(7) using Cons.prems(3) by (simp add: append_stored_def Let_def)
  qed (use Cons.prems(3) in simp_all)
  have IH: "fits_all lib w1 qs \<and>
      int (length (dw_hashed (snd (write_all lib w1 qs)))) \<le> int (length (dw_hashed w1)) + int (length qs) * 2147483648"
    by (rule Cons.IH) (use Cons.prems grow codec in \<open>auto simp: algebra_simps\<close>)
  have "write_fits w (wr_plain q) st"
    if "encode lib (dw_codec w) (wr_nonce q) (wr_plain q) = Inr (st, d)" for st d
    using Cons.prems that by (auto simp: write_fits_def algebra_simps)
  then show ?case
    using IH step grow by (auto simp: algebra_simps split: sum.splits)
qed simp

lemma object_holds_of:
  assumes "list_all2 (holds_chunk lib cd blob) (dm_Chunks m) (map wr_plain qs)"
    and "map ch_Index (dm_Chunks m) = map wr_index qs" and "sorted_wrt (<) (map wr_index qs)"
    and "decode lib cd' = decode lib cd"
  shows "object_holds lib cd' blob m (pm_of qs)"
proof -
  have len: "length (dm_Chunks m) = length qs" using assms(2) by (metis length_map)
  have d: "distinct (map wr_index qs)" using assms(3) by (simp add: strict_sorted_iff)
  have "\<exists>b. pm_of qs (ch_Index c) = Some b \<and> holds_chunk lib cd' blob c b" if c: "c \<in> set (dm_Chunks m)" for c
  proof -
    obtain j where j: "j < length qs" "c = dm_Chunks m ! j" using c len by (metis in_set_conv_nth)
    have "ch_Index c = wr_index (qs ! j)" using assms(2) j len by (metis nth_map)
    moreover have "pm_of qs (wr_index (qs ! j)) = Some (wr_plain (qs ! j))"
      unfolding pm_of_def using d j(1) by (intro map_of_is_SomeI) (auto simp: comp_def)
    moreover have "holds_chunk lib cd blob c (wr_plain (qs ! j))"
      using assms(1) j len by (auto simp: list_all2_conv_all_nth)
    then have "holds_chunk lib cd' blob c (wr_plain (qs ! j))" unfolding holds_chunk_def assms(4) .
    ultimately show ?thesis by simp
  qed
  moreover have "dom (pm_of qs) = ch_Index ` set (dm_Chunks m)"
  proof -
    have "dom (pm_of qs) = set (map wr_index qs)" by (simp add: pm_of_def dom_map_of_conv_image_fst image_image)
    then show ?thesis unfolding assms(2) [symmetric] by simp
  qed
  ultimately show ?thesis using d assms(2) by (simp add: object_holds_def)
qed

lemma writer_reader_codec:
  assumes "NewDiskWriter now manifest opts = Inr w0" "dm_Chunks manifest = []" "dm_LogicalBytes manifest = 0"
    and "dm_Compression m = dm_Compression (dw_manifest w0)" "dm_Encrypted m = (wo_Cipher opts \<noteq> None)"
  shows "\<exists>cd. reader_codec (wo_Cipher opts) m = Inr cd \<and> decode lib cd = decode lib (dw_codec w0)"
proof -
  note f = NewDiskWriter_fields [OF assms(1-3), of lib]
  let ?c = "dm_Compression (dw_manifest w0)"
  have w: "newCodec ?c (if wo_Level opts = 0 then 3 else wo_Level opts) (wo_Cipher opts) = Inr (dw_codec w0)"
    using f by simp
  have "?c \<in> set Compressions" using f by (simp add: KnownCompression_iff)
  then obtain cd where cd: "newCodec ?c 3 (wo_Cipher opts) = Inr cd"
    by (auto simp: newCodec_def Compressions_def Let_def)
  have "reader_codec (wo_Cipher opts) m = Inr cd"
    using cd assms(4,5) by (auto simp: reader_codec_def split: option.splits)
  then show ?thesis using decode_level [OF cd w] by blast
qed

lemma load_manifests_succeeds:
  assumes "\<forall>m \<in> set ms. manifest_Validate m = Inr () \<and> (\<exists>cd. reader_codec cipher m = Inr cd) \<and> dm_ChunkSize m = cs"
    and "i \<noteq> 0 \<longrightarrow> cr_chunkSize r = cs"
  shows "\<exists>r'. load_manifests cipher i ms r = Inr r'"
  using assms
proof (induction ms arbitrary: i r)
  case (Cons m ms)
  obtain cd where cd: "reader_codec cipher m = Inr cd" "manifest_Validate m = Inr ()" "dm_ChunkSize m = cs"
    using Cons.prems(1) by auto
  obtain byIndex owner where ac: "add_chunks i (dm_Chunks m) (Map.empty, cr_owner r) = (byIndex, owner)" by force
  let ?r1 = "r\<lparr>cr_chunkSize := (if i = 0 then dm_ChunkSize m else cr_chunkSize r),
               cr_virtualSize := (if dm_VirtualSize m > cr_virtualSize r then dm_VirtualSize m else cr_virtualSize r),
               cr_codecs := cr_codecs r @ [cd], cr_owner := owner, cr_chunkAt := cr_chunkAt r @ [byIndex]\<rparr>"
  have "load_manifests cipher i (m # ms) r = load_manifests cipher (Suc i) ms ?r1"
    using cd Cons.prems(2) ac by (cases "i = 0") simp_all
  moreover have "\<exists>r'. load_manifests cipher (Suc i) ms ?r1 = Inr r'"
    by (rule Cons.IH) (use Cons.prems cd in auto)
  ultimately show ?case by simp
qed simp

lemma NewChainReader_succeeds:
  assumes "EffectiveChain ms0 = ms" "ms0 \<noteq> []"
    and "\<forall>m \<in> set ms. manifest_Validate m = Inr () \<and> (\<exists>cd. reader_codec cipher m = Inr cd) \<and> dm_ChunkSize m = cs"
  shows "\<exists>r. NewChainReader cipher ms0 = Inr r"
  using load_manifests_succeeds [OF assms(3), of 0] assms(1,2)
  by (auto simp: NewChainReader_def Let_def result_simps)

lemma EffectiveChain_snoc_base: "is_base m \<Longrightarrow> ms \<noteq> [] \<Longrightarrow> EffectiveChain (ms @ [m]) = [m]"
  by (cases ms rule: rev_cases) (auto simp: EffectiveChain_def is_base_def nth_append)

lemma last_base_append: "k < length ms \<Longrightarrow> last_base (ms @ ns) k = last_base ms k"
  by (induction k) (auto simp: nth_append Let_def)

lemma last_base_bound: "last_base ms k = Some i \<Longrightarrow> i \<le> k"
  by (induction k) (auto simp: Let_def split: if_splits)

lemma EffectiveChain_snoc:
  assumes "\<not> is_base m" "ms \<noteq> []"
  shows "EffectiveChain (ms @ [m]) = EffectiveChain ms @ [m]"
proof -
  obtain k where k: "length ms = Suc k" using assms(2) by (cases ms) auto
  have "last_base (ms @ [m]) (Suc k) = last_base ms k"
    using assms(1) k last_base_append [of k ms "[m]"] by (simp add: nth_append is_base_def Let_def)
  then show ?thesis
    using k last_base_bound [of ms k] by (auto simp: EffectiveChain_def split: option.splits)
qed

text \<open>The parents of a new link: a chain that is stored, opens and stands for an image.\<close>

definition parents_ok ::
  "complib \<Rightarrow> backend \<Rightarrow> Cipher option \<Rightarrow> int \<Rightarrow> int \<Rightarrow> DiskManifest list \<Rightarrow> bytes list \<Rightarrow> (int \<rightharpoonup> bytes) list \<Rightarrow> bytes \<Rightarrow> bool"
where
  "parents_ok lib be cipher cs vs ms blobs pms old \<longleftrightarrow>
     chain_stored lib be cipher ms blobs pms \<and> represents cs vs pms old \<and>
     (\<forall>m \<in> set ms. manifest_Validate m = Inr () \<and> (\<exists>cd. reader_codec cipher m = Inr cd) \<and>
        dm_ChunkSize m = cs \<and> dm_VirtualSize m = vs)"

definition fresh_writer :: "('w, 'c) copyParams \<Rightarrow> int \<Rightarrow> DiskManifest \<Rightarrow> WriterOptions \<Rightarrow> DiskWriter \<Rightarrow> bool" where
  "fresh_writer p now manifest opts w0 \<longleftrightarrow>
     NewDiskWriter now manifest opts = Inr w0 \<and> dm_Chunks manifest = [] \<and> dm_LogicalBytes manifest = 0 \<and>
     dm_VirtualSize manifest = p_VirtualSize p \<and> dm_ChunkSize (dw_manifest w0) = p_ChunkSize p"

lemma backup_link:
  assumes fw: "fresh_writer p now manifest opts w0" and sz: "sizes_ok p" and st: "storage_ok p (dw_codec w0)"
    and wa: "write_all (p_lib p) w0 qs = (Inr (), w1)" and cap: "captured p old img qs"
    and len: "int (length img) = p_VirtualSize p" and cl: "Close (p_lib p) w1 res = (Inr m, w2)"
  shows "manifest_Validate m = Inr () \<and> dm_ChunkSize m = p_ChunkSize p \<and> dm_VirtualSize m = p_VirtualSize p \<and>
    dm_Type m = dm_Type manifest \<and> dm_DataKey m = wo_DataKey opts \<and> int (length (dw_sent w1)) < 9223372036854775808 \<and>
    (\<exists>cd. reader_codec (wo_Cipher opts) m = Inr cd \<and> object_holds (p_lib p) cd (dw_sent w1) m (pm_of qs))"
proof -
  have new: "NewDiskWriter now manifest opts = Inr w0" "dm_Chunks manifest = []" "dm_LogicalBytes manifest = 0"
    "dm_VirtualSize manifest = p_VirtualSize p" using fw by (simp_all add: fresh_writer_def)
  have g: "grid_ok (p_ChunkSize p) (p_VirtualSize p)" using sz by (simp add: sizes_ok_def)
  note nf = NewDiskWriter_fields [OF new(1-3), of "p_lib p"]
  have plain: "int (length (wr_plain q)) \<le> p_ChunkSize p \<and> wr_plain q \<noteq> []" if q: "q \<in> set qs" for q
  proof -
    have qq: "0 \<le> wr_index q" "wr_index q * p_ChunkSize p < p_VirtualSize p"
      "wr_plain q = cell (p_ChunkSize p) (p_VirtualSize p) img (wr_index q)"
      using cap q by (auto simp: captured_def Let_def)
    have "index_ok (p_ChunkSize p) (wr_index q)" using qq g by (auto simp: index_ok_def grid_ok_def)
    then have "int (length (wr_plain q)) \<le> p_ChunkSize p" "0 < int (length (wr_plain q))"
      using cell_length [OF g qq(1,2) len] ChunkLength_bounds(2) [OF g] unfolding qq(3) by simp_all
    then show ?thesis by auto
  qed
  have fed: "\<exists>w. wr_nonce q = fst (fst (p_feed p w))" if "q \<in> set qs" for q
  proof -
    obtain w where "fst (p_feed p w) = (wr_nonce q, wr_pipe q)" using cap \<open>q \<in> set qs\<close> by (auto simp: captured_def Let_def)
    then show ?thesis by (intro exI [of _ w]) simp
  qed
  have req: "\<forall>q \<in> set qs. req_ok (p_lib p) (dw_codec w0) q"
    using st plain fed unfolding req_ok_def storage_ok_def by metis
  have cnt: "int (length qs) < 4294967296" using cap sz by (auto simp: captured_def sizes_ok_def Let_def)
  have small: "\<forall>q \<in> set qs. length (wr_plain q) < 2147483648 \<and>
      (\<forall>stored d. encode (p_lib p) (dw_codec w0) (wr_nonce q) (wr_plain q) = Inr (stored, d) \<longrightarrow> length stored < 2147483648)"
  proof
    fix q assume q: "q \<in> set qs"
    then obtain w where w: "wr_nonce q = fst (fst (p_feed p w))" using fed by blast
    have "length (wr_plain q) < 2147483648" using plain [OF q] sz by (auto simp: sizes_ok_def)
    moreover have "length stored < 2147483648"
      if "encode (p_lib p) (dw_codec w0) (wr_nonce q) (wr_plain q) = Inr (stored, d)" for stored d
      using st plain [OF q] that unfolding storage_ok_def w by metis
    ultimately show "length (wr_plain q) < 2147483648 \<and> (\<forall>stored d.
        encode (p_lib p) (dw_codec w0) (wr_nonce q) (wr_plain q) = Inr (stored, d) \<longrightarrow> length stored < 2147483648)"
      by blast
  qed
  have fits: "fits_all (p_lib p) w0 qs \<and>
      int (length (dw_hashed w1)) \<le> int (length (dw_hashed w0)) + int (length qs) * 2147483648"
    using fits_all_bounded [OF small] wa nf cnt by (simp add: writer_inv_def Let_def logical_total_def)
  have ne: "nonempty_indices qs = map wr_index qs" "nonempty_plains qs = map wr_plain qs"
    using plain by (auto simp: nonempty_indices_def nonempty_plains_def filter_id_conv)
  have vs: "0 \<le> dm_VirtualSize manifest" using g new(4) by (simp add: grid_ok_def)
  note ob = closed_object [OF new(1-3) vs wa req conjunct1 [OF fits] cl, unfolded ne]
  have open1: "\<not> dw_closed w1 \<and> dw_sent w1 = dw_hashed w1"
    using write_all_inv [OF wa, of "[]"] nf req fits by simp
  note cok = Close_ok [OF cl conjunct1 [OF open1]]
  note wm = write_all_manifest [OF wa]
  obtain cd where cd: "reader_codec (wo_Cipher opts) m = Inr cd" "decode (p_lib p) cd = decode (p_lib p) (dw_codec w0)"
    using writer_reader_codec [OF new(1-3), of m "p_lib p"] cok wm nf by auto
  have "object_holds (p_lib p) cd (dw_sent w1) m (pm_of qs)"
    by (rule object_holds_of [OF _ _ _ cd(2)]) (use ob in auto)
  moreover have "int (length (dw_sent w1)) < 9223372036854775808"
    using fits open1 nf cnt by simp
  ultimately show ?thesis
    using ob cok wm nf cd(1) new(4) fw by (auto simp: fresh_writer_def)
qed

lemma chain_stored_snoc:
  assumes "chain_stored lib be cipher ms blobs pms" "reader_codec cipher m = Inr cd" "object_holds lib cd blob m pm"
    and "int (length blob) < 9223372036854775808" "serves be (dm_DataKey m) blob"
  shows "chain_stored lib be cipher (ms @ [m]) (blobs @ [blob]) (pms @ [pm])"
  using assms by (auto simp: chain_stored_def nth_append less_Suc_eq)

lemma reader_sizes:
  assumes "NewChainReader cipher ms0 = Inr r" "EffectiveChain ms0 = ms" "ms \<noteq> []"
    and "chain_stored lib be cipher ms blobs pms" "0 \<le> vs"
    and "\<forall>m \<in> set ms. dm_ChunkSize m = cs \<and> dm_VirtualSize m = vs"
  shows "cr_chunkSize r = cs" "cr_virtualSize r = vs"
proof -
  have "loaded_inv cipher ms (length ms) r"
    using NewChainReader_ok [OF assms(1), of lib be blobs pms] assms(2,4) by (auto simp: reader_ok_def Let_def)
  moreover have "dm_ChunkSize (ms ! 0) = cs" "dm_VirtualSize (ms ! 0) = vs" "0 < length ms"
    using assms(3,6) by auto
  ultimately show "cr_chunkSize r = cs" "cr_virtualSize r = vs"
    using assms(5,6) by (auto simp: loaded_inv_def)
qed

lemma link_restores:
  assumes fw: "fresh_writer p now manifest opts w0" and sz: "sizes_ok p" and st: "storage_ok p (dw_codec w0)"
    and run: "copyDisk tr p w0 w = Some (Inr (), s)" and src: "source_ok tr p old img"
    and cl: "Close (p_lib p) (cp_writer s) res = (Inr m, w2)"
    and srv: "serves be (dm_DataKey m) (dw_sent (cp_writer s))"
    and par: "parents_ok (p_lib p) be (wo_Cipher opts) (p_ChunkSize p) (p_VirtualSize p) ms blobs pms old"
    and eff: "EffectiveChain ms0 = ms @ [m]" "ms0 \<noteq> []"
  shows "\<exists>r calls r'. NewChainReader (wo_Cipher opts) ms0 = Inr r \<and>
     stream (p_lib p) be (\<lambda>_. False) log_sink r [] = (Inr calls, r') \<and>
     tiles 0 calls (p_VirtualSize p) \<and> render calls = img"
proof -
  have g: "grid_ok (p_ChunkSize p) (p_VirtualSize p)" using sz by (simp add: sizes_ok_def)
  have len: "int (length img) = p_VirtualSize p" using src by (simp add: source_ok_def)
  obtain qs where qs: "write_all (p_lib p) w0 qs = (Inr (), cp_writer s)" "captured p old img qs"
    using copyDisk_captures [OF run src g] by blast
  note link = backup_link [OF fw sz st qs len cl]
  then obtain cd where cd: "reader_codec (wo_Cipher opts) m = Inr cd"
      "object_holds (p_lib p) cd (dw_sent (cp_writer s)) m (pm_of qs)" by blast
  have stored: "chain_stored (p_lib p) be (wo_Cipher opts) (ms @ [m]) (blobs @ [dw_sent (cp_writer s)]) (pms @ [pm_of qs])"
    using par link srv cd by (intro chain_stored_snoc [of _ _ _ _ _ _ _ cd]) (auto simp: parents_ok_def)
  have all: "\<forall>m' \<in> set (ms @ [m]). manifest_Validate m' = Inr () \<and> (\<exists>cd. reader_codec (wo_Cipher opts) m' = Inr cd) \<and>
      dm_ChunkSize m' = p_ChunkSize p" using par link cd by (auto simp: parents_ok_def)
  obtain r where r: "NewChainReader (wo_Cipher opts) ms0 = Inr r"
    using NewChainReader_succeeds [OF eff all] by blast
  have vs: "0 \<le> p_VirtualSize p" "\<forall>m' \<in> set (ms @ [m]). dm_ChunkSize m' = p_ChunkSize p \<and> dm_VirtualSize m' = p_VirtualSize p"
    using par link g by (auto simp: parents_ok_def grid_ok_def)
  have sizes: "cr_chunkSize r = p_ChunkSize p" "cr_virtualSize r = p_VirtualSize p"
    using reader_sizes [OF r eff(1) _ stored vs] by simp_all
  have "represents (p_ChunkSize p) (p_VirtualSize p) pms old" using par by (simp add: parents_ok_def)
  from represents_image [of r, unfolded sizes, OF g represents_snoc [OF qs(2) len this]]
  have "cells_filled r (pms @ [pm_of qs])" "chain_image r (pms @ [pm_of qs]) = img" by simp_all
  then show ?thesis
    using stream_image [OF r, of "p_lib p" be "blobs @ [dw_sent (cp_writer s)]" "pms @ [pm_of qs]"] stored g r
    unfolding eff sizes by auto
qed

section \<open>A disk of ten bytes\<close>

text \<open>The toy libraries meet the assumptions on storage, and the toy source those on the disk.\<close>

lemma toy_pack_length: "length (toy_pack b) \<le> length b + 2"
  by (auto simp: toy_pack_def split: list.splits)

lemma toy_compress_length: "compress toy_lib algo b = Some out \<Longrightarrow> length out \<le> length b + 2"
  using toy_pack_length [of b] by (cases algo) (auto simp: toy_lib_def)

lemma toy_encode_length:
  assumes "encode toy_lib cd nonce b = Inr (st, d)" "cd_cipher cd = None \<or> cd_cipher cd = Some toy_cipher"
    and "\<forall>n. nonce = Some n \<longrightarrow> length n = 12"
  shows "length st \<le> length b + 14"
  using assms
  by (auto simp: encode_def EncryptBytes_def toy_cipher_def result_simps Let_def
      dest!: toy_compress_length split: option.splits if_splits sum.splits)

lemma toy_storage:
  assumes "cd_cipher cd = None \<or> cd_cipher cd = Some toy_cipher" "cs < 1000"
  shows "storage_ok (toy_params cs vs ctx) cd"
  unfolding storage_ok_def
proof (intro conjI allI impI)
  fix w chunk st digest
  assume "int (length chunk) \<le> p_ChunkSize (toy_params cs vs ctx)"
    "encode (p_lib (toy_params cs vs ctx)) cd (fst (fst (p_feed (toy_params cs vs ctx) w))) chunk = Inr (st, digest)"
  then show "length st < 2147483648"
    using toy_encode_length [of cd "Some (replicate 12 7)" chunk st digest] assms by (simp add: toy_params_def)
qed (use assms in \<open>auto simp: toy_params_def toy_lib_inverts toy_cipher_inverts NonceSize_def\<close>)

lemma toy_source:
  assumes "map_covers ctx old img extents" "int (length img) = vs" "length old = length img"
    and "ctx = ContextDirty \<or> old = replicate (length img) 0"
  shows "source_ok (toy_transport img extents) (toy_params cs vs ctx) old img"
  using assms
  by (auto simp: source_ok_def honest_reads_def honest_map_def honest_compare_def toy_transport_def toy_params_def)

text \<open>A run on the toy source, with the service's answer to the upload and a store that serves the object.\<close>

definition toy_run :: "bytes \<Rightarrow> Extent list \<Rightarrow> string \<Rightarrow> DiskWriter \<Rightarrow> ((copy_error + unit) \<times> (int, unit) copy_state)" where
  "toy_run img extents ctx w0 = the (copyDisk (toy_transport img extents) (toy_params 4 10 ctx) w0 0)"

definition toy_close :: "DiskWriter \<Rightarrow> (writer_error + DiskManifest) \<times> DiskWriter" where
  "toy_close w = Close toy_lib w \<lparr>put_written = dw_blobOffset w, put_err = None\<rparr>"

definition toy_store :: "string \<Rightarrow> bytes \<Rightarrow> backend" where
  "toy_store k blob = sample_backend\<lparr>be_GetRange := \<lambda>key off len.
     if key = k then Inr (slice blob off len) else be_GetRange sample_backend key off len\<rparr>"

lemma toy_store_serves: "serves (toy_store k blob) k blob"
  by (simp add: toy_store_def serves_def)

lemma toy_run_ends:
  assumes "fst (toy_run img extents ctx w0) = Inr ()"
  shows "copyDisk (toy_transport img extents) (toy_params 4 10 ctx) w0 0 = Some (Inr (), snd (toy_run img extents ctx w0))"
proof -
  have "copyDisk (toy_transport img extents) (toy_params 4 10 ctx) w0 0 \<noteq> None"
    using copy_groups_returns [OF toy_clock [of img extents]]
    by (auto simp: copyDisk_def Let_def split: prod.splits sum.splits option.splits)
  then show ?thesis using assms by (auto simp: toy_run_def)
qed

lemma toy_sizes: "sizes_ok (toy_params 4 10 ctx)"
  by (simp add: sizes_ok_def toy_params_def grid_ok_def grid_cells_def)

definition sample_disk :: bytes where "sample_disk = [5, 6, 7, 8, 0, 0, 0, 0, 9, 8]"

section \<open>What a backup guarantees\<close>

text \<open>
  C1: backing up a disk in full and restoring it gives the disk back. When a full copy ends without an
  error and its object is closed, whatever transfers were reopened and whatever detours were taken,
  opening the chain that ends in the new manifest succeeds and streaming it writes exactly the image the
  source exposed, region after region up to the virtual size.
\<close>

theorem full_backup_restores:
  assumes "fresh_writer p now manifest opts w0" and "sizes_ok p" and "storage_ok p (dw_codec w0)"
    and "source_ok tr p (replicate (nat (p_VirtualSize p)) 0) img"
    and "copyDisk tr p w0 w = Some (Inr (), s)"
    and "Close (p_lib p) (cp_writer s) res = (Inr m, w2)"
    and "serves be (dm_DataKey m) (dw_sent (cp_writer s))"
    and "dm_Type manifest = BackupFull \<or> dm_Type manifest = BackupSnapshot"
  shows "\<exists>r calls r'. NewChainReader (wo_Cipher opts) (earlier @ [m]) = Inr r \<and>
     stream (p_lib p) be (\<lambda>_. False) log_sink r [] = (Inr calls, r') \<and>
     tiles 0 calls (p_VirtualSize p) \<and> render calls = img"
proof -
  have g: "grid_ok (p_ChunkSize p) (p_VirtualSize p)" using assms(2) by (simp add: sizes_ok_def)
  have "dm_Type m = dm_Type manifest"
    using copyDisk_captures [OF assms(5,4) g] backup_link [OF assms(1-3) _ _ _ assms(6)] assms(4)
    by (auto simp: source_ok_def)
  then have base: "is_base m" using assms(8) by (simp add: is_base_def)
  then have eff: "EffectiveChain (earlier @ [m]) = [] @ [m]"
    using EffectiveChain_snoc_base [OF base, of earlier] by (cases "earlier = []") (simp_all add: EffectiveChain_def)
  have "parents_ok (p_lib p) be (wo_Cipher opts) (p_ChunkSize p) (p_VirtualSize p) [] [] [] (replicate (nat (p_VirtualSize p)) 0)"
    using represents_zero [OF g] by (simp add: parents_ok_def chain_stored_def)
  from link_restores [OF assms(1-3,5,4,6,7) this eff] show ?thesis by simp
qed

theorem full_backup_restores_witness:
  "\<exists>m w r calls r'. toy_close (cp_writer (snd (toy_run sample_disk [data_extent 0 4, data_extent 8 2] ContextZero sample_w0))) = (Inr m, w) \<and>
     NewChainReader (Some toy_cipher) (sample_links @ [m]) = Inr r \<and>
     stream toy_lib (toy_store ''k'' (dw_sent (cp_writer (snd (toy_run sample_disk [data_extent 0 4, data_extent 8 2] ContextZero sample_w0)))))
       (\<lambda>_. False) log_sink r [] = (Inr calls, r') \<and>
     tiles 0 calls 10 \<and> render calls = [5, 6, 7, 8, 0, 0, 0, 0, 9, 8]"
proof -
  let ?x = "[data_extent 0 4, data_extent 8 2]"
  define s where "s = snd (toy_run sample_disk ?x ContextZero sample_w0)"
  let ?res = "\<lparr>put_written = dw_blobOffset (cp_writer s), put_err = None\<rparr>"
  have "fst (toy_run sample_disk ?x ContextZero sample_w0) = Inr ()" by code_simp
  note run = toy_run_ends [OF this, folded s_def]
  have "\<not> isl (fst (toy_close (cp_writer s)))" unfolding s_def by code_simp
  then obtain m w where cl: "toy_close (cp_writer s) = (Inr m, w)" by (metis prod.collapse sum.collapse(2))
  have "dm_DataKey (projr (fst (toy_close (cp_writer s)))) = ''k''" unfolding s_def by code_simp
  then have key: "dm_DataKey m = ''k''" by (simp add: cl)
  have new: "fresh_writer (toy_params 4 10 ContextZero) 0 sample_manifest sample_opts sample_w0"
  proof -
    have "dm_ChunkSize (dw_manifest sample_w0) = 4" by code_simp
    then show ?thesis using sample_w0_new by (simp add: fresh_writer_def sample_manifest_def toy_params_def)
  qed
  have src: "source_ok (toy_transport sample_disk ?x) (toy_params 4 10 ContextZero) (replicate (nat 10) 0) sample_disk"
    by (rule toy_source) (simp_all add: sample_disk_def map_covers_def data_extent_def extent_wanted_def in64_def less_Suc_eq numeral_eq_Suc)
  show ?thesis
    using full_backup_restores [OF new toy_sizes toy_storage, of "toy_transport sample_disk ?x" sample_disk 0 s ?res m w
        "toy_store ''k'' (dw_sent (cp_writer s))" sample_links] src run cl key toy_store_serves
    by (simp add: toy_close_def toy_params_def sample_cipher sample_manifest_def sample_opts_def sample_disk_def s_def)
qed

text \<open>
  C2: an increment on top of its chain restores the new state. When the parents' chain stands for the
  old state of the disk, the map of changed blocks (or the comparison with the parent) misses no
  change, and the copy ends without an error, the chain extended by the new manifest opens and streams
  exactly the new image.
\<close>

theorem increment_restores:
  assumes "fresh_writer p now manifest opts w0" and "sizes_ok p" and "storage_ok p (dw_codec w0)"
    and "source_ok tr p old img"
    and "copyDisk tr p w0 w = Some (Inr (), s)"
    and "Close (p_lib p) (cp_writer s) res = (Inr m, w2)"
    and "serves be (dm_DataKey m) (dw_sent (cp_writer s))"
    and "parents_ok (p_lib p) be (wo_Cipher opts) (p_ChunkSize p) (p_VirtualSize p) (EffectiveChain ms) blobs pms old"
    and "ms \<noteq> []" and "dm_Type manifest = BackupIncremental \<or> dm_Type manifest = BackupDifferential"
  shows "\<exists>r calls r'. NewChainReader (wo_Cipher opts) (ms @ [m]) = Inr r \<and>
     stream (p_lib p) be (\<lambda>_. False) log_sink r [] = (Inr calls, r') \<and>
     tiles 0 calls (p_VirtualSize p) \<and> render calls = img"
proof -
  have g: "grid_ok (p_ChunkSize p) (p_VirtualSize p)" using assms(2) by (simp add: sizes_ok_def)
  have "dm_Type m = dm_Type manifest"
    using copyDisk_captures [OF assms(5,4) g] backup_link [OF assms(1-3) _ _ _ assms(6)] assms(4)
    by (auto simp: source_ok_def)
  then have "\<not> is_base m" using assms(10) by (auto simp: is_base_def)
  from link_restores [OF assms(1-3,5,4,6,7,8) EffectiveChain_snoc [OF this assms(9)]] assms(9)
  show ?thesis by simp
qed

text \<open>The sample chain holds \<^const>\<open>sample_disk\<close>; the increment changes two bytes of its hole.\<close>

definition plain_opts :: WriterOptions where
  "plain_opts = \<lparr>wo_DataKey = ''k'', wo_ChunkSize = 4, wo_Compression = ''none'', wo_Level = 0, wo_Cipher = None\<rparr>"

definition next_manifest :: DiskManifest where
  "next_manifest = sample_manifest\<lparr>dm_Type := BackupIncremental\<rparr>"

definition next_w0 :: DiskWriter where
  "next_w0 = projr (NewDiskWriter 0 next_manifest plain_opts)"

definition next_disk :: bytes where "next_disk = [5, 6, 7, 8, 0, 3, 4, 0, 9, 8]"

lemma next_w0_new: "NewDiskWriter 0 next_manifest plain_opts = Inr next_w0"
proof -
  have "\<not> isl (NewDiskWriter 0 next_manifest plain_opts)" by (simp add: NewDiskWriter_def plain_opts_def newCodec_def)
  then show ?thesis by (simp add: next_w0_def sum.collapse)
qed

lemma next_w0_cipher: "cd_cipher (dw_codec next_w0) = None"
  by (simp add: next_w0_def NewDiskWriter_def plain_opts_def newCodec_def)

lemma sample_represents: "represents 4 10 sample_pms sample_disk"
  unfolding represents_def
proof (intro conjI allI impI)
  fix i :: int assume "0 \<le> i" "i * 4 < 10"
  then consider "i = 0" | "i = 1" | "i = 2" by linarith
  then show "(case resolve sample_pms i of Some b \<Rightarrow> b | None \<Rightarrow> replicate (nat (ChunkLength i 4 10)) 0) =
      cell 4 10 sample_disk i"
  proof cases
    case 1 then show ?thesis unfolding 1 by code_simp
  next
    case 2 then show ?thesis unfolding 2 by code_simp
  next
    case 3 then show ?thesis unfolding 3 by code_simp
  qed
qed (simp add: sample_disk_def)

lemma sample_parents: "parents_ok toy_lib (toy_store ''k'' blob) None 4 10 sample_links sample_blobs sample_pms sample_disk"
proof -
  have "chain_stored toy_lib (toy_store ''k'' blob) None sample_links sample_blobs sample_pms"
    using sample_chain_stored
    by (auto simp: chain_stored_def serves_def toy_store_def sample_links_def sample_link_def less_Suc_eq numeral_2_eq_2)
  moreover have "manifest_Validate m = Inr () \<and> (\<exists>cd. reader_codec None m = Inr cd) \<and> dm_ChunkSize m = 4 \<and> dm_VirtualSize m = 10"
    if "m \<in> set sample_links" for m
    using that by (auto simp: sample_links_def sample_link_def manifest_Validate_def FormatVersion_def
        KnownCompression_def Compressions_def reader_codec_def newCodec_def sample_manifest_def)
  ultimately show ?thesis using sample_represents by (simp add: parents_ok_def)
qed

theorem increment_restores_witness:
  "\<exists>m w r calls r'. toy_close (cp_writer (snd (toy_run next_disk [data_extent 5 2] ContextDirty next_w0))) = (Inr m, w) \<and>
     length (dm_Chunks m) = 1 \<and> NewChainReader None (sample_links @ [m]) = Inr r \<and>
     stream toy_lib (toy_store ''k'' (dw_sent (cp_writer (snd (toy_run next_disk [data_extent 5 2] ContextDirty next_w0)))))
       (\<lambda>_. False) log_sink r [] = (Inr calls, r') \<and>
     tiles 0 calls 10 \<and> render calls = [5, 6, 7, 8, 0, 3, 4, 0, 9, 8]"
proof -
  let ?x = "[data_extent 5 2]"
  define s where "s = snd (toy_run next_disk ?x ContextDirty next_w0)"
  let ?res = "\<lparr>put_written = dw_blobOffset (cp_writer s), put_err = None\<rparr>"
  have "fst (toy_run next_disk ?x ContextDirty next_w0) = Inr ()" by code_simp
  note run = toy_run_ends [OF this, folded s_def]
  have "\<not> isl (fst (toy_close (cp_writer s)))" unfolding s_def by code_simp
  then obtain m w where cl: "toy_close (cp_writer s) = (Inr m, w)" by (metis prod.collapse sum.collapse(2))
  have "dm_DataKey (projr (fst (toy_close (cp_writer s)))) = ''k'' \<and>
      length (dm_Chunks (projr (fst (toy_close (cp_writer s))))) = 1" unfolding s_def by code_simp
  then have key: "dm_DataKey m = ''k''" "length (dm_Chunks m) = 1" by (simp_all add: cl)
  have size: "dm_ChunkSize (dw_manifest next_w0) = 4" by code_simp
  have new: "fresh_writer (toy_params 4 10 ContextDirty) 0 next_manifest plain_opts next_w0"
    using next_w0_new size by (simp add: fresh_writer_def next_manifest_def sample_manifest_def toy_params_def)
  have src: "source_ok (toy_transport next_disk ?x) (toy_params 4 10 ContextDirty) sample_disk next_disk"
    by (rule toy_source) (simp_all add: next_disk_def sample_disk_def map_covers_def data_extent_def
        extent_wanted_def in64_def less_Suc_eq numeral_eq_Suc)
  have par: "parents_ok (p_lib (toy_params 4 10 ContextDirty)) (toy_store ''k'' (dw_sent (cp_writer s)))
      (wo_Cipher plain_opts) (p_ChunkSize (toy_params 4 10 ContextDirty)) (p_VirtualSize (toy_params 4 10 ContextDirty))
      (EffectiveChain sample_links) sample_blobs sample_pms sample_disk"
    using sample_parents unfolding sample_effective by (simp add: toy_params_def plain_opts_def)
  show ?thesis
    using increment_restores [OF new toy_sizes toy_storage src run _ _ par, of ?res m w] cl key toy_store_serves s_def
    by (simp add: toy_close_def toy_params_def next_w0_cipher next_manifest_def sample_links_def plain_opts_def next_disk_def)
qed

end
