(* ===== verification/NbdProtocol.thy ===== *)
theory NbdProtocol
  imports Prelude
begin

text \<open>
  The numbers and errors of the Network Block Device protocol (\<open>pkg/nbd/protocol.go\<close>), as words of
  their width on the wire. Strings of the protocol are bytes. The texts of error messages are not
  modelled: an error is a constructor with the values the text shows.
\<close>

unbundle bit_operations_syntax

named_theorems nbd_consts

section \<open>Handshake\<close>

definition magicNBD :: "64 word" where "magicNBD = 0x4e42444d41474943"
definition magicIHaveOpt :: "64 word" where "magicIHaveOpt = 0x49484156454F5054"
definition magicOptReply :: "64 word" where "magicOptReply = 0x3e889045565a9"
definition magicRequest :: "32 word" where "magicRequest = 0x25609513"
definition magicSimpleReply :: "32 word" where "magicSimpleReply = 0x67446698"
definition magicStructuredReply :: "32 word" where "magicStructuredReply = 0x668e33ef"

definition flagFixedNewstyle :: "16 word" where "flagFixedNewstyle = 1"
definition clientFlagFixedNewstyle :: "32 word" where "clientFlagFixedNewstyle = 1"

definition optGo :: "32 word" where "optGo = 7"
definition optStructuredReply :: "32 word" where "optStructuredReply = 8"
definition optSetMetaContext :: "32 word" where "optSetMetaContext = 10"

definition repACK :: "32 word" where "repACK = 1"
definition repInfo :: "32 word" where "repInfo = 3"
definition repMetaContext :: "32 word" where "repMetaContext = 4"
definition repErrUnsup :: "32 word" where "repErrUnsup = 0x80000001"

definition infoExport :: "16 word" where "infoExport = 0"
definition infoName :: "16 word" where "infoName = 1"
definition infoDescription :: "16 word" where "infoDescription = 2"
definition infoBlockSize :: "16 word" where "infoBlockSize = 3"

section \<open>Transmission\<close>

definition cmdRead :: "16 word" where "cmdRead = 0"
definition cmdDisconnect :: "16 word" where "cmdDisconnect = 2"
definition cmdFlush :: "16 word" where "cmdFlush = 3"
definition cmdBlockStatus :: "16 word" where "cmdBlockStatus = 7"

definition replyTypeNone :: "16 word" where "replyTypeNone = 0"
definition replyTypeOffsetData :: "16 word" where "replyTypeOffsetData = 1"
definition replyTypeOffsetHole :: "16 word" where "replyTypeOffsetHole = 2"
definition replyTypeBlockStatus :: "16 word" where "replyTypeBlockStatus = 5"
definition replyTypeError :: "16 word" where "replyTypeError = 0x8001"
definition replyTypeErrorOffset :: "16 word" where "replyTypeErrorOffset = 0x8002"
definition replyFlagDone :: "16 word" where "replyFlagDone = 1"

definition TransmissionReadOnly :: "16 word" where "TransmissionReadOnly = 2"
definition TransmissionSendFlush :: "16 word" where "TransmissionSendFlush = 4"

definition ascii :: "string \<Rightarrow> bytes" where "ascii s = map (\<lambda>c. word_of_nat (of_char c)) s"

definition ContextBaseAllocation :: bytes where "ContextBaseAllocation = ascii ''base:allocation''"
definition ContextDirtyBitmapPrefix :: bytes where "ContextDirtyBitmapPrefix = ascii ''qemu:dirty-bitmap:''"

definition DirtyBitmapContext :: "bytes \<Rightarrow> bytes" where
  "DirtyBitmapContext bitmap = ContextDirtyBitmapPrefix @ bitmap"

definition StateHole :: "32 word" where "StateHole = 1"
definition StateZero :: "32 word" where "StateZero = 2"
definition StateDirty :: "32 word" where "StateDirty = 1"

lemmas nbd_magics [nbd_consts] = magicNBD_def magicIHaveOpt_def magicOptReply_def magicRequest_def
  magicSimpleReply_def magicStructuredReply_def
lemmas nbd_options [nbd_consts] = flagFixedNewstyle_def clientFlagFixedNewstyle_def optGo_def optStructuredReply_def
  optSetMetaContext_def repACK_def repInfo_def repMetaContext_def repErrUnsup_def infoExport_def infoName_def
  infoDescription_def infoBlockSize_def
lemmas nbd_commands [nbd_consts] = cmdRead_def cmdDisconnect_def cmdFlush_def cmdBlockStatus_def
  TransmissionReadOnly_def TransmissionSendFlush_def
lemmas nbd_replies [nbd_consts] = replyTypeNone_def replyTypeOffsetData_def replyTypeOffsetHole_def
  replyTypeBlockStatus_def replyTypeError_def replyTypeErrorOffset_def replyFlagDone_def

section \<open>Errors\<close>

record ServerError =
  se_Errno :: "32 word"
  se_Message :: bytes
  se_Offset :: "int option"

record OptionError =
  oe_Option :: "32 word"
  oe_Reply :: "32 word"
  oe_Message :: bytes

definition Unsupported :: "OptionError \<Rightarrow> bool" where
  "Unsupported e \<longleftrightarrow> oe_Reply e = repErrUnsup"

datatype nbd_error =
    NbdReadFailed
  | NbdWriteFailed
  | NbdCancelled
  | NotNbd "64 word"
  | OldProtocol
  | NoFixedNewstyle
  | NoStructuredReplies
  | OptionRefused OptionError
  | OptionFormat "64 word"
  | OtherOption "32 word" "32 word"
  | OptionTooBig "32 word"
  | TruncatedContext
  | TruncatedInfo
  | NoExportSize
  | NbdClosed
  | OutsideExport int int
  | ReplyFormat "32 word"
  | OtherRequest "64 word" "64 word"
  | ReplyTooBig "32 word"
  | ServerRefused ServerError
  | TruncatedError
  | TruncatedData
  | OutsideRequest int int
  | HoleLength "32 word"
  | NonePayload
  | WrongCoverage int int
  | ContextMissing bytes
  | TruncatedStatus
  | StatusLength int
  | ZeroExtent
  | UnexpectedChunk "16 word"
  | NoExtents bytes
  | ExtentBackwards int int
  | NoProgress
  | NbdPanic

end
