(* ===== verification/NbdClient.thy ===== *)
theory NbdClient
  imports NbdProtocol
begin

text \<open>
  The client of the Network Block Device protocol (\<open>pkg/nbd/client.go\<close>): handshake, reads, block
  status and the sweep that builds a map of extents.

  A connection is a value: \<open>nc_in\<close> holds the bytes the server is still to deliver before the
  connection ends or a deadline passes, \<open>nc_out\<close> the bytes sent, \<open>nc_room\<close> how many more bytes can be
  sent before sending fails (\<open>None\<close>: it does not). Commands are serialised by the mutex, so one
  operation runs at a time. An argument \<open>stopped\<close> is whether the context has ended when
  \<open>applyDeadline\<close> looks. The code's buffers are returned instead of filled; what a buffer holds after
  an error is not modelled.
\<close>

section \<open>Data\<close>

record Export =
  xp_Name :: bytes
  xp_Size :: int
  xp_TransmissionFlags :: "16 word"
  xp_MinBlockSize :: "32 word"
  xp_PreferredBlockSize :: "32 word"
  xp_MaxBlockSize :: "32 word"
  xp_Description :: bytes

definition ReadOnly :: "Export \<Rightarrow> bool" where
  "ReadOnly e \<longleftrightarrow> xp_TransmissionFlags e AND TransmissionReadOnly \<noteq> 0"

record Options =
  op_ExportName :: bytes
  op_MetaContexts :: "bytes list"
  op_RequireStructuredReplies :: bool

record Client =
  nc_in :: bytes
  nc_out :: bytes
  nc_room :: "nat option"
  nc_cookie :: "64 word"
  nc_closed :: bool
  nc_export :: Export
  nc_structured :: bool
  nc_contextByID :: "32 word \<rightharpoonup> bytes"
  nc_idByContext :: "bytes \<rightharpoonup> 32 word"

definition maxStatusQuery :: int where "maxStatusQuery = 1073741824"

section \<open>The wire\<close>

definition recv :: "nat \<Rightarrow> Client \<Rightarrow> (nbd_error + bytes) \<times> Client" where
  "recv n c =
     (if n \<le> length (nc_in c) then (Inr (take n (nc_in c)), c\<lparr>nc_in := drop n (nc_in c)\<rparr>)
      else (Inl NbdReadFailed, c\<lparr>nc_in := []\<rparr>))"

definition send :: "bytes \<Rightarrow> Client \<Rightarrow> (nbd_error + unit) \<times> Client" where
  "send bs c =
     (case nc_room c of
        None \<Rightarrow> (Inr (), c\<lparr>nc_out := nc_out c @ bs\<rparr>)
      | Some k \<Rightarrow>
          if length bs \<le> k then (Inr (), c\<lparr>nc_out := nc_out c @ bs, nc_room := Some (k - length bs)\<rparr>)
          else (Inl NbdWriteFailed, c\<lparr>nc_out := nc_out c @ take k bs, nc_room := Some 0\<rparr>))"

definition field :: "nat \<Rightarrow> nat \<Rightarrow> bytes \<Rightarrow> bytes" where
  "field off n bs = take n (drop off bs)"

definition appendString32 :: "bytes \<Rightarrow> bytes \<Rightarrow> bytes" where
  "appendString32 dst s = dst @ put_u32 (word_of_nat (length s)) @ s"

section \<open>Option haggling\<close>

definition sendOption :: "32 word \<Rightarrow> bytes \<Rightarrow> Client \<Rightarrow> (nbd_error + unit) \<times> Client" where
  "sendOption opt payload c =
     send (put_u64 magicIHaveOpt @ put_u32 opt @ put_u32 (word_of_nat (length payload)) @ payload) c"

record optionReply =
  or_Type :: "32 word"
  or_Data :: bytes

definition readOptionReply :: "32 word \<Rightarrow> Client \<Rightarrow> (nbd_error + optionReply) \<times> Client" where
  "readOptionReply expected c =
     (case recv 20 c of
        (Inl e, c1) \<Rightarrow> (Inl e, c1)
      | (Inr h, c1) \<Rightarrow>
          let magic = get_u64 (field 0 8 h); opt = get_u32 (field 8 4 h);
              ty = get_u32 (field 12 4 h); len = get_u32 (field 16 4 h)
          in if magic \<noteq> magicOptReply then (Inl (OptionFormat magic), c1)
             else if opt \<noteq> expected then (Inl (OtherOption opt expected), c1)
             else if unat len > 4194304 then (Inl (OptionTooBig len), c1)
             else case recv (unat len) c1 of
                    (Inl e, c2) \<Rightarrow> (Inl e, c2)
                  | (Inr payload, c2) \<Rightarrow>
                      if ty AND 0x80000000 \<noteq> 0
                      then (Inl (OptionRefused \<lparr>oe_Option = opt, oe_Reply = ty, oe_Message = payload\<rparr>), c2)
                      else (Inr \<lparr>or_Type = ty, or_Data = payload\<rparr>, c2))"

lemma recv_less: "recv n c = (Inr bs, c') \<Longrightarrow> length (nc_in c') + n = length (nc_in c) \<and> length bs = n"
  by (auto simp: recv_def split: if_splits)

lemma readOptionReply_less: "readOptionReply o0 c = (Inr r, c') \<Longrightarrow> length (nc_in c') < length (nc_in c)"
  by (auto simp: readOptionReply_def Let_def dest!: recv_less split: prod.splits sum.splits if_splits)

function structured_loop :: "bool \<Rightarrow> Client \<Rightarrow> (nbd_error + unit) \<times> Client" where
  "structured_loop required c =
     (case readOptionReply optStructuredReply c of
        (Inl (OptionRefused e), c1) \<Rightarrow>
          if Unsupported e \<and> \<not> required then (Inr (), c1\<lparr>nc_structured := False\<rparr>)
          else (Inl (OptionRefused e), c1)
      | (Inl e, c1) \<Rightarrow> (Inl e, c1)
      | (Inr reply, c1) \<Rightarrow>
          if or_Type reply = repACK then (Inr (), c1\<lparr>nc_structured := True\<rparr>)
          else structured_loop required c1)"
  by pat_completeness auto
termination
  by (relation "measure (\<lambda>(required, c). length (nc_in c))") (auto dest!: readOptionReply_less [OF sym])

declare structured_loop.simps [simp del]

definition negotiateStructuredReplies :: "bool \<Rightarrow> Client \<Rightarrow> (nbd_error + unit) \<times> Client" where
  "negotiateStructuredReplies required c =
     (case sendOption optStructuredReply [] c of
        (Inl e, c1) \<Rightarrow> (Inl e, c1)
      | (Inr _, c1) \<Rightarrow> structured_loop required c1)"

function context_loop :: "Client \<Rightarrow> (nbd_error + unit) \<times> Client" where
  "context_loop c =
     (case readOptionReply optSetMetaContext c of
        (Inl e, c1) \<Rightarrow> (Inl e, c1)
      | (Inr reply, c1) \<Rightarrow>
          if or_Type reply = repMetaContext then
            (if length (or_Data reply) < 4 then (Inl TruncatedContext, c1)
             else let i = get_u32 (take 4 (or_Data reply)); name = drop 4 (or_Data reply)
                  in context_loop (c1\<lparr>nc_contextByID := (nc_contextByID c1)(i \<mapsto> name),
                                      nc_idByContext := (nc_idByContext c1)(name \<mapsto> i)\<rparr>))
          else if or_Type reply = repACK then (Inr (), c1)
          else context_loop c1)"
  by pat_completeness auto
termination
  by (relation "measure (\<lambda>c. length (nc_in c))") (auto dest!: readOptionReply_less [OF sym])

declare context_loop.simps [simp del]

definition setMetaContexts :: "bytes \<Rightarrow> bytes list \<Rightarrow> Client \<Rightarrow> (nbd_error + unit) \<times> Client" where
  "setMetaContexts export queries c =
     (let payload = foldl appendString32 (appendString32 [] export @ put_u32 (word_of_nat (length queries))) queries in
      case sendOption optSetMetaContext payload c of
        (Inl e, c1) \<Rightarrow> (Inl e, c1)
      | (Inr _, c1) \<Rightarrow> context_loop c1)"

definition applyInfo :: "bytes \<Rightarrow> Export \<Rightarrow> nbd_error + Export" where
  "applyInfo payload ex =
     (if length payload < 2 then Inl TruncatedInfo
      else let kind = get_u16 (take 2 payload); body = drop 2 payload in
        if kind = infoExport then
          (if length body < 10 then Inl TruncatedInfo
           else Inr (ex\<lparr>xp_Size := sint (get_u64 (field 0 8 body)),
                        xp_TransmissionFlags := get_u16 (field 8 2 body)\<rparr>))
        else if kind = infoBlockSize then
          (if length body < 12 then Inl TruncatedInfo
           else Inr (ex\<lparr>xp_MinBlockSize := get_u32 (field 0 4 body),
                        xp_PreferredBlockSize := get_u32 (field 4 4 body),
                        xp_MaxBlockSize := get_u32 (field 8 4 body)\<rparr>))
        else if kind = infoDescription then Inr (ex\<lparr>xp_Description := body\<rparr>)
        else if kind = infoName then Inr (ex\<lparr>xp_Name := body\<rparr>)
        else Inr ex)"

function go_loop :: "Client \<Rightarrow> (nbd_error + unit) \<times> Client" where
  "go_loop c =
     (case readOptionReply optGo c of
        (Inl e, c1) \<Rightarrow> (Inl e, c1)
      | (Inr reply, c1) \<Rightarrow>
          if or_Type reply = repInfo then
            (case applyInfo (or_Data reply) (nc_export c1) of
               Inl e \<Rightarrow> (Inl e, c1)
             | Inr ex \<Rightarrow> go_loop (c1\<lparr>nc_export := ex\<rparr>))
          else if or_Type reply = repACK then
            (if xp_Size (nc_export c1) = 0 then (Inl NoExportSize, c1) else (Inr (), c1))
          else go_loop c1)"
  by pat_completeness auto
termination
  by (relation "measure (\<lambda>c. length (nc_in c))") (auto dest!: readOptionReply_less [OF sym])

declare go_loop.simps [simp del]

definition optionGo :: "bytes \<Rightarrow> Client \<Rightarrow> (nbd_error + unit) \<times> Client" where
  "optionGo export c =
     (let payload = appendString32 [] export @ put_u16 1 @ put_u16 infoBlockSize in
      case sendOption optGo payload c of
        (Inl e, c1) \<Rightarrow> (Inl e, c1)
      | (Inr _, c1) \<Rightarrow> go_loop (c1\<lparr>nc_export := (nc_export c1)\<lparr>xp_Name := export\<rparr>\<rparr>))"

definition handshake :: "Options \<Rightarrow> Client \<Rightarrow> (nbd_error + unit) \<times> Client" where
  "handshake opts c =
     (case recv 18 c of
        (Inl e, c1) \<Rightarrow> (Inl e, c1)
      | (Inr h, c1) \<Rightarrow>
          if get_u64 (field 0 8 h) \<noteq> magicNBD then (Inl (NotNbd (get_u64 (field 0 8 h))), c1)
          else if get_u64 (field 8 8 h) \<noteq> magicIHaveOpt then (Inl OldProtocol, c1)
          else if get_u16 (field 16 2 h) AND flagFixedNewstyle = 0 then (Inl NoFixedNewstyle, c1)
          else case send (put_u32 clientFlagFixedNewstyle) c1 of
            (Inl e, c2) \<Rightarrow> (Inl e, c2)
          | (Inr _, c2) \<Rightarrow>
              (case negotiateStructuredReplies (op_RequireStructuredReplies opts) c2 of
                 (Inl e, c3) \<Rightarrow> (Inl e, c3)
               | (Inr _, c3) \<Rightarrow>
                   if op_MetaContexts opts \<noteq> [] then
                     (if \<not> nc_structured c3 then (Inl NoStructuredReplies, c3)
                      else case setMetaContexts (op_ExportName opts) (op_MetaContexts opts) c3 of
                             (Inl e, c4) \<Rightarrow> (Inl e, c4)
                           | (Inr _, c4) \<Rightarrow> optionGo (op_ExportName opts) c4)
                   else optionGo (op_ExportName opts) c3))"

definition new_client :: "bytes \<Rightarrow> nat option \<Rightarrow> Client" where
  "new_client input room =
     \<lparr>nc_in = input, nc_out = [], nc_room = room, nc_cookie = 0, nc_closed = False,
      nc_export = \<lparr>xp_Name = [], xp_Size = 0, xp_TransmissionFlags = 0, xp_MinBlockSize = 0,
                   xp_PreferredBlockSize = 0, xp_MaxBlockSize = 0, xp_Description = []\<rparr>,
      nc_structured = False, nc_contextByID = Map.empty, nc_idByContext = Map.empty\<rparr>"

definition applyDeadline :: "bool \<Rightarrow> nbd_error + unit" where
  "applyDeadline stopped = guardR (\<not> stopped) NbdCancelled"

definition Connect :: "bool \<Rightarrow> bytes \<Rightarrow> nat option \<Rightarrow> Options \<Rightarrow> nbd_error + Client" where
  "Connect stopped input room opts =
     bindR (applyDeadline stopped) (\<lambda>_.
       case handshake opts (new_client input room) of
         (Inl e, c) \<Rightarrow> Inl e
       | (Inr _, c) \<Rightarrow> Inr c)"

definition HasContext :: "Client \<Rightarrow> bytes \<Rightarrow> bool" where
  "HasContext c name \<longleftrightarrow> nc_idByContext c name \<noteq> None"

section \<open>Requests and replies\<close>

definition sendRequest :: "16 word \<Rightarrow> 64 word \<Rightarrow> int \<Rightarrow> 32 word \<Rightarrow> Client \<Rightarrow> (nbd_error + unit) \<times> Client" where
  "sendRequest command cookie offset len c =
     send (put_u32 magicRequest @ put_u16 0 @ put_u16 command @ put_u64 cookie @ put_u64 (word_of_int offset) @ put_u32 len) c"

definition nextCookie :: "Client \<Rightarrow> 64 word \<times> Client" where
  "nextCookie c = (let k = nc_cookie c + 1 in (k, c\<lparr>nc_cookie := k\<rparr>))"

definition nbd_Close :: "Client \<Rightarrow> Client" where
  "nbd_Close c =
     (if nc_closed c then c else snd (sendRequest cmdDisconnect 0 0 0 (c\<lparr>nc_closed := True\<rparr>)))"

definition readSimpleReply :: "64 word \<Rightarrow> nat \<Rightarrow> Client \<Rightarrow> (nbd_error + bytes) \<times> Client" where
  "readSimpleReply cookie n c =
     (case recv 16 c of
        (Inl e, c1) \<Rightarrow> (Inl e, c1)
      | (Inr h, c1) \<Rightarrow>
          let magic = get_u32 (field 0 4 h); err = get_u32 (field 4 4 h); got = get_u64 (field 8 8 h) in
          if magic \<noteq> magicSimpleReply then (Inl (ReplyFormat magic), c1)
          else if got \<noteq> cookie then (Inl (OtherRequest got cookie), c1)
          else if err \<noteq> 0 then (Inl (ServerRefused \<lparr>se_Errno = err, se_Message = [], se_Offset = None\<rparr>), c1)
          else if n = 0 then (Inr [], c1)
          else recv n c1)"

record chunkHeader =
  hd_Flags :: "16 word"
  hd_Type :: "16 word"
  hd_Length :: "32 word"

definition readChunkHeader :: "64 word \<Rightarrow> Client \<Rightarrow> (nbd_error + chunkHeader) \<times> Client" where
  "readChunkHeader cookie c =
     (case recv 20 c of
        (Inl e, c1) \<Rightarrow> (Inl e, c1)
      | (Inr h, c1) \<Rightarrow>
          let magic = get_u32 (field 0 4 h); flags = get_u16 (field 4 2 h); ty = get_u16 (field 6 2 h);
              got = get_u64 (field 8 8 h); len = get_u32 (field 16 4 h)
          in if magic \<noteq> magicStructuredReply then (Inl (ReplyFormat magic), c1)
             else if got \<noteq> cookie then (Inl (OtherRequest got cookie), c1)
             else if unat len > 67108864 then (Inl (ReplyTooBig len), c1)
             else (Inr \<lparr>hd_Flags = flags, hd_Type = ty, hd_Length = len\<rparr>, c1))"

definition readChunkPayload :: "chunkHeader \<Rightarrow> Client \<Rightarrow> (nbd_error + bytes) \<times> Client" where
  "readChunkPayload chunk c = (if hd_Length chunk = 0 then (Inr [], c) else recv (unat (hd_Length chunk)) c)"

definition parseErrorChunk :: "16 word \<Rightarrow> bytes \<Rightarrow> nbd_error" where
  "parseErrorChunk kind payload =
     (if length payload < 6 then TruncatedError
      else let msgLen = unat (get_u16 (field 4 2 payload)) in
        ServerRefused
          \<lparr>se_Errno = get_u32 (field 0 4 payload),
           se_Message = (if 6 + msgLen \<le> length payload then field 6 msgLen payload else []),
           se_Offset = (if kind = replyTypeErrorOffset \<and> length payload \<ge> 6 + msgLen + 8
                        then Some (sint (get_u64 (field (6 + msgLen) 8 payload))) else None)\<rparr>)"

definition is_done :: "chunkHeader \<Rightarrow> bool" where
  "is_done chunk \<longleftrightarrow> hd_Flags chunk AND replyFlagDone \<noteq> 0"

lemma readChunkHeader_less: "readChunkHeader k c = (Inr h, c') \<Longrightarrow> length (nc_in c') < length (nc_in c)"
  by (auto simp: readChunkHeader_def Let_def dest!: recv_less split: prod.splits sum.splits if_splits)

lemma readChunkPayload_le: "readChunkPayload h c = (Inr p, c') \<Longrightarrow> length (nc_in c') \<le> length (nc_in c)"
  by (auto simp: readChunkPayload_def dest!: recv_less split: if_splits)

section \<open>Reading data\<close>

text \<open>Writing \<open>bs\<close> into a buffer at \<open>start\<close>.\<close>

definition put_at :: "bytes \<Rightarrow> nat \<Rightarrow> bytes \<Rightarrow> bytes" where
  "put_at buf start bs = take start buf @ bs @ drop (start + length bs) buf"

text \<open>
  One chunk of a read reply after its header: the buffer and the count of described bytes it leaves. A
  slice expression outside the buffer panics.
\<close>

definition data_chunk :: "chunkHeader \<Rightarrow> int \<Rightarrow> bytes \<Rightarrow> int \<Rightarrow> Client \<Rightarrow> (nbd_error + bytes \<times> int) \<times> Client" where
  "data_chunk chunk base buf covered c =
     (if hd_Type chunk = replyTypeOffsetData then
        (if unat (hd_Length chunk) < 8 then (Inl TruncatedData, c)
         else case recv 8 c of
           (Inl e, c1) \<Rightarrow> (Inl e, c1)
         | (Inr ob, c1) \<Rightarrow>
             let offset = get_u64 ob; size = int (unat (hd_Length chunk)) - 8;
                 start = wrap64 (sint offset - base); stop = wrap64 (start + size)
             in if start < 0 \<or> stop > int (length buf) then (Inl (OutsideRequest start size), c1)
                else if stop < start then (Inl NbdPanic, c1)
                else case recv (nat size) c1 of
                       (Inl e, c2) \<Rightarrow> (Inl e, c2)
                     | (Inr bs, c2) \<Rightarrow> (Inr (put_at buf (nat start) bs, wrap64 (covered + size)), c2))
      else if hd_Type chunk = replyTypeOffsetHole then
        (if hd_Length chunk \<noteq> 12 then (Inl (HoleLength (hd_Length chunk)), c)
         else case recv 12 c of
           (Inl e, c1) \<Rightarrow> (Inl e, c1)
         | (Inr hb, c1) \<Rightarrow>
             let size = int (unat (get_u32 (field 8 4 hb)));
                 start = wrap64 (sint (get_u64 (field 0 8 hb)) - base)
             in if start < 0 \<or> wrap64 (start + size) > int (length buf) then (Inl (OutsideRequest start size), c1)
                else (Inr (buf, wrap64 (covered + size)), c1))
      else if hd_Type chunk = replyTypeError \<or> hd_Type chunk = replyTypeErrorOffset then
        (case readChunkPayload chunk c of
           (Inl e, c1) \<Rightarrow> (Inl e, c1)
         | (Inr payload, c1) \<Rightarrow> (Inl (parseErrorChunk (hd_Type chunk) payload), c1))
      else if hd_Type chunk = replyTypeNone then
        (if hd_Length chunk \<noteq> 0 then (Inl NonePayload, c) else (Inr (buf, covered), c))
      else (case readChunkPayload chunk c of
              (Inl e, c1) \<Rightarrow> (Inl e, c1)
            | (Inr _, c1) \<Rightarrow> (Inr (buf, covered), c1)))"

lemma data_chunk_le: "data_chunk h base buf covered c = (Inr x, c') \<Longrightarrow> length (nc_in c') \<le> length (nc_in c)"
  by (auto simp: data_chunk_def Let_def dest!: recv_less readChunkPayload_le split: prod.splits sum.splits if_splits)

function data_loop :: "64 word \<Rightarrow> int \<Rightarrow> bytes \<Rightarrow> int \<Rightarrow> Client \<Rightarrow> (nbd_error + bytes \<times> int) \<times> Client" where
  "data_loop cookie base buf covered c =
     (case readChunkHeader cookie c of
        (Inl e, c1) \<Rightarrow> (Inl e, c1)
      | (Inr chunk, c1) \<Rightarrow>
          (case data_chunk chunk base buf covered c1 of
             (Inl e, c2) \<Rightarrow> (Inl e, c2)
           | (Inr (buf', covered'), c2) \<Rightarrow>
               if is_done chunk then (Inr (buf', covered'), c2) else data_loop cookie base buf' covered' c2))"
  by pat_completeness auto
termination
  by (relation "measure (\<lambda>(cookie, base, buf, covered, c). length (nc_in c))")
     (fastforce dest!: readChunkHeader_less [OF sym] data_chunk_le [OF sym])+

declare data_loop.simps [simp del]

definition readDataChunks :: "64 word \<Rightarrow> nat \<Rightarrow> int \<Rightarrow> Client \<Rightarrow> (nbd_error + bytes) \<times> Client" where
  "readDataChunks cookie n base c =
     (case data_loop cookie base (replicate n 0) 0 c of
        (Inl e, c1) \<Rightarrow> (Inl e, c1)
      | (Inr (buf, covered), c1) \<Rightarrow>
          if covered \<noteq> int n then (Inl (WrongCoverage covered (int n)), c1) else (Inr buf, c1))"

definition ReadAt :: "bool \<Rightarrow> nat \<Rightarrow> int \<Rightarrow> Client \<Rightarrow> (nbd_error + bytes) \<times> Client" where
  "ReadAt stopped n off c =
     (if n = 0 then (Inr [], c)
      else if off < 0 \<or> wrap64 (off + int n) > xp_Size (nc_export c) then (Inl (OutsideExport off (int n)), c)
      else if nc_closed c then (Inl NbdClosed, c)
      else case applyDeadline stopped of
        Inl e \<Rightarrow> (Inl e, c)
      | Inr _ \<Rightarrow>
          let (cookie, c1) = nextCookie c in
          case sendRequest cmdRead cookie off (word_of_nat n) c1 of
            (Inl e, c2) \<Rightarrow> (Inl e, c2)
          | (Inr _, c2) \<Rightarrow>
              if \<not> nc_structured c2 then readSimpleReply cookie n c2 else readDataChunks cookie n off c2)"

function drain_loop :: "64 word \<Rightarrow> Client \<Rightarrow> (nbd_error + unit) \<times> Client" where
  "drain_loop cookie c =
     (case readChunkHeader cookie c of
        (Inl e, c1) \<Rightarrow> (Inl e, c1)
      | (Inr chunk, c1) \<Rightarrow>
          (case readChunkPayload chunk c1 of
             (Inl e, c2) \<Rightarrow> (Inl e, c2)
           | (Inr payload, c2) \<Rightarrow>
               if hd_Type chunk = replyTypeError \<or> hd_Type chunk = replyTypeErrorOffset
               then (Inl (parseErrorChunk (hd_Type chunk) payload), c2)
               else if is_done chunk then (Inr (), c2) else drain_loop cookie c2))"
  by pat_completeness auto
termination
  by (relation "measure (\<lambda>(cookie, c). length (nc_in c))")
     (fastforce dest!: readChunkHeader_less [OF sym] readChunkPayload_le [OF sym])+

declare drain_loop.simps [simp del]

definition Flush :: "bool \<Rightarrow> Client \<Rightarrow> (nbd_error + unit) \<times> Client" where
  "Flush stopped c =
     (if xp_TransmissionFlags (nc_export c) AND TransmissionSendFlush = 0 then (Inr (), c)
      else case applyDeadline stopped of
        Inl e \<Rightarrow> (Inl e, c)
      | Inr _ \<Rightarrow>
          let (cookie, c1) = nextCookie c in
          case sendRequest cmdFlush cookie 0 0 c1 of
            (Inl e, c2) \<Rightarrow> (Inl e, c2)
          | (Inr _, c2) \<Rightarrow>
              if \<not> nc_structured c2 then (case readSimpleReply cookie 0 c2 of
                 (Inl e, c3) \<Rightarrow> (Inl e, c3) | (Inr _, c3) \<Rightarrow> (Inr (), c3))
              else drain_loop cookie c2)"

section \<open>Block status and the map of extents\<close>

record nbd_Extent =
  ne_Offset :: int
  ne_Length :: int
  ne_Flags :: "32 word"

definition nbd_End :: "nbd_Extent \<Rightarrow> int" where "nbd_End e = wrap64 (ne_Offset e + ne_Length e)"
definition nbd_Zero :: "nbd_Extent \<Rightarrow> bool" where "nbd_Zero e \<longleftrightarrow> ne_Flags e AND StateZero \<noteq> 0"
definition nbd_Hole :: "nbd_Extent \<Rightarrow> bool" where "nbd_Hole e \<longleftrightarrow> ne_Flags e AND StateHole \<noteq> 0"
definition nbd_Dirty :: "nbd_Extent \<Rightarrow> bool" where "nbd_Dirty e \<longleftrightarrow> ne_Flags e AND StateDirty \<noteq> 0"

text \<open>The descriptors of one chunk, appended to what earlier chunks gave; an extent past the export ends them.\<close>

function descriptors :: "int \<Rightarrow> bytes \<Rightarrow> nbd_Extent list \<Rightarrow> int \<Rightarrow> nbd_error + nbd_Extent list \<times> int" where
  "descriptors sz body extents cursor =
     (if length body < 8 then Inr (extents, cursor)
      else let len = int (unat (get_u32 (field 0 4 body))); flags = get_u32 (field 4 4 body) in
        if len \<le> 0 then Inl ZeroExtent
        else if wrap64 (cursor + len) > sz then
          (let len' = wrap64 (sz - cursor) in
           if len' \<le> 0 then Inr (extents, cursor)
           else descriptors sz (drop 8 body)
                  (extents @ [\<lparr>ne_Offset = cursor, ne_Length = len', ne_Flags = flags\<rparr>]) (wrap64 (cursor + len')))
        else descriptors sz (drop 8 body)
               (extents @ [\<lparr>ne_Offset = cursor, ne_Length = len, ne_Flags = flags\<rparr>]) (wrap64 (cursor + len)))"
  by pat_completeness auto
termination
  by (relation "measure (\<lambda>(sz, body, extents, cursor). length body)") auto

declare descriptors.simps [simp del]

definition status_chunk :: "chunkHeader \<Rightarrow> bytes \<Rightarrow> 32 word \<Rightarrow> int \<Rightarrow> nbd_Extent list \<Rightarrow> int \<Rightarrow> nbd_error + nbd_Extent list \<times> int" where
  "status_chunk chunk payload wantID sz extents cursor =
     (if hd_Type chunk = replyTypeBlockStatus then
        (if length payload < 4 then Inl TruncatedStatus
         else let i = get_u32 (take 4 payload); body = drop 4 payload in
           if body = [] \<or> length body mod 8 \<noteq> 0 then Inl (StatusLength (int (length body)))
           else if i \<noteq> wantID then Inr (extents, cursor)
           else descriptors sz body extents cursor)
      else if hd_Type chunk = replyTypeError \<or> hd_Type chunk = replyTypeErrorOffset
      then Inl (parseErrorChunk (hd_Type chunk) payload)
      else if hd_Type chunk = replyTypeNone then Inr (extents, cursor)
      else Inl (UnexpectedChunk (hd_Type chunk)))"

function status_loop :: "64 word \<Rightarrow> 32 word \<Rightarrow> nbd_Extent list \<Rightarrow> int \<Rightarrow> Client \<Rightarrow> (nbd_error + nbd_Extent list) \<times> Client" where
  "status_loop cookie wantID extents cursor c =
     (case readChunkHeader cookie c of
        (Inl e, c1) \<Rightarrow> (Inl e, c1)
      | (Inr chunk, c1) \<Rightarrow>
          (case readChunkPayload chunk c1 of
             (Inl e, c2) \<Rightarrow> (Inl e, c2)
           | (Inr payload, c2) \<Rightarrow>
               (case status_chunk chunk payload wantID (xp_Size (nc_export c)) extents cursor of
                  Inl e \<Rightarrow> (Inl e, c2)
                | Inr (extents', cursor') \<Rightarrow>
                    if is_done chunk then (Inr extents', c2) else status_loop cookie wantID extents' cursor' c2)))"
  by pat_completeness auto
termination
  by (relation "measure (\<lambda>(cookie, wantID, extents, cursor, c). length (nc_in c))")
     (fastforce dest!: readChunkHeader_less [OF sym] readChunkPayload_le [OF sym])+

declare status_loop.simps [simp del]

definition BlockStatus :: "bool \<Rightarrow> bytes \<Rightarrow> int \<Rightarrow> int \<Rightarrow> Client \<Rightarrow> (nbd_error + nbd_Extent list) \<times> Client" where
  "BlockStatus stopped contextName offset len0 c =
     (if \<not> nc_structured c then (Inl NoStructuredReplies, c)
      else case nc_idByContext c contextName of
        None \<Rightarrow> (Inl (ContextMissing contextName), c)
      | Some wantID \<Rightarrow>
          let sz = xp_Size (nc_export c) in
          if offset < 0 \<or> offset \<ge> sz then (Inl (OutsideExport offset len0), c)
          else if len0 \<le> 0 then (Inr [], c)
          else let len1 = (if wrap64 (offset + len0) > sz then wrap64 (sz - offset) else len0);
                   len2 = (if len1 > maxStatusQuery then maxStatusQuery else len1)
               in if nc_closed c then (Inl NbdClosed, c)
                  else case applyDeadline stopped of
                    Inl e \<Rightarrow> (Inl e, c)
                  | Inr _ \<Rightarrow>
                      let (cookie, c1) = nextCookie c in
                      (case sendRequest cmdBlockStatus cookie offset (word_of_int len2) c1 of
                         (Inl e, c2) \<Rightarrow> (Inl e, c2)
                       | (Inr _, c2) \<Rightarrow>
                           (case status_loop cookie wantID [] offset c2 of
                              (Inl e, c3) \<Rightarrow> (Inl e, c3)
                            | (Inr extents, c3) \<Rightarrow>
                                if extents = [] then (Inl (NoExtents contextName), c3) else (Inr extents, c3))))"

text \<open>The last extent of the map grows when the next one continues it with the same flags.\<close>

definition add_extent :: "nbd_Extent list \<Rightarrow> nbd_Extent \<Rightarrow> nbd_Extent list" where
  "add_extent out e =
     (if out \<noteq> [] \<and> nbd_End (last out) = ne_Offset e \<and> ne_Flags (last out) = ne_Flags e
      then butlast out @ [(last out)\<lparr>ne_Length := wrap64 (ne_Length (last out) + ne_Length e)\<rparr>]
      else out @ [e])"

fun add_batch :: "int \<Rightarrow> nbd_Extent list \<Rightarrow> nbd_Extent list \<Rightarrow> int \<Rightarrow> nbd_error + nbd_Extent list \<times> int" where
  "add_batch offset [] out advanced = Inr (out, advanced)"
| "add_batch offset (e # es) out advanced =
     (if ne_Offset e < offset then Inl (ExtentBackwards (ne_Offset e) offset)
      else add_batch offset es (add_extent out e) (wrap64 (advanced + ne_Length e)))"

lemma send_in: "send bs c = (r, c') \<Longrightarrow> nc_in c' = nc_in c \<and> nc_export c' = nc_export c"
  by (auto simp: send_def split: option.splits if_splits)

lemma recv_keeps:
  "recv n c = (r, c') \<Longrightarrow> nc_export c' = nc_export c \<and> nc_structured c' = nc_structured c \<and> nc_idByContext c' = nc_idByContext c"
  by (auto simp: recv_def split: if_splits)

lemma readChunkHeader_keeps:
  "readChunkHeader k c = (r, c') \<Longrightarrow> nc_export c' = nc_export c \<and> nc_structured c' = nc_structured c \<and> nc_idByContext c' = nc_idByContext c"
  by (auto simp: readChunkHeader_def Let_def dest!: recv_keeps split: prod.splits sum.splits if_splits)

lemma readChunkPayload_keeps:
  "readChunkPayload h c = (r, c') \<Longrightarrow> nc_export c' = nc_export c \<and> nc_structured c' = nc_structured c \<and> nc_idByContext c' = nc_idByContext c"
  by (auto simp: readChunkPayload_def dest!: recv_keeps split: if_splits)

lemma send_keeps:
  "send bs c = (r, c') \<Longrightarrow> nc_export c' = nc_export c \<and> nc_structured c' = nc_structured c \<and> nc_idByContext c' = nc_idByContext c"
  by (auto simp: send_def split: option.splits if_splits)

text \<open>What a successful turn of the status loop did.\<close>

lemma status_loop_turn:
  assumes "status_loop cookie wantID extents cursor c = (Inr es, c')"
  obtains chunk payload c2 es1 cur1 where
    "nc_export c2 = nc_export c" "length (nc_in c2) < length (nc_in c)"
    "status_chunk chunk payload wantID (xp_Size (nc_export c)) extents cursor = Inr (es1, cur1)"
    "if is_done chunk then es = es1 \<and> c' = c2 else status_loop cookie wantID es1 cur1 c2 = (Inr es, c')"
proof -
  obtain r1 c1 where h: "readChunkHeader cookie c = (r1, c1)" by (cases "readChunkHeader cookie c")
  obtain chunk where r1: "r1 = Inr chunk" using assms h by (subst (asm) status_loop.simps) (cases r1, auto)
  obtain r2 c2 where p: "readChunkPayload chunk c1 = (r2, c2)" by (cases "readChunkPayload chunk c1")
  obtain payload where r2: "r2 = Inr payload"
    using assms h r1 p by (subst (asm) status_loop.simps) (cases r2, auto)
  obtain es1 cur1 where st: "status_chunk chunk payload wantID (xp_Size (nc_export c)) extents cursor = Inr (es1, cur1)"
    using assms h r1 p r2
    by (subst (asm) status_loop.simps) (cases "status_chunk chunk payload wantID (xp_Size (nc_export c)) extents cursor", auto)
  show thesis
  proof (rule that [OF _ _ st])
    show "nc_export c2 = nc_export c" using readChunkHeader_keeps [OF h] readChunkPayload_keeps [OF p] by simp
    show "length (nc_in c2) < length (nc_in c)"
      using readChunkHeader_less [of cookie c chunk c1] readChunkPayload_le [of chunk c1 payload c2] h p r1 r2 by simp
    show "if is_done chunk then es = es1 \<and> c' = c2 else status_loop cookie wantID es1 cur1 c2 = (Inr es, c')"
      using assms h r1 p r2 st by (subst (asm) status_loop.simps) auto
  qed
qed

lemma status_loop_less:
  "status_loop cookie wantID extents cursor c = (Inr es, c') \<Longrightarrow> length (nc_in c') < length (nc_in c)"
proof (induction "length (nc_in c)" arbitrary: c extents cursor rule: less_induct)
  case less
  obtain chunk payload c2 es1 cur1 where t: "length (nc_in c2) < length (nc_in c)"
    "if is_done chunk then es = es1 \<and> c' = c2 else status_loop cookie wantID es1 cur1 c2 = (Inr es, c')"
    using status_loop_turn [OF less.prems] by metis
  then show ?case using less.hyps [OF t(1)] by (fastforce split: if_splits)
qed

lemma BlockStatus_less:
  assumes "BlockStatus stopped name offset len c = (Inr es, c')" "es \<noteq> []"
  shows "length (nc_in c') < length (nc_in c)"
  using assms
  by (auto simp: BlockStatus_def Let_def nextCookie_def sendRequest_def
      dest!: status_loop_less send_in split: option.splits if_splits prod.splits sum.splits)

lemma add_batch_progress: "add_batch offset es out 0 = Inr (out', a) \<Longrightarrow> 0 < a \<Longrightarrow> es \<noteq> []"
  by (cases es) auto

text \<open>\<open>ctx\<close> is whether the context has ended when the sweep looks and when \<open>BlockStatus\<close> looks, by offset.\<close>

function sweep :: "(int \<Rightarrow> bool) \<times> (int \<Rightarrow> bool) \<Rightarrow> bytes \<Rightarrow> nbd_Extent list \<Rightarrow> int \<Rightarrow> Client \<Rightarrow>
   (nbd_error + nbd_Extent list) \<times> Client" where
  "sweep ctx contextName out offset c =
     (if offset < xp_Size (nc_export c) then
        (if fst ctx offset then (Inl NbdCancelled, c)
         else case BlockStatus (snd ctx offset) contextName offset (wrap64 (xp_Size (nc_export c) - offset)) c of
           (Inl e, c1) \<Rightarrow> (Inl e, c1)
         | (Inr batch, c1) \<Rightarrow>
             (case add_batch offset batch out 0 of
                Inl e \<Rightarrow> (Inl e, c1)
              | Inr (out', advanced) \<Rightarrow>
                  if advanced \<le> 0 then (Inl NoProgress, c1)
                  else sweep ctx contextName out' (wrap64 (offset + advanced)) c1))
      else (Inr out, c))"
  by pat_completeness auto
termination
  by (relation "measure (\<lambda>(ctx, name, out, offset, c). length (nc_in c))")
     (auto simp: not_le dest!: add_batch_progress BlockStatus_less [OF sym])

declare sweep.simps [simp del]

definition ExtentMap :: "(int \<Rightarrow> bool) \<times> (int \<Rightarrow> bool) \<Rightarrow> bytes \<Rightarrow> Client \<Rightarrow> (nbd_error + nbd_Extent list) \<times> Client" where
  "ExtentMap ctx contextName c = sweep ctx contextName [] 0 c"

end
