(* ===== verification/NbdSession.thy ===== *)
theory NbdSession
  imports NbdClient
begin

text \<open>
  What a server sends and what the client makes of it: the wire form of structured replies, reads that
  return the bytes of the export, and maps of extents that tile it.
\<close>

section \<open>Structured replies on the wire\<close>

datatype reply_chunk =
    DataChunk int bytes
  | HoleChunk int nat
  | NoneChunk

fun chunk_type :: "reply_chunk \<Rightarrow> 16 word" where
  "chunk_type (DataChunk off bs) = replyTypeOffsetData"
| "chunk_type (HoleChunk off n) = replyTypeOffsetHole"
| "chunk_type NoneChunk = replyTypeNone"

fun chunk_body :: "reply_chunk \<Rightarrow> bytes" where
  "chunk_body (DataChunk off bs) = put_u64 (word_of_int off) @ bs"
| "chunk_body (HoleChunk off n) = put_u64 (word_of_int off) @ put_u32 (word_of_nat n)"
| "chunk_body NoneChunk = []"

definition wire_chunk :: "64 word \<Rightarrow> 16 word \<Rightarrow> 16 word \<Rightarrow> bytes \<Rightarrow> bytes" where
  "wire_chunk cookie flags ty body =
     put_u32 magicStructuredReply @ put_u16 flags @ put_u16 ty @ put_u64 cookie @
     put_u32 (word_of_nat (length body)) @ body"

text \<open>A reply is a list of chunks, each a type and a body, the last one marked.\<close>

fun wire_parts :: "64 word \<Rightarrow> (16 word \<times> bytes) list \<Rightarrow> bytes" where
  "wire_parts cookie [] = []"
| "wire_parts cookie (p # ps) =
     wire_chunk cookie (if ps = [] then replyFlagDone else 0) (fst p) (snd p) @ wire_parts cookie ps"

definition wire_reply :: "64 word \<Rightarrow> reply_chunk list \<Rightarrow> bytes" where
  "wire_reply cookie chs = wire_parts cookie (map (\<lambda>ch. (chunk_type ch, chunk_body ch)) chs)"

lemma wire_reply_simps [simp]:
  "wire_reply cookie [] = []"
  "wire_reply cookie (ch # chs) =
     wire_chunk cookie (if chs = [] then replyFlagDone else 0) (chunk_type ch) (chunk_body ch) @ wire_reply cookie chs"
  by (simp_all add: wire_reply_def)

lemma recv_append: "length bs = n \<Longrightarrow> recv n (c\<lparr>nc_in := bs @ rest\<rparr>) = (Inr bs, c\<lparr>nc_in := rest\<rparr>)"
  by (simp add: recv_def)

lemma field_skip: "length a = k \<Longrightarrow> k \<le> off \<Longrightarrow> field off n (a @ b) = field (off - k) n b"
  by (simp add: field_def)

lemma field_here: "length a = n \<Longrightarrow> field 0 n (a @ b) = a"
  by (simp add: field_def)

lemma field_all: "length a = n \<Longrightarrow> field 0 n a = a"
  by (simp add: field_def)

lemmas wire_fields = field_skip [where a = "put_u16 v" for v, OF u16.put_length]
  field_skip [where a = "put_u32 v" for v, OF u32.put_length]
  field_skip [where a = "put_u64 v" for v, OF u64.put_length]
  field_here [where a = "put_u16 v" for v, OF u16.put_length]
  field_here [where a = "put_u32 v" for v, OF u32.put_length]
  field_here [where a = "put_u64 v" for v, OF u64.put_length]
  field_all [where a = "put_u16 v" for v, OF u16.put_length]
  field_all [where a = "put_u32 v" for v, OF u32.put_length]
  field_all [where a = "put_u64 v" for v, OF u64.put_length]

lemma unat_len32: "n < 4294967296 \<Longrightarrow> unat (word_of_nat n :: 32 word) = n"
  by (simp add: unat_of_nat)

lemma sint_off64: "in64 x \<Longrightarrow> sint (word_of_int x :: 64 word) = x"
  by (simp add: sint_sbintrunc' signed_take_bit_int_eq_self_iff in64_def)

lemma readChunkHeader_wire:
  assumes "length body \<le> 67108864"
  shows "readChunkHeader cookie (c\<lparr>nc_in := wire_chunk cookie flags ty body @ rest\<rparr>) =
    (Inr \<lparr>hd_Flags = flags, hd_Type = ty, hd_Length = word_of_nat (length body)\<rparr>, c\<lparr>nc_in := body @ rest\<rparr>)"
proof -
  let ?h = "put_u32 magicStructuredReply @ put_u16 flags @ put_u16 ty @ put_u64 cookie @ put_u32 (word_of_nat (length body))"
  have "recv 20 (c\<lparr>nc_in := wire_chunk cookie flags ty body @ rest\<rparr>) = (Inr ?h, c\<lparr>nc_in := body @ rest\<rparr>)"
    using recv_append [where bs = ?h and n = 20 and c = c and rest = "body @ rest"] by (simp add: wire_chunk_def)
  then show ?thesis
    using assms unat_len32 [of "length body"] by (simp add: readChunkHeader_def wire_fields)
qed

lemma readChunkPayload_wire:
  assumes "length body \<le> 67108864" "hd_Length h = word_of_nat (length body)"
  shows "readChunkPayload h (c\<lparr>nc_in := body @ rest\<rparr>) = (Inr body, c\<lparr>nc_in := rest\<rparr>)"
proof (cases "body = []")
  case False
  have len: "unat (hd_Length h) = length body" using assms unat_len32 [of "length body"] by simp
  then have "hd_Length h \<noteq> 0" using False by auto
  then show ?thesis
    using recv_append [where bs = body and n = "length body" and c = c and rest = rest] by (simp add: readChunkPayload_def len)
qed (use assms in \<open>simp add: readChunkPayload_def\<close>)

section \<open>Assembling a read\<close>

fun chunk_size :: "reply_chunk \<Rightarrow> nat" where
  "chunk_size (DataChunk off bs) = length bs"
| "chunk_size (HoleChunk off n) = n"
| "chunk_size NoneChunk = 0"

fun chunk_fits :: "int \<Rightarrow> nat \<Rightarrow> reply_chunk \<Rightarrow> bool" where
  "chunk_fits base n (DataChunk off bs) \<longleftrightarrow> base \<le> off \<and> off + int (length bs) \<le> base + int n \<and> length bs + 8 \<le> 67108864"
| "chunk_fits base n (HoleChunk off k) \<longleftrightarrow> base \<le> off \<and> off + int k \<le> base + int n \<and> k < 4294967296"
| "chunk_fits base n NoneChunk \<longleftrightarrow> True"

fun chunk_effect :: "int \<Rightarrow> bytes \<Rightarrow> reply_chunk \<Rightarrow> bytes" where
  "chunk_effect base buf (DataChunk off bs) = put_at buf (nat (off - base)) bs"
| "chunk_effect base buf (HoleChunk off n) = buf"
| "chunk_effect base buf NoneChunk = buf"

lemma chunk_body_length: "chunk_fits base n ch \<Longrightarrow> length (chunk_body ch) \<le> 67108864"
  by (cases ch) auto

lemma put_at_length: "start + length bs \<le> length buf \<Longrightarrow> length (put_at buf start bs) = length buf"
  by (simp add: put_at_def)

lemma chunk_effect_length:
  assumes "chunk_fits base n ch" "length buf = n"
  shows "length (chunk_effect base buf ch) = n"
proof (cases ch)
  case (DataChunk off bs)
  then have "nat (off - base) + length bs \<le> n" using assms by auto
  then show ?thesis using DataChunk assms by (simp add: put_at_length)
qed (use assms in simp_all)

lemma data_chunk_wire:
  assumes fit: "chunk_fits base n ch" and b: "0 \<le> base" "base + int n < 9223372036854775808" and len: "length buf = n"
    and cov: "0 \<le> covered" "covered + int (chunk_size ch) < 9223372036854775808"
  shows "data_chunk \<lparr>hd_Flags = flags, hd_Type = chunk_type ch, hd_Length = word_of_nat (length (chunk_body ch))\<rparr>
      base buf covered (c\<lparr>nc_in := chunk_body ch @ rest\<rparr>) =
    (Inr (chunk_effect base buf ch, covered + int (chunk_size ch)), c\<lparr>nc_in := rest\<rparr>)"
proof (cases ch)
  case (DataChunk off bs)
  have f: "base \<le> off" "off + int (length bs) \<le> base + int n" "8 + length bs < 4294967296"
    using fit DataChunk by auto
  have s: "sint (word_of_int off :: 64 word) = off" using f b by (intro sint_off64) (simp add: in64_def)
  have w: "wrap64 (off - base) = off - base" "wrap64 (off - base + int (length bs)) = off - base + int (length bs)"
    "wrap64 (covered + int (length bs)) = covered + int (length bs)"
    using f b cov DataChunk by (auto intro!: wrap64_small)
  have r8: "recv 8 (c\<lparr>nc_in := put_u64 (word_of_int off) @ bs @ rest\<rparr>) = (Inr (put_u64 (word_of_int off)), c\<lparr>nc_in := bs @ rest\<rparr>)"
    by (rule recv_append) simp
  have rb: "recv (length bs) (c\<lparr>nc_in := bs @ rest\<rparr>) = (Inr bs, c\<lparr>nc_in := rest\<rparr>)" by (rule recv_append) simp
  have l: "unat (word_of_nat (8 + length bs) :: 32 word) = 8 + length bs" using f(3) by (rule unat_len32)
  have d: "int (8 + length bs) - 8 = int (length bs)" by simp
  show ?thesis
    using DataChunk f len l unfolding data_chunk_def
    by (simp add: r8 rb s w d nbd_replies Let_def del: of_nat_add of_nat_Suc)
next
  case (HoleChunk off k)
  have f: "base \<le> off" "off + int k \<le> base + int n" "k < 4294967296" using fit HoleChunk by auto
  have s: "sint (word_of_int off :: 64 word) = off" using f b by (intro sint_off64) (simp add: in64_def)
  have w: "wrap64 (off - base) = off - base" "wrap64 (off - base + int k) = off - base + int k"
    "wrap64 (covered + int k) = covered + int k"
    using f b cov HoleChunk by (auto intro!: wrap64_small)
  have r: "recv 12 (c\<lparr>nc_in := put_u64 (word_of_int off) @ put_u32 (word_of_nat k) @ rest\<rparr>) =
      (Inr (put_u64 (word_of_int off) @ put_u32 (word_of_nat k)), c\<lparr>nc_in := rest\<rparr>)"
    using recv_append [where bs = "put_u64 (word_of_int off) @ put_u32 (word_of_nat k)" and n = 12 and c = c and rest = rest]
    by simp
  show ?thesis
    using HoleChunk f len by (simp add: data_chunk_def r s w nbd_replies Let_def wire_fields unat_len32)
next
  case NoneChunk
  then show ?thesis by (simp add: data_chunk_def nbd_replies)
qed

lemma data_loop_wire:
  assumes "0 \<le> base" "base + int n < 9223372036854775808" "chs \<noteq> []" "length buf = n" "0 \<le> covered"
    and "list_all (chunk_fits base n) chs" "covered + int (\<Sum>ch\<leftarrow>chs. chunk_size ch) < 9223372036854775808"
  shows "data_loop cookie base buf covered (c\<lparr>nc_in := wire_reply cookie chs @ rest\<rparr>) =
    (Inr (foldl (chunk_effect base) buf chs, covered + int (\<Sum>ch\<leftarrow>chs. chunk_size ch)), c\<lparr>nc_in := rest\<rparr>)"
  using assms
proof (induction chs arbitrary: buf covered)
  case (Cons ch chs)
  let ?fl = "if chs = [] then replyFlagDone else 0"
  have fit: "chunk_fits base n ch" using Cons.prems by simp
  have hd: "readChunkHeader cookie (c\<lparr>nc_in := wire_reply cookie (ch # chs) @ rest\<rparr>) =
      (Inr \<lparr>hd_Flags = ?fl, hd_Type = chunk_type ch, hd_Length = word_of_nat (length (chunk_body ch))\<rparr>,
       c\<lparr>nc_in := chunk_body ch @ wire_reply cookie chs @ rest\<rparr>)"
    using readChunkHeader_wire [OF chunk_body_length [OF fit]] by simp
  have sum: "0 \<le> int (\<Sum>ch\<leftarrow>chs. chunk_size ch)" by simp
  have bound: "covered + int (chunk_size ch) < 9223372036854775808" using Cons.prems(7) sum by simp
  note dc = data_chunk_wire [OF fit Cons.prems(1,2,4,5) bound, where flags = ?fl and c = c and rest = "wire_reply cookie chs @ rest"]
  have len: "length (chunk_effect base buf ch) = n" by (rule chunk_effect_length [OF fit Cons.prems(4)])
  show ?case
  proof (cases "chs = []")
    case True
    then show ?thesis
      using hd dc by (subst data_loop.simps) (simp add: is_done_def replyFlagDone_def)
  next
    case False
    have "data_loop cookie base (chunk_effect base buf ch) (covered + int (chunk_size ch))
        (c\<lparr>nc_in := wire_reply cookie chs @ rest\<rparr>) =
      (Inr (foldl (chunk_effect base) (chunk_effect base buf ch) chs,
        covered + int (chunk_size ch) + int (\<Sum>ch\<leftarrow>chs. chunk_size ch)), c\<lparr>nc_in := rest\<rparr>)"
      using Cons.prems False len by (intro Cons.IH) (auto simp: add.assoc)
    then show ?thesis
      using hd dc False by (subst data_loop.simps) (simp add: is_done_def add.assoc)
  qed
qed simp

text \<open>The part of the export a chunk describes, and that it describes the export's bytes.\<close>

fun chunk_range :: "reply_chunk \<Rightarrow> int set" where
  "chunk_range (DataChunk off bs) = {off..<off + int (length bs)}"
| "chunk_range (HoleChunk off n) = {off..<off + int n}"
| "chunk_range NoneChunk = {}"

fun chunk_honest :: "bytes \<Rightarrow> reply_chunk \<Rightarrow> bool" where
  "chunk_honest img (DataChunk off bs) \<longleftrightarrow> bs = slice img off (int (length bs))"
| "chunk_honest img (HoleChunk off n) \<longleftrightarrow> slice img off (int n) = replicate n 0"
| "chunk_honest img NoneChunk \<longleftrightarrow> True"

text \<open>The bytes described so far are in the buffer and the rest of it is zero.\<close>

definition filled :: "bytes \<Rightarrow> int \<Rightarrow> nat \<Rightarrow> bytes \<Rightarrow> int set \<Rightarrow> bool" where
  "filled img base n buf S \<longleftrightarrow>
     length buf = n \<and> (\<forall>k < n. buf ! k = (if base + int k \<in> S then img ! nat (base + int k) else 0))"

lemma put_at_nth:
  assumes "start + length bs \<le> length buf" "k < length buf"
  shows "put_at buf start bs ! k = (if start \<le> k \<and> k < start + length bs then bs ! (k - start) else buf ! k)"
  using assms by (auto simp: put_at_def nth_append)

lemma slice_nth: "0 \<le> off \<Longrightarrow> off + int n \<le> int (length img) \<Longrightarrow> j < n \<Longrightarrow> slice img off (int n) ! j = img ! (nat off + j)"
  by (simp add: slice_def)

lemma filled_step:
  assumes fl: "filled img base n buf S" and fit: "chunk_fits base n ch" and hon: "chunk_honest img ch"
    and dis: "chunk_range ch \<inter> S = {}" and b: "0 \<le> base" "base + int n \<le> int (length img)"
  shows "filled img base n (chunk_effect base buf ch) (S \<union> chunk_range ch)"
proof (cases ch)
  case (DataChunk off bs)
  define st where "st = nat (off - base)"
  have f: "base \<le> off" "st + length bs \<le> n" "int st = off - base" using fit DataChunk by (auto simp: st_def)
  have len: "length buf = n" using fl by (simp add: filled_def)
  have "put_at buf st bs ! k = (if base + int k \<in> S \<union> chunk_range ch then img ! nat (base + int k) else 0)" if k: "k < n" for k
  proof (cases "st \<le> k \<and> k < st + length bs")
    case True
    have "bs ! (k - st) = img ! (nat off + (k - st))"
    proof -
      have "k - st < length bs" "0 \<le> off" "off + int (length bs) \<le> int (length img)" using True f b by linarith+
      then have "slice img off (int (length bs)) ! (k - st) = img ! (nat off + (k - st))" by (intro slice_nth)
      then show ?thesis using hon DataChunk by simp
    qed
    also have "nat off + (k - st) = nat (base + int k)" using True f b by linarith
    finally show ?thesis using True f k len DataChunk by (auto simp: put_at_nth)
  next
    case False
    then have "base + int k \<notin> chunk_range ch" using f DataChunk by auto
    moreover have "put_at buf st bs ! k = buf ! k" using False k f len by (auto simp: put_at_nth)
    ultimately show ?thesis using fl k by (simp add: filled_def)
  qed
  then show ?thesis using DataChunk len f by (simp add: filled_def put_at_length st_def [symmetric])
next
  case (HoleChunk off m)
  have f: "base \<le> off" "off + int m \<le> base + int n" using fit HoleChunk by auto
  have "buf ! k = (if base + int k \<in> S \<union> chunk_range ch then img ! nat (base + int k) else 0)" if k: "k < n" for k
  proof (cases "base + int k \<in> chunk_range ch")
    case True
    then have j: "off \<le> base + int k" "base + int k < off + int m" using HoleChunk by auto
    have "img ! nat (base + int k) = slice img off (int m) ! nat (base + int k - off)"
      using slice_nth [of off m img "nat (base + int k - off)"] j f b by (simp add: nat_diff_distrib)
    also have "\<dots> = 0" using hon HoleChunk j by simp
    finally show ?thesis using True fl k dis by (auto simp: filled_def)
  next
    case False
    then show ?thesis using fl k by (simp add: filled_def)
  qed
  then show ?thesis using HoleChunk fl by (simp add: filled_def)
qed (use fl in simp)

definition reply_honest :: "bytes \<Rightarrow> int \<Rightarrow> nat \<Rightarrow> reply_chunk list \<Rightarrow> bool" where
  "reply_honest img base n chs \<longleftrightarrow>
     list_all (chunk_fits base n) chs \<and> list_all (chunk_honest img) chs \<and>
     sorted_wrt (\<lambda>x y. chunk_range x \<inter> chunk_range y = {}) chs \<and> (\<Sum>ch\<leftarrow>chs. chunk_size ch) = n"

lemma filled_all:
  assumes "filled img base n buf S" "list_all (chunk_fits base n) chs" "list_all (chunk_honest img) chs"
    and "sorted_wrt (\<lambda>x y. chunk_range x \<inter> chunk_range y = {}) chs" "\<forall>ch \<in> set chs. chunk_range ch \<inter> S = {}"
    and "0 \<le> base" "base + int n \<le> int (length img)"
  shows "filled img base n (foldl (chunk_effect base) buf chs) (S \<union> (\<Union>ch \<in> set chs. chunk_range ch))"
  using assms
proof (induction chs arbitrary: buf S)
  case (Cons ch chs)
  have "filled img base n (chunk_effect base buf ch) (S \<union> chunk_range ch)"
    using Cons.prems by (intro filled_step) auto
  then have "filled img base n (foldl (chunk_effect base) (chunk_effect base buf ch) chs)
      (S \<union> chunk_range ch \<union> (\<Union>ch \<in> set chs. chunk_range ch))"
    by (rule Cons.IH) (use Cons.prems in auto)
  then show ?case by (simp add: Un_assoc)
qed simp

lemma chunk_range_card: "finite (chunk_range ch) \<and> card (chunk_range ch) = chunk_size ch"
  by (cases ch) auto

lemma ranges_card:
  "sorted_wrt (\<lambda>x y. chunk_range x \<inter> chunk_range y = {}) chs \<Longrightarrow>
   finite (\<Union>ch \<in> set chs. chunk_range ch) \<and> card (\<Union>ch \<in> set chs. chunk_range ch) = (\<Sum>ch\<leftarrow>chs. chunk_size ch)"
proof (induction chs)
  case (Cons ch chs)
  then have "chunk_range ch \<inter> (\<Union>ch \<in> set chs. chunk_range ch) = {}" by auto
  then show ?case using Cons chunk_range_card [of ch] by (simp add: card_Un_disjoint)
qed simp

lemma reply_assembles:
  assumes hon: "reply_honest img base n chs" and b: "0 \<le> base" "base + int n \<le> int (length img)"
  shows "foldl (chunk_effect base) (replicate n 0) chs = slice img base (int n)"
proof -
  let ?U = "\<Union>ch \<in> set chs. chunk_range ch" and ?R = "{base..<base + int n}"
  have h: "list_all (chunk_fits base n) chs" "list_all (chunk_honest img) chs" "(\<Sum>ch\<leftarrow>chs. chunk_size ch) = n"
    "sorted_wrt (\<lambda>x y. chunk_range x \<inter> chunk_range y = {}) chs" using hon by (auto simp: reply_honest_def)
  have "chunk_range ch \<subseteq> ?R" if "chunk_fits base n ch" for ch using that by (cases ch) auto
  then have sub: "?U \<subseteq> ?R" using h(1) by (fastforce simp: list_all_iff)
  have "card ?U = card ?R" using ranges_card [OF h(4)] h(3) by simp
  then have U: "?U = ?R" using sub by (intro card_subset_eq) simp_all
  have "filled img base n (replicate n 0) {}" by (simp add: filled_def)
  from filled_all [OF this h(1,2,4) _ b]
  have fl: "filled img base n (foldl (chunk_effect base) (replicate n 0) chs) ?R" using U by simp
  show ?thesis
  proof (rule nth_equalityI)
    show "length (foldl (chunk_effect base) (replicate n 0) chs) = length (slice img base (int n))"
      using fl b by (simp add: filled_def slice_def)
    fix k assume "k < length (foldl (chunk_effect base) (replicate n 0) chs)"
    then have k: "k < n" using fl by (simp add: filled_def)
    then have "foldl (chunk_effect base) (replicate n 0) chs ! k = img ! nat (base + int k)"
      using fl by (simp add: filled_def)
    then show "foldl (chunk_effect base) (replicate n 0) chs ! k = slice img base (int n) ! k"
      using slice_nth [of base n img k] k b by (simp add: nat_add_distrib)
  qed
qed

section \<open>Requests\<close>

definition wire_request :: "16 word \<Rightarrow> 64 word \<Rightarrow> int \<Rightarrow> 32 word \<Rightarrow> bytes" where
  "wire_request command cookie offset len =
     put_u32 magicRequest @ put_u16 0 @ put_u16 command @ put_u64 cookie @ put_u64 (word_of_int offset) @ put_u32 len"

definition has_room :: "Client \<Rightarrow> bool" where
  "has_room c \<longleftrightarrow> (case nc_room c of None \<Rightarrow> True | Some k \<Rightarrow> 28 \<le> k)"

lemma sendRequest_wire:
  assumes "has_room c"
  shows "\<exists>room. sendRequest cmd cookie off len c =
    (Inr (), c\<lparr>nc_out := nc_out c @ wire_request cmd cookie off len, nc_room := room\<rparr>)"
proof (cases "nc_room c")
  case None
  then have "sendRequest cmd cookie off len c =
      (Inr (), c\<lparr>nc_out := nc_out c @ wire_request cmd cookie off len, nc_room := None\<rparr>)"
    by (simp add: sendRequest_def send_def wire_request_def)
  then show ?thesis by blast
next
  case (Some k)
  then have "sendRequest cmd cookie off len c =
      (Inr (), c\<lparr>nc_out := nc_out c @ wire_request cmd cookie off len, nc_room := Some (k - 28)\<rparr>)"
    using assms by (simp add: sendRequest_def send_def wire_request_def has_room_def)
  then show ?thesis by blast
qed

text \<open>A session that can serve a command at \<open>off\<close>.\<close>

definition session_ready :: "Client \<Rightarrow> bytes \<Rightarrow> bool" where
  "session_ready c img \<longleftrightarrow>
     nc_structured c \<and> \<not> nc_closed c \<and> has_room c \<and>
     xp_Size (nc_export c) = int (length img) \<and> int (length img) < 9223372036854775808"

text \<open>
  C22: a read returns the bytes of the export. Whatever chunks the server cuts its answer into, in whatever
  order, as long as they describe the requested range once and truthfully, \<open>ReadAt\<close> sends exactly
  one request, consumes exactly the answer and returns exactly the bytes of the range.
\<close>

theorem nbd_read_returns_image:
  assumes "session_ready c img" "0 < n" "0 \<le> off" "off + int n \<le> int (length img)"
    and "nc_in c = wire_reply (nc_cookie c + 1) chs @ rest" "reply_honest img off n chs"
  shows "\<exists>c'. ReadAt False n off c = (Inr (slice img off (int n)), c') \<and> nc_in c' = rest \<and>
     nc_out c' = nc_out c @ wire_request cmdRead (nc_cookie c + 1) off (word_of_nat n)"
proof -
  let ?k = "nc_cookie c + 1"
  have s: "nc_structured c" "\<not> nc_closed c" "has_room (c\<lparr>nc_cookie := ?k\<rparr>)" "xp_Size (nc_export c) = int (length img)"
    "int (length img) < 9223372036854775808" using assms(1) by (auto simp: session_ready_def has_room_def)
  have w: "wrap64 (off + int n) = off + int n" using assms s by (intro wrap64_small) auto
  obtain room where req: "sendRequest cmdRead ?k off (word_of_nat n) (c\<lparr>nc_cookie := ?k\<rparr>) =
      (Inr (), c\<lparr>nc_cookie := ?k, nc_out := nc_out c @ wire_request cmdRead ?k off (word_of_nat n), nc_room := room\<rparr>)"
    (is "_ = (_, ?c2)")
    using sendRequest_wire [OF s(3), of cmdRead ?k off "word_of_nat n"] by auto
  have c2: "?c2 = ?c2\<lparr>nc_in := wire_reply ?k chs @ rest\<rparr>" using assms(5) by simp
  have h: "chs \<noteq> []" "list_all (chunk_fits off n) chs" "(\<Sum>ch\<leftarrow>chs. chunk_size ch) = n"
    using assms(2,6) by (auto simp: reply_honest_def)
  have "data_loop ?k off (replicate n 0) 0 ?c2 =
      (Inr (foldl (chunk_effect off) (replicate n 0) chs, int n), ?c2\<lparr>nc_in := rest\<rparr>)"
  proof -
    have "off + int n < 9223372036854775808" using assms(4) s(5) by linarith
    then show ?thesis
      using data_loop_wire [OF assms(3) _ h(1), where n = n and c = ?c2 and buf = "replicate n 0" and covered = 0
          and cookie = ?k and rest = rest] h assms(3) unfolding c2 [symmetric] by simp
  qed
  then have "readDataChunks ?k n off ?c2 = (Inr (slice img off (int n)), ?c2\<lparr>nc_in := rest\<rparr>)"
    using reply_assembles [OF assms(6,3,4)] by (simp add: readDataChunks_def)
  then have "ReadAt False n off c = (Inr (slice img off (int n)), ?c2\<lparr>nc_in := rest\<rparr>)"
    using assms s w req by (simp add: ReadAt_def applyDeadline_def nextCookie_def Let_def)
  then show ?thesis by auto
qed

theorem nbd_read_returns_image_witness:
  "\<exists>c'. ReadAt False 4 2 ((new_client (wire_reply 1 [HoleChunk 4 2, NoneChunk, DataChunk 2 [7, 8]] @ [9]) None)
        \<lparr>nc_structured := True, nc_export := (nc_export (new_client [] None))\<lparr>xp_Size := 8\<rparr>\<rparr>) =
      (Inr [7, 8, 0, 0], c') \<and> nc_in c' = [9] \<and> nc_out c' = wire_request cmdRead 1 2 4"
proof -
  let ?img = "[5, 6, 7, 8, 0, 0, 1, 1] :: bytes"
  let ?chs = "[HoleChunk 4 2, NoneChunk, DataChunk 2 [7, 8]]"
  let ?c = "(new_client (wire_reply 1 ?chs @ [9]) None)
     \<lparr>nc_structured := True, nc_export := (nc_export (new_client [] None))\<lparr>xp_Size := 8\<rparr>\<rparr>"
  have "session_ready ?c ?img" by (simp add: session_ready_def new_client_def has_room_def)
  moreover have "reply_honest ?img 2 4 ?chs"
  proof -
    have honest: "list_all (chunk_honest ?img) ?chs" by code_simp
    show ?thesis unfolding reply_honest_def by (intro conjI honest) simp_all
  qed
  moreover have "nc_in ?c = wire_reply (nc_cookie ?c + 1) ?chs @ [9]" "nc_cookie ?c = 0" "nc_out ?c = []"
    by (simp_all add: new_client_def)
  ultimately show ?thesis
    using nbd_read_returns_image [of ?c ?img 4 2 ?chs "[9]"] by (simp add: slice_def)
qed

text \<open>The largest offset a chunk can carry: the end of the chunk wraps around below zero.\<close>

lemma stray_wrap:
  assumes "0 \<le> off" "off < int n" "int n < 4294967296"
  shows "wrap64 (9223372036854775807 - off) = 9223372036854775807 - off"
    "wrap64 (9223372036854775807 - off + int n) = int n - off - 9223372036854775809"
proof -
  show "wrap64 (9223372036854775807 - off) = 9223372036854775807 - off"
    using assms by (intro wrap64_small) auto
  have "9223372036854775807 - off + int n + 9223372036854775808 = (int n - off - 1) + 18446744073709551616" by simp
  moreover have "0 \<le> int n - off - 1" "int n - off - 1 < 18446744073709551616" using assms by linarith+
  ultimately have "(9223372036854775807 - off + int n + 9223372036854775808) mod 18446744073709551616 = int n - off - 1"
    by (simp only: mod_add_self2 mod_pos_pos_trivial)
  then show "wrap64 (9223372036854775807 - off + int n) = int n - off - 9223372036854775809"
    unfolding wrap64_def by linarith
qed

lemma sint_top: "sint (word_of_int 9223372036854775807 :: 64 word) = 9223372036854775807"
  by (rule sint_off64) (simp add: in64_def)

text \<open>A reply of one chunk is what that chunk does to an empty buffer.\<close>

definition done_header :: "reply_chunk \<Rightarrow> chunkHeader" where
  "done_header ch = \<lparr>hd_Flags = replyFlagDone, hd_Type = chunk_type ch, hd_Length = word_of_nat (length (chunk_body ch))\<rparr>"

lemma stray_reply:
  assumes "session_ready c img" "0 \<le> off" "off < int n" "off + int n \<le> int (length img)"
  shows "(\<And>c1. fst (data_chunk (done_header ch) off (replicate n 0) 0 (c1\<lparr>nc_in := chunk_body ch\<rparr>)) = Inr (buf, int n)) \<Longrightarrow>
      length (chunk_body ch) \<le> 67108864 \<Longrightarrow>
      fst (ReadAt False n off (c\<lparr>nc_in := wire_reply (nc_cookie c + 1) [ch]\<rparr>)) = Inr buf"
    and "(\<And>c1. fst (data_chunk (done_header ch) off (replicate n 0) 0 (c1\<lparr>nc_in := chunk_body ch\<rparr>)) = Inl e) \<Longrightarrow>
      length (chunk_body ch) \<le> 67108864 \<Longrightarrow>
      fst (ReadAt False n off (c\<lparr>nc_in := wire_reply (nc_cookie c + 1) [ch]\<rparr>)) = Inl e"
proof -
  let ?k = "nc_cookie c + 1" and ?in = "wire_reply (nc_cookie c + 1) [ch]"
  have s: "nc_structured c" "\<not> nc_closed c" "has_room (c\<lparr>nc_in := ?in, nc_cookie := ?k\<rparr>)" "xp_Size (nc_export c) = int (length img)"
    "int (length img) < 9223372036854775808" using assms(1) by (auto simp: session_ready_def has_room_def)
  have w: "wrap64 (off + int n) = off + int n" using assms s by (intro wrap64_small) auto
  obtain room where req: "sendRequest cmdRead ?k off (word_of_nat n) (c\<lparr>nc_in := ?in, nc_cookie := ?k\<rparr>) =
      (Inr (), c\<lparr>nc_in := ?in, nc_cookie := ?k, nc_out := nc_out c @ wire_request cmdRead ?k off (word_of_nat n), nc_room := room\<rparr>)"
    using sendRequest_wire [OF s(3), of cmdRead ?k off "word_of_nat n"] by auto
  define c1 where "c1 = c\<lparr>nc_cookie := ?k, nc_out := nc_out c @ wire_request cmdRead ?k off (word_of_nat n), nc_room := room\<rparr>"
  have at: "ReadAt False n off (c\<lparr>nc_in := ?in\<rparr>) = readDataChunks ?k n off (c1\<lparr>nc_in := ?in\<rparr>)"
  proof -
    have "c\<lparr>nc_in := ?in, nc_cookie := ?k, nc_out := nc_out c @ wire_request cmdRead ?k off (word_of_nat n), nc_room := room\<rparr> =
        c1\<lparr>nc_in := ?in\<rparr>" by (cases c) (simp add: c1_def)
    moreover have "nc_structured c1" using s by (simp add: c1_def)
    ultimately show ?thesis
      using assms s w req by (auto simp: ReadAt_def applyDeadline_def nextCookie_def Let_def)
  qed
  have loop: "data_loop ?k off (replicate n 0) 0 (c1\<lparr>nc_in := ?in\<rparr>) =
      (case data_chunk (done_header ch) off (replicate n 0) 0 (c1\<lparr>nc_in := chunk_body ch\<rparr>) of
         (Inl e, c2) \<Rightarrow> (Inl e, c2) | (Inr (b, v), c2) \<Rightarrow> (Inr (b, v), c2))"
    if "length (chunk_body ch) \<le> 67108864"
    using readChunkHeader_wire [OF that, where cookie = ?k and flags = replyFlagDone and ty = "chunk_type ch" and c = c1 and rest = "[]"]
    by (subst data_loop.simps) (simp add: done_header_def is_done_def replyFlagDone_def split: sum.splits prod.splits)
  show "fst (ReadAt False n off (c\<lparr>nc_in := ?in\<rparr>)) = Inr buf"
    if "\<And>c1. fst (data_chunk (done_header ch) off (replicate n 0) 0 (c1\<lparr>nc_in := chunk_body ch\<rparr>)) = Inr (buf, int n)"
      "length (chunk_body ch) \<le> 67108864"
    using that(1) [of c1] loop [OF that(2)] unfolding at
    by (cases "data_chunk (done_header ch) off (replicate n 0) 0 (c1\<lparr>nc_in := chunk_body ch\<rparr>)") (simp add: readDataChunks_def)
  show "fst (ReadAt False n off (c\<lparr>nc_in := ?in\<rparr>)) = Inl e"
    if "\<And>c1. fst (data_chunk (done_header ch) off (replicate n 0) 0 (c1\<lparr>nc_in := chunk_body ch\<rparr>)) = Inl e"
      "length (chunk_body ch) \<le> 67108864"
    using that(1) [of c1] loop [OF that(2)] unfolding at
    by (cases "data_chunk (done_header ch) off (replicate n 0) 0 (c1\<lparr>nc_in := chunk_body ch\<rparr>)") (simp add: readDataChunks_def)
qed

text \<open>
  C25: the check of the range of a chunk can be escaped. The end of a chunk is computed in 64 bits and wraps
  around, so for a read at an offset below its length a hole at the largest offset passes the
  check: its size counts as described and the read returns zeros that no chunk described, whatever
  the export holds. A data chunk at that offset makes the client panic.
\<close>

theorem nbd_stray_chunk:
  assumes "session_ready c img" "0 \<le> off" "off < int n" "n + 8 \<le> 67108864" "off + int n \<le> int (length img)"
    and "length bs = n"
  shows "fst (ReadAt False n off (c\<lparr>nc_in := wire_reply (nc_cookie c + 1) [HoleChunk 9223372036854775807 n]\<rparr>)) =
      Inr (replicate n 0) \<and>
    fst (ReadAt False n off (c\<lparr>nc_in := wire_reply (nc_cookie c + 1) [DataChunk 9223372036854775807 bs]\<rparr>)) =
      Inl NbdPanic"
proof
  note w = stray_wrap [OF assms(2,3)] and r = stray_reply [OF assms(1,2,3,5)]
  let ?h = "HoleChunk 9223372036854775807 n" and ?d = "DataChunk 9223372036854775807 bs"
  show "fst (ReadAt False n off (c\<lparr>nc_in := wire_reply (nc_cookie c + 1) [?h]\<rparr>)) = Inr (replicate n 0)"
  proof (rule r(1))
    fix c1
    have "recv 12 (c1\<lparr>nc_in := chunk_body ?h\<rparr>) = (Inr (chunk_body ?h), c1\<lparr>nc_in := []\<rparr>)"
      using recv_append [where bs = "chunk_body ?h" and n = 12 and c = c1 and rest = "[]"] by simp
    then show "fst (data_chunk (done_header ?h) off (replicate n 0) 0 (c1\<lparr>nc_in := chunk_body ?h\<rparr>)) = Inr (replicate n 0, int n)"
      using assms w sint_top unat_len32 [of n]
      by (simp add: data_chunk_def done_header_def nbd_replies Let_def wire_fields wrap64_small)
  qed (use assms in simp)
  show "fst (ReadAt False n off (c\<lparr>nc_in := wire_reply (nc_cookie c + 1) [?d]\<rparr>)) = Inl NbdPanic"
  proof (rule r(2))
    fix c1
    have "recv 8 (c1\<lparr>nc_in := chunk_body ?d\<rparr>) = (Inr (put_u64 (word_of_int 9223372036854775807)), c1\<lparr>nc_in := bs\<rparr>)"
      using recv_append [where bs = "put_u64 (word_of_int 9223372036854775807)" and n = 8 and c = c1 and rest = bs] by simp
    moreover have "unat (hd_Length (done_header ?d)) = n + 8" "hd_Type (done_header ?d) = replyTypeOffsetData"
      using assms unat_len32 [of "8 + n"] by (simp_all add: done_header_def del: of_nat_add)
    ultimately show "fst (data_chunk (done_header ?d) off (replicate n 0) 0 (c1\<lparr>nc_in := chunk_body ?d\<rparr>)) = Inl NbdPanic"
      using assms w sint_top by (simp add: data_chunk_def Let_def)
  qed (use assms in simp)
qed

theorem nbd_stray_chunk_witness:
  "fst (ReadAt False 3 1 ((new_client (wire_reply 1 [HoleChunk 9223372036854775807 3]) None)
      \<lparr>nc_structured := True, nc_export := (nc_export (new_client [] None))\<lparr>xp_Size := 4\<rparr>\<rparr>)) = Inr [0, 0, 0]"
proof -
  let ?c = "\<lambda>input. (new_client input None)\<lparr>nc_structured := True, nc_export := (nc_export (new_client [] None))\<lparr>xp_Size := 4\<rparr>\<rparr>"
  have "session_ready (?c []) [1, 2, 3, 4]" by (simp add: session_ready_def new_client_def has_room_def)
  moreover have "(?c [])\<lparr>nc_in := x\<rparr> = ?c x" "nc_cookie (?c x) = 0" for x by (simp_all add: new_client_def)
  moreover have "replicate 3 0 = [0, 0, 0 :: byte]" by (simp add: numeral_3_eq_3)
  ultimately show ?thesis
    using nbd_stray_chunk [of "?c []" "[1, 2, 3, 4]" 1 3 "[5, 6, 7]"] by (simp del: wire_reply_simps)
qed

section \<open>Maps of extents\<close>

text \<open>Extents that follow each other from \<open>a\<close> to \<open>b\<close>, and the flags they give to each byte.\<close>

fun tiling :: "int \<Rightarrow> nbd_Extent list \<Rightarrow> int \<Rightarrow> bool" where
  "tiling a [] b \<longleftrightarrow> a = b"
| "tiling a (e # es) b \<longleftrightarrow> ne_Offset e = a \<and> 0 < ne_Length e \<and> tiling (a + ne_Length e) es b"

definition byte_flags :: "nbd_Extent list \<Rightarrow> 32 word list" where
  "byte_flags es = concat (map (\<lambda>e. replicate (nat (ne_Length e)) (ne_Flags e)) es)"

definition merged :: "nbd_Extent list \<Rightarrow> bool" where
  "merged es \<longleftrightarrow> successively (\<lambda>x y. ne_Flags x \<noteq> ne_Flags y) es"

lemma tiling_append: "tiling a (xs @ ys) b \<longleftrightarrow> (\<exists>m. tiling a xs m \<and> tiling m ys b)"
  by (induction xs arbitrary: a) auto

lemma tiling_le: "tiling a es b \<Longrightarrow> a \<le> b"
  by (induction es arbitrary: a) fastforce+

lemma tiling_pos: "tiling a es b \<Longrightarrow> es \<noteq> [] \<Longrightarrow> a < b"
  by (cases es) (auto dest!: tiling_le)

lemma byte_flags_simps [simp]:
  "byte_flags [] = []" "byte_flags (e # es) = replicate (nat (ne_Length e)) (ne_Flags e) @ byte_flags es"
  "byte_flags (xs @ ys) = byte_flags xs @ byte_flags ys"
  by (simp_all add: byte_flags_def)

lemma descriptors_tile:
  "descriptors sz body extents cursor = Inr (es, cur) \<Longrightarrow> tiling a extents cursor \<Longrightarrow> 0 \<le> cursor \<Longrightarrow> cursor \<le> sz \<Longrightarrow>
   sz < 4611686018427387904 \<Longrightarrow> tiling a es cur \<and> 0 \<le> cur \<and> cur \<le> sz"
proof (induction sz body extents cursor rule: descriptors.induct)
  case (1 sz body extents cursor)
  let ?len = "int (unat (get_u32 (field 0 4 body)))"
  have "?len < 4294967296" using unsigned_less [of "get_u32 (field 0 4 body)"] by simp
  then have w: "wrap64 (cursor + ?len) = cursor + ?len" "wrap64 (sz - cursor) = sz - cursor"
    "wrap64 (cursor + (sz - cursor)) = sz"
    using "1.prems"(3-5) by (auto intro!: wrap64_small)
  show ?case
  proof (cases "length body < 8 \<or> ?len \<le> 0 \<or> cursor + ?len > sz \<and> sz - cursor \<le> 0")
    case True
    then show ?thesis
      using "1.prems" w by (subst (asm) descriptors.simps) (auto simp: Let_def split: if_splits)
  next
    case False
    then have f: "\<not> length body < 8" "\<not> ?len \<le> 0" by simp_all
    show ?thesis
    proof (cases "cursor + ?len > sz")
      case True
      with False have p: "\<not> sz - cursor \<le> 0" by simp
      let ?e = "\<lparr>ne_Offset = cursor, ne_Length = sz - cursor, ne_Flags = get_u32 (field 4 4 body)\<rparr>"
      have "descriptors sz (drop 8 body) (extents @ [?e]) sz = Inr (es, cur)"
        using "1.prems"(1) f p True w by (subst (asm) descriptors.simps) (simp add: Let_def)
      then show ?thesis
        using "1.IH"(1) [OF f(1) refl refl f(2) _ refl] "1.prems" f p True w by (auto simp: tiling_append)
    next
      case le: False
      let ?e = "\<lparr>ne_Offset = cursor, ne_Length = ?len, ne_Flags = get_u32 (field 4 4 body)\<rparr>"
      have "descriptors sz (drop 8 body) (extents @ [?e]) (cursor + ?len) = Inr (es, cur)"
        using "1.prems"(1) f le w by (subst (asm) descriptors.simps) (simp add: Let_def)
      moreover have "0 < ?len" using f(2) by linarith
      ultimately show ?thesis
        using "1.IH"(2) [OF f(1) refl refl f(2)] "1.prems" f le w by (auto simp: tiling_append)
    qed
  qed
qed

lemma status_chunk_tile:
  assumes "status_chunk chunk payload wantID sz extents cursor = Inr (es, cur)" "tiling a extents cursor"
    and "0 \<le> cursor" "cursor \<le> sz" "sz < 4611686018427387904"
  shows "tiling a es cur \<and> 0 \<le> cur \<and> cur \<le> sz"
  using assms descriptors_tile by (auto simp: status_chunk_def Let_def split: if_splits)

lemma status_loop_tile:
  assumes "status_loop cookie wantID extents cursor c = (Inr es, c')" "tiling a extents cursor"
    and "0 \<le> cursor" "cursor \<le> xp_Size (nc_export c)" "xp_Size (nc_export c) < 4611686018427387904"
  shows "nc_export c' = nc_export c \<and> (\<exists>b. tiling a es b \<and> b \<le> xp_Size (nc_export c))"
  using assms
proof (induction "length (nc_in c)" arbitrary: c extents cursor rule: less_induct)
  case less
  obtain chunk payload c2 es1 cur1 where t:
    "nc_export c2 = nc_export c" "length (nc_in c2) < length (nc_in c)"
    "status_chunk chunk payload wantID (xp_Size (nc_export c)) extents cursor = Inr (es1, cur1)"
    "if is_done chunk then es = es1 \<and> c' = c2 else status_loop cookie wantID es1 cur1 c2 = (Inr es, c')"
    using status_loop_turn [OF less.prems(1)] .
  have tile: "tiling a es1 cur1 \<and> 0 \<le> cur1 \<and> cur1 \<le> xp_Size (nc_export c)"
    by (rule status_chunk_tile [OF t(3) less.prems(2-5)])
  show ?case
  proof (cases "is_done chunk")
    case True
    then show ?thesis using t tile by auto
  next
    case False
    then show ?thesis using less.hyps [OF t(2), of es1 cur1] t tile less.prems(5) by auto
  qed
qed

lemma BlockStatus_tile:
  assumes "BlockStatus stopped name offset len c = (Inr es, c')" "xp_Size (nc_export c) < 4611686018427387904" "0 < len"
  shows "nc_export c' = nc_export c \<and> es \<noteq> [] \<and> (\<exists>b. tiling offset es b \<and> b \<le> xp_Size (nc_export c))"
proof -
  obtain wantID where id: "nc_idByContext c name = Some wantID" "nc_structured c" "0 \<le> offset" "offset < xp_Size (nc_export c)"
    using assms by (auto simp: BlockStatus_def Let_def split: option.splits if_splits)
  obtain c2 where c2: "nc_export c2 = nc_export c" "status_loop (nc_cookie c + 1) wantID [] offset c2 = (Inr es, c')" "es \<noteq> []"
    using assms id
    by (auto simp: BlockStatus_def Let_def nextCookie_def sendRequest_def
        dest!: send_keeps split: option.splits if_splits prod.splits sum.splits)
  show ?thesis using status_loop_tile [OF c2(2), of offset] c2 id assms(2) by auto
qed

lemma add_extent_tile:
  assumes t: "tiling 0 out a" and e: "ne_Offset e = a" "0 < ne_Length e" and m: "merged out"
    and b: "a + ne_Length e < 9223372036854775808"
  shows "tiling 0 (add_extent out e) (a + ne_Length e) \<and> merged (add_extent out e) \<and>
    byte_flags (add_extent out e) = byte_flags out @ byte_flags [e]"
proof (cases out rule: rev_cases)
  case Nil
  then show ?thesis using t e by (simp add: add_extent_def merged_def)
next
  case (snoc xs l)
  then have l: "tiling 0 xs (ne_Offset l)" "0 < ne_Length l" "ne_Offset l + ne_Length l = a" using t by (auto simp: tiling_append)
  have "0 \<le> ne_Offset l" using tiling_le [OF l(1)] .
  then have w: "nbd_End l = a" "wrap64 (ne_Length l + ne_Length e) = ne_Length l + ne_Length e"
    using l e b by (auto simp: nbd_End_def intro!: wrap64_small)
  show ?thesis
  proof (cases "ne_Flags l = ne_Flags e")
    case True
    then have "add_extent out e = xs @ [l\<lparr>ne_Length := ne_Length l + ne_Length e\<rparr>]"
      using snoc w e by (simp add: add_extent_def)
    then show ?thesis
      using snoc l e True m
      by (auto simp: tiling_append merged_def successively_append_iff nat_add_distrib replicate_add)
  next
    case False
    then have "add_extent out e = out @ [e]" using snoc by (simp add: add_extent_def)
    then show ?thesis
      using snoc l e False m t by (auto simp: tiling_append merged_def successively_append_iff)
  qed
qed

lemma add_batch_tile:
  assumes "add_batch offset es out adv = Inr (out', adv')" "tiling 0 out a" "tiling a es b" "merged out"
    and "0 \<le> adv" "adv + (b - a) < 9223372036854775808" "b < 9223372036854775808"
  shows "tiling 0 out' b \<and> merged out' \<and> byte_flags out' = byte_flags out @ byte_flags es \<and> adv' = adv + (b - a)"
  using assms
proof (induction es arbitrary: out adv a)
  case (Cons e es)
  have e: "ne_Offset e = a" "0 < ne_Length e" "tiling (a + ne_Length e) es b" using Cons.prems(3) by auto
  have le: "a + ne_Length e \<le> b" using tiling_le [OF e(3)] .
  note s = add_extent_tile [OF Cons.prems(2) e(1,2) Cons.prems(4)]
  have w: "wrap64 (adv + ne_Length e) = adv + ne_Length e" using Cons.prems le e by (intro wrap64_small) auto
  have "add_batch offset es (add_extent out e) (adv + ne_Length e) = Inr (out', adv')"
    using Cons.prems(1) w by (auto split: if_splits)
  from Cons.IH [OF this _ e(3)] s Cons.prems le e show ?case by auto
qed simp

lemma sweep_tile:
  assumes "sweep ctx name out offset c = (Inr m, c')" "tiling 0 out offset" "merged out"
    and "offset \<le> xp_Size (nc_export c)" "xp_Size (nc_export c) < 4611686018427387904"
  shows "tiling 0 m (xp_Size (nc_export c)) \<and> merged m"
  using assms
proof (induction "length (nc_in c)" arbitrary: c out offset rule: less_induct)
  case less
  let ?sz = "xp_Size (nc_export c)"
  show ?case
  proof (cases "offset < ?sz")
    case False
    then show ?thesis using less.prems by (subst (asm) sweep.simps) auto
  next
    case True
    have pos: "0 \<le> offset" using tiling_le [OF less.prems(2)] .
    have w: "wrap64 (?sz - offset) = ?sz - offset" using True less.prems pos by (intro wrap64_small) auto
    obtain batch c1 out' adv where b: "BlockStatus (snd ctx offset) name offset (?sz - offset) c = (Inr batch, c1)"
      "add_batch offset batch out 0 = Inr (out', adv)" "0 < adv" "sweep ctx name out' (wrap64 (offset + adv)) c1 = (Inr m, c')"
      using less.prems(1) True w
      by (subst (asm) sweep.simps) (auto split: if_splits prod.splits sum.splits)
    obtain b1 where t: "nc_export c1 = nc_export c" "batch \<noteq> []" "tiling offset batch b1" "b1 \<le> ?sz"
      using BlockStatus_tile [OF b(1) less.prems(5)] True by auto
    have a: "tiling 0 out' b1" "merged out'" "adv = b1 - offset"
      using add_batch_tile [OF b(2) less.prems(2) t(3) less.prems(3)] pos t less.prems(5) by auto
    have "wrap64 (offset + adv) = b1" using a pos t less.prems(5) tiling_le [OF t(3)] by (auto intro!: wrap64_small)
    then show ?thesis
      using less.hyps [OF BlockStatus_less [OF b(1) t(2)], of out' b1] b(4) a t less.prems(5) by simp
  qed
qed

section \<open>The map a truthful server gives\<close>

datatype status_part = StatusPart "32 word" "(nat \<times> 32 word) list" | StatusNone

definition descriptor_bytes :: "(nat \<times> 32 word) list \<Rightarrow> bytes" where
  "descriptor_bytes ds = concat (map (\<lambda>(l, f). put_u32 (word_of_nat l) @ put_u32 f) ds)"

fun part_wire :: "status_part \<Rightarrow> 16 word \<times> bytes" where
  "part_wire (StatusPart i ds) = (replyTypeBlockStatus, put_u32 i @ descriptor_bytes ds)"
| "part_wire StatusNone = (replyTypeNone, [])"

definition ds_ok :: "(nat \<times> 32 word) list \<Rightarrow> bool" where
  "ds_ok ds \<longleftrightarrow> list_all (\<lambda>(l, f). 0 < l \<and> l < 4294967296) ds"

fun part_ok :: "status_part \<Rightarrow> bool" where
  "part_ok (StatusPart i ds) \<longleftrightarrow> ds \<noteq> [] \<and> length ds \<le> 8388607 \<and> ds_ok ds"
| "part_ok StatusNone \<longleftrightarrow> True"

text \<open>The descriptors for one context, and the extents they lay out from \<open>cur\<close>, cut at the end of the export.\<close>

fun own_part :: "32 word \<Rightarrow> status_part \<Rightarrow> (nat \<times> 32 word) list" where
  "own_part wantID (StatusPart i ds) = (if i = wantID then ds else [])"
| "own_part wantID StatusNone = []"

definition own :: "32 word \<Rightarrow> status_part list \<Rightarrow> (nat \<times> 32 word) list" where
  "own wantID ps = concat (map (own_part wantID) ps)"

fun laid :: "int \<Rightarrow> int \<Rightarrow> (nat \<times> 32 word) list \<Rightarrow> nbd_Extent list" where
  "laid sz cur [] = []"
| "laid sz cur ((l, f) # ds) =
     (if sz \<le> cur then []
      else \<lparr>ne_Offset = cur, ne_Length = min (int l) (sz - cur), ne_Flags = f\<rparr> # laid sz (cur + int l) ds)"

definition laid_end :: "int \<Rightarrow> int \<Rightarrow> (nat \<times> 32 word) list \<Rightarrow> int" where
  "laid_end sz cur ds = min sz (cur + int (\<Sum>(l, f)\<leftarrow>ds. l))"

lemma laid_beyond: "sz \<le> cur \<Longrightarrow> laid sz cur ds = []"
  by (cases ds) auto

lemma descriptor_bytes_simps [simp]:
  "descriptor_bytes [] = []"
  "descriptor_bytes ((l, f) # ds) = put_u32 (word_of_nat l) @ put_u32 f @ descriptor_bytes ds"
  by (simp_all add: descriptor_bytes_def)

lemma descriptor_bytes_length [simp]: "length (descriptor_bytes ds) = 8 * length ds"
  by (induction ds) auto

lemma descriptors_wire:
  assumes "ds_ok ds" "0 \<le> cur" "cur \<le> sz" "sz < 4611686018427387904"
  shows "descriptors sz (descriptor_bytes ds) extents cur = Inr (extents @ laid sz cur ds, laid_end sz cur ds)"
  using assms
proof (induction ds arbitrary: extents cur)
  case Nil
  then show ?case by (subst descriptors.simps) (simp add: laid_end_def)
next
  case (Cons d ds)
  obtain l f where d: "d = (l, f)" by (cases d)
  let ?b = "put_u32 (word_of_nat l) @ put_u32 f @ descriptor_bytes ds"
  have l: "0 < l" "l < 4294967296" "ds_ok ds" using Cons.prems(1) by (auto simp: ds_ok_def d)
  have u: "unat (word_of_nat l :: 32 word) = l" using l(2) by (rule unat_len32)
  have w: "wrap64 (cur + int l) = cur + int l" "wrap64 (sz - cur) = sz - cur" "wrap64 sz = sz"
    using Cons.prems l by (auto intro!: wrap64_small)
  have fl: "field 0 4 ?b = put_u32 (word_of_nat l)" "field 4 4 ?b = put_u32 f" "drop 8 ?b = descriptor_bytes ds"
    by (simp_all add: field_def)
  show ?case
  proof (cases "cur + int l > sz")
    case True
    show ?thesis
    proof (cases "cur = sz")
      case True
      then show ?thesis using l w u fl
        by (subst descriptors.simps) (simp add: d Let_def laid_end_def)
    next
      case False
      have IH: "descriptors sz (descriptor_bytes ds) ex sz = Inr (ex, sz)" for ex
        using Cons.IH [OF l(3), of sz ex] Cons.prems by (simp add: laid_beyond laid_end_def)
      show ?thesis using True False l w u fl IH Cons.prems
        by (subst descriptors.simps) (simp add: d Let_def laid_end_def laid_beyond min_def)
    qed
  next
    case False
    then show ?thesis
      using Cons.IH [OF l(3), of "cur + int l"] l w u fl Cons.prems
      by (subst descriptors.simps) (simp add: d Let_def laid_end_def add.assoc)
  qed
qed

lemma laid_append: "laid sz cur (xs @ ys) = laid sz cur xs @ laid sz (cur + int (\<Sum>(l, f)\<leftarrow>xs. l)) ys"
proof (induction xs arbitrary: cur)
  case (Cons x xs)
  obtain l f where x: "x = (l, f)" by (cases x)
  show ?case
  proof (cases "sz \<le> cur")
    case True
    have "0 \<le> int (\<Sum>(l, f)\<leftarrow>x # xs. l)" by (rule of_nat_0_le_iff)
    with True have "sz \<le> cur + int (\<Sum>(l, f)\<leftarrow>x # xs. l)" by linarith
    then show ?thesis using True by (simp add: laid_beyond x)
  next
    case False
    then show ?thesis using Cons.IH [of "cur + int l"] by (simp add: x add.assoc)
  qed
qed simp

lemma laid_from_end: "laid sz (laid_end sz cur xs) ys = laid sz (cur + int (\<Sum>(l, f)\<leftarrow>xs. l)) ys"
  by (cases "cur + int (\<Sum>(l, f)\<leftarrow>xs. l) \<le> sz") (simp_all add: laid_end_def laid_beyond min_def)

lemma laid_end_append: "laid_end sz (laid_end sz cur xs) ys = laid_end sz cur (xs @ ys)"
  by (simp add: laid_end_def)

lemma laid_end_bounds: "0 \<le> cur \<Longrightarrow> cur \<le> sz \<Longrightarrow> cur \<le> laid_end sz cur ds \<and> laid_end sz cur ds \<le> sz"
  by (simp add: laid_end_def)

lemma status_chunk_wire:
  assumes "part_ok p" "0 \<le> cur" "cur \<le> sz" "sz < 4611686018427387904" "hd_Type h = fst (part_wire p)"
  shows "status_chunk h (snd (part_wire p)) wantID sz extents cur =
    Inr (extents @ laid sz cur (own_part wantID p), laid_end sz cur (own_part wantID p))"
proof (cases p)
  case (StatusPart i ds)
  have "descriptor_bytes ds \<noteq> []" using assms(1) StatusPart by (metis descriptor_bytes_length length_0_conv mult_eq_0_iff part_ok.simps(1) zero_neq_numeral)
  then show ?thesis
    using descriptors_wire [of ds cur sz extents] assms StatusPart
    by (auto simp: status_chunk_def Let_def laid_end_def)
next
  case StatusNone
  then show ?thesis using assms by (simp add: status_chunk_def nbd_replies laid_end_def)
qed

lemma part_wire_length: "part_ok p \<Longrightarrow> length (snd (part_wire p)) \<le> 67108864"
  by (cases p) auto

lemma status_loop_wire:
  assumes "list_all part_ok ps" "ps \<noteq> []" "0 \<le> cur" "cur \<le> xp_Size (nc_export c)" "xp_Size (nc_export c) < 4611686018427387904"
  shows "status_loop cookie wantID extents cur (c\<lparr>nc_in := wire_parts cookie (map part_wire ps) @ rest\<rparr>) =
    (Inr (extents @ laid (xp_Size (nc_export c)) cur (own wantID ps)), c\<lparr>nc_in := rest\<rparr>)"
  using assms
proof (induction ps arbitrary: extents cur)
  case (Cons p ps)
  let ?sz = "xp_Size (nc_export c)" and ?fl = "if ps = [] then replyFlagDone else 0"
  let ?h = "\<lparr>hd_Flags = ?fl, hd_Type = fst (part_wire p), hd_Length = word_of_nat (length (snd (part_wire p)))\<rparr>"
  have p: "part_ok p" "list_all part_ok ps" using Cons.prems by auto
  have h: "readChunkHeader cookie (c\<lparr>nc_in := wire_parts cookie (map part_wire (p # ps)) @ rest\<rparr>) =
      (Inr ?h, c\<lparr>nc_in := snd (part_wire p) @ wire_parts cookie (map part_wire ps) @ rest\<rparr>)"
    using readChunkHeader_wire [OF part_wire_length [OF p(1)]] by simp
  have b: "readChunkPayload ?h (c\<lparr>nc_in := snd (part_wire p) @ wire_parts cookie (map part_wire ps) @ rest\<rparr>) =
      (Inr (snd (part_wire p)), c\<lparr>nc_in := wire_parts cookie (map part_wire ps) @ rest\<rparr>)"
    by (rule readChunkPayload_wire [OF part_wire_length [OF p(1)]]) simp
  have s: "status_chunk ?h (snd (part_wire p)) wantID ?sz extents cur =
      Inr (extents @ laid ?sz cur (own_part wantID p), laid_end ?sz cur (own_part wantID p))"
    by (rule status_chunk_wire [OF p(1) Cons.prems(3-5)]) simp
  have o: "own wantID (p # ps) = own_part wantID p @ own wantID ps" by (simp add: own_def)
  show ?case
  proof (cases "ps = []")
    case True
    then show ?thesis
      using h b s by (subst status_loop.simps) (simp add: is_done_def replyFlagDone_def own_def)
  next
    case False
    have "status_loop cookie wantID (extents @ laid ?sz cur (own_part wantID p)) (laid_end ?sz cur (own_part wantID p))
        (c\<lparr>nc_in := wire_parts cookie (map part_wire ps) @ rest\<rparr>) =
      (Inr ((extents @ laid ?sz cur (own_part wantID p)) @ laid ?sz (laid_end ?sz cur (own_part wantID p)) (own wantID ps)),
       c\<lparr>nc_in := rest\<rparr>)"
      using laid_end_bounds [OF Cons.prems(3,4), of "own_part wantID p"] Cons.prems(3,5) p False by (intro Cons.IH) auto
    then show ?thesis
      using h b s False by (subst status_loop.simps) (simp add: is_done_def o laid_append laid_from_end)
  qed
qed simp

text \<open>\<open>st\<close> gives the flags of every byte; descriptors from \<open>cur\<close> on are true to it up to the end of the export.\<close>

fun truthful :: "(int \<Rightarrow> 32 word) \<Rightarrow> int \<Rightarrow> int \<Rightarrow> (nat \<times> 32 word) list \<Rightarrow> bool" where
  "truthful st sz cur [] \<longleftrightarrow> True"
| "truthful st sz cur ((l, f) # ds) \<longleftrightarrow>
     list_all (\<lambda>k. st k = f) [cur..min (cur + int l) sz - 1] \<and> truthful st sz (cur + int l) ds"

lemma map_const_upto:
  assumes "list_all (\<lambda>k. st k = f) [a..b - 1]"
  shows "map st [a..b - 1] = replicate (nat (b - a)) f"
proof (rule replicate_eqI)
  show "length (map st [a..b - 1]) = nat (b - a)" by simp
  show "y = f" if "y \<in> set (map st [a..b - 1])" for y using that assms by (auto simp: list_all_iff)
qed

lemma laid_true:
  assumes "truthful st sz cur ds" "ds_ok ds" "cur \<le> sz"
  shows "tiling cur (laid sz cur ds) (laid_end sz cur ds) \<and> byte_flags (laid sz cur ds) = map st [cur..laid_end sz cur ds - 1]"
  using assms
proof (induction ds arbitrary: cur)
  case (Cons d ds)
  obtain l f where d: "d = (l, f)" by (cases d)
  have l: "0 < l" "ds_ok ds" using Cons.prems(2) by (auto simp: ds_ok_def d)
  have tr: "list_all (\<lambda>k. st k = f) [cur..min (cur + int l) sz - 1]" "truthful st sz (cur + int l) ds"
    using Cons.prems(1) by (auto simp: d)
  show ?case
  proof (cases "sz \<le> cur")
    case True
    then show ?thesis using Cons.prems(3) by (simp add: d laid_end_def)
  next
    case False
    note head = map_const_upto [OF tr(1)]
    show ?thesis
    proof (cases "cur + int l \<le> sz")
      case True
      have "map st [cur..laid_end sz cur (d # ds) - 1] =
          map st [cur..cur + int l - 1] @ map st [cur + int l..laid_end sz (cur + int l) ds - 1]"
      proof -
        have "laid_end sz cur (d # ds) = laid_end sz (cur + int l) ds" by (simp add: laid_end_def d add.assoc)
        moreover have "cur + int l \<le> laid_end sz (cur + int l) ds" using True by (simp add: laid_end_def)
        ultimately show ?thesis
          using upto_split2 [of cur "cur + int l - 1" "laid_end sz (cur + int l) ds - 1"] l
          by (simp add: map_append [symmetric] del: map_append)
      qed
      then show ?thesis
        using Cons.IH [OF tr(2) l(2) True] False True head l by (simp add: d laid_end_def add.assoc min_def)
    next
      case le: False
      then have "laid_end sz cur (d # ds) = sz" "laid sz (cur + int l) ds = []"
        by (simp_all add: laid_end_def d laid_beyond)
      then show ?thesis using False le head by (simp add: d min_def)
    qed
  qed
qed (simp add: laid_end_def)

text \<open>
  The answers of a sweep, each under the next cookie: every one describes the queried context from the
  current position on, truthfully, and the last one reaches the end of the export.
\<close>

fun wire_answers :: "64 word \<Rightarrow> status_part list list \<Rightarrow> bytes" where
  "wire_answers cookie [] = []"
| "wire_answers cookie (a # as) = wire_parts cookie (map part_wire a) @ wire_answers (cookie + 1) as"

fun answers_true :: "(int \<Rightarrow> 32 word) \<Rightarrow> int \<Rightarrow> 32 word \<Rightarrow> int \<Rightarrow> status_part list list \<Rightarrow> bool" where
  "answers_true st sz wantID cur [] \<longleftrightarrow> cur = sz"
| "answers_true st sz wantID cur (a # as) \<longleftrightarrow>
     cur < sz \<and> list_all part_ok a \<and> own wantID a \<noteq> [] \<and> truthful st sz cur (own wantID a) \<and>
     answers_true st sz wantID (laid_end sz cur (own wantID a)) as"

lemma own_ok: "list_all part_ok ps \<Longrightarrow> ds_ok (own wantID ps)"
proof (induction ps)
  case (Cons p ps)
  then show ?case by (cases p) (auto simp: own_def ds_ok_def)
qed (simp add: own_def ds_ok_def)

lemma BlockStatus_wire:
  assumes c: "nc_structured c" "nc_idByContext c name = Some wantID" "\<not> nc_closed c" "nc_room c = None"
    and o: "0 \<le> off" "off < xp_Size (nc_export c)" "xp_Size (nc_export c) < 4611686018427387904"
    and a: "list_all part_ok a" "own wantID a \<noteq> []" "nc_in c = wire_parts (nc_cookie c + 1) (map part_wire a) @ rest"
  shows "\<exists>c'. BlockStatus False name off (xp_Size (nc_export c) - off) c = (Inr (laid (xp_Size (nc_export c)) off (own wantID a)), c') \<and>
    nc_structured c' \<and> nc_idByContext c' name = Some wantID \<and> \<not> nc_closed c' \<and> nc_room c' = None \<and>
    nc_export c' = nc_export c \<and> nc_cookie c' = nc_cookie c + 1 \<and> nc_in c' = rest"
proof -
  let ?sz = "xp_Size (nc_export c)" and ?k = "nc_cookie c + 1"
  let ?len = "if ?sz - off > maxStatusQuery then maxStatusQuery else ?sz - off"
  have w: "wrap64 ?sz = ?sz" using o by (intro wrap64_small) auto
  define c2 where "c2 = c\<lparr>nc_cookie := ?k, nc_out := nc_out c @ wire_request cmdBlockStatus ?k off (word_of_int ?len)\<rparr>"
  have req: "sendRequest cmdBlockStatus ?k off (word_of_int ?len) (c\<lparr>nc_cookie := ?k\<rparr>) = (Inr (), c2)"
    using c(4) by (simp add: sendRequest_def send_def wire_request_def c2_def)
  have c2: "c2\<lparr>nc_in := wire_parts ?k (map part_wire a) @ rest\<rparr> = c2" "nc_export c2 = nc_export c"
    using a(3) by (simp_all add: c2_def)
  have ne: "a \<noteq> []" using a(2) by (auto simp: own_def)
  have "status_loop ?k wantID [] off c2 = (Inr (laid ?sz off (own wantID a)), c2\<lparr>nc_in := rest\<rparr>)"
    using status_loop_wire [OF a(1) ne o(1), where c = c2 and cookie = ?k and wantID = wantID and extents = "[]" and rest = rest] o c2
    by simp
  moreover have "laid ?sz off (own wantID a) \<noteq> []" using a(2) o(2) by (cases "own wantID a") auto
  ultimately have "BlockStatus False name off (?sz - off) c = (Inr (laid ?sz off (own wantID a)), c2\<lparr>nc_in := rest\<rparr>)"
    using c o w req by (simp add: BlockStatus_def Let_def applyDeadline_def nextCookie_def)
  then show ?thesis using c by (simp add: c2_def)
qed

lemma add_batch_succeeds:
  "tiling a es b \<Longrightarrow> offset \<le> a \<Longrightarrow> \<exists>x. add_batch offset es out adv = Inr x"
proof (induction es arbitrary: a out adv)
  case (Cons e es)
  then have "tiling (a + ne_Length e) es b" "offset \<le> a + ne_Length e" "\<not> ne_Offset e < offset" by auto
  then show ?case using Cons.IH by simp
qed simp

lemma sweep_true:
  assumes "nc_structured c" "nc_idByContext c name = Some wantID" "\<not> nc_closed c" "nc_room c = None"
    and "0 \<le> off" "off \<le> xp_Size (nc_export c)" "xp_Size (nc_export c) < 4611686018427387904"
    and "nc_in c = wire_answers (nc_cookie c + 1) as @ rest" "answers_true st (xp_Size (nc_export c)) wantID off as"
    and "tiling 0 out off" "merged out" "byte_flags out = map st [0..off - 1]"
  shows "\<exists>m c'. sweep (\<lambda>_. False, \<lambda>_. False) name out off c = (Inr m, c') \<and> nc_in c' = rest \<and>
    byte_flags m = map st [0..xp_Size (nc_export c) - 1]"
  using assms
proof (induction as arbitrary: c out off)
  case Nil
  then show ?case by (subst sweep.simps) auto
next
  case (Cons a as)
  let ?sz = "xp_Size (nc_export c)" and ?ds = "own wantID a" and ?ctx = "(\<lambda>_ :: int. False, \<lambda>_ :: int. False)"
  have t: "off < ?sz" "list_all part_ok a" "?ds \<noteq> []" "truthful st ?sz off ?ds" "answers_true st ?sz wantID (laid_end ?sz off ?ds) as"
    using Cons.prems(9) by simp_all
  let ?b = "laid_end ?sz off ?ds"
  have w: "wrap64 (?sz - off) = ?sz - off" using t(1) Cons.prems(5,7) by (intro wrap64_small) auto
  have "nc_in c = wire_parts (nc_cookie c + 1) (map part_wire a) @ wire_answers (nc_cookie c + 1 + 1) as @ rest"
    using Cons.prems(8) by simp
  from BlockStatus_wire [OF Cons.prems(1-5) t(1) Cons.prems(7) t(2,3) this]
  obtain c1 where c1: "BlockStatus False name off (?sz - off) c = (Inr (laid ?sz off ?ds), c1)"
    "nc_structured c1" "nc_idByContext c1 name = Some wantID" "\<not> nc_closed c1" "nc_room c1 = None"
    "nc_export c1 = nc_export c" "nc_in c1 = wire_answers (nc_cookie c1 + 1) as @ rest"
    by auto
  note lt = laid_true [OF t(4) own_ok [OF t(2)] Cons.prems(6)]
  have ne: "laid ?sz off ?ds \<noteq> []" using t(1,3) by (cases ?ds) auto
  have pos: "off < ?b" "?b \<le> ?sz" using tiling_pos [OF conjunct1 [OF lt] ne] laid_end_bounds [OF Cons.prems(5,6)] by auto
  obtain out' adv where ab: "add_batch off (laid ?sz off ?ds) out 0 = Inr (out', adv)"
    using add_batch_succeeds [OF conjunct1 [OF lt] order_refl] by (metis surj_pair)
  have o': "tiling 0 out' ?b" "merged out'" "byte_flags out' = byte_flags out @ byte_flags (laid ?sz off ?ds)" "adv = ?b - off"
    using add_batch_tile [OF ab Cons.prems(10) conjunct1 [OF lt] Cons.prems(11)] pos Cons.prems(5,7) by auto
  have fl: "byte_flags out' = map st [0..?b - 1]"
    using o'(3) lt Cons.prems(5,12) pos upto_split1 [of 0 off "?b - 1"] by simp
  have step: "sweep ?ctx name out off c = sweep ?ctx name out' ?b c1"
    using t(1) w c1(1) ab o'(4) pos wrap64_small [of ?b] Cons.prems(5,7) by (subst sweep.simps) simp
  show ?case
    unfolding step using Cons.IH [of c1 ?b out'] c1 pos Cons.prems(5,7) t(5) o' fl by simp
qed

text \<open>
  C23: the map of a truthful server is the truth. When the server answers every query of a sweep with
  truthful descriptors, cut into chunks as it likes, mixed with other contexts and running past the
  end or not, \<open>ExtentMap\<close> returns a map that gives every byte of the export the flags the server knows for it.
\<close>

theorem extent_map_true:
  assumes "nc_structured c" "nc_idByContext c name = Some wantID" "\<not> nc_closed c" "nc_room c = None"
    and "0 \<le> xp_Size (nc_export c)" "xp_Size (nc_export c) < 4611686018427387904"
    and "nc_in c = wire_answers (nc_cookie c + 1) as @ rest" "answers_true st (xp_Size (nc_export c)) wantID 0 as"
  shows "\<exists>m c'. ExtentMap (\<lambda>_. False, \<lambda>_. False) name c = (Inr m, c') \<and> nc_in c' = rest \<and>
    byte_flags m = map st [0..xp_Size (nc_export c) - 1]"
  using sweep_true [OF assms(1-4) order_refl assms(5,6,7,8), of "[]"] by (simp add: ExtentMap_def merged_def)

text \<open>An export of ten bytes whose map comes in two answers, with a foreign context and an extent past the end.\<close>

definition map_answers :: "status_part list list" where
  "map_answers = [[StatusPart 8 [(10, 5)], StatusPart 3 [(4, 0), (2, 1)], StatusNone], [StatusPart 3 [(9, 1)]]]"

definition map_client :: Client where
  "map_client = (new_client (wire_answers 1 map_answers @ [9]) None)
     \<lparr>nc_structured := True, nc_idByContext := [ContextBaseAllocation \<mapsto> 3],
      nc_export := (nc_export (new_client [] None))\<lparr>xp_Size := 10\<rparr>\<rparr>"

definition map_flags :: "int \<Rightarrow> 32 word" where "map_flags k = (if k < 4 then 0 else 1)"

lemma map_client_fields:
  "nc_structured map_client" "nc_idByContext map_client ContextBaseAllocation = Some 3" "\<not> nc_closed map_client"
  "nc_room map_client = None" "xp_Size (nc_export map_client) = 10"
  "nc_in map_client = wire_answers (nc_cookie map_client + 1) map_answers @ [9]"
  by (simp_all add: map_client_def new_client_def)

lemma map_answers_true: "answers_true map_flags 10 3 0 map_answers"
  by (simp add: map_answers_def own_def ds_ok_def laid_end_def map_flags_def upto_rec1)

theorem extent_map_true_witness:
  "\<exists>m c'. ExtentMap (\<lambda>_. False, \<lambda>_. False) ContextBaseAllocation map_client = (Inr m, c') \<and> nc_in c' = [9] \<and>
     byte_flags m = [0, 0, 0, 0, 1, 1, 1, 1, 1, 1]"
proof -
  have "map map_flags [0..9] = [0, 0, 0, 0, 1, 1, 1, 1, 1, 1]" by code_simp
  then show ?thesis
    using extent_map_true [OF map_client_fields(1-4) _ _ map_client_fields(6), of map_flags] map_answers_true
    by (simp add: map_client_fields(5))
qed

text \<open>
  A map of extents describes the whole export. Whatever the server sends, a map that \<open>ExtentMap\<close>
  returns without an error is a list of adjacent regions of positive length that starts at zero and
  ends exactly at the size of the export, and neighbouring regions differ in their flags.
\<close>

lemma extent_map_tiles:
  assumes "ExtentMap ctx name c = (Inr m, c')"
    and "0 \<le> xp_Size (nc_export c)" "xp_Size (nc_export c) < 4611686018427387904"
  shows "tiling 0 m (xp_Size (nc_export c)) \<and> merged m"
  using assms sweep_tile [of ctx name "[]" 0 c m c'] by (simp add: ExtentMap_def merged_def)

section \<open>The handshake\<close>

text \<open>What the options do not touch.\<close>

definition same_session :: "Client \<Rightarrow> Client \<Rightarrow> bool" where
  "same_session c c' \<longleftrightarrow> nc_out c' = nc_out c \<and> nc_closed c' = nc_closed c \<and> nc_cookie c' = nc_cookie c"

lemma same_session_refl [simp]: "same_session c c"
  by (simp add: same_session_def)

lemma recv_session: "recv n c = (r, c') \<Longrightarrow> same_session c c' \<and> nc_contextByID c' = nc_contextByID c"
  by (auto simp: recv_def same_session_def split: if_splits)

lemma readOptionReply_keeps:
  assumes "readOptionReply o0 c = (r, c')"
  shows "same_session c c' \<and> nc_contextByID c' = nc_contextByID c \<and> nc_export c' = nc_export c \<and>
    nc_structured c' = nc_structured c \<and> nc_idByContext c' = nc_idByContext c"
proof -
  obtain r1 c1 where h: "recv 20 c = (r1, c1)" by (cases "recv 20 c")
  note k = recv_keeps [OF h] recv_session [OF h]
  have "c' = c1 \<or> (\<exists>n r2. recv n c1 = (r2, c'))"
    using assms h by (auto simp: readOptionReply_def Let_def split: prod.splits sum.splits if_splits)
  then show ?thesis using k recv_keeps recv_session by (auto simp: same_session_def)
qed

text \<open>
  A loop over option replies: every turn either stops or goes on with less input, and whatever a turn
  keeps the loop keeps.
\<close>

locale reply_loop =
  fixes loop :: "Client \<Rightarrow> 'r \<times> Client" and kept :: "Client \<Rightarrow> Client \<Rightarrow> bool" and ended :: "'r \<Rightarrow> Client \<Rightarrow> bool"
  assumes turn: "loop c = (r, c') \<Longrightarrow> kept c c' \<and> ended r c' \<or>
      (\<exists>c1. length (nc_in c1) < length (nc_in c) \<and> kept c c1 \<and> loop c1 = (r, c'))"
    and kept_trans: "kept a b \<Longrightarrow> kept b d \<Longrightarrow> kept a d"
begin

lemma loop_result: "loop c = (r, c') \<Longrightarrow> kept c c' \<and> ended r c'"
proof (induction "length (nc_in c)" arbitrary: c rule: less_induct)
  case less
  from turn [OF less.prems] show ?case using less.hyps kept_trans by blast
qed

end

definition same_contexts :: "Client \<Rightarrow> Client \<Rightarrow> bool" where
  "same_contexts c c' \<longleftrightarrow> same_session c c' \<and> nc_contextByID c' = nc_contextByID c \<and> nc_idByContext c' = nc_idByContext c"

interpretation structured: reply_loop "structured_loop required" same_contexts "\<lambda>r c'. r = Inr () \<longrightarrow> required \<longrightarrow> nc_structured c'"
proof
  fix c c' r assume run: "structured_loop required c = (r, c')"
  obtain r1 c1 where h: "readOptionReply optStructuredReply c = (r1, c1)" by (cases "readOptionReply optStructuredReply c")
  have k: "same_contexts c c1" using readOptionReply_keeps [OF h] by (simp add: same_contexts_def)
  show "same_contexts c c' \<and> (r = Inr () \<longrightarrow> required \<longrightarrow> nc_structured c') \<or>
      (\<exists>c1. length (nc_in c1) < length (nc_in c) \<and> same_contexts c c1 \<and> structured_loop required c1 = (r, c'))"
  proof (cases "\<exists>reply. r1 = Inr reply \<and> or_Type reply \<noteq> repACK")
    case True
    then have "structured_loop required c1 = (r, c')" "length (nc_in c1) < length (nc_in c)"
      using run h readOptionReply_less by (subst (asm) structured_loop.simps, auto)+
    then show ?thesis using k by blast
  next
    case False
    then show ?thesis
      using run h k by (subst (asm) structured_loop.simps)
        (auto simp: same_contexts_def same_session_def split: sum.splits nbd_error.splits if_splits)
  qed
qed (auto simp: same_contexts_def same_session_def)

text \<open>Every context name the session knows has an identifier the session knows.\<close>

definition contexts_ok :: "Client \<Rightarrow> bool" where
  "contexts_ok c \<longleftrightarrow> (\<forall>name i. nc_idByContext c name = Some i \<longrightarrow> i \<in> dom (nc_contextByID c))"

interpretation contexts: reply_loop context_loop
  "\<lambda>c c'. same_session c c' \<and> nc_structured c' = nc_structured c \<and> (contexts_ok c \<longrightarrow> contexts_ok c')" "\<lambda>r c'. True"
proof
  fix c c' r assume run: "context_loop c = (r, c')"
  obtain r1 c1 where h: "readOptionReply optSetMetaContext c = (r1, c1)" by (cases "readOptionReply optSetMetaContext c")
  have k: "same_session c c1" "nc_structured c1 = nc_structured c" "contexts_ok c \<longrightarrow> contexts_ok c1"
    using readOptionReply_keeps [OF h] by (simp_all add: contexts_ok_def)
  show "(same_session c c' \<and> nc_structured c' = nc_structured c \<and> (contexts_ok c \<longrightarrow> contexts_ok c')) \<and> True \<or>
      (\<exists>c1. length (nc_in c1) < length (nc_in c) \<and>
        (same_session c c1 \<and> nc_structured c1 = nc_structured c \<and> (contexts_ok c \<longrightarrow> contexts_ok c1)) \<and> context_loop c1 = (r, c'))"
  proof (cases r1)
    case (Inl e)
    then show ?thesis using run h k by (subst (asm) context_loop.simps) auto
  next
    case (Inr reply)
    let ?d = "or_Data reply"
    define c2 where "c2 = (if or_Type reply = repMetaContext
      then c1\<lparr>nc_contextByID := (nc_contextByID c1)(get_u32 (take 4 ?d) \<mapsto> drop 4 ?d),
              nc_idByContext := (nc_idByContext c1)(drop 4 ?d \<mapsto> get_u32 (take 4 ?d))\<rparr> else c1)"
    have c2: "contexts_ok c1 \<longrightarrow> contexts_ok c2" "same_session c c2" "nc_structured c2 = nc_structured c"
      "length (nc_in c2) < length (nc_in c)"
      using k readOptionReply_less [of optSetMetaContext c reply c1] h Inr
      by (auto simp: c2_def contexts_ok_def same_session_def split: if_splits)
    have "c' = c1 \<or> context_loop c2 = (r, c')"
      using run h Inr by (subst (asm) context_loop.simps) (auto simp: c2_def Let_def split: if_splits)
    then show ?thesis using k c2 by blast
  qed
qed (auto simp: same_session_def)

interpretation go: reply_loop go_loop
  "\<lambda>c c'. same_contexts c c' \<and> nc_structured c' = nc_structured c" "\<lambda>r c'. r = Inr () \<longrightarrow> xp_Size (nc_export c') \<noteq> 0"
proof
  fix c c' r assume run: "go_loop c = (r, c')"
  obtain r1 c1 where h: "readOptionReply optGo c = (r1, c1)" by (cases "readOptionReply optGo c")
  have k: "same_contexts c c1" "nc_structured c1 = nc_structured c"
    using readOptionReply_keeps [OF h] by (simp_all add: same_contexts_def)
  have kept: "same_contexts c (c1\<lparr>nc_export := ex\<rparr>)" for ex using k by (simp add: same_contexts_def same_session_def)
  show "(same_contexts c c' \<and> nc_structured c' = nc_structured c) \<and> (r = Inr () \<longrightarrow> xp_Size (nc_export c') \<noteq> 0) \<or>
      (\<exists>c1. length (nc_in c1) < length (nc_in c) \<and> (same_contexts c c1 \<and> nc_structured c1 = nc_structured c) \<and> go_loop c1 = (r, c'))"
  proof (cases r1)
    case (Inl e)
    then show ?thesis using run h k by (subst (asm) go_loop.simps) auto
  next
    case (Inr reply)
    have l: "length (nc_in c1) < length (nc_in c)" using readOptionReply_less h Inr by simp
    have "c' = c1 \<and> (r = Inr () \<longrightarrow> xp_Size (nc_export c1) \<noteq> 0) \<or> (\<exists>ex. go_loop (c1\<lparr>nc_export := ex\<rparr>) = (r, c'))"
    proof (cases "or_Type reply = repInfo")
      case True
      then show ?thesis using run h Inr by (subst (asm) go_loop.simps) (auto split: sum.splits)
    next
      case False
      then have "c' = c1 \<and> (r = Inr () \<longrightarrow> xp_Size (nc_export c1) \<noteq> 0) \<or> go_loop c1 = (r, c')"
        using run h Inr by (subst (asm) go_loop.simps) (auto split: if_splits)
      moreover have "go_loop c1 = go_loop (c1\<lparr>nc_export := nc_export c1\<rparr>)" by simp
      ultimately show ?thesis by metis
    qed
    then show ?thesis
    proof
      assume "\<exists>ex. go_loop (c1\<lparr>nc_export := ex\<rparr>) = (r, c')"
      then obtain ex where "go_loop (c1\<lparr>nc_export := ex\<rparr>) = (r, c')" ..
      then show ?thesis using l kept [of ex] k by (intro disjI2 exI [of _ "c1\<lparr>nc_export := ex\<rparr>"]) simp
    qed (use k in simp)
  qed
qed (auto simp: same_contexts_def same_session_def)

text \<open>The options of a handshake on the wire.\<close>

definition wire_option :: "32 word \<Rightarrow> bytes \<Rightarrow> bytes" where
  "wire_option opt payload = put_u64 magicIHaveOpt @ put_u32 opt @ put_u32 (word_of_nat (length payload)) @ payload"

definition wire_string :: "bytes \<Rightarrow> bytes" where
  "wire_string s = put_u32 (word_of_nat (length s)) @ s"

definition wire_handshake :: "Options \<Rightarrow> bytes" where
  "wire_handshake opts =
     put_u32 clientFlagFixedNewstyle @ wire_option optStructuredReply [] @
     (if op_MetaContexts opts = [] then []
      else wire_option optSetMetaContext (wire_string (op_ExportName opts) @
             put_u32 (word_of_nat (length (op_MetaContexts opts))) @ concat (map wire_string (op_MetaContexts opts)))) @
     wire_option optGo (wire_string (op_ExportName opts) @ put_u16 1 @ put_u16 infoBlockSize)"

lemma send_ok: "send bs c = (Inr u, c') \<Longrightarrow> nc_out c' = nc_out c @ bs \<and> nc_in c' = nc_in c \<and> nc_export c' = nc_export c \<and>
    nc_structured c' = nc_structured c \<and> nc_idByContext c' = nc_idByContext c \<and> nc_contextByID c' = nc_contextByID c \<and>
    nc_closed c' = nc_closed c \<and> nc_cookie c' = nc_cookie c"
  by (auto simp: send_def split: option.splits if_splits)

lemma foldl_strings: "foldl appendString32 acc qs = acc @ concat (map wire_string qs)"
  by (induction qs arbitrary: acc) (simp_all add: appendString32_def wire_string_def)

lemma negotiate_result:
  assumes "negotiateStructuredReplies required c = (Inr (), c')"
  shows "nc_out c' = nc_out c @ wire_option optStructuredReply [] \<and> nc_contextByID c' = nc_contextByID c \<and>
    nc_idByContext c' = nc_idByContext c \<and> nc_closed c' = nc_closed c \<and> nc_cookie c' = nc_cookie c \<and>
    (required \<longrightarrow> nc_structured c')"
proof -
  obtain c1 where c1: "sendOption optStructuredReply [] c = (Inr (), c1)" "structured_loop required c1 = (Inr (), c')"
    using assms by (auto simp: negotiateStructuredReplies_def split: prod.splits sum.splits)
  show ?thesis
    using send_ok [OF c1(1) [unfolded sendOption_def]] structured.loop_result [OF c1(2)]
    by (simp add: same_contexts_def same_session_def wire_option_def)
qed

lemma setMetaContexts_result:
  assumes "setMetaContexts export qs c = (Inr (), c')" "contexts_ok c"
  shows "nc_out c' = nc_out c @ wire_option optSetMetaContext (wire_string export @ put_u32 (word_of_nat (length qs)) @ concat (map wire_string qs)) \<and>
    nc_structured c' = nc_structured c \<and> contexts_ok c' \<and> nc_closed c' = nc_closed c \<and> nc_cookie c' = nc_cookie c"
proof -
  let ?p = "foldl appendString32 (appendString32 [] export @ put_u32 (word_of_nat (length qs))) qs"
  obtain c1 where c1: "sendOption optSetMetaContext ?p c = (Inr (), c1)" "context_loop c1 = (Inr (), c')"
    using assms(1) by (auto simp: setMetaContexts_def Let_def split: prod.splits sum.splits)
  note s = send_ok [OF c1(1) [unfolded sendOption_def]]
  have "contexts_ok c1" using s assms(2) by (simp add: contexts_ok_def)
  moreover have "?p = wire_string export @ put_u32 (word_of_nat (length qs)) @ concat (map wire_string qs)"
    unfolding foldl_strings by (simp add: appendString32_def wire_string_def)
  ultimately show ?thesis
    using s contexts.loop_result [OF c1(2)] by (simp add: same_session_def wire_option_def)
qed

lemma optionGo_result:
  assumes "optionGo export c = (Inr (), c')" "contexts_ok c"
  shows "nc_out c' = nc_out c @ wire_option optGo (wire_string export @ put_u16 1 @ put_u16 infoBlockSize) \<and>
    xp_Size (nc_export c') \<noteq> 0 \<and> nc_structured c' = nc_structured c \<and> contexts_ok c' \<and> nc_closed c' = nc_closed c \<and>
    nc_cookie c' = nc_cookie c"
proof -
  let ?p = "appendString32 [] export @ put_u16 1 @ put_u16 infoBlockSize"
  obtain c1 where c1: "sendOption optGo ?p c = (Inr (), c1)"
      "go_loop (c1\<lparr>nc_export := (nc_export c1)\<lparr>xp_Name := export\<rparr>\<rparr>) = (Inr (), c')"
    using assms(1) by (auto simp: optionGo_def Let_def split: prod.splits sum.splits)
  show ?thesis
    using send_ok [OF c1(1) [unfolded sendOption_def]] go.loop_result [OF c1(2)] assms(2)
    by (simp add: same_contexts_def same_session_def wire_option_def wire_string_def appendString32_def contexts_ok_def)
qed

text \<open>
  C24: a connected session is usable. When \<open>Connect\<close> succeeds, the export has a size; structured replies
  are on whenever they were required or a context was asked for; every negotiated context
  has an identifier; nothing is closed, no command has been sent yet, and what was sent is exactly the client flags and
  the options in the order structured replies, contexts, go.
\<close>

theorem connect_session:
  assumes "Connect stopped input room opts = Inr c"
  shows "xp_Size (nc_export c) \<noteq> 0 \<and> (op_RequireStructuredReplies opts \<or> op_MetaContexts opts \<noteq> [] \<longrightarrow> nc_structured c) \<and>
    contexts_ok c \<and> \<not> nc_closed c \<and> nc_cookie c = 0 \<and> nc_out c = wire_handshake opts"
proof -
  define c0 where "c0 = new_client input room"
  have c0: "nc_out c0 = []" "\<not> nc_closed c0" "nc_cookie c0 = 0" "nc_idByContext c0 = Map.empty" by (simp_all add: c0_def new_client_def)
  have "handshake opts c0 = (Inr (), c)"
    using assms by (auto simp: Connect_def applyDeadline_def c0_def result_simps split: prod.splits sum.splits)
  then obtain h c1 c2 c3 where st: "recv 18 c0 = (Inr h, c1)" "send (put_u32 clientFlagFixedNewstyle) c1 = (Inr (), c2)"
      "negotiateStructuredReplies (op_RequireStructuredReplies opts) c2 = (Inr (), c3)"
    and rest: "if op_MetaContexts opts = [] then optionGo (op_ExportName opts) c3 = (Inr (), c)
      else nc_structured c3 \<and> (\<exists>c4. setMetaContexts (op_ExportName opts) (op_MetaContexts opts) c3 = (Inr (), c4) \<and>
        optionGo (op_ExportName opts) c4 = (Inr (), c))"
    by (auto simp: handshake_def split: prod.splits sum.splits if_splits)
  note k = recv_keeps [OF st(1)] recv_session [OF st(1)] send_ok [OF st(2)] negotiate_result [OF st(3)]
  have c3: "nc_out c3 = put_u32 clientFlagFixedNewstyle @ wire_option optStructuredReply []" "\<not> nc_closed c3" "nc_cookie c3 = 0"
    "contexts_ok c3" "op_RequireStructuredReplies opts \<longrightarrow> nc_structured c3"
    using k c0 by (simp_all add: same_session_def contexts_ok_def)
  show ?thesis
  proof (cases "op_MetaContexts opts = []")
    case True
    then show ?thesis using optionGo_result [of "op_ExportName opts" c3 c] rest c3 by (simp add: wire_handshake_def)
  next
    case False
    then obtain c4 where c4: "setMetaContexts (op_ExportName opts) (op_MetaContexts opts) c3 = (Inr (), c4)"
        "optionGo (op_ExportName opts) c4 = (Inr (), c)" "nc_structured c3" using rest by auto
    note m = setMetaContexts_result [OF c4(1) c3(4)]
    show ?thesis using optionGo_result [OF c4(2)] m c3 c4(3) False by (simp add: wire_handshake_def)
  qed
qed

text \<open>A server that grants structured replies and a context and publishes an export of 4096 bytes.\<close>

definition wire_option_reply :: "32 word \<Rightarrow> 32 word \<Rightarrow> bytes \<Rightarrow> bytes" where
  "wire_option_reply opt ty payload =
     put_u64 magicOptReply @ put_u32 opt @ put_u32 ty @ put_u32 (word_of_nat (length payload)) @ payload"

definition sample_greeting :: bytes where
  "sample_greeting = put_u64 magicNBD @ put_u64 magicIHaveOpt @ put_u16 3 @
     wire_option_reply optStructuredReply repACK [] @
     wire_option_reply optSetMetaContext repMetaContext (put_u32 7 @ ContextBaseAllocation) @
     wire_option_reply optSetMetaContext repACK [] @
     wire_option_reply optGo repInfo (put_u16 infoExport @ put_u64 4096 @ put_u16 3) @
     wire_option_reply optGo repACK []"

definition sample_options :: Options where
  "sample_options = \<lparr>op_ExportName = [118, 100, 97], op_MetaContexts = [ContextBaseAllocation], op_RequireStructuredReplies = True\<rparr>"

lemma readOptionReply_wire:
  assumes "length payload \<le> 4194304" "ty AND 0x80000000 = 0" "nc_in c = wire_option_reply opt ty payload @ rest"
  shows "readOptionReply opt c = (Inr \<lparr>or_Type = ty, or_Data = payload\<rparr>, c\<lparr>nc_in := rest\<rparr>)"
proof -
  let ?h = "put_u64 magicOptReply @ put_u32 opt @ put_u32 ty @ put_u32 (word_of_nat (length payload))"
  have "recv 20 c = (Inr ?h, c\<lparr>nc_in := payload @ rest\<rparr>)"
    using recv_append [where bs = ?h and n = 20 and c = c and rest = "payload @ rest"] assms(3)
    by (simp add: wire_option_reply_def recv_def)
  moreover have "recv (length payload) (c\<lparr>nc_in := payload @ rest\<rparr>) = (Inr payload, c\<lparr>nc_in := rest\<rparr>)"
    by (rule recv_append) simp
  ultimately show ?thesis
    using assms unat_len32 [of "length payload"] by (simp add: readOptionReply_def wire_fields)
qed

text \<open>Each step of the handshake against a server that grants it.\<close>

lemma send_free: "nc_room c = None \<Longrightarrow> send bs c = (Inr (), c\<lparr>nc_out := nc_out c @ bs\<rparr>)"
  by (simp add: send_def)

lemma negotiate_granted:
  assumes "nc_room c = None" "nc_in c = wire_option_reply optStructuredReply repACK [] @ rest"
  shows "\<exists>c'. negotiateStructuredReplies req c = (Inr (), c') \<and> nc_structured c' \<and> nc_in c' = rest \<and> nc_room c' = None"
  using assms readOptionReply_wire [of "[]" repACK "c\<lparr>nc_out := x\<rparr>" optStructuredReply rest for x]
  by (simp add: negotiateStructuredReplies_def sendOption_def send_free structured_loop.simps repACK_def)

lemma contexts_granted:
  assumes "nc_room c = None" "nc_structured c" "length name \<le> 4194300"
    and "nc_in c = wire_option_reply optSetMetaContext repMetaContext (put_u32 i @ name) @ wire_option_reply optSetMetaContext repACK [] @ rest"
  shows "\<exists>c'. setMetaContexts export qs c = (Inr (), c') \<and> nc_structured c' \<and> nc_in c' = rest \<and> nc_room c' = None"
proof -
  have a: "context_loop c1 = (Inr (), c1\<lparr>nc_in := rest\<rparr>)" if "nc_in c1 = wire_option_reply optSetMetaContext repACK [] @ rest" for c1
    using readOptionReply_wire [of "[]" repACK c1 optSetMetaContext rest] that
    by (subst context_loop.simps) (simp add: repACK_def repMetaContext_def)
  have "\<exists>c'. context_loop c1 = (Inr (), c') \<and> nc_structured c' \<and> nc_in c' = rest \<and> nc_room c' = None"
    if "nc_room c1 = None" "nc_structured c1" "nc_in c1 = nc_in c" for c1
    using readOptionReply_wire [of "put_u32 i @ name" repMetaContext c1 optSetMetaContext] that assms
    by (subst context_loop.simps) (simp add: repMetaContext_def a)
  then show ?thesis using assms by (simp add: setMetaContexts_def Let_def sendOption_def send_free)
qed

lemma go_granted:
  assumes "nc_room c = None" "sint sz \<noteq> 0"
    and "nc_in c = wire_option_reply optGo repInfo (put_u16 infoExport @ put_u64 sz @ put_u16 fl) @ wire_option_reply optGo repACK [] @ rest"
  shows "\<exists>c'. optionGo export c = (Inr (), c')"
proof -
  have a: "go_loop c1 = (Inr (), c1\<lparr>nc_in := rest\<rparr>)"
    if "nc_in c1 = wire_option_reply optGo repACK [] @ rest" "xp_Size (nc_export c1) \<noteq> 0" for c1
    using readOptionReply_wire [of "[]" repACK c1 optGo rest] that
    by (subst go_loop.simps) (simp add: repACK_def repInfo_def)
  have info: "applyInfo (put_u16 infoExport @ put_u64 sz @ put_u16 fl) ex = Inr (ex\<lparr>xp_Size := sint sz, xp_TransmissionFlags := fl\<rparr>)" for ex
    by (simp add: applyInfo_def wire_fields)
  have "\<exists>c'. go_loop c1 = (Inr (), c')" if "nc_in c1 = nc_in c" for c1
    using readOptionReply_wire [of "put_u16 infoExport @ put_u64 sz @ put_u16 fl" repInfo c1 optGo] that assms
    by (subst go_loop.simps) (simp add: repInfo_def info a)
  then show ?thesis using assms by (simp add: optionGo_def Let_def sendOption_def send_free)
qed

theorem connect_session_witness:
  "\<exists>c. Connect False sample_greeting None sample_options = Inr c \<and> nc_structured c \<and> contexts_ok c \<and>
     nc_out c = wire_handshake sample_options"
proof -
  define c0 where "c0 = new_client sample_greeting None"
  let ?g = "put_u64 magicNBD @ put_u64 magicIHaveOpt @ put_u16 3"
  let ?r3 = "wire_option_reply optGo repInfo (put_u16 infoExport @ put_u64 4096 @ put_u16 3) @ wire_option_reply optGo repACK []"
  let ?r2 = "wire_option_reply optSetMetaContext repMetaContext (put_u32 7 @ ContextBaseAllocation) @
     wire_option_reply optSetMetaContext repACK [] @ ?r3"
  let ?r1 = "wire_option_reply optStructuredReply repACK [] @ ?r2"
  have c0: "nc_in c0 = ?g @ ?r1" "nc_room c0 = None" by (simp_all add: c0_def new_client_def sample_greeting_def)
  have greet: "recv 18 c0 = (Inr ?g, c0\<lparr>nc_in := ?r1\<rparr>)" by (simp add: recv_def c0)
  define c2 where "c2 = c0\<lparr>nc_in := ?r1, nc_out := nc_out c0 @ put_u32 clientFlagFixedNewstyle\<rparr>"
  obtain c3 where c3: "negotiateStructuredReplies True c2 = (Inr (), c3)" "nc_structured c3" "nc_in c3 = ?r2" "nc_room c3 = None"
    using negotiate_granted [of c2 ?r2 True] by (auto simp: c2_def c0)
  have "length ContextBaseAllocation \<le> 4194300" by (simp add: ContextBaseAllocation_def ascii_def)
  then obtain c4 where c4: "setMetaContexts [118, 100, 97] [ContextBaseAllocation] c3 = (Inr (), c4)" "nc_in c4 = ?r3" "nc_room c4 = None"
    using contexts_granted [of c3 ContextBaseAllocation 7 ?r3] c3 by auto
  obtain c5 where c5: "optionGo [118, 100, 97] c4 = (Inr (), c5)"
    using go_granted [of c4 4096 3 "[]"] c4 by auto
  have "handshake sample_options c0 = (Inr (), c5)"
    using greet c3(1,2) c4(1) c5 c0(2)
    by (simp add: handshake_def wire_fields flagFixedNewstyle_def send_free sample_options_def c2_def)
  then have c: "Connect False sample_greeting None sample_options = Inr c5"
    by (simp add: Connect_def applyDeadline_def c0_def)
  then show ?thesis using connect_session [OF c] by (simp add: sample_options_def)
qed

end
