(* ===== verification/Prune.thy ===== *)
theory Prune
  imports ChainLoad Retention
begin

text \<open>
  Deleting backups (\<open>internal/backup/prune.go\<close>) with the statements of the database it uses
  (\<open>internal/store/backup_runs.go\<close>, \<open>replication.go\<close>): retention passes, quarantine, the collector that
  erases what left the quarantine, immediate erasure, expiry, and the return of a copy from quarantine.

  The state is the database of \<open>ChainLoad\<close> with the virtual machines under migration, whether a
  statement fails (by its name and the row), and \<open>pd_touched\<close>, the runs whose objects \<open>DeletePrefix\<close> was
  called on. The surroundings of an operation are a \<open>purge_env\<close>: clock, quarantine delay, the answers of
  the repositories, texts. An operation whose walk over a chain does not end is \<open>None\<close>. Alerts and logs
  have no modelled effect; operations do not interleave.
\<close>

section \<open>The state\<close>

record prune_db =
  pd_store :: store
  pd_transfers :: "(string \<times> string) list"
  pd_fails :: "string \<Rightarrow> string \<Rightarrow> bool"
  pd_touched :: "string list"

record purge_env =
  pe_now :: int
  pe_delay :: int
  pe_open :: "StorageTarget \<Rightarrow> bool"
  pe_delete :: "StorageTarget \<Rightarrow> string \<Rightarrow> bool"
  pe_fingerprint :: "token_payload \<Rightarrow> string"
  pe_vm_name :: "string \<Rightarrow> string \<Rightarrow> string option"
  pe_policy_text :: string
  pe_why :: "reason \<Rightarrow> string"
  pe_expired_text :: string

datatype prune_error =
    PruneStore store_error
  | BadPolicy string
  | ReadOnlyTarget
  | NoPlanToken
  | PlanChanged
  | Migrating
  | HasDependents string nat
  | ReplicaPending string BackupCopyStatus
  | ObjectLocked string int
  | RepoOpenFailed string
  | DeleteFailed string
  | PartlyApplied nat nat prune_error

abbreviation runs_of :: "prune_db \<Rightarrow> BackupRun list" where
  "runs_of db \<equiv> st_runs (pd_store db)"

section \<open>Statements\<close>

record RunFilter =
  rf_ServerID :: string
  rf_VMID :: string
  rf_JobID :: string
  rf_JobRunID :: string
  rf_ChainID :: string
  rf_TargetID :: string
  rf_Statuses :: "RunStatus list"
  rf_Types :: "BackupType list"
  rf_Since :: "int option"
  rf_Until :: "int option"
  rf_IncludeDeleted :: bool
  rf_Limit :: int
  rf_Offset :: int

definition no_filter :: RunFilter where
  "no_filter = \<lparr>rf_ServerID = '''', rf_VMID = '''', rf_JobID = '''', rf_JobRunID = '''', rf_ChainID = '''', rf_TargetID = '''',
     rf_Statuses = [], rf_Types = [], rf_Since = None, rf_Until = None, rf_IncludeDeleted = False, rf_Limit = 0, rf_Offset = 0\<rparr>"

definition run_matches :: "RunFilter \<Rightarrow> BackupRun \<Rightarrow> bool" where
  "run_matches f r \<longleftrightarrow>
     (rf_ServerID f = '''' \<or> br_ServerID r = rf_ServerID f) \<and> (rf_VMID f = '''' \<or> br_VMID r = rf_VMID f) \<and>
     (rf_JobID f = '''' \<or> br_JobID r = rf_JobID f) \<and> (rf_JobRunID f = '''' \<or> br_JobRunID r = rf_JobRunID f) \<and>
     (rf_ChainID f = '''' \<or> br_ChainID r = rf_ChainID f) \<and> (rf_TargetID f = '''' \<or> br_StorageTargetID r = rf_TargetID f) \<and>
     (rf_IncludeDeleted f \<or> \<not> br_Deleted r) \<and> (rf_Statuses f = [] \<or> br_Status r \<in> set (rf_Statuses f)) \<and>
     (rf_Types f = [] \<or> br_Type r \<in> set (rf_Types f)) \<and>
     (case rf_Since f of None \<Rightarrow> True | Some t \<Rightarrow> t \<le> br_CreatedAt r) \<and>
     (case rf_Until f of None \<Rightarrow> True | Some t \<Rightarrow> br_CreatedAt r \<le> t)"

definition page :: "RunFilter \<Rightarrow> 'a list \<Rightarrow> 'a list" where
  "page f rows = (if rf_Limit f > 0 then take (nat (rf_Limit f)) (drop (nat (rf_Offset f)) rows) else rows)"

definition ListBackupRuns :: "prune_db \<Rightarrow> RunFilter \<Rightarrow> store_error + BackupRun list" where
  "ListBackupRuns db f =
     (if pd_fails db ''list runs'' (rf_ChainID f) then Inl (StoreFailed ''list backup runs'')
      else Inr (page f (sort_key (\<lambda>r. - br_CreatedAt r) (filter (run_matches f) (runs_of db)))))"

definition GetBackupRun :: "prune_db \<Rightarrow> string \<Rightarrow> store_error + BackupRun" where
  "GetBackupRun db rid = query (\<lambda>r. br_ID r = rid) (st_run_err (pd_store db) rid) (runs_of db)"

definition update_run :: "string \<Rightarrow> (BackupRun \<Rightarrow> BackupRun) \<Rightarrow> prune_db \<Rightarrow> prune_db" where
  "update_run rid f db =
     db\<lparr>pd_store := (pd_store db)\<lparr>st_runs := map (\<lambda>r. if br_ID r = rid then f r else r) (runs_of db)\<rparr>\<rparr>"

definition MarkRunDeleted :: "string \<Rightarrow> prune_db \<Rightarrow> (prune_error + unit) \<times> prune_db" where
  "MarkRunDeleted rid db =
     (if pd_fails db ''mark deleted'' rid then (Inl (PruneStore (StoreFailed ''mark deleted'')), db)
      else (Inr (), update_run rid (\<lambda>r. r\<lparr>br_Deleted := True\<rparr>) db))"

definition QuarantineRun :: "string \<Rightarrow> int \<Rightarrow> string \<Rightarrow> int \<Rightarrow> prune_db \<Rightarrow> (prune_error + unit) \<times> prune_db" where
  "QuarantineRun rid purgeAfter why now db =
     (if pd_fails db ''quarantine'' rid then (Inl (PruneStore (StoreFailed ''quarantine'')), db)
      else if list_all (\<lambda>r. br_ID r \<noteq> rid) (runs_of db) then (Inl (PruneStore ErrNotFound), db)
      else (Inr (), update_run rid (\<lambda>r. r\<lparr>br_Deleted := True, br_PurgeAfter := Some purgeAfter,
                                           br_DeleteReason := why, br_DeletedAt := Some now\<rparr>) db))"

definition RestoreRunFromQuarantine :: "string \<Rightarrow> prune_db \<Rightarrow> (prune_error + unit) \<times> prune_db" where
  "RestoreRunFromQuarantine rid db =
     (if pd_fails db ''restore'' rid then (Inl (PruneStore (StoreFailed ''restore'')), db)
      else if list_all (\<lambda>r. \<not> (br_ID r = rid \<and> br_PurgeAfter r \<noteq> None)) (runs_of db)
      then (Inl (PruneStore ErrNotFound), db)
      else (Inr (), update_run rid (\<lambda>r. if br_PurgeAfter r = None then r
              else r\<lparr>br_Deleted := False, br_PurgeAfter := None, br_DeleteReason := '''', br_DeletedAt := None\<rparr>) db))"

definition NoteRunErased :: "string \<Rightarrow> string \<Rightarrow> int \<Rightarrow> prune_db \<Rightarrow> (prune_error + unit) \<times> prune_db" where
  "NoteRunErased rid why now db =
     (if pd_fails db ''note erased'' rid then (Inl (PruneStore (StoreFailed ''note erased'')), db)
      else (Inr (), update_run rid (\<lambda>r. r\<lparr>br_PurgeAfter := None, br_DeleteReason := why,
              br_DeletedAt := (case br_DeletedAt r of None \<Rightarrow> Some now | Some t \<Rightarrow> Some t)\<rparr>) db))"

definition ClearRunPurge :: "string \<Rightarrow> prune_db \<Rightarrow> (prune_error + unit) \<times> prune_db" where
  "ClearRunPurge rid db =
     (if pd_fails db ''clear purge'' rid then (Inl (PruneStore (StoreFailed ''clear purge'')), db)
      else (Inr (), update_run rid (\<lambda>r. r\<lparr>br_PurgeAfter := None\<rparr>) db))"

definition RunsDueForPurge :: "prune_db \<Rightarrow> int \<Rightarrow> nat \<Rightarrow> store_error + BackupRun list" where
  "RunsDueForPurge db now limit =
     (if pd_fails db ''due for purge'' '''' then Inl (StoreFailed ''list runs due for purge'')
      else Inr (take (if limit = 0 then 50 else limit)
             (sort_key (\<lambda>r. the (br_PurgeAfter r))
               (filter (\<lambda>r. case br_PurgeAfter r of None \<Rightarrow> False | Some t \<Rightarrow> t \<le> now) (runs_of db)))))"

definition UpdateBackupCopy :: "BackupCopy \<Rightarrow> prune_db \<Rightarrow> (prune_error + unit) \<times> prune_db" where
  "UpdateBackupCopy c db =
     (if pd_fails db ''update copy'' (bc_ID c) then (Inl (PruneStore (StoreFailed ''update copy'')), db)
      else if list_all (\<lambda>x. bc_ID x \<noteq> bc_ID c) (st_copies (pd_store db)) then (Inl (PruneStore ErrNotFound), db)
      else (Inr (), db\<lparr>pd_store := (pd_store db)\<lparr>st_copies :=
              map (\<lambda>x. if bc_ID x = bc_ID c
                       then c\<lparr>bc_RunID := bc_RunID x, bc_StorageTargetID := bc_StorageTargetID x, bc_Role := bc_Role x,
                              bc_RepoPath := bc_RepoPath x, bc_LockedBy := bc_LockedBy x, bc_CreatedAt := bc_CreatedAt x\<rparr>
                       else x) (st_copies (pd_store db))\<rparr>\<rparr>))"

definition VMTransferProtectsRun :: "prune_db \<Rightarrow> BackupRun \<Rightarrow> prune_error + unit" where
  "VMTransferProtectsRun db run =
     (if pd_fails db ''transfers'' (br_VMID run) then Inl (PruneStore (StoreFailed ''vm transfers''))
      else if (br_ServerID run, br_VMID run) \<in> set (pd_transfers db) then Inl Migrating
      else Inr ())"

section \<open>Dependents\<close>

definition children :: "BackupRun list \<Rightarrow> string \<Rightarrow> string \<Rightarrow> string list" where
  "children chain root i =
     map br_ID (filter (\<lambda>r. \<not> (br_Deleted r \<or> br_ID r = root) \<and> br_ParentRunID r = i) chain)"

text \<open>Nothing in the loop bounds it when two rows share an identifier, so it is a partial function.\<close>

partial_function (option) dependents_loop :: "(string \<Rightarrow> string list) \<Rightarrow> string list \<Rightarrow> string list \<Rightarrow> string list option" where
  "dependents_loop kids queue out =
     (case queue of
        [] \<Rightarrow> Some out
      | i # rest \<Rightarrow> dependents_loop kids (rest @ kids i) (out @ kids i))"

declare dependents_loop.simps [code]

definition dependents :: "prune_db \<Rightarrow> BackupRun \<Rightarrow> (store_error + string list) option" where
  "dependents db run =
     (case ListBackupRuns db (no_filter\<lparr>rf_ChainID := br_ChainID run\<rparr>) of
        Inl e \<Rightarrow> Some (Inl e)
      | Inr chain \<Rightarrow> map_option Inr (dependents_loop (children chain (br_ID run)) [br_ID run] []))"

section \<open>Erasing\<close>

fun replicas_writable :: "prune_db \<Rightarrow> BackupRun \<Rightarrow> BackupCopy list \<Rightarrow> prune_error + unit" where
  "replicas_writable db run [] = Inr ()"
| "replicas_writable db run (c # cs) =
     (if bc_Status c = CopyDeleted \<or> bc_StorageTargetID c = br_StorageTargetID run then replicas_writable db run cs
      else case GetStorageTarget (pd_store db) (bc_StorageTargetID c) of
             Inl e \<Rightarrow> Inl (PruneStore e)
           | Inr t \<Rightarrow> if st_ReadOnly t then Inl ReadOnlyTarget else replicas_writable db run cs)"

definition checkRunDeletionAccess :: "prune_db \<Rightarrow> BackupRun \<Rightarrow> prune_error + unit" where
  "checkRunDeletionAccess db run =
     bindR (VMTransferProtectsRun db run) (\<lambda>_.
       if br_RepoPath run = '''' \<or> br_Type run = BackupOVA then Inr ()
       else case GetStorageTarget (pd_store db) (br_StorageTargetID run) of
              Inl e \<Rightarrow> Inl (PruneStore e)
            | Inr t \<Rightarrow>
                if st_ReadOnly t then Inl ReadOnlyTarget
                else case ListBackupCopies (pd_store db) (br_ID run) of
                       Inl e \<Rightarrow> Inl (PruneStore e)
                     | Inr copies \<Rightarrow> replicas_writable db run copies)"

definition touch :: "string \<Rightarrow> prune_db \<Rightarrow> prune_db" where
  "touch rid db = db\<lparr>pd_touched := rid # pd_touched db\<rparr>"

definition erase_copy :: "purge_env \<Rightarrow> string \<Rightarrow> BackupCopy \<Rightarrow> prune_db \<Rightarrow> (prune_error + unit) \<times> prune_db" where
  "erase_copy env rid c db =
     (if (case bc_LockedUntil c of Some t \<Rightarrow> t > pe_now env | None \<Rightarrow> False)
      then (Inl (ObjectLocked (bc_StorageTargetID c) (the (bc_LockedUntil c))),
            snd (UpdateBackupCopy (c\<lparr>bc_Status := CopyLocked\<rparr>) db))
      else case GetStorageTarget (pd_store db) (bc_StorageTargetID c) of
        Inl e \<Rightarrow> (Inl (PruneStore e), db)
      | Inr t \<Rightarrow>
          if \<not> pe_open env t then (Inl (RepoOpenFailed (st_Name t)), db)
          else let db1 = touch rid db in
            if \<not> pe_delete env t (bc_RepoPath c) then
              (Inl (DeleteFailed (st_Name t)),
               if st_ObjectLockEnabled t
               then snd (UpdateBackupCopy (c\<lparr>bc_Status := CopyLocked,
                      bc_LockedUntil := (case bc_LockedUntil c of
                         None \<Rightarrow> Some (pe_now env + st_ObjectLockDays t * 86400000000000) | Some u \<Rightarrow> Some u)\<rparr>) db1)
               else db1)
            else UpdateBackupCopy (c\<lparr>bc_Status := CopyDeleted, bc_EndedAt := Some (pe_now env)\<rparr>) db1)"

fun erase_copies :: "purge_env \<Rightarrow> string \<Rightarrow> BackupCopy list \<Rightarrow> prune_db \<Rightarrow> (prune_error + unit) \<times> prune_db" where
  "erase_copies env rid [] db = (Inr (), db)"
| "erase_copies env rid (c # cs) db =
     (if bc_Status c = CopyDeleted then erase_copies env rid cs db
      else case erase_copy env rid c db of
             (Inl e, db1) \<Rightarrow> (Inl e, db1)
           | (Inr _, db1) \<Rightarrow> erase_copies env rid cs db1)"

definition pending_replica :: "BackupCopy \<Rightarrow> bool" where
  "pending_replica c \<longleftrightarrow> bc_Role c = CopyReplica \<and> bc_Required c \<and> \<not> Healthy (Some c) \<and> bc_Status c \<noteq> CopyDeleted"

text \<open>Replicas go first, the primary copy last.\<close>

definition erase_and_mark :: "purge_env \<Rightarrow> string \<Rightarrow> BackupCopy list \<Rightarrow> prune_db \<Rightarrow> (prune_error + unit) \<times> prune_db" where
  "erase_and_mark env rid copies db =
     (case erase_copies env rid (sort_key (\<lambda>c. if bc_Role c = CopyPrimary then 1 else (0 :: int)) copies) db of
        (Inl e, db1) \<Rightarrow> (Inl e, db1)
      | (Inr _, db1) \<Rightarrow> MarkRunDeleted rid db1)"

definition purgeRunObjects :: "purge_env \<Rightarrow> BackupRun \<Rightarrow> prune_db \<Rightarrow> ((prune_error + unit) \<times> prune_db) option" where
  "purgeRunObjects env run db =
     (case dependents db run of
        None \<Rightarrow> None
      | Some (Inl e) \<Rightarrow> Some (Inl (PruneStore e), db)
      | Some (Inr deps) \<Rightarrow> Some (
          if deps \<noteq> [] then (Inl (HasDependents (br_ID run) (length deps)), db)
          else if br_Type run = BackupOVA \<or> br_RepoPath run = '''' then MarkRunDeleted (br_ID run) db
          else case ListBackupCopies (pd_store db) (br_ID run) of
            Inl e \<Rightarrow> (Inl (PruneStore e), db)
          | Inr copies \<Rightarrow>
              (case find pending_replica copies of
                 Some c \<Rightarrow> (Inl (ReplicaPending (br_ID run) (bc_Status c)), db)
               | None \<Rightarrow> erase_and_mark env (br_ID run) copies db)))"

definition purgeRunData :: "purge_env \<Rightarrow> BackupRun \<Rightarrow> prune_db \<Rightarrow> ((prune_error + unit) \<times> prune_db) option" where
  "purgeRunData env run db =
     (case checkRunDeletionAccess db run of
        Inl e \<Rightarrow> Some (Inl e, db)
      | Inr _ \<Rightarrow> purgeRunObjects env run db)"

section \<open>Operations\<close>

definition DeleteRunData :: "purge_env \<Rightarrow> string \<Rightarrow> string \<Rightarrow> prune_db \<Rightarrow> ((prune_error + unit) \<times> prune_db) option" where
  "DeleteRunData env rid why db =
     (case GetBackupRun db rid of
        Inl e \<Rightarrow> Some (Inl (PruneStore e), db)
      | Inr run \<Rightarrow>
          if br_Deleted run then Some (Inr (), db)
          else case checkRunDeletionAccess db run of
            Inl e \<Rightarrow> Some (Inl e, db)
          | Inr _ \<Rightarrow>
              if pe_delay env > 0 then
                (case dependents db run of
                   None \<Rightarrow> None
                 | Some (Inl e) \<Rightarrow> Some (Inl (PruneStore e), db)
                 | Some (Inr deps) \<Rightarrow> Some (
                     if deps \<noteq> [] then (Inl (HasDependents rid (length deps)), db)
                     else QuarantineRun rid (pe_now env + pe_delay env) why (pe_now env) db))
              else case purgeRunData env run db of
                     None \<Rightarrow> None
                   | Some (Inl e, db1) \<Rightarrow> Some (Inl e, db1)
                   | Some (Inr _, db1) \<Rightarrow> Some (NoteRunErased rid why (pe_now env) db1))"

definition PurgeRunData :: "purge_env \<Rightarrow> string \<Rightarrow> string \<Rightarrow> prune_db \<Rightarrow> ((prune_error + unit) \<times> prune_db) option" where
  "PurgeRunData env rid why db =
     (case GetBackupRun db rid of
        Inl e \<Rightarrow> Some (Inl (PruneStore e), db)
      | Inr run \<Rightarrow>
          (case purgeRunData env run db of
             None \<Rightarrow> None
           | Some (Inl e, db1) \<Rightarrow> Some (Inl e, db1)
           | Some (Inr _, db1) \<Rightarrow>
               Some (NoteRunErased rid
                 (if why = '''' then br_DeleteReason run
                  else if br_DeleteReason run \<noteq> '''' then br_DeleteReason run @ ''; '' @ why else why)
                 (pe_now env) db1)))"

fun purge_due :: "purge_env \<Rightarrow> BackupRun list \<Rightarrow> prune_db \<Rightarrow> prune_db option" where
  "purge_due env [] db = Some db"
| "purge_due env (run # runs) db =
     (case purgeRunData env run db of
        None \<Rightarrow> None
      | Some (Inl e, db1) \<Rightarrow> purge_due env runs db1
      | Some (Inr _, db1) \<Rightarrow> purge_due env runs (snd (ClearRunPurge (br_ID run) db1)))"

definition PurgeExpired :: "purge_env \<Rightarrow> prune_db \<Rightarrow> prune_db option" where
  "PurgeExpired env db =
     (case RunsDueForPurge db (pe_now env) 50 of Inl e \<Rightarrow> Some db | Inr runs \<Rightarrow> purge_due env runs db)"

definition retentionDeleteReason :: "purge_env \<Rightarrow> string \<Rightarrow> string" where
  "retentionDeleteReason env why = (if why = '''' then pe_policy_text env else pe_policy_text env @ '': '' @ why)"

text \<open>The pass goes on after a failure and reports the first one.\<close>

fun delete_noted :: "purge_env \<Rightarrow> RunNote list \<Rightarrow> nat \<Rightarrow> prune_error option \<Rightarrow> prune_db \<Rightarrow>
   ((nat \<times> prune_error option) \<times> prune_db) option" where
  "delete_noted env [] deleted firstErr db = Some ((deleted, firstErr), db)"
| "delete_noted env (note # notes) deleted firstErr db =
     (case DeleteRunData env (rn_RunID note) (retentionDeleteReason env (pe_why env (rn_Reason note))) db of
        None \<Rightarrow> None
      | Some (Inl e, db1) \<Rightarrow> delete_noted env notes deleted (if firstErr = None then Some e else firstErr) db1
      | Some (Inr _, db1) \<Rightarrow> delete_noted env notes (deleted + 1) firstErr db1)"

definition carry_out :: "purge_env \<Rightarrow> Plan \<Rightarrow> prune_db \<Rightarrow> ((prune_error + Plan) \<times> prune_db) option" where
  "carry_out env plan db =
     (case delete_noted env (pl_Delete plan) 0 None db of
        None \<Rightarrow> None
      | Some ((deleted, Some e), db1) \<Rightarrow> Some (Inl (PartlyApplied deleted (length (pl_Delete plan)) e), db1)
      | Some ((deleted, None), db1) \<Rightarrow> Some (Inr plan, db1))"

definition applyRetention ::
  "purge_env \<Rightarrow> string \<Rightarrow> string \<Rightarrow> string \<Rightarrow> RetentionPolicy \<Rightarrow> bool \<Rightarrow> string \<Rightarrow> prune_db \<Rightarrow>
   ((prune_error + Plan) \<times> prune_db) option" where
  "applyRetention env serverID vmID targetID policy dryRun expectedToken db =
     (case policy_Validate policy of
        Inl e \<Rightarrow> Some (Inl (BadPolicy e), db)
      | Inr _ \<Rightarrow>
          (case GetStorageTarget (pd_store db) targetID of
             Inl e \<Rightarrow> Some (Inl (PruneStore e), db)
           | Inr target \<Rightarrow>
               if st_ReadOnly target \<and> \<not> dryRun then Some (Inl ReadOnlyTarget, db)
               else case ListBackupRuns db (no_filter\<lparr>rf_ServerID := serverID, rf_VMID := vmID, rf_TargetID := targetID\<rparr>) of
                 Inl e \<Rightarrow> Some (Inl (PruneStore e), db)
               | Inr runs \<Rightarrow>
                   let vmName = (case pe_vm_name env serverID vmID of
                                   Some name \<Rightarrow> name
                                 | None \<Rightarrow> if runs = [] then vmID else br_VMName (hd runs))
                   in case Apply policy runs (pe_now env) of
                        None \<Rightarrow> None
                      | Some decision \<Rightarrow>
                          let plan = WithDeletionConditions (pe_fingerprint env)
                                       (BuildPlan (pe_fingerprint env) serverID vmID vmName targetID runs decision)
                                       (pe_delay env) target
                          in if expectedToken \<noteq> '''' \<and> pl_Token plan \<noteq> expectedToken then Some (Inl PlanChanged, db)
                             else if dryRun then Some (Inr plan, db)
                             else carry_out env plan db))"

definition ApplyRetention ::
  "purge_env \<Rightarrow> string \<Rightarrow> string \<Rightarrow> string \<Rightarrow> RetentionPolicy \<Rightarrow> bool \<Rightarrow> prune_db \<Rightarrow> ((prune_error + Plan) \<times> prune_db) option" where
  "ApplyRetention env serverID vmID targetID policy dryRun db = applyRetention env serverID vmID targetID policy dryRun '''' db"

definition ApplyRetentionConfirmed ::
  "purge_env \<Rightarrow> string \<Rightarrow> string \<Rightarrow> string \<Rightarrow> RetentionPolicy \<Rightarrow> string \<Rightarrow> prune_db \<Rightarrow> ((prune_error + Plan) \<times> prune_db) option" where
  "ApplyRetentionConfirmed env serverID vmID targetID policy token db =
     (if token = '''' then Some (Inl NoPlanToken, db)
      else applyRetention env serverID vmID targetID policy False token db)"

fun prune_loop :: "purge_env \<Rightarrow> BackupRun list \<Rightarrow> nat \<Rightarrow> prune_db \<Rightarrow> (nat \<times> prune_db) option" where
  "prune_loop env [] deleted db = Some (deleted, db)"
| "prune_loop env (run # runs) deleted db =
     (if (case br_ExpiresAt run of None \<Rightarrow> True | Some t \<Rightarrow> t > pe_now env) then prune_loop env runs deleted db
      else case DeleteRunData env (br_ID run) (pe_expired_text env) db of
             None \<Rightarrow> None
           | Some (Inl e, db1) \<Rightarrow> prune_loop env runs deleted db1
           | Some (Inr _, db1) \<Rightarrow> prune_loop env runs (deleted + 1) db1)"

definition PruneExpired :: "purge_env \<Rightarrow> prune_db \<Rightarrow> ((prune_error + nat) \<times> prune_db) option" where
  "PruneExpired env db =
     (case ListBackupRuns db (no_filter\<lparr>rf_Statuses := [RunSucceeded, RunPartial, RunFailed]\<rparr>) of
        Inl e \<Rightarrow> Some (Inl (PruneStore e), db)
      | Inr runs \<Rightarrow> (case prune_loop env runs 0 db of
           None \<Rightarrow> None | Some (n, db1) \<Rightarrow> Some (Inr n, db1)))"

section \<open>Histories\<close>

datatype prune_event =
    EvDelete string string
  | EvPurge string string
  | EvCollect
  | EvExpire
  | EvRetention string string string RetentionPolicy bool string
  | EvUndelete string

fun prune_step :: "purge_env \<Rightarrow> prune_event \<Rightarrow> prune_db \<Rightarrow> prune_db option" where
  "prune_step env (EvDelete rid why) db = map_option snd (DeleteRunData env rid why db)"
| "prune_step env (EvPurge rid why) db = map_option snd (PurgeRunData env rid why db)"
| "prune_step env EvCollect db = PurgeExpired env db"
| "prune_step env EvExpire db = map_option snd (PruneExpired env db)"
| "prune_step env (EvRetention srv vm target policy dryRun token) db =
     map_option snd (applyRetention env srv vm target policy dryRun token db)"
| "prune_step env (EvUndelete rid) db = Some (snd (RestoreRunFromQuarantine rid db))"

fun prune_history :: "(purge_env \<times> prune_event) list \<Rightarrow> prune_db \<Rightarrow> prune_db option" where
  "prune_history [] db = Some db"
| "prune_history ((env, ev) # evs) db = (case prune_step env ev db of None \<Rightarrow> None | Some db1 \<Rightarrow> prune_history evs db1)"

section \<open>The walk over dependents\<close>

lemma children_iff:
  "x \<in> set (children chain root i) \<longleftrightarrow>
     (\<exists>r \<in> set chain. br_ID r = x \<and> \<not> br_Deleted r \<and> x \<noteq> root \<and> br_ParentRunID r = i)"
  by (auto simp: children_def)

lemma children_distinct: "distinct (map br_ID chain) \<Longrightarrow> distinct (children chain root i)"
  by (simp add: children_def distinct_map_filter)

lemma children_unique:
  assumes "distinct (map br_ID chain)" "x \<in> set (children chain root i)" "x \<in> set (children chain root j)"
  shows "i = j"
proof -
  obtain r r' where r: "r \<in> set chain" "br_ID r = x" "br_ParentRunID r = i"
      and r': "r' \<in> set chain" "br_ID r' = x" "br_ParentRunID r' = j"
    using assms(2,3) by (auto simp: children_iff)
  have "r = r'" using assms(1) r(1,2) r'(1,2) by (metis distinct_map inj_on_def)
  then show ?thesis using r r' by simp
qed

text \<open>The live runs whose parent links lead to \<open>root\<close> through live runs.\<close>

inductive rests_on :: "BackupRun list \<Rightarrow> string \<Rightarrow> string \<Rightarrow> bool" for chain root where
  direct: "x \<in> set (children chain root root) \<Longrightarrow> rests_on chain root x"
| through: "rests_on chain root y \<Longrightarrow> x \<in> set (children chain root y) \<Longrightarrow> rests_on chain root x"

text \<open>
  The walk keeps one list: what it has looked at followed by the queue. Every entry but the root is a
  child of an entry looked at before, so with unique identifiers no entry appears twice.
\<close>

definition walk_inv :: "BackupRun list \<Rightarrow> string \<Rightarrow> string list \<Rightarrow> string list \<Rightarrow> string list \<Rightarrow> bool" where
  "walk_inv chain root seen queue out \<longleftrightarrow>
     root # out = seen @ queue \<and> distinct (root # out) \<and> set out = (\<Union>i \<in> set seen. set (children chain root i)) \<and>
     (\<forall>x \<in> set out. rests_on chain root x)"

lemma walk_inv_step:
  assumes "walk_inv chain root seen (i # queue) out" "distinct (map br_ID chain)"
  shows "walk_inv chain root (seen @ [i]) (queue @ children chain root i) (out @ children chain root i)"
proof -
  have i: "root # out = seen @ i # queue" "distinct (root # out)"
    "set out = (\<Union>j \<in> set seen. set (children chain root j))"
    using assms(1) unfolding walk_inv_def by blast+
  have "i \<notin> set seen" using i(1,2) by (metis distinct_append distinct.simps(2) disjoint_iff list.set_intros(1))
  then have dis: "set out \<inter> set (children chain root i) = {}"
    unfolding i(3) using children_unique [OF assms(2)] by blast
  have root: "root \<notin> set (children chain root i)" by (auto simp: children_iff)
  have new: "rests_on chain root x" if "x \<in> set (children chain root i)" for x
  proof (cases "i = root")
    case True
    then show ?thesis using that rests_on.direct by simp
  next
    case False
    then have "i \<in> set out" using i(1) by (metis in_set_conv_decomp set_ConsD)
    then have "rests_on chain root i" using assms(1) unfolding walk_inv_def by blast
    then show ?thesis using that by (rule rests_on.through)
  qed
  have old: "\<forall>x \<in> set out. rests_on chain root x" using assms(1) unfolding walk_inv_def by blast
  have d: "distinct out" "root \<notin> set out" using i(2) by simp_all
  show ?thesis
    unfolding walk_inv_def
  proof (intro conjI)
    show "root # out @ children chain root i = (seen @ [i]) @ queue @ children chain root i" using i(1) by simp
    show "distinct (root # out @ children chain root i)"
      using d dis root children_distinct [OF assms(2)] by simp
    show "set (out @ children chain root i) = (\<Union>j \<in> set (seen @ [i]). set (children chain root j))" using i(3) by auto
    show "\<forall>x \<in> set (out @ children chain root i). rests_on chain root x" using old new by auto
  qed
qed

lemma dependents_loop_returns:
  assumes "walk_inv chain root seen queue out" "distinct (map br_ID chain)"
  shows "\<exists>seen' out'. dependents_loop (children chain root) queue out = Some out' \<and> walk_inv chain root seen' [] out'"
  using assms
proof (induction "Suc (length chain) - length seen" arbitrary: seen queue out rule: less_induct)
  case less
  show ?case
  proof (cases queue)
    case Nil
    then show ?thesis using less.prems by (subst dependents_loop.simps) auto
  next
    case (Cons i rest)
    note inv = less.prems(1) [unfolded Cons]
    have "distinct out" "set out \<subseteq> br_ID ` set chain" using inv by (auto simp: walk_inv_def children_iff)
    then have "length out \<le> length chain" by (metis card_mono distinct_card finite_set length_map list.set_map less.prems(2))
    moreover have "length seen + Suc (length rest) = Suc (length out)"
      using inv by (metis walk_inv_def length_Cons length_append)
    ultimately have "Suc (length chain) - length (seen @ [i]) < Suc (length chain) - length seen" by simp
    from less.hyps [OF this walk_inv_step [OF inv less.prems(2)] less.prems(2)]
    show ?thesis using Cons by (subst dependents_loop.simps) auto
  qed
qed

lemma walk_complete:
  assumes "walk_inv chain root seen [] out"
  shows "set out = {x. rests_on chain root x}"
proof -
  have s: "root # out = seen" "set out = (\<Union>i \<in> set seen. set (children chain root i))" "\<forall>x \<in> set out. rests_on chain root x"
    using assms by (auto simp: walk_inv_def)
  have closed: "set (children chain root i) \<subseteq> set out" if "i = root \<or> i \<in> set out" for i
    using that s(1,2) by (metis SUP_upper list.set_intros(1) list.set_intros(2))
  have "x \<in> set out" if "rests_on chain root x" for x
    using that by induction (use closed in blast)+
  then show ?thesis using s(3) by blast
qed

definition chain_of :: "prune_db \<Rightarrow> BackupRun \<Rightarrow> BackupRun list" where
  "chain_of db run = filter (\<lambda>r. br_ChainID run = '''' \<or> br_ChainID r = br_ChainID run) (runs_of db)"

lemma dependents_result:
  assumes "distinct (map br_ID (runs_of db))" "\<not> pd_fails db ''list runs'' (br_ChainID run)"
  shows "\<exists>out. dependents db run = Some (Inr out) \<and> distinct out \<and> set out = {x. rests_on (chain_of db run) (br_ID run) x}"
proof -
  let ?f = "no_filter\<lparr>rf_ChainID := br_ChainID run\<rparr>"
  define chain where "chain = sort_key (\<lambda>r. - br_CreatedAt r) (filter (run_matches ?f) (runs_of db))"
  have l: "ListBackupRuns db ?f = Inr chain" using assms(2) by (simp add: ListBackupRuns_def chain_def no_filter_def page_def)
  have dis: "distinct (map br_ID chain)"
  proof -
    have "inj_on br_ID (set (filter (run_matches ?f) (runs_of db)))"
      using assms(1) by (auto simp: distinct_map intro: inj_on_subset)
    then show ?thesis using assms(1) by (simp add: chain_def distinct_map)
  qed
  have "walk_inv chain (br_ID run) [] [br_ID run] []" by (simp add: walk_inv_def)
  from dependents_loop_returns [OF this dis] obtain seen out where
    out: "dependents_loop (children chain (br_ID run)) [br_ID run] [] = Some out" "walk_inv chain (br_ID run) seen [] out" by blast
  have mem: "set (children chain (br_ID run) i) = set (children (chain_of db run) (br_ID run) i)" for i
    by (auto simp: children_iff chain_def chain_of_def run_matches_def no_filter_def)
  have "rests_on chain (br_ID run) x = rests_on (chain_of db run) (br_ID run) x" for x
  proof
    show "rests_on (chain_of db run) (br_ID run) x" if "rests_on chain (br_ID run) x"
      using that by induction (auto simp: mem intro: rests_on.intros)
    show "rests_on chain (br_ID run) x" if "rests_on (chain_of db run) (br_ID run) x"
      using that by induction (auto simp: mem [symmetric] intro: rests_on.intros)
  qed
  then show ?thesis
    using l out walk_complete [OF out(2)] by (auto simp: dependents_def walk_inv_def)
qed

lemma dependents_none:
  assumes "dependents db run = Some (Inr [])" "distinct (map br_ID (runs_of db))"
    and "r \<in> set (runs_of db)" "\<not> br_Deleted r" "br_ID r \<noteq> br_ID run" "br_ChainID r = br_ChainID run"
  shows "br_ParentRunID r \<noteq> br_ID run"
proof
  assume par: "br_ParentRunID r = br_ID run"
  have "\<not> pd_fails db ''list runs'' (br_ChainID run)"
    using assms(1) by (auto simp: dependents_def ListBackupRuns_def no_filter_def split: if_splits)
  then have "{x. rests_on (chain_of db run) (br_ID run) x} = {}"
    using dependents_result [OF assms(2), of run] assms(1) by auto
  moreover have "br_ID r \<in> set (children (chain_of db run) (br_ID run) (br_ID run))"
    using assms par by (auto simp: children_iff chain_of_def)
  ultimately show False using rests_on.direct by fastforce
qed

section \<open>Deletion keeps chains whole\<close>

text \<open>
  Identifiers are unique and not empty, and every live run with a parent has another run as its parent,
  live, in the same chain and with its objects untouched, unless it is among the runs \<open>T\<close> whose objects
  were touched before; the links are the rows' identifiers, parents, chains and types, which no deletion changes.
\<close>

definition chains_safe :: "string set \<Rightarrow> prune_db \<Rightarrow> bool" where
  "chains_safe T db \<longleftrightarrow>
     distinct (map br_ID (runs_of db)) \<and> '''' \<notin> br_ID ` set (runs_of db) \<and>
     (\<forall>r \<in> set (runs_of db). \<not> br_Deleted r \<and> br_ParentRunID r \<noteq> '''' \<longrightarrow>
        br_ParentRunID r \<noteq> br_ID r \<and>
        (\<exists>p \<in> set (runs_of db). br_ID p = br_ParentRunID r \<and> \<not> br_Deleted p \<and> br_ChainID p = br_ChainID r \<and>
           br_ID p \<notin> set (pd_touched db) - T))"

definition links :: "prune_db \<Rightarrow> (string \<times> string \<times> string \<times> BackupType) list" where
  "links db = map (\<lambda>r. (br_ID r, br_ParentRunID r, br_ChainID r, br_Type r)) (runs_of db)"

text \<open>A deletion may be done to \<open>rid\<close>: no other live run names it as its parent.\<close>

definition childless :: "prune_db \<Rightarrow> string \<Rightarrow> bool" where
  "childless db rid \<longleftrightarrow> (\<forall>r \<in> set (runs_of db). \<not> br_Deleted r \<longrightarrow> br_ID r \<noteq> rid \<longrightarrow> br_ParentRunID r \<noteq> rid)"

definition known :: "prune_db \<Rightarrow> BackupRun \<Rightarrow> bool" where
  "known db run \<longleftrightarrow> (br_ID run, br_ParentRunID run, br_ChainID run, br_Type run) \<in> set (links db)"

lemma no_dependents_childless:
  assumes safe: "chains_safe UNIV db" and k: "known db run" and dep: "dependents db run = Some (Inr [])"
  shows "childless db (br_ID run)"
  unfolding childless_def
proof (intro ballI impI notI)
  fix r assume r: "r \<in> set (runs_of db)" "\<not> br_Deleted r" "br_ID r \<noteq> br_ID run" and par: "br_ParentRunID r = br_ID run"
  have dis: "distinct (map br_ID (runs_of db))" using safe by (simp add: chains_safe_def)
  obtain q where q: "q \<in> set (runs_of db)" "br_ID q = br_ID run" "br_ChainID q = br_ChainID run"
    using k by (auto simp: known_def links_def)
  have "br_ID run \<noteq> ''''" using safe q unfolding chains_safe_def by (metis image_eqI)
  then obtain p where "p \<in> set (runs_of db)" "br_ID p = br_ID run" "br_ChainID p = br_ChainID r"
    using safe r par unfolding chains_safe_def by metis
  then have "br_ChainID r = br_ChainID run" using q dis by (metis distinct_map inj_on_def)
  then show False using dependents_none [OF dep dis r] par by simp
qed

lemma chains_safe_mono: "chains_safe T db \<Longrightarrow> T \<subseteq> U \<Longrightarrow> chains_safe U db"
  unfolding chains_safe_def by blast

text \<open>What an operation keeps.\<close>

definition keeps_chains :: "prune_db \<Rightarrow> prune_db \<Rightarrow> bool" where
  "keeps_chains db db' \<longleftrightarrow> links db' = links db \<and> st_run_err (pd_store db') = st_run_err (pd_store db) \<and> (\<forall>T. chains_safe T db \<longrightarrow> chains_safe T db')"

lemma keeps_refl [simp, intro]: "keeps_chains db db"
  by (simp add: keeps_chains_def)

lemma keeps_trans [trans]: "keeps_chains a b \<Longrightarrow> keeps_chains b c \<Longrightarrow> keeps_chains a c"
  by (simp add: keeps_chains_def)

lemma keeps_known: "keeps_chains db db' \<Longrightarrow> known db' run = known db run"
  by (simp add: keeps_chains_def known_def)

text \<open>The changes that count: objects of a run touched, and a row of the table updated.\<close>

lemma keeps_touch:
  assumes "runs_of db' = runs_of db" "st_run_err (pd_store db') = st_run_err (pd_store db)" "set (pd_touched db') \<subseteq> insert rid (set (pd_touched db))" "childless db rid"
  shows "keeps_chains db db'"
  unfolding keeps_chains_def
proof (intro conjI allI impI)
  show "links db' = links db" using assms(1) by (simp add: links_def)
  show "st_run_err (pd_store db') = st_run_err (pd_store db)" by (rule assms(2))
  fix T assume safe: "chains_safe T db"
  have "br_ParentRunID r \<noteq> rid" if "r \<in> set (runs_of db)" "\<not> br_Deleted r" "br_ParentRunID r \<noteq> ''''" for r
    using that assms(4) safe unfolding childless_def chains_safe_def by metis
  note par = this
  show "chains_safe T db'"
    unfolding chains_safe_def assms(1)
  proof (intro conjI ballI impI)
    fix r assume r: "r \<in> set (runs_of db)" "\<not> br_Deleted r \<and> br_ParentRunID r \<noteq> ''''"
    then obtain p where p: "br_ParentRunID r \<noteq> br_ID r" "p \<in> set (runs_of db)" "br_ID p = br_ParentRunID r" "\<not> br_Deleted p"
        "br_ChainID p = br_ChainID r" "br_ID p \<notin> set (pd_touched db) - T"
      using safe unfolding chains_safe_def by blast
    show "br_ParentRunID r \<noteq> br_ID r" by (rule p(1))
    have "br_ID p \<notin> set (pd_touched db') - T" using p(3,6) par [of r] r assms(3) by auto
    then show "\<exists>p \<in> set (runs_of db). br_ID p = br_ParentRunID r \<and> \<not> br_Deleted p \<and> br_ChainID p = br_ChainID r \<and>
        br_ID p \<notin> set (pd_touched db') - T" using p by blast
  qed (use safe in \<open>simp_all add: chains_safe_def\<close>)
qed

lemma keeps_update:
  assumes f: "\<And>r. r \<in> set (runs_of db) \<Longrightarrow> br_ID r = rid \<Longrightarrow>
      br_ID (f r) = br_ID r \<and> br_ParentRunID (f r) = br_ParentRunID r \<and> br_ChainID (f r) = br_ChainID r \<and> br_Type (f r) = br_Type r"
    and d: "(\<forall>r \<in> set (runs_of db). br_ID r = rid \<longrightarrow> br_Deleted (f r) = br_Deleted r) \<or>
      childless db rid \<and> (\<forall>r \<in> set (runs_of db). br_Deleted (f r))"
  shows "keeps_chains db (update_run rid f db)"
  unfolding keeps_chains_def
proof (intro conjI allI impI)
  let ?g = "\<lambda>r. if br_ID r = rid then f r else r"
  let ?db = "update_run rid f db"
  have runs: "runs_of ?db = map ?g (runs_of db)" "pd_touched ?db = pd_touched db" by (simp_all add: update_run_def)
  have g: "br_ID (?g r) = br_ID r" "br_ParentRunID (?g r) = br_ParentRunID r" "br_ChainID (?g r) = br_ChainID r"
    "br_Type (?g r) = br_Type r" if "r \<in> set (runs_of db)" for r
    using f that by simp_all
  show "links ?db = links db" using g by (simp add: links_def runs)
  show "st_run_err (pd_store ?db) = st_run_err (pd_store db)" by (simp add: update_run_def)
  have ids: "map br_ID (runs_of ?db) = map br_ID (runs_of db)" using g(1) by (simp add: runs)
  fix T assume safe: "chains_safe T db"
  show "chains_safe T ?db"
    unfolding chains_safe_def
  proof (intro conjI ballI impI)
    show "distinct (map br_ID (runs_of ?db))" using safe unfolding ids by (simp add: chains_safe_def)
    have "br_ID ` set (runs_of ?db) = br_ID ` set (runs_of db)" using ids by (metis list.set_map)
    then show "'''' \<notin> br_ID ` set (runs_of ?db)" using safe unfolding chains_safe_def by simp
    fix r' assume "r' \<in> set (runs_of ?db)" and r': "\<not> br_Deleted r' \<and> br_ParentRunID r' \<noteq> ''''"
    then obtain r where r: "r \<in> set (runs_of db)" "r' = ?g r" by (auto simp: runs)
    have live: "\<not> br_Deleted r" using r' r d by (auto split: if_splits)
    then obtain p where p: "br_ParentRunID r \<noteq> br_ID r" "p \<in> set (runs_of db)" "br_ID p = br_ParentRunID r" "\<not> br_Deleted p"
        "br_ChainID p = br_ChainID r" "br_ID p \<notin> set (pd_touched db) - T"
      using safe r(1) r' g [OF r(1)] unfolding chains_safe_def r(2) by metis
    show "br_ParentRunID r' \<noteq> br_ID r'" using p(1) g [OF r(1)] r(2) by simp
    have "\<not> br_Deleted (?g p)"
    proof (cases "br_ID p = rid")
      case True
      then have "\<forall>r \<in> set (runs_of db). br_ID r = rid \<longrightarrow> br_Deleted (f r) = br_Deleted r"
        using d r(1) live p(1,3) unfolding childless_def by metis
      then show ?thesis using p(2,4) by simp
    qed (use p(4) in simp)
    then show "\<exists>p \<in> set (runs_of ?db). br_ID p = br_ParentRunID r' \<and> \<not> br_Deleted p \<and> br_ChainID p = br_ChainID r' \<and>
        br_ID p \<notin> set (pd_touched ?db) - T"
      using p g [OF p(2)] g [OF r(1)] r(2) by (intro bexI [of _ "?g p"]) (simp_all only: runs set_map image_eqI, simp_all)
  qed
qed

lemma childless_runs: "runs_of db' = runs_of db \<Longrightarrow> childless db' rid = childless db rid"
  by (simp add: childless_def)

lemma keeps_ranked: "keeps_chains db db' \<Longrightarrow> chain_ranked rank (runs_of db') = chain_ranked rank (runs_of db)"
proof -
  have rank: "chain_ranked rank (runs_of d) \<longleftrightarrow>
      (\<forall>(i, q, c, t) \<in> set (links d). \<forall>(j, q', c', t') \<in> set (links d). q = j \<longrightarrow> rank j < rank i)" for d
    by (simp add: chain_ranked_def links_def)
  show "keeps_chains db db' \<Longrightarrow> ?thesis" unfolding rank by (simp add: keeps_chains_def)
qed

section \<open>What each operation keeps\<close>

lemma keeps_MarkRunDeleted: "childless db rid \<Longrightarrow> keeps_chains db (snd (MarkRunDeleted rid db))"
  by (auto simp: MarkRunDeleted_def intro!: keeps_update)

lemma keeps_QuarantineRun: "childless db rid \<Longrightarrow> keeps_chains db (snd (QuarantineRun rid t why now db))"
  by (auto simp: QuarantineRun_def intro!: keeps_update)

lemma keeps_NoteRunErased: "keeps_chains db (snd (NoteRunErased rid why now db))"
  by (auto simp: NoteRunErased_def intro!: keeps_update)

lemma keeps_ClearRunPurge: "keeps_chains db (snd (ClearRunPurge rid db))"
  by (auto simp: ClearRunPurge_def intro!: keeps_update)

lemma UpdateBackupCopy_runs [simp]:
  "runs_of (snd (UpdateBackupCopy c db)) = runs_of db" "pd_touched (snd (UpdateBackupCopy c db)) = pd_touched db"
  "st_run_err (pd_store (snd (UpdateBackupCopy c db))) = st_run_err (pd_store db)"
  by (simp_all add: UpdateBackupCopy_def)

lemma erase_copy_runs:
  "runs_of (snd (erase_copy env rid c db)) = runs_of db \<and>
   st_run_err (pd_store (snd (erase_copy env rid c db))) = st_run_err (pd_store db) \<and>
   set (pd_touched (snd (erase_copy env rid c db))) \<subseteq> insert rid (set (pd_touched db))"
  by (auto simp: erase_copy_def Let_def touch_def split: option.splits sum.splits)

lemma erase_copies_runs:
  "runs_of (snd (erase_copies env rid cs db)) = runs_of db \<and>
   st_run_err (pd_store (snd (erase_copies env rid cs db))) = st_run_err (pd_store db) \<and>
   set (pd_touched (snd (erase_copies env rid cs db))) \<subseteq> insert rid (set (pd_touched db))"
proof (induction cs arbitrary: db)
  case (Cons c cs)
  obtain r db1 where e: "erase_copy env rid c db = (r, db1)" by fastforce
  have "runs_of db1 = runs_of db \<and> st_run_err (pd_store db1) = st_run_err (pd_store db) \<and> set (pd_touched db1) \<subseteq> insert rid (set (pd_touched db))"
    using erase_copy_runs [of env rid c db] e by simp
  then show ?case using e Cons.IH [of db] Cons.IH [of db1] by (auto split: sum.splits)
qed auto

text \<open>Every operation returns, and keeps the chains, from a state where they are whole.\<close>

definition settles :: "prune_db \<Rightarrow> ('a \<times> prune_db) option \<Rightarrow> bool" where
  "settles db r \<longleftrightarrow> (\<exists>x db'. r = Some (x, db') \<and> keeps_chains db db')"

lemma settles_Some [simp]: "settles db (Some z) \<longleftrightarrow> keeps_chains db (snd z)"
  by (cases z) (simp add: settles_def)

lemma dependents_returns:
  assumes "chains_safe UNIV db"
  obtains e where "dependents db run = Some (Inl e)"
  | deps where "dependents db run = Some (Inr deps)"
proof (cases "pd_fails db ''list runs'' (br_ChainID run)")
  case True
  then show ?thesis using that(1) by (simp add: dependents_def ListBackupRuns_def no_filter_def)
next
  case False
  then show ?thesis using that(2) assms dependents_result [of db run] by (auto simp: chains_safe_def)
qed

lemma erase_and_mark_keeps:
  assumes free: "childless db rid" shows "keeps_chains db (snd (erase_and_mark env rid copies db))"
proof -
  define cs where "cs = sort_key (\<lambda>c. if bc_Role c = CopyPrimary then 1 else (0 :: int)) copies"
  obtain r db1 where e: "erase_copies env rid cs db = (r, db1)" by fastforce
  have db1: "runs_of db1 = runs_of db" "st_run_err (pd_store db1) = st_run_err (pd_store db)"
      "set (pd_touched db1) \<subseteq> insert rid (set (pd_touched db))"
    using erase_copies_runs [of env rid cs db] e by simp_all
  have "keeps_chains db db1" by (rule keeps_touch [OF db1 free])
  moreover have "keeps_chains db1 (snd (MarkRunDeleted rid db1))"
    using free childless_runs [OF db1(1)] by (simp add: keeps_MarkRunDeleted)
  ultimately show ?thesis
    using e keeps_trans unfolding erase_and_mark_def cs_def [symmetric] by (cases r) auto
qed

lemma purgeRunObjects_settles:
  assumes safe: "chains_safe UNIV db" and k: "known db run"
  shows "settles db (purgeRunObjects env run db)"
proof (cases rule: dependents_returns [OF safe, of run])
  case (2 deps)
  show ?thesis
  proof (cases "deps = []")
    case True
    have free: "childless db (br_ID run)" using no_dependents_childless [OF safe k] 2 True by simp
    show ?thesis
      using 2 True erase_and_mark_keeps [OF free] keeps_MarkRunDeleted [OF free]
      by (auto simp: purgeRunObjects_def split: sum.splits option.splits)
  qed (use 2 in \<open>simp add: purgeRunObjects_def\<close>)
qed (simp add: purgeRunObjects_def)

lemma purgeRunData_settles:
  "chains_safe UNIV db \<Longrightarrow> known db run \<Longrightarrow> settles db (purgeRunData env run db)"
  using purgeRunObjects_settles by (auto simp: purgeRunData_def split: sum.splits)

lemma purge_then_note:
  assumes "settles db r" "\<And>db1. keeps_chains db1 (snd (f db1))"
  shows "settles db (case r of None \<Rightarrow> None | Some (Inl e, db1) \<Rightarrow> Some (Inl e, db1) | Some (Inr _, db1) \<Rightarrow> Some (f db1))"
proof -
  obtain x db1 where r: "r = Some (x, db1)" "keeps_chains db db1" using assms(1) by (auto simp: settles_def)
  have "keeps_chains db (snd (f db1))" using r(2) assms(2) by (rule keeps_trans)
  then show ?thesis using r by (cases x) simp_all
qed

lemma run_known: "r \<in> set (runs_of db) \<Longrightarrow> known db r"
  by (auto simp: known_def links_def)

lemma GetBackupRun_known: "GetBackupRun db rid = Inr run \<Longrightarrow> known db run \<and> br_ID run = rid"
  using run_known by (auto simp: GetBackupRun_def dest: query_mem)

lemma PurgeRunData_settles:
  assumes "chains_safe UNIV db" shows "settles db (PurgeRunData env rid why db)"
proof (cases "GetBackupRun db rid")
  case (Inr run)
  have "settles db (purgeRunData env run db)"
    using GetBackupRun_known [OF Inr] purgeRunData_settles [OF assms] by blast
  from purge_then_note [OF this keeps_NoteRunErased] show ?thesis using Inr by (simp add: PurgeRunData_def)
qed (simp add: PurgeRunData_def)

lemma DeleteRunData_settles:
  assumes safe: "chains_safe UNIV db" shows "settles db (DeleteRunData env rid why db)"
proof (cases "GetBackupRun db rid")
  case (Inr run)
  have k: "known db run" "br_ID run = rid" using GetBackupRun_known [OF Inr] by simp_all
  have erase: "settles db (purgeRunData env run db)" by (rule purgeRunData_settles [OF safe k(1)])
  have quarantine: "keeps_chains db (snd (QuarantineRun rid t why now db))" if "dependents db run = Some (Inr [])" for t now
    using no_dependents_childless [OF safe k(1) that] k(2) by (simp add: keeps_QuarantineRun)
  show ?thesis
  proof (cases rule: dependents_returns [OF safe, of run])
    case 1
    then show ?thesis using Inr purge_then_note [OF erase keeps_NoteRunErased]
      by (simp add: DeleteRunData_def split: sum.split)
  next
    case (2 deps)
    then show ?thesis using Inr purge_then_note [OF erase keeps_NoteRunErased] quarantine
      by (cases "deps = []") (simp_all add: DeleteRunData_def split: sum.split)
  qed
qed (simp add: DeleteRunData_def)

section \<open>Passes\<close>

text \<open>
  A pass does one thing after another; what an element needs of the state is stable, so a pass over
  elements that settle settles. The collector, the retention pass, the expiry pass and a whole history
  are such passes.
\<close>

fun each :: "('a \<Rightarrow> prune_db \<Rightarrow> prune_db option) \<Rightarrow> 'a list \<Rightarrow> prune_db \<Rightarrow> prune_db option" where
  "each act [] db = Some db"
| "each act (x # xs) db = (case act x db of None \<Rightarrow> None | Some db1 \<Rightarrow> each act xs db1)"

locale chain_keeping =
  fixes act :: "'a \<Rightarrow> prune_db \<Rightarrow> prune_db option" and ok :: "prune_db \<Rightarrow> 'a \<Rightarrow> bool"
  assumes stable: "keeps_chains db db' \<Longrightarrow> ok db x \<Longrightarrow> ok db' x"
    and act_keeps: "chains_safe UNIV db \<Longrightarrow> ok db x \<Longrightarrow> \<exists>db'. act x db = Some db' \<and> keeps_chains db db'"
begin

lemma each_keeps:
  assumes "chains_safe UNIV db" "\<And>x. x \<in> set xs \<Longrightarrow> ok db x"
  shows "\<exists>db'. each act xs db = Some db' \<and> keeps_chains db db'"
  using assms
proof (induction xs arbitrary: db)
  case (Cons x xs)
  obtain db1 where db1: "act x db = Some db1" "keeps_chains db db1" using act_keeps Cons.prems by force
  have "\<exists>db'. each act xs db1 = Some db' \<and> keeps_chains db1 db'"
    using Cons.prems db1(2) stable by (intro Cons.IH) (auto simp: keeps_chains_def)
  then show ?case using db1 keeps_trans by auto
qed auto

end

definition collect_one :: "purge_env \<Rightarrow> BackupRun \<Rightarrow> prune_db \<Rightarrow> prune_db option" where
  "collect_one env run db =
     (case purgeRunData env run db of
        None \<Rightarrow> None
      | Some (Inl e, db1) \<Rightarrow> Some db1
      | Some (Inr _, db1) \<Rightarrow> Some (snd (ClearRunPurge (br_ID run) db1)))"

definition delete_one :: "purge_env \<Rightarrow> (string \<times> string) \<Rightarrow> prune_db \<Rightarrow> prune_db option" where
  "delete_one env d db = map_option snd (DeleteRunData env (fst d) (snd d) db)"

lemma settles_map_snd: "settles db r \<Longrightarrow> \<exists>db'. map_option snd r = Some db' \<and> keeps_chains db db'"
  by (auto simp: settles_def)

lemma pass_settles:
  "map_option snd r = each act xs db \<Longrightarrow> \<exists>db'. each act xs db = Some db' \<and> keeps_chains db db' \<Longrightarrow> settles db r"
  by (auto simp: settles_def)

lemma purge_due_each: "purge_due env runs db = each (collect_one env) runs db"
  by (induction runs arbitrary: db) (auto simp: collect_one_def split: option.split sum.split)

lemma delete_noted_each:
  "map_option snd (delete_noted env ns n firstErr db) =
   each (delete_one env) (map (\<lambda>note. (rn_RunID note, retentionDeleteReason env (pe_why env (rn_Reason note)))) ns) db"
  by (induction ns arbitrary: n firstErr db) (auto simp: delete_one_def split: option.split sum.split)

lemma prune_loop_each:
  "map_option snd (prune_loop env runs n db) =
   each (delete_one env) (map (\<lambda>r. (br_ID r, pe_expired_text env))
     (filter (\<lambda>r. \<not> (case br_ExpiresAt r of None \<Rightarrow> True | Some t \<Rightarrow> t > pe_now env)) runs)) db"
proof (induction runs arbitrary: n db)
  case (Cons run runs)
  show ?case
  proof (cases "case br_ExpiresAt run of None \<Rightarrow> True | Some t \<Rightarrow> t > pe_now env")
    case False
    then show ?thesis using Cons.IH by (auto simp: delete_one_def split: option.split sum.split)
  qed (use Cons.IH in simp)
qed simp

interpretation collecting: chain_keeping "collect_one env" known for env
proof unfold_locales
  show "known db' run" if "keeps_chains db db'" "known db run" for db db' run using that keeps_known by simp
  show "\<exists>db'. collect_one env run db = Some db' \<and> keeps_chains db db'" if safe: "chains_safe UNIV db" "known db run" for db run
  proof -
    obtain x db1 where r: "purgeRunData env run db = Some (x, db1)" "keeps_chains db db1"
      using purgeRunData_settles [OF safe, of env] by (auto simp: settles_def)
    have "keeps_chains db (snd (ClearRunPurge (br_ID run) db1))" using r(2) keeps_ClearRunPurge by (rule keeps_trans)
    then show ?thesis using r by (cases x) (simp_all add: collect_one_def)
  qed
qed

interpretation deleting: chain_keeping "delete_one env" "\<lambda>_ _. True" for env
  by unfold_locales (simp_all only: delete_one_def settles_map_snd DeleteRunData_settles)

lemma PurgeExpired_keeps:
  assumes "chains_safe UNIV db" shows "\<exists>db'. PurgeExpired env db = Some db' \<and> keeps_chains db db'"
proof (cases "RunsDueForPurge db (pe_now env) 50")
  case (Inr runs)
  have "set runs \<subseteq> set (runs_of db)"
    using Inr by (auto simp: RunsDueForPurge_def split: if_splits dest: in_set_takeD)
  then have "known db r" if "r \<in> set runs" for r using that run_known by blast
  from collecting.each_keeps [OF assms this, of runs env] show ?thesis
    using Inr by (simp add: PurgeExpired_def purge_due_each)
qed (auto simp: PurgeExpired_def)

lemma PruneExpired_settles:
  assumes "chains_safe UNIV db" shows "settles db (PruneExpired env db)"
proof (cases "ListBackupRuns db (no_filter\<lparr>rf_Statuses := [RunSucceeded, RunPartial, RunFailed]\<rparr>)")
  case (Inr runs)
  obtain n db' where "prune_loop env runs 0 db = Some (n, db')" "keeps_chains db db'"
    using pass_settles [OF prune_loop_each [of env runs 0] deleting.each_keeps [OF assms TrueI]]
    by (auto simp: settles_def)
  then show ?thesis using Inr by (simp add: PruneExpired_def)
qed (simp add: PruneExpired_def)

lemma Apply_on_listed:
  assumes "chain_ranked rank (runs_of db)" "ListBackupRuns db f = Inr runs" "rf_Limit f = 0"
  shows "\<exists>d. Apply policy runs now = Some d"
proof -
  have "set (candidates runs) \<subseteq> set (runs_of db)"
    using assms(2,3) by (auto simp: ListBackupRuns_def candidates_def page_def split: if_splits)
  then have "chain_ranked rank (candidates runs)" using assms(1) by (auto simp: chain_ranked_def)
  then show ?thesis by (rule retention_returns)
qed

lemma carry_out_settles:
  assumes "chains_safe UNIV db" shows "settles db (carry_out env plan db)"
proof -
  obtain n firstErr db' where "delete_noted env (pl_Delete plan) 0 None db = Some ((n, firstErr), db')" "keeps_chains db db'"
    using pass_settles [OF delete_noted_each [of env "pl_Delete plan" 0 None] deleting.each_keeps [OF assms TrueI]]
    by (auto simp: settles_def)
  then show ?thesis by (cases firstErr) (simp_all add: carry_out_def)
qed

lemma applyRetention_settles:
  assumes safe: "chains_safe UNIV db" and rank: "chain_ranked rank (runs_of db)"
  shows "settles db (applyRetention env srv vm target policy dryRun token db)"
proof (cases "ListBackupRuns db (no_filter\<lparr>rf_ServerID := srv, rf_VMID := vm, rf_TargetID := target\<rparr>)")
  case (Inr runs)
  obtain d where d: "Apply policy runs (pe_now env) = Some d"
    using Apply_on_listed [OF rank Inr] by (auto simp: no_filter_def)
  show ?thesis
    using Inr d by (simp add: applyRetention_def Let_def carry_out_settles [OF safe] split: sum.split)
qed (simp add: applyRetention_def split: sum.split)

section \<open>Histories keep the chains\<close>

definition no_undelete :: "prune_event \<Rightarrow> bool" where
  "no_undelete ev = (case ev of EvUndelete _ \<Rightarrow> False | _ \<Rightarrow> True)"

lemma prune_step_keeps:
  assumes "chains_safe UNIV db" "chain_ranked rank (runs_of db)" "no_undelete ev"
  shows "\<exists>db'. prune_step env ev db = Some db' \<and> keeps_chains db db'"
  using assms(3)
  by (cases ev) (simp_all only: prune_step.simps no_undelete_def prune_event.simps settles_map_snd assms(1,2)
      DeleteRunData_settles PurgeRunData_settles PurgeExpired_keeps PruneExpired_settles applyRetention_settles [OF assms(1,2)])

interpretation pruning: chain_keeping "\<lambda>(env, ev). prune_step env ev"
  "\<lambda>db (env, ev). chain_ranked rank (runs_of db) \<and> no_undelete ev" for rank
proof unfold_locales
  show "case x of (env, ev) \<Rightarrow> chain_ranked rank (runs_of db') \<and> no_undelete ev"
    if "keeps_chains db db'" "case x of (env, ev) \<Rightarrow> chain_ranked rank (runs_of db) \<and> no_undelete ev" for db db' x
    using that keeps_ranked by (auto split: prod.splits)
  show "\<exists>db'. (case x of (env, ev) \<Rightarrow> prune_step env ev) db = Some db' \<and> keeps_chains db db'"
    if "chains_safe UNIV db" "case x of (env, ev) \<Rightarrow> chain_ranked rank (runs_of db) \<and> no_undelete ev" for db x
    using that by (cases x) (simp add: prune_step_keeps [of db rank])
qed

lemma prune_history_each: "prune_history evs db = each (\<lambda>(env, ev). prune_step env ev) evs db"
  by (induction evs arbitrary: db) (auto split: option.split)

lemma prune_history_keeps:
  assumes "chains_safe UNIV db" "chain_ranked rank (runs_of db)" "\<forall>(env, ev) \<in> set evs. no_undelete ev"
  shows "\<exists>db'. prune_history evs db = Some db' \<and> keeps_chains db db'"
  using pruning.each_keeps [OF assms(1), of evs rank] assms(2,3) by (fastforce simp: prune_history_each)

section \<open>What deletion leaves alone\<close>

text \<open>A row is changed only by an operation on its own identifier.\<close>

definition in_progress :: "BackupRun \<Rightarrow> bool" where
  "in_progress r \<longleftrightarrow> (br_Status r = RunPending \<or> br_Status r = RunRunning) \<and> br_PurgeAfter r = None"

lemma update_run_stays: "r \<in> set (runs_of db) \<Longrightarrow> br_ID r \<noteq> rid \<Longrightarrow> r \<in> set (runs_of (update_run rid f db))"
  by (auto simp: update_run_def image_iff)

lemma statement_stays:
  assumes "r \<in> set (runs_of db)" "br_ID r \<noteq> rid"
  shows "r \<in> set (runs_of (snd (MarkRunDeleted rid db)))" "r \<in> set (runs_of (snd (QuarantineRun rid t why now db)))"
    "r \<in> set (runs_of (snd (NoteRunErased rid why now db)))" "r \<in> set (runs_of (snd (ClearRunPurge rid db)))"
  using assms update_run_stays
  by (auto simp: MarkRunDeleted_def QuarantineRun_def NoteRunErased_def ClearRunPurge_def)

lemma erase_and_mark_stays:
  assumes "r \<in> set (runs_of db)" "br_ID r \<noteq> rid" shows "r \<in> set (runs_of (snd (erase_and_mark env rid copies db)))"
proof -
  define cs where "cs = sort_key (\<lambda>c. if bc_Role c = CopyPrimary then 1 else (0 :: int)) copies"
  obtain y db1 where e: "erase_copies env rid cs db = (y, db1)" by fastforce
  have "r \<in> set (runs_of db1)" using erase_copies_runs [of env rid cs db] e assms(1) by simp
  then show ?thesis
    using e statement_stays(1) [OF _ assms(2)] unfolding erase_and_mark_def cs_def [symmetric] by (cases y) simp_all
qed

lemma purgeRunObjects_stays:
  assumes "purgeRunObjects env run db = Some z" "r \<in> set (runs_of db)" "br_ID r \<noteq> br_ID run"
  shows "r \<in> set (runs_of (snd z))"
  using assms erase_and_mark_stays [OF assms(2,3)] statement_stays(1) [OF assms(2,3)]
  by (auto simp: purgeRunObjects_def split: option.splits sum.splits if_splits)

lemma purgeRunData_stays:
  "purgeRunData env run db = Some z \<Longrightarrow> r \<in> set (runs_of db) \<Longrightarrow> br_ID r \<noteq> br_ID run \<Longrightarrow> r \<in> set (runs_of (snd z))"
  using purgeRunObjects_stays by (auto simp: purgeRunData_def split: sum.splits)

lemma note_stays:
  assumes "(case purgeRunData env run db of None \<Rightarrow> None | Some (Inl e, db1) \<Rightarrow> Some (Inl e, db1)
      | Some (Inr _, db1) \<Rightarrow> Some (f db1)) = Some z"
    and "r \<in> set (runs_of db)" "br_ID r \<noteq> br_ID run"
    and "\<And>d. r \<in> set (runs_of d) \<Longrightarrow> r \<in> set (runs_of (snd (f d)))"
  shows "r \<in> set (runs_of (snd z))"
proof (cases "purgeRunData env run db")
  case (Some p)
  obtain y db1 where p: "p = (y, db1)" by fastforce
  have "r \<in> set (runs_of db1)" using purgeRunData_stays [OF Some assms(2,3)] p by simp
  then show ?thesis using Some p assms(1) assms(4) [of db1] by (cases y) auto
qed (use assms in simp)

lemma PurgeRunData_stays:
  assumes "PurgeRunData env rid why db = Some z" "r \<in> set (runs_of db)" "br_ID r \<noteq> rid"
  shows "r \<in> set (runs_of (snd z))"
proof (cases "GetBackupRun db rid")
  case (Inr run)
  have "br_ID r \<noteq> br_ID run" using GetBackupRun_known [OF Inr] assms(3) by simp
  from note_stays [OF _ assms(2) this statement_stays(3) [OF _ assms(3)]] show ?thesis
    using assms(1) Inr by (simp add: PurgeRunData_def)
qed (use assms in \<open>auto simp: PurgeRunData_def\<close>)

lemma DeleteRunData_stays:
  assumes "DeleteRunData env rid why db = Some z" "r \<in> set (runs_of db)" "br_ID r \<noteq> rid"
  shows "r \<in> set (runs_of (snd z))"
proof (cases "GetBackupRun db rid")
  case (Inr run)
  have run: "br_ID r \<noteq> br_ID run" using GetBackupRun_known [OF Inr] assms(3) by simp
  show ?thesis
  proof (cases "br_Deleted run \<or> isl (checkRunDeletionAccess db run) \<or> pe_delay env > 0")
    case True
    then show ?thesis using assms(1,2) Inr statement_stays(2) [OF assms(2,3)]
      by (auto simp: DeleteRunData_def split: sum.splits option.splits if_splits)
  next
    case False
    then have "(case purgeRunData env run db of None \<Rightarrow> None | Some (Inl e, db1) \<Rightarrow> Some (Inl e, db1)
      | Some (Inr _, db1) \<Rightarrow> Some (NoteRunErased rid why (pe_now env) db1)) = Some z"
      using assms(1) Inr by (simp add: DeleteRunData_def split: sum.splits)
    from note_stays [OF this assms(2) run statement_stays(3) [OF _ assms(3)]] show ?thesis .
  qed
qed (use assms in \<open>auto simp: DeleteRunData_def\<close>)

lemma each_stays:
  assumes "each act xs db = Some db'" "r \<in> set (runs_of db)"
    and "\<And>x d d'. x \<in> set xs \<Longrightarrow> act x d = Some d' \<Longrightarrow> r \<in> set (runs_of d) \<Longrightarrow> r \<in> set (runs_of d')"
  shows "r \<in> set (runs_of db')"
  using assms
proof (induction xs arbitrary: db)
  case (Cons x xs)
  obtain db1 where db1: "act x db = Some db1" "each act xs db1 = Some db'" using Cons.prems(1) by (auto split: option.splits)
  have "r \<in> set (runs_of db1)" using Cons.prems(2,3) db1(1) by (meson list.set_intros(1))
  then show ?case using Cons.IH [OF db1(2)] Cons.prems(3) by (meson list.set_intros(2))
qed simp

lemma delete_one_stays:
  assumes "each (delete_one env) ds db = Some db'" "r \<in> set (runs_of db)" "br_ID r \<notin> fst ` set ds"
  shows "r \<in> set (runs_of db')"
  using assms(1,2)
proof (rule each_stays)
  fix d db1 db2 assume "d \<in> set ds" "delete_one env d db1 = Some db2" "r \<in> set (runs_of db1)"
  moreover from this(1) have "br_ID r \<noteq> fst d" using assms(3) by blast
  ultimately show "r \<in> set (runs_of db2)"
    using DeleteRunData_stays [of env "fst d" "snd d" db1 _ r] by (auto simp: delete_one_def)
qed

definition ev_target :: "prune_event \<Rightarrow> string option" where
  "ev_target ev = (case ev of EvDelete rid _ \<Rightarrow> Some rid | EvPurge rid _ \<Rightarrow> Some rid | EvUndelete rid \<Rightarrow> Some rid | _ \<Rightarrow> None)"

lemma same_id: "distinct (map br_ID (runs_of db)) \<Longrightarrow> r \<in> set (runs_of db) \<Longrightarrow> r' \<in> set (runs_of db) \<Longrightarrow> br_ID r = br_ID r' \<Longrightarrow> r = r'"
  by (auto simp: distinct_map dest: inj_onD)

lemma collect_stays:
  assumes "PurgeExpired env db = Some db'" "distinct (map br_ID (runs_of db))" "r \<in> set (runs_of db)" "in_progress r"
  shows "r \<in> set (runs_of db')"
proof (cases "RunsDueForPurge db (pe_now env) 50")
  case (Inr runs)
  have due: "q \<in> set (runs_of db) \<and> br_PurgeAfter q \<noteq> None" if "q \<in> set runs" for q
    using Inr that by (auto simp: RunsDueForPurge_def split: if_splits option.splits dest!: in_set_takeD)
  have "each (collect_one env) runs db = Some db'" using assms(1) Inr by (simp add: PurgeExpired_def purge_due_each)
  then show ?thesis using assms(3)
  proof (rule each_stays)
    fix q d d' assume q: "q \<in> set runs" "collect_one env q d = Some d'" "r \<in> set (runs_of d)"
    have ne: "br_ID r \<noteq> br_ID q" using due [OF q(1)] same_id [OF assms(2,3)] assms(4) by (auto simp: in_progress_def)
    obtain x d1 where d1: "purgeRunData env q d = Some (x, d1)" using q(2) by (auto simp: collect_one_def split: option.splits)
    have "r \<in> set (runs_of d1)" using purgeRunData_stays [OF d1 q(3) ne] by simp
    then show "r \<in> set (runs_of d')"
      using q(2) d1 statement_stays(4) [OF _ ne] by (cases x) (auto simp: collect_one_def)
  qed
qed (use assms in \<open>auto simp: PurgeExpired_def\<close>)

lemma expire_stays:
  assumes "PruneExpired env db = Some z" "distinct (map br_ID (runs_of db))" "r \<in> set (runs_of db)" "in_progress r"
  shows "r \<in> set (runs_of (snd z))"
proof (cases "ListBackupRuns db (no_filter\<lparr>rf_Statuses := [RunSucceeded, RunPartial, RunFailed]\<rparr>)")
  case (Inr runs)
  have listed: "q \<in> set (runs_of db) \<and> br_Status q \<in> {RunSucceeded, RunPartial, RunFailed}" if "q \<in> set runs" for q
    using Inr that by (auto simp: ListBackupRuns_def page_def no_filter_def run_matches_def split: if_splits)
  have "br_ID r \<noteq> br_ID q" if "q \<in> set runs" for q
    using listed [OF that] same_id [OF assms(2,3)] assms(4) by (auto simp: in_progress_def)
  note other = this
  let ?ds = "map (\<lambda>r. (br_ID r, pe_expired_text env))
     (filter (\<lambda>r. \<not> (case br_ExpiresAt r of None \<Rightarrow> True | Some t \<Rightarrow> t > pe_now env)) runs)"
  obtain n where "prune_loop env runs 0 db = Some (n, snd z)"
    using assms(1) Inr by (auto simp: PruneExpired_def split: option.splits)
  then have "each (delete_one env) ?ds db = Some (snd z)" using prune_loop_each [of env runs 0 db] by simp
  moreover have "br_ID r \<notin> fst ` set ?ds" using other by fastforce
  ultimately show ?thesis using delete_one_stays assms(3) by blast
qed (use assms in \<open>auto simp: PruneExpired_def\<close>)

lemma retention_stays:
  assumes "applyRetention env srv vm target policy dryRun token db = Some z"
    and "distinct (map br_ID (runs_of db))" "r \<in> set (runs_of db)" "in_progress r"
  shows "r \<in> set (runs_of (snd z))"
proof (cases "ListBackupRuns db (no_filter\<lparr>rf_ServerID := srv, rf_VMID := vm, rf_TargetID := target\<rparr>)")
  case (Inr runs)
  have sub: "set runs \<subseteq> set (runs_of db)"
    using Inr by (auto simp: ListBackupRuns_def page_def no_filter_def split: if_splits)
  have carry: "r \<in> set (runs_of (snd w))"
    if d: "Apply policy runs (pe_now env) = Some d" and w: "carry_out env plan db = Some w"
      and plan: "map rn_RunID (pl_Delete plan) = Delete d" for d w plan
  proof -
    have "set (Delete d) \<subseteq> br_ID ` set (candidates runs)" using d by (rule Apply_cases) (auto simp: decide_sets)
    moreover have "br_ID r \<noteq> br_ID q" if "q \<in> set (candidates runs)" for q
      using that sub same_id [OF assms(2,3)] assms(4) by (auto simp: candidates_def in_progress_def)
    ultimately have "br_ID r \<notin> set (map rn_RunID (pl_Delete plan))" unfolding plan by auto
    moreover obtain y where "delete_noted env (pl_Delete plan) 0 None db = Some (y, snd w)"
      using w by (auto simp: carry_out_def split: option.splits)
    ultimately show ?thesis
      using delete_noted_each [of env "pl_Delete plan" 0 None db] assms(3)
      by (intro delete_one_stays [OF _ assms(3)]) (auto simp: image_image)
  qed
  have "r \<in> set (runs_of (snd z))"
    if d: "Apply policy runs (pe_now env) = Some d" for d
  proof -
    let ?plan = "\<lambda>name t. WithDeletionConditions (pe_fingerprint env) (BuildPlan (pe_fingerprint env) srv vm name target runs d) (pe_delay env) t"
    have "map rn_RunID (pl_Delete (?plan name t)) = Delete d" for name t
      using plan_shows_decision [OF d, of "pe_fingerprint env" srv vm name target]
      by (simp add: Let_def WithDeletionConditions_def)
    from carry [OF d _ this] show ?thesis
      using assms(1,3) Inr d unfolding applyRetention_def Let_def
      by (auto split: sum.splits if_splits option.splits)
  qed
  then show ?thesis using assms(1,3) Inr
    by (cases "Apply policy runs (pe_now env)") (auto simp: applyRetention_def Let_def split: sum.splits if_splits)
qed (use assms in \<open>auto simp: applyRetention_def split: sum.splits if_splits\<close>)

lemma prune_step_stays:
  assumes "prune_step env ev db = Some db'" "distinct (map br_ID (runs_of db))" "r \<in> set (runs_of db)" "in_progress r"
    and "ev_target ev \<noteq> Some (br_ID r)"
  shows "r \<in> set (runs_of db')"
  using assms
  by (cases ev) (auto simp: ev_target_def RestoreRunFromQuarantine_def
      intro: update_run_stays dest: DeleteRunData_stays PurgeRunData_stays collect_stays expire_stays retention_stays)

lemma find_inj_on:
  assumes "inj_on f (set xs)" "x \<in> set xs" "f x = i" shows "find (\<lambda>y. f y = i) xs = Some x"
proof -
  have "find (\<lambda>y. f y = i) xs \<noteq> None" using assms(2,3) unfolding find_None_iff by blast
  then obtain y where y: "find (\<lambda>y. f y = i) xs = Some y" by blast
  then have "y \<in> set xs" "f y = i" by (auto simp: find_Some_iff)
  then show ?thesis using y assms by (metis inj_onD)
qed

text \<open>In a safe state the walk of a restore goes through from every live run.\<close>

lemma walk_up_safe:
  assumes safe: "chains_safe T db" and rank: "chain_ranked rank (runs_of db)" and err: "st_run_err (pd_store db) = (\<lambda>_. None)"
    and cur: "cur \<in> set (runs_of db)" "\<not> br_Deleted cur" "\<forall>a \<in> set acc. rank (br_ID cur) < rank (br_ID a)"
  shows "\<exists>ups. walk_up (pd_store db) acc cur = Inr (acc @ cur # ups) \<and> (\<forall>a \<in> set ups. br_ID a \<notin> set (pd_touched db) - T) \<and>
     set ups \<subseteq> set (runs_of db) \<and> br_ParentRunID (last (cur # ups)) = ''''"
  using cur
proof (induction "rank (br_ID cur)" arbitrary: cur acc rule: less_induct)
  case less
  have new: "br_ID cur \<notin> br_ID ` set acc" using less.prems(3) by auto
  show ?case
  proof (cases "br_ParentRunID cur = ''''")
    case True
    then show ?thesis using new by (subst walk_up.simps) simp
  next
    case False
    then obtain p where p: "p \<in> set (runs_of db)" "br_ID p = br_ParentRunID cur" "\<not> br_Deleted p" "br_ID p \<notin> set (pd_touched db) - T"
      using safe less.prems(1,2) unfolding chains_safe_def by blast
    have "inj_on br_ID (set (runs_of db))" using safe by (simp add: chains_safe_def distinct_map)
    then have "GetBackupRunFull (pd_store db) (br_ParentRunID cur) = Inr p"
      using p(1,2) by (simp add: GetBackupRunFull_def query_def err find_inj_on)
    then have par: "db_parent (pd_store db) cur = Inr p" using p(3) by (simp add: db_parent_def)
    have less_p: "rank (br_ID p) < rank (br_ID cur)" using rank less.prems(1) p(1,2) unfolding chain_ranked_def by metis
    then have "\<forall>a \<in> set (acc @ [cur]). rank (br_ID p) < rank (br_ID a)" using less.prems(3) by auto
    from less.hyps [OF less_p p(1,3) this] obtain ups where
      "walk_up (pd_store db) (acc @ [cur]) p = Inr ((acc @ [cur]) @ p # ups)" "\<forall>a \<in> set ups. br_ID a \<notin> set (pd_touched db) - T"
      "set ups \<subseteq> set (runs_of db)" "br_ParentRunID (last (p # ups)) = ''''" by blast
    then show ?thesis
      using new False par p(1,4) by (subst walk_up.simps) (auto intro!: exI [of _ "p # ups"])
  qed
qed

section \<open>Theorems\<close>

definition prune_copy :: "string \<Rightarrow> BackupCopy" where
  "prune_copy rid = sample_copy (''c'' @ rid) rid 1 (rid @ ''/'')"

definition prune_store :: store where
  "prune_store = \<lparr>st_runs = [sample_run ''f'' BackupFull [] 1, sample_run ''i1'' BackupIncremental ''f'' 2,
       sample_run ''i2'' BackupIncremental ''i1'' 3],
     st_copies = [prune_copy ''f'', prune_copy ''i1'', prune_copy ''i2''],
     st_targets = [sample_target], st_run_err = \<lambda>_. None, st_copy_err = \<lambda>_. None, st_target_err = \<lambda>_. None\<rparr>"

definition prune_sample :: prune_db where
  "prune_sample = \<lparr>pd_store = prune_store, pd_transfers = [], pd_fails = \<lambda>_ _. False, pd_touched = []\<rparr>"

definition prune_surroundings :: "int \<Rightarrow> purge_env" where
  "prune_surroundings now = \<lparr>pe_now = now, pe_delay = 5, pe_open = \<lambda>_. True, pe_delete = \<lambda>_ _. True,
     pe_fingerprint = \<lambda>_. ''token'', pe_vm_name = \<lambda>_ _. None, pe_policy_text = ''policy'', pe_why = \<lambda>_. '''',
     pe_expired_text = ''expired''\<rparr>"

text \<open>
  C31: the walk over dependents returns and is exact. With unique identifiers and a database that
  answers, it ends and lists, each once, the live runs of the chain that rest on the given run through
  live runs, whatever the parent links look like, a cycle of them included.
\<close>

theorem dependents_exact:
  assumes "distinct (map br_ID (runs_of db))" "\<not> pd_fails db ''list runs'' (br_ChainID run)"
  shows "\<exists>out. dependents db run = Some (Inr out) \<and> distinct out \<and>
     set out = {x. rests_on (chain_of db run) (br_ID run) x}"
  using assms by (rule dependents_result)

theorem dependents_exact_witness:
  "\<exists>out. dependents prune_sample (sample_run ''f'' BackupFull [] 1) = Some (Inr out) \<and> distinct out \<and>
     out = [''i1'', ''i2''] \<and> rests_on (chain_of prune_sample (sample_run ''f'' BackupFull [] 1)) ''f'' ''i2''"
proof -
  have d: "dependents prune_sample (sample_run ''f'' BackupFull [] 1) = Some (Inr [''i1'', ''i2''])" by code_simp
  have "distinct (map br_ID (runs_of prune_sample))" by code_simp
  moreover have "\<not> pd_fails prune_sample ''list runs'' (br_ChainID (sample_run ''f'' BackupFull [] 1))"
    by (simp add: prune_sample_def)
  ultimately have "{''i1'', ''i2''} = {x. rests_on (chain_of prune_sample (sample_run ''f'' BackupFull [] 1)) ''f'' x}"
    using dependents_exact [of prune_sample "sample_run ''f'' BackupFull [] 1"] d by (simp add: sample_run_def)
  then show ?thesis using d by auto
qed


end
