(* ===== verification/Runs.thy ===== *)
theory Runs
  imports Prune
begin

text \<open>
  Taking a backup (\<open>internal/backup/runner.go\<close>, \<open>store/backup_runs.go\<close>, \<open>store/replication.go\<close>): the
  choice of disks, the plan that turns a requested type into one that can run and into a parent, the
  record of the run in the database, and what the run writes there until it ends. The service state is
  the database with the runs being executed, each held in memory by its own goroutine; deletions of
  \<open>Prune\<close> come in between. Copying data is the subject of \<open>DiskCopy\<close>; here it shows only through what is
  recorded. Engine, clock, configuration and repositories are the fields of a \<open>plan_env\<close>.
\<close>

section \<open>Requests, disks and plans\<close>

record Server =
  sv_ID :: string
  sv_Name :: string
  sv_SupportsCBT :: bool

record vm_disk =
  od_ID :: string
  od_Name :: string
  od_Alias :: string
  od_Format :: string
  od_Backup :: string
  od_ContentType :: string
  od_StorageType :: string
  od_LunStorage :: bool
  od_Shareable :: bool
  od_Inactive :: bool

definition AliasOrName :: "vm_disk \<Rightarrow> string" where
  "AliasOrName d = (if od_Alias d \<noteq> '''' then od_Alias d else od_Name d)"

definition IsDirectLUN :: "vm_disk \<Rightarrow> bool" where
  "IsDirectLUN d \<longleftrightarrow> od_StorageType d = ''lun'' \<or> od_LunStorage d"

text \<open>An empty fallback type is \<open>None\<close>.\<close>

record RunRequest =
  rq_TransferID :: string
  rq_ServerID :: string
  rq_VMID :: string
  rq_Type :: BackupType
  rq_JobRunID :: string
  rq_JobID :: string
  rq_FullEvery :: int
  rq_FallbackType :: "BackupType option"
  rq_LegacyIncrementalMode :: string
  rq_StorageTargetID :: string
  rq_ExcludeDiskIDs :: "string list"
  rq_ExportQcow2 :: bool

datatype plan_note =
    NoNote
  | CBTUnsupported BackupType
  | NoIncrementalDisk
  | NoParent
  | ParentLacksDisks "string list"
  | ChainFull int
  | CheckpointGone string
  | MixedRejected int
  | PartlyFull "string list"
  | LegacyNoParent
  | LegacyLacksDisks
  | LegacyChainFull int
  | LegacyBaseMismatch
  | LegacyModeNote string

datatype full_reason = NotIncremental | EngineGaveFull

record run_plan =
  pn_Type :: BackupType
  pn_ParentRunID :: string
  pn_ChainID :: string
  pn_ChainIndex :: int
  pn_FromCheckpointID :: string
  pn_ChunkSize :: int
  pn_Note :: plan_note
  pn_FullDisks :: "(string \<times> full_reason) list"
  pn_LegacyMode :: string

datatype run_error =
    RunStore store_error
  | EngineError string
  | UnknownLegacyMode string
  | DifferentialQcow2
  | QemuImgMissing
  | NotQcow2 string string
  | NoEngineClient
  | RunTargetDisabled string
  | RunTargetReadOnly string
  | NoDataDisks
  | AllDisksInactive
  | MachineBusy string
  | InsertFailed

datatype snapshot_answer = SnapshotFound | SnapshotGone | SnapshotError string

record plan_env =
  ev_now :: int
  ev_ChunkSize :: int
  ev_qemu_img :: bool
  ev_server :: "string \<Rightarrow> store_error + Server"
  ev_vm_name :: "string \<Rightarrow> string \<Rightarrow> store_error + string"
  ev_client :: "Server \<Rightarrow> string + unit"
  ev_ListVMDisks :: "string \<Rightarrow> string + vm_disk list"
  ev_HasCheckpoint :: "string \<Rightarrow> string \<Rightarrow> string + bool"
  ev_GetSnapshot :: "string \<Rightarrow> string \<Rightarrow> snapshot_answer"
  ev_LastRunEventAt :: "string \<Rightarrow> string \<Rightarrow> store_error + int option"
  ev_open :: "StorageTarget \<Rightarrow> bool"
  ev_docs :: documents
  ev_transfer_owner :: "string \<Rightarrow> string \<Rightarrow> store_error + string"
  ev_RunPrefix :: "string \<Rightarrow> string \<Rightarrow> string \<Rightarrow> int \<Rightarrow> string \<Rightarrow> string"
  ev_new_id :: string

definition LegacyIncrementalCompare :: string where "LegacyIncrementalCompare = ''compare''"
definition LegacyIncrementalQcow2 :: string where "LegacyIncrementalQcow2 = ''qcow2_chain''"

definition LegacyMode_Valid :: "string \<Rightarrow> bool" where
  "LegacyMode_Valid m \<longleftrightarrow> m = '''' \<or> m = LegacyIncrementalCompare \<or> m = LegacyIncrementalQcow2"

section \<open>Disks of a run\<close>

datatype skip_reason = SkipExcluded | SkipNotData string | SkipDirectLUN | SkipShareable | SkipInactive

text \<open>The disks to copy and the disks left out, each with its name and the reason.\<close>

fun sort_disks :: "string list \<Rightarrow> vm_disk list \<Rightarrow> vm_disk list \<times> (string \<times> string \<times> skip_reason) list" where
  "sort_disks exclude [] = ([], [])"
| "sort_disks exclude (d # ds) =
     (let (out, skipped) = sort_disks exclude ds;
          skip = (\<lambda>why. (out, (od_ID d, AliasOrName d, why) # skipped)) in
      if od_ID d \<in> set exclude then skip SkipExcluded
      else if od_ContentType d \<noteq> '''' \<and> od_ContentType d \<noteq> ''data'' then skip (SkipNotData (od_ContentType d))
      else if IsDirectLUN d then skip SkipDirectLUN
      else if od_Shareable d then skip SkipShareable
      else (d # out, skipped))"

definition selectDisks ::
  "plan_env \<Rightarrow> string \<Rightarrow> string list \<Rightarrow> string + vm_disk list \<times> (string \<times> string \<times> skip_reason) list" where
  "selectDisks env vmID exclude = bindR (ev_ListVMDisks env vmID) (\<lambda>ds. Inr (sort_disks exclude ds))"

definition dropInactiveDisks :: "vm_disk list \<Rightarrow> vm_disk list \<times> (string \<times> string \<times> skip_reason) list" where
  "dropInactiveDisks disks =
     (filter (\<lambda>d. \<not> od_Inactive d) disks,
      map (\<lambda>d. (od_ID d, AliasOrName d, SkipInactive)) (filter od_Inactive disks))"

section \<open>The parent\<close>

definition latest_run :: "prune_db \<Rightarrow> string \<Rightarrow> (BackupRun \<Rightarrow> bool) \<Rightarrow> store_error + BackupRun" where
  "latest_run db vmID p =
     (if pd_fails db ''latest run'' vmID then Inl (StoreFailed ''latest run'')
      else case sort_key (\<lambda>r. - br_CreatedAt r) (filter p (runs_of db)) of
             [] \<Rightarrow> Inl ErrNotFound | r # _ \<Rightarrow> Inr r)"

definition usable_for_vm :: "string \<Rightarrow> string \<Rightarrow> string \<Rightarrow> BackupRun \<Rightarrow> bool" where
  "usable_for_vm serverID vmID targetID r \<longleftrightarrow>
     br_ServerID r = serverID \<and> br_VMID r = vmID \<and> br_StorageTargetID r = targetID \<and> \<not> br_Deleted r \<and>
     (br_Status r = RunSucceeded \<or> br_Status r = RunPartial)"

definition LatestUsableRun :: "prune_db \<Rightarrow> string \<Rightarrow> string \<Rightarrow> string \<Rightarrow> bool \<Rightarrow> store_error + BackupRun" where
  "LatestUsableRun db serverID vmID targetID onlyFull = latest_run db vmID
     (\<lambda>r. usable_for_vm serverID vmID targetID r \<and> br_ToCheckpointID r \<noteq> '''' \<and> (onlyFull \<longrightarrow> br_Type r = BackupFull))"

definition LatestLegacyRun :: "prune_db \<Rightarrow> string \<Rightarrow> string \<Rightarrow> string \<Rightarrow> bool \<Rightarrow> store_error + BackupRun" where
  "LatestLegacyRun db serverID vmID targetID onlyFull = latest_run db vmID
     (\<lambda>r. usable_for_vm serverID vmID targetID r \<and>
          br_Type r \<in> set (if onlyFull then [BackupFull, BackupSnapshot]
                          else [BackupFull, BackupIncremental, BackupDifferential, BackupSnapshot]))"

definition ListBackupDisks :: "prune_db \<Rightarrow> string \<Rightarrow> store_error + BackupDisk list" where
  "ListBackupDisks db rid =
     (if pd_fails db ''list disks'' rid then Inl (StoreFailed ''list backup disks'')
      else Inr (concat (map br_Disks (filter (\<lambda>r. br_ID r = rid) (runs_of db)))))"

definition disksMissingIn :: "prune_db \<Rightarrow> BackupRun \<Rightarrow> vm_disk list \<Rightarrow> store_error + string list" where
  "disksMissingIn db parent disks = bindR (ListBackupDisks db (br_ID parent)) (\<lambda>saved.
     Inr (map AliasOrName (filter (\<lambda>d. od_ID d \<notin> bd_DiskID ` set (filter (\<lambda>b. bd_Status b = RunSucceeded) saved)) disks)))"

definition chainChunkSize :: "prune_db \<Rightarrow> plan_env \<Rightarrow> BackupRun \<Rightarrow> int \<Rightarrow> int" where
  "chainChunkSize db env parent fallback =
     (case ListBackupDisks db (br_ID parent) of
        Inr (d # _) \<Rightarrow>
          (case GetStorageTarget (pd_store db) (br_StorageTargetID parent) of
             Inl _ \<Rightarrow> fallback
           | Inr target \<Rightarrow>
               if \<not> ev_open env target then fallback
               else case loadDiskManifest (ev_docs env) (bd_ManifestKey d) of
                      Inl _ \<Rightarrow> fallback
                    | Inr m \<Rightarrow> if dm_ChunkSize m \<le> 0 then fallback else dm_ChunkSize m)
      | _ \<Rightarrow> fallback)"

definition mixedRejectionRetry :: int where "mixedRejectionRetry = 604800000000000"

definition recentMixedRejection :: "plan_env \<Rightarrow> string \<Rightarrow> string \<Rightarrow> BackupRun \<Rightarrow> int option" where
  "recentMixedRejection env serverID vmID parent =
     (case ev_LastRunEventAt env serverID vmID of
        Inl _ \<Rightarrow> None
      | Inr None \<Rightarrow> None
      | Inr (Some t) \<Rightarrow>
          if ev_now env - t \<ge> mixedRejectionRetry then None
          else if br_Type parent \<noteq> BackupFull \<and> br_CreatedAt parent > t then None
          else Some t)"

section \<open>The plan\<close>

definition markFullDisk :: "string \<Rightarrow> full_reason \<Rightarrow> run_plan \<Rightarrow> run_plan" where
  "markFullDisk did why p =
     (if did \<in> fst ` set (pn_FullDisks p) then p else p\<lparr>pn_FullDisks := pn_FullDisks p @ [(did, why)]\<rparr>)"

definition new_plan :: "plan_env \<Rightarrow> RunRequest \<Rightarrow> run_plan" where
  "new_plan env req =
     \<lparr>pn_Type = rq_Type req, pn_ParentRunID = '''', pn_ChainID = '''', pn_ChainIndex = 0, pn_FromCheckpointID = '''',
      pn_ChunkSize = (if ev_ChunkSize env \<le> 0 then DefaultChunkSize else ev_ChunkSize env), pn_Note = NoNote,
      pn_FullDisks = [], pn_LegacyMode = ''''\<rparr>"

definition validateLegacyMode :: "plan_env \<Rightarrow> RunRequest \<Rightarrow> vm_disk list \<Rightarrow> run_error + unit" where
  "validateLegacyMode env req disks =
     (let mode = rq_LegacyIncrementalMode req in
      if \<not> LegacyMode_Valid mode then Inl (UnknownLegacyMode mode)
      else if mode \<noteq> LegacyIncrementalQcow2 then Inr ()
      else if rq_Type req = BackupDifferential then Inl DifferentialQcow2
      else if \<not> ev_qemu_img env then Inl QemuImgMissing
      else case find (\<lambda>d. od_Format d \<noteq> ''cow'' \<and> od_Format d \<noteq> ''qcow2'') disks of
             Some d \<Rightarrow> Inl (NotQcow2 (AliasOrName d) (od_Format d))
           | None \<Rightarrow> Inr ())"

text \<open>A new full base of a compatibility chain, and a plan on top of a parent.\<close>

definition legacy_base :: "run_plan \<Rightarrow> string \<Rightarrow> plan_note \<Rightarrow> run_plan" where
  "legacy_base p mode why = p\<lparr>pn_Type := BackupSnapshot, pn_LegacyMode := mode, pn_Note := why\<rparr>"

definition full_instead :: "run_plan \<Rightarrow> plan_note \<Rightarrow> run_plan" where
  "full_instead p why = p\<lparr>pn_Type := BackupFull, pn_Note := why\<rparr>"

definition qcow_base_missing :: "plan_env \<Rightarrow> RunRequest \<Rightarrow> BackupRun \<Rightarrow> bool \<Rightarrow> run_error + bool" where
  "qcow_base_missing env req parent has_client =
     (let mode = rq_LegacyIncrementalMode req in
      if mode = LegacyIncrementalQcow2 \<and>
         (br_LegacyIncrementalMode parent \<noteq> LegacyIncrementalQcow2 \<or> br_SnapshotID parent = '''') then Inr True
      else if mode = LegacyIncrementalQcow2 then
        (if \<not> has_client then Inl NoEngineClient
         else case ev_GetSnapshot env (rq_VMID req) (br_SnapshotID parent) of
                SnapshotGone \<Rightarrow> Inr True | SnapshotError e \<Rightarrow> Inl (EngineError e) | SnapshotFound \<Rightarrow> Inr False)
      else Inr False)"

definition resolveLegacyPlan ::
  "prune_db \<Rightarrow> plan_env \<Rightarrow> bool \<Rightarrow> RunRequest \<Rightarrow> vm_disk list \<Rightarrow> run_plan \<Rightarrow> run_error + run_plan" where
  "resolveLegacyPlan db env has_client req disks p =
     bindR (validateLegacyMode env req disks) (\<lambda>_.
       let mode = rq_LegacyIncrementalMode req in
       case LatestLegacyRun db (rq_ServerID req) (rq_VMID req) (rq_StorageTargetID req) (rq_Type req = BackupDifferential) of
         Inl ErrNotFound \<Rightarrow> Inr (legacy_base p mode LegacyNoParent)
       | Inl e \<Rightarrow> Inl (RunStore e)
       | Inr parent \<Rightarrow>
           (case disksMissingIn db parent disks of
              Inl e \<Rightarrow> Inl (RunStore e)
            | Inr missing \<Rightarrow>
                if missing \<noteq> [] then Inr (legacy_base p mode LegacyLacksDisks)
                else if rq_FullEvery req > 0 \<and> br_ChainIndex parent + 1 \<ge> rq_FullEvery req
                then Inr (legacy_base p mode (LegacyChainFull (rq_FullEvery req)))
                else bindR (qcow_base_missing env req parent has_client) (\<lambda>gone.
                  if gone then Inr (legacy_base p mode LegacyBaseMismatch)
                  else Inr (p\<lparr>pn_ParentRunID := br_ID parent, pn_ChainID := br_ChainID parent,
                              pn_ChainIndex := br_ChainIndex parent + 1,
                              pn_ChunkSize := chainChunkSize db env parent (pn_ChunkSize p),
                              pn_LegacyMode := mode, pn_Note := LegacyModeNote mode\<rparr>))))"

definition fallback_type :: "RunRequest \<Rightarrow> BackupType" where
  "fallback_type req =
     (case rq_FallbackType req of None \<Rightarrow> BackupSnapshot | Some t \<Rightarrow> if UsesCBT t then BackupSnapshot else t)"

text \<open>The plan on a parent that has every disk: chain length, checkpoint, memory of a refusal, mixed disks.\<close>

definition plan_on_parent ::
  "prune_db \<Rightarrow> plan_env \<Rightarrow> Server \<Rightarrow> RunRequest \<Rightarrow> vm_disk list \<Rightarrow> BackupRun \<Rightarrow> run_plan \<Rightarrow> run_error + run_plan" where
  "plan_on_parent db env srv req without parent p =
     (if rq_FullEvery req > 0 \<and> br_ChainIndex parent + 1 \<ge> rq_FullEvery req
      then Inr (full_instead p (ChainFull (rq_FullEvery req)))
      else case ev_HasCheckpoint env (rq_VMID req) (br_ToCheckpointID parent) of
             Inl e \<Rightarrow> Inl (EngineError e)
           | Inr False \<Rightarrow> Inr (full_instead p (CheckpointGone (br_ToCheckpointID parent)))
           | Inr True \<Rightarrow>
               (case (if without \<noteq> [] \<and> rq_JobID req \<noteq> '''' then recentMixedRejection env (sv_ID srv) (rq_VMID req) parent else None) of
                  Some t \<Rightarrow> Inr (full_instead p (MixedRejected t))
                | None \<Rightarrow>
                    let p1 = p\<lparr>pn_ParentRunID := br_ID parent, pn_ChainID := br_ChainID parent,
                               pn_ChainIndex := br_ChainIndex parent + 1, pn_FromCheckpointID := br_ToCheckpointID parent\<rparr>;
                        p2 = (if without = [] then p1
                              else (fold (\<lambda>d. markFullDisk (od_ID d) NotIncremental) without p1)
                                     \<lparr>pn_Note := PartlyFull (map AliasOrName without)\<rparr>)
                    in Inr (p2\<lparr>pn_ChunkSize := chainChunkSize db env parent (pn_ChunkSize p2)\<rparr>)))"

definition resolvePlan ::
  "prune_db \<Rightarrow> plan_env \<Rightarrow> bool \<Rightarrow> Server \<Rightarrow> RunRequest \<Rightarrow> vm_disk list \<Rightarrow> run_error + run_plan" where
  "resolvePlan db env has_client srv req disks =
     (let p = new_plan env req in
      if \<not> UsesCBT (rq_Type req) then Inr p
      else if \<not> sv_SupportsCBT srv \<and> rq_LegacyIncrementalMode req \<noteq> '''' \<and> NeedsParent (rq_Type req)
      then resolveLegacyPlan db env has_client req disks p
      else if \<not> sv_SupportsCBT srv then
        bindR (if rq_LegacyIncrementalMode req \<noteq> '''' then validateLegacyMode env req disks else Inr ()) (\<lambda>_.
          Inr (p\<lparr>pn_Type := fallback_type req, pn_LegacyMode := rq_LegacyIncrementalMode req,
                 pn_Note := CBTUnsupported (fallback_type req)\<rparr>))
      else if rq_Type req = BackupFull then Inr p
      else let without = filter (\<lambda>d. od_Backup d \<noteq> ''incremental'') disks in
           if length without = length disks then Inr (full_instead p NoIncrementalDisk)
           else case LatestUsableRun db (rq_ServerID req) (rq_VMID req) (rq_StorageTargetID req) (rq_Type req = BackupDifferential) of
                  Inl ErrNotFound \<Rightarrow> Inr (full_instead p NoParent)
                | Inl e \<Rightarrow> Inl (RunStore e)
                | Inr parent \<Rightarrow>
                    (case disksMissingIn db parent disks of
                       Inl e \<Rightarrow> Inl (RunStore e)
                     | Inr missing \<Rightarrow>
                         if missing \<noteq> [] then Inr (full_instead p (ParentLacksDisks missing))
                         else plan_on_parent db env srv req without parent p))"

definition usesBackupAPI :: "run_plan \<Rightarrow> bool" where
  "usesBackupAPI p \<longleftrightarrow> pn_LegacyMode p = '''' \<and>
     (pn_Type p = BackupFull \<or> pn_Type p = BackupIncremental \<or> pn_Type p = BackupDifferential)"

section \<open>The record of a run\<close>

definition copy_status_of :: "RunStatus \<Rightarrow> BackupCopyStatus" where
  "copy_status_of s = (case s of RunRunning \<Rightarrow> CopyCopying | RunSucceeded \<Rightarrow> CopySucceeded | RunPartial \<Rightarrow> CopySucceeded
     | RunFailed \<Rightarrow> CopyFailed | RunCanceled \<Rightarrow> CopyCanceled | _ \<Rightarrow> CopyPending)"

text \<open>A copy of the same run in the same repository already there is a conflict, \<open>Inr None\<close>.\<close>

definition CreateBackupCopy :: "BackupCopy \<Rightarrow> prune_db \<Rightarrow> store_error + prune_db option" where
  "CreateBackupCopy c db =
     (if pd_fails db ''insert copy'' (bc_RunID c) then Inl (StoreFailed ''insert backup copy'')
      else if list_ex (\<lambda>x. bc_RunID x = bc_RunID c \<and> bc_StorageTargetID x = bc_StorageTargetID c) (st_copies (pd_store db))
      then Inr None
      else Inr (Some (db\<lparr>pd_store := (pd_store db)\<lparr>st_copies := st_copies (pd_store db) @ [c]\<rparr>\<rparr>)))"

text \<open>Counts of objects, which nothing modelled here reads, stay zero.\<close>

definition primary_copy :: "plan_env \<Rightarrow> BackupRun \<Rightarrow> BackupCopy" where
  "primary_copy env run =
     \<lparr>bc_ID = ''copy-'' @ br_ID run, bc_RunID = br_ID run, bc_StorageTargetID = br_StorageTargetID run, bc_Role = CopyPrimary,
      bc_Required = True, bc_Status = copy_status_of (br_Status run), bc_RepoPath = br_RepoPath run, bc_SourceCopyID = '''',
      bc_ManifestSHA256 = '''', bc_ObjectCount = 0, bc_CopiedObjects = 0, bc_TotalBytes = br_StoredBytes run,
      bc_CopiedBytes = br_StoredBytes run, bc_AttemptCount = 0, bc_LockedBy = '''', bc_NextRetryAt = None, bc_LastError = '''',
      bc_VerifiedAt = None, bc_LockedUntil = None, bc_StartedAt = br_StartedAt run, bc_EndedAt = br_EndedAt run,
      bc_CreatedAt = ev_now env\<rparr>"

definition EnsurePrimaryCopy :: "plan_env \<Rightarrow> BackupRun \<Rightarrow> prune_db \<Rightarrow> store_error + prune_db" where
  "EnsurePrimaryCopy env run db =
     (case CreateBackupCopy (primary_copy env run) db of
        Inl e \<Rightarrow> Inl e
      | Inr (Some db1) \<Rightarrow> Inr db1
      | Inr None \<Rightarrow> bindR (GetBackupCopyForTarget (pd_store db) (br_ID run) (br_StorageTargetID run)) (\<lambda>_. Inr db))"

definition PurgeRunRecord :: "string \<Rightarrow> prune_db \<Rightarrow> prune_db" where
  "PurgeRunRecord rid db =
     (if pd_fails db ''purge record'' rid then db
      else db\<lparr>pd_store := (pd_store db)\<lparr>st_runs := filter (\<lambda>r. br_ID r \<noteq> rid) (runs_of db)\<rparr>\<rparr>)"

definition insert_run :: "BackupRun \<Rightarrow> prune_db \<Rightarrow> prune_db" where
  "insert_run run db = db\<lparr>pd_store := (pd_store db)\<lparr>st_runs := runs_of db @ [run]\<rparr>\<rparr>"

definition CreateTransferBackupRun ::
  "plan_env \<Rightarrow> BackupRun \<Rightarrow> string \<Rightarrow> prune_db \<Rightarrow> (run_error + BackupRun) \<times> prune_db" where
  "CreateTransferBackupRun env run0 transferID db =
     (let run = (if br_ChainID run0 = '''' then run0\<lparr>br_ChainID := br_ID run0\<rparr> else run0) in
      case ev_transfer_owner env (br_ServerID run) (br_VMID run) of
        Inl e \<Rightarrow> (Inl (RunStore e), db)
      | Inr owner \<Rightarrow>
          if owner \<noteq> '''' \<and> owner \<noteq> transferID then (Inl (MachineBusy owner), db)
          else if pd_fails db ''insert run'' (br_ID run) \<or> list_ex (\<lambda>r. br_ID r = br_ID run) (runs_of db)
          then (Inl InsertFailed, db)
          else case EnsurePrimaryCopy env run (insert_run run db) of
                 Inl e \<Rightarrow> (Inl (RunStore e), PurgeRunRecord (br_ID run) (insert_run run db))
               | Inr db1 \<Rightarrow> (Inr run, db1))"

text \<open>Columns an update of a run writes; type, deletion deadline and reason are not among them.\<close>

definition run_columns :: "BackupRun \<Rightarrow> BackupRun \<Rightarrow> BackupRun" where
  "run_columns m r =
     r\<lparr>br_Status := br_Status m, br_ParentRunID := br_ParentRunID m, br_ChainID := br_ChainID m,
       br_ChainIndex := br_ChainIndex m, br_StorageTargetID := br_StorageTargetID m, br_RepoPath := br_RepoPath m,
       br_FromCheckpointID := br_FromCheckpointID m, br_ToCheckpointID := br_ToCheckpointID m,
       br_SnapshotID := br_SnapshotID m, br_ReadBytes := br_ReadBytes m, br_StoredBytes := br_StoredBytes m,
       br_StartedAt := br_StartedAt m, br_EndedAt := br_EndedAt m, br_ExpiresAt := br_ExpiresAt m,
       br_Deleted := br_Deleted m, br_LegacyIncrementalMode := br_LegacyIncrementalMode m\<rparr>"

definition SyncPrimaryCopy :: "BackupRun \<Rightarrow> prune_db \<Rightarrow> (run_error + unit) \<times> prune_db" where
  "SyncPrimaryCopy run db =
     (if pd_fails db ''sync copy'' (br_ID run) then (Inl (RunStore (StoreFailed ''sync copy'')), db)
      else (Inr (), db\<lparr>pd_store := (pd_store db)\<lparr>st_copies :=
              map (\<lambda>c. if bc_RunID c = br_ID run \<and> bc_Role c = CopyPrimary
                       then c\<lparr>bc_Status := copy_status_of (br_Status run), bc_RepoPath := br_RepoPath run,
                              bc_TotalBytes := br_StoredBytes run, bc_CopiedBytes := br_StoredBytes run,
                              bc_StartedAt := br_StartedAt run, bc_EndedAt := br_EndedAt run\<rparr>
                       else c) (st_copies (pd_store db))\<rparr>\<rparr>))"

definition UpdateBackupRun :: "BackupRun \<Rightarrow> prune_db \<Rightarrow> (run_error + unit) \<times> prune_db" where
  "UpdateBackupRun m db =
     (if pd_fails db ''update run'' (br_ID m) then (Inl (RunStore (StoreFailed ''update backup run'')), db)
      else if list_all (\<lambda>r. br_ID r \<noteq> br_ID m) (runs_of db) then (Inl (RunStore ErrNotFound), db)
      else SyncPrimaryCopy m (update_run (br_ID m) (run_columns m) db))"

section \<open>Executing a run\<close>

definition blank_run :: "plan_env \<Rightarrow> RunRequest \<Rightarrow> Server \<Rightarrow> string \<Rightarrow> string \<Rightarrow> BackupRun" where
  "blank_run env req srv vmName targetID =
     \<lparr>br_ID = ev_new_id env, br_JobRunID = rq_JobRunID req, br_JobID = rq_JobID req, br_ServerID = sv_ID srv,
      br_VMID = rq_VMID req, br_VMName = vmName, br_Type = rq_Type req, br_Status = RunPending, br_ParentRunID = '''',
      br_ChainID = '''', br_ChainIndex = 0, br_StorageTargetID = targetID, br_RepoPath = '''', br_FromCheckpointID = '''',
      br_ToCheckpointID = '''', br_SnapshotID = '''', br_LegacyIncrementalMode = rq_LegacyIncrementalMode req, br_ReadBytes = 0,
      br_StoredBytes = 0, br_StartedAt = None, br_EndedAt = None, br_ExpiresAt = None, br_Deleted = False, br_PurgeAfter = None,
      br_DeleteReason = '''', br_DeletedAt = None, br_CreatedAt = ev_now env, br_Disks = []\<rparr>"

text \<open>Before the record exists a failure leaves nothing behind: \<open>failRun\<close> finds no row to update.\<close>

definition executeOVA :: "plan_env \<Rightarrow> RunRequest \<Rightarrow> Server \<Rightarrow> string \<Rightarrow> prune_db \<Rightarrow> (run_error + BackupRun) \<times> prune_db" where
  "executeOVA env req srv vmName db =
     CreateTransferBackupRun env
       ((blank_run env req srv vmName '''')\<lparr>br_Type := BackupOVA, br_LegacyIncrementalMode := ''''\<rparr>) (rq_TransferID req) db"

definition planned_run :: "plan_env \<Rightarrow> Server \<Rightarrow> run_plan \<Rightarrow> BackupRun \<Rightarrow> BackupRun" where
  "planned_run env srv p run =
     run\<lparr>br_Type := pn_Type p, br_LegacyIncrementalMode := pn_LegacyMode p, br_ParentRunID := pn_ParentRunID p,
         br_ChainID := (if pn_ChainID p = '''' then br_ID run else pn_ChainID p), br_ChainIndex := pn_ChainIndex p,
         br_FromCheckpointID := pn_FromCheckpointID p,
         br_RepoPath := ev_RunPrefix env (sv_Name srv) (br_VMID run) (br_VMName run) (br_CreatedAt run) (br_ID run)\<rparr>"

definition start_on_target ::
  "plan_env \<Rightarrow> RunRequest \<Rightarrow> Server \<Rightarrow> string \<Rightarrow> StorageTarget \<Rightarrow> prune_db \<Rightarrow> (run_error + BackupRun) \<times> prune_db" where
  "start_on_target env req srv vmName target db =
     (case selectDisks env (rq_VMID req) (rq_ExcludeDiskIDs req) of
        Inl e \<Rightarrow> (Inl (EngineError e), db)
      | Inr (disks, _) \<Rightarrow>
          if disks = [] \<and> rq_Type req \<noteq> BackupConfig then (Inl NoDataDisks, db)
          else case resolvePlan db env True srv req disks of
                 Inl e \<Rightarrow> (Inl e, db)
               | Inr p \<Rightarrow>
                   if usesBackupAPI p \<and> fst (dropInactiveDisks disks) = [] \<and> rq_Type req \<noteq> BackupConfig
                   then (Inl AllDisksInactive, db)
                   else CreateTransferBackupRun env (planned_run env srv p (blank_run env req srv vmName (st_ID target)))
                          (rq_TransferID req) db)"

text \<open>The opening of \<open>Execute\<close>, up to the record of the run.\<close>

definition Execute_start :: "plan_env \<Rightarrow> RunRequest \<Rightarrow> prune_db \<Rightarrow> (run_error + BackupRun) \<times> prune_db" where
  "Execute_start env req db =
     (case ev_server env (rq_ServerID req) of
        Inl e \<Rightarrow> (Inl (RunStore e), db)
      | Inr srv \<Rightarrow>
          (case ev_vm_name env (rq_ServerID req) (rq_VMID req) of
             Inl e \<Rightarrow> (Inl (RunStore e), db)
           | Inr vmName \<Rightarrow>
               (case ev_client env srv of
                  Inl e \<Rightarrow> (Inl (EngineError e), db)
                | Inr _ \<Rightarrow>
                    if rq_Type req = BackupOVA then executeOVA env req srv vmName db
                    else if rq_ExportQcow2 req \<and> \<not> ev_qemu_img env then (Inl QemuImgMissing, db)
                    else case GetStorageTarget (pd_store db) (rq_StorageTargetID req) of
                           Inl e \<Rightarrow> (Inl (RunStore e), db)
                         | Inr target \<Rightarrow>
                             if \<not> st_Enabled target then (Inl (RunTargetDisabled (st_Name target)), db)
                             else if st_ReadOnly target then (Inl (RunTargetReadOnly (st_Name target)), db)
                             else start_on_target env req srv vmName target db)))"

text \<open>What the rest of \<open>Execute\<close> does to the run in memory before it writes it.\<close>

definition mark_running :: "plan_env \<Rightarrow> BackupRun \<Rightarrow> BackupRun" where
  "mark_running env m = m\<lparr>br_StartedAt := Some (ev_now env), br_Status := RunRunning\<rparr>"

definition downgradeToFull :: "BackupRun \<Rightarrow> BackupRun" where
  "downgradeToFull m = m\<lparr>br_Type := BackupFull, br_ParentRunID := '''', br_ChainIndex := 0, br_FromCheckpointID := '''',
     br_ChainID := br_ID m\<rparr>"

definition backup_opened :: "string \<Rightarrow> string \<Rightarrow> BackupRun \<Rightarrow> BackupRun" where
  "backup_opened checkpoint snapshot m =
     m\<lparr>br_ToCheckpointID := checkpoint, br_SnapshotID := (if snapshot \<noteq> '''' then snapshot else br_SnapshotID m)\<rparr>"

definition finish_run :: "plan_env \<Rightarrow> bool \<Rightarrow> int \<Rightarrow> BackupRun \<Rightarrow> BackupRun" where
  "finish_run env partial maxAge m =
     m\<lparr>br_EndedAt := Some (ev_now env), br_Status := (if partial then RunPartial else RunSucceeded),
       br_ExpiresAt := (if br_ExpiresAt m = None \<and> maxAge > 0 then Some (ev_now env + maxAge) else br_ExpiresAt m)\<rparr>"

definition failRun :: "plan_env \<Rightarrow> BackupRun \<Rightarrow> BackupRun" where
  "failRun env m = m\<lparr>br_Status := RunFailed, br_EndedAt := Some (ev_now env)\<rparr>"

text \<open>Runs left by a process that died are closed from their rows.\<close>

definition ReconcileStaleRuns :: "plan_env \<Rightarrow> prune_db \<Rightarrow> prune_db" where
  "ReconcileStaleRuns env db =
     (case ListBackupRuns db (no_filter\<lparr>rf_Statuses := [RunRunning, RunPending], rf_IncludeDeleted := True\<rparr>) of
        Inl e \<Rightarrow> db
      | Inr stale \<Rightarrow> fold (\<lambda>r d. snd (UpdateBackupRun (failRun env r) d)) stale db)"

section \<open>The service\<close>

record service =
  sv_db :: prune_db
  sv_active :: "BackupRun list"

datatype run_event =
    RnStart RunRequest
  | RnRunning string
  | RnOpened string string string
  | RnDowngrade string
  | RnDisk string BackupDisk
  | RnFinish string bool int
  | RnFail string
  | RnRestart
  | RnPrune purge_env prune_event

definition find_active :: "string \<Rightarrow> service \<Rightarrow> BackupRun option" where
  "find_active rid s = find (\<lambda>m. br_ID m = rid) (sv_active s)"

text \<open>A goroutine changes its run and writes it; the change stays when the write fails.\<close>

definition write_active :: "string \<Rightarrow> (BackupRun \<Rightarrow> BackupRun) \<Rightarrow> service \<Rightarrow> service" where
  "write_active rid f s =
     (case find_active rid s of
        None \<Rightarrow> s
      | Some m \<Rightarrow> s\<lparr>sv_db := snd (UpdateBackupRun (f m) (sv_db s)),
                    sv_active := map (\<lambda>x. if br_ID x = rid then f m else x) (sv_active s)\<rparr>)"

definition end_active :: "string \<Rightarrow> service \<Rightarrow> service" where
  "end_active rid s = s\<lparr>sv_active := filter (\<lambda>x. br_ID x \<noteq> rid) (sv_active s)\<rparr>"

definition record_disk :: "string \<Rightarrow> BackupDisk \<Rightarrow> prune_db \<Rightarrow> prune_db" where
  "record_disk rid d db = update_run rid (\<lambda>r. r\<lparr>br_Disks := br_Disks r @ [d]\<rparr>) db"

fun run_step :: "plan_env \<Rightarrow> run_event \<Rightarrow> service \<Rightarrow> service option" where
  "run_step env (RnStart req) s =
     Some (case Execute_start env req (sv_db s) of
             (Inl e, db) \<Rightarrow> s\<lparr>sv_db := db\<rparr>
           | (Inr run, db) \<Rightarrow> s\<lparr>sv_db := db, sv_active := sv_active s @ [run]\<rparr>)"
| "run_step env (RnRunning rid) s = Some (write_active rid (mark_running env) s)"
| "run_step env (RnOpened rid checkpoint snapshot) s = Some (write_active rid (backup_opened checkpoint snapshot) s)"
| "run_step env (RnDowngrade rid) s = Some (write_active rid downgradeToFull s)"
| "run_step env (RnDisk rid d) s =
     Some (if find_active rid s = None then s else s\<lparr>sv_db := record_disk rid d (sv_db s)\<rparr>)"
| "run_step env (RnFinish rid partial maxAge) s = Some (end_active rid (write_active rid (finish_run env partial maxAge) s))"
| "run_step env (RnFail rid) s = Some (end_active rid (if isl (GetBackupRun (sv_db s) rid) then s else write_active rid (failRun env) s))"
| "run_step env RnRestart s = Some (s\<lparr>sv_db := ReconcileStaleRuns env (sv_db s), sv_active := []\<rparr>)"
| "run_step env (RnPrune penv ev) s =
     (case prune_step penv ev (sv_db s) of None \<Rightarrow> None | Some db \<Rightarrow> Some (s\<lparr>sv_db := db\<rparr>))"

fun run_steps :: "(plan_env \<times> run_event) list \<Rightarrow> service \<Rightarrow> service option" where
  "run_steps [] s = Some s"
| "run_steps ((env, ev) # evs) s = (case run_step env ev s of None \<Rightarrow> None | Some s1 \<Rightarrow> run_steps evs s1)"

section \<open>What a plan promises\<close>

lemma latest_run_mem: "latest_run db vmID p = Inr r \<Longrightarrow> r \<in> set (runs_of db) \<and> p r"
proof -
  assume "latest_run db vmID p = Inr r"
  then obtain rest where "sort_key (\<lambda>r. - br_CreatedAt r) (filter p (runs_of db)) = r # rest"
    by (auto simp: latest_run_def split: if_splits list.splits)
  then have "r \<in> set (sort_key (\<lambda>r. - br_CreatedAt r) (filter p (runs_of db)))" by simp
  then show ?thesis by simp
qed

lemma disks_of_row:
  assumes "distinct (map br_ID (runs_of db))" "q \<in> set (runs_of db)"
  shows "set (concat (map br_Disks (filter (\<lambda>r. br_ID r = br_ID q) (runs_of db)))) = set (br_Disks q)"
  using same_id [OF assms] assms(2) by (auto simp: eq_commute)

lemma disksMissingIn_none:
  assumes "disksMissingIn db q disks = Inr []" "distinct (map br_ID (runs_of db))" "q \<in> set (runs_of db)" "d \<in> set disks"
  shows "\<exists>b \<in> set (br_Disks q). bd_DiskID b = od_ID d \<and> bd_Status b = RunSucceeded"
proof -
  let ?saved = "concat (map br_Disks (filter (\<lambda>r. br_ID r = br_ID q) (runs_of db)))"
  have "od_ID d \<in> bd_DiskID ` set (filter (\<lambda>b. bd_Status b = RunSucceeded) ?saved)"
    using assms(1,4) by (auto simp: disksMissingIn_def ListBackupDisks_def filter_empty_conv split: if_splits)
  then obtain b where b: "od_ID d = bd_DiskID b" "b \<in> set (filter (\<lambda>b. bd_Status b = RunSucceeded) ?saved)" by (rule imageE)
  have "b \<in> set ?saved" "bd_Status b = RunSucceeded" using b(2) unfolding set_filter by blast+
  moreover from this(1) have "b \<in> set (br_Disks q)" unfolding disks_of_row [OF assms(2,3)] .
  ultimately show ?thesis using b(1) by metis
qed

lemma markFullDisk_fields [simp]:
  "pn_Type (fold (\<lambda>d. markFullDisk (od_ID d) w) ds p) = pn_Type p"
  "pn_ParentRunID (fold (\<lambda>d. markFullDisk (od_ID d) w) ds p) = pn_ParentRunID p"
  "pn_ChainID (fold (\<lambda>d. markFullDisk (od_ID d) w) ds p) = pn_ChainID p"
  "pn_ChainIndex (fold (\<lambda>d. markFullDisk (od_ID d) w) ds p) = pn_ChainIndex p"
  "pn_LegacyMode (fold (\<lambda>d. markFullDisk (od_ID d) w) ds p) = pn_LegacyMode p"
  by (induction ds arbitrary: p) (simp_all add: markFullDisk_def)

text \<open>
  A plan either starts a chain, with a type that needs no parent, or continues the chain of one usable
  run that has every disk.
\<close>

definition roots_chain :: "run_plan \<Rightarrow> bool" where
  "roots_chain p \<longleftrightarrow> \<not> NeedsParent (pn_Type p) \<and> pn_ParentRunID p = '''' \<and> pn_ChainID p = '''' \<and> pn_ChainIndex p = 0"

definition extends_chain :: "RunRequest \<Rightarrow> vm_disk list \<Rightarrow> BackupRun \<Rightarrow> run_plan \<Rightarrow> bool" where
  "extends_chain req disks q p \<longleftrightarrow>
     pn_Type p = rq_Type req \<and> NeedsParent (pn_Type p) \<and> pn_ParentRunID p = br_ID q \<and> pn_ChainID p = br_ChainID q \<and>
     pn_ChainIndex p = br_ChainIndex q + 1 \<and> (rq_FullEvery req > 0 \<longrightarrow> pn_ChainIndex p < rq_FullEvery req) \<and>
     usable_for_vm (rq_ServerID req) (rq_VMID req) (rq_StorageTargetID req) q \<and>
     (rq_Type req = BackupDifferential \<longrightarrow> br_Type q = BackupFull \<or> br_Type q = BackupSnapshot) \<and>
     (\<forall>d \<in> set disks. \<exists>b \<in> set (br_Disks q). bd_DiskID b = od_ID d \<and> bd_Status b = RunSucceeded)"

lemma new_plan_roots: "\<not> NeedsParent t \<Longrightarrow> roots_chain ((new_plan env req)\<lparr>pn_Type := t, pn_Note := n, pn_LegacyMode := m\<rparr>)"
  by (simp add: roots_chain_def new_plan_def)

lemma plan_on_parent_sound:
  assumes "plan_on_parent db env srv req without q (new_plan env req) = Inr p"
    and "usable_for_vm (rq_ServerID req) (rq_VMID req) (rq_StorageTargetID req) q" "NeedsParent (rq_Type req)"
    and "rq_Type req = BackupDifferential \<longrightarrow> br_Type q = BackupFull"
    and "\<forall>d \<in> set disks. \<exists>b \<in> set (br_Disks q). bd_DiskID b = od_ID d \<and> bd_Status b = RunSucceeded"
  shows "roots_chain p \<or> extends_chain req disks q p"
proof -
  have full: "roots_chain (full_instead (new_plan env req) why)" for why
    by (simp add: full_instead_def roots_chain_def new_plan_def NeedsParent_def)
  show ?thesis
    using assms full
    by (auto simp: plan_on_parent_def Let_def extends_chain_def new_plan_def split: if_splits sum.splits bool.splits option.splits)
qed

lemma resolveLegacyPlan_sound:
  assumes "resolveLegacyPlan db env c req disks (new_plan env req) = Inr p"
    and "distinct (map br_ID (runs_of db))" "NeedsParent (rq_Type req)"
  shows "roots_chain p \<or> (\<exists>q \<in> set (runs_of db). extends_chain req disks q p)"
proof -
  have base: "roots_chain (legacy_base (new_plan env req) mode why)" for mode why
    by (simp add: legacy_base_def roots_chain_def new_plan_def NeedsParent_def)
  have ext: "\<exists>q \<in> set (runs_of db). extends_chain req disks q
      ((new_plan env req)\<lparr>pn_ParentRunID := br_ID q', pn_ChainID := br_ChainID q', pn_ChainIndex := br_ChainIndex q' + 1,
        pn_ChunkSize := k, pn_LegacyMode := m, pn_Note := n\<rparr>)"
    if "LatestLegacyRun db (rq_ServerID req) (rq_VMID req) (rq_StorageTargetID req) (rq_Type req = BackupDifferential) = Inr q'"
      "disksMissingIn db q' disks = Inr []" "\<not> (rq_FullEvery req > 0 \<and> br_ChainIndex q' + 1 \<ge> rq_FullEvery req)" for q' k m n
  proof -
    have q: "q' \<in> set (runs_of db)" "usable_for_vm (rq_ServerID req) (rq_VMID req) (rq_StorageTargetID req) q'"
      "rq_Type req = BackupDifferential \<longrightarrow> br_Type q' = BackupFull \<or> br_Type q' = BackupSnapshot"
      using latest_run_mem that(1) unfolding LatestLegacyRun_def by fastforce+
    show ?thesis
      using q that(3) assms(3) disksMissingIn_none [OF that(2) assms(2) q(1)]
      by (intro bexI [OF _ q(1)]) (auto simp: extends_chain_def new_plan_def)
  qed
  show ?thesis
    using assms(1) base ext
    by (auto simp: resolveLegacyPlan_def Let_def result_simps split: sum.splits store_error.splits if_splits)
qed

lemma resolvePlan_sound:
  assumes "resolvePlan db env c srv req disks = Inr p" "distinct (map br_ID (runs_of db))"
  shows "roots_chain p \<or> (\<exists>q \<in> set (runs_of db). extends_chain req disks q p)"
proof -
  let ?p = "new_plan env req"
  let ?lat = "LatestUsableRun db (rq_ServerID req) (rq_VMID req) (rq_StorageTargetID req) (rq_Type req = BackupDifferential)"
  consider (plain) "\<not> UsesCBT (rq_Type req) \<or> rq_Type req = BackupFull" | (needs) "NeedsParent (rq_Type req)"
    by (auto simp: UsesCBT_def NeedsParent_def)
  then show ?thesis
  proof cases
    case plain
    have "\<not> NeedsParent (rq_Type req)" using plain by (auto simp: UsesCBT_def NeedsParent_def)
    moreover have "\<not> NeedsParent (fallback_type req)"
      by (auto simp: fallback_type_def UsesCBT_def NeedsParent_def split: option.splits)
    ultimately have "roots_chain p" using assms(1) plain
      by (auto simp: resolvePlan_def Let_def roots_chain_def new_plan_def result_simps split: if_splits)
    then show ?thesis ..
  next
    case needs
    have cbt: "UsesCBT (rq_Type req)" "rq_Type req \<noteq> BackupFull" using needs by (auto simp: UsesCBT_def NeedsParent_def)
    have fb: "roots_chain (?p\<lparr>pn_Type := fallback_type req, pn_LegacyMode := m, pn_Note := n\<rparr>)" for m n
      by (auto simp: roots_chain_def new_plan_def fallback_type_def UsesCBT_def NeedsParent_def split: option.splits)
    have full: "roots_chain (full_instead ?p why)" for why
      by (simp add: full_instead_def roots_chain_def new_plan_def NeedsParent_def)
    have par: "roots_chain p \<or> (\<exists>q \<in> set (runs_of db). extends_chain req disks q p)"
      if l: "?lat = Inr q'" "disksMissingIn db q' disks = Inr []" "plan_on_parent db env srv req without q' ?p = Inr p" for q' without
    proof -
      have q: "q' \<in> set (runs_of db)" "usable_for_vm (rq_ServerID req) (rq_VMID req) (rq_StorageTargetID req) q'"
        "rq_Type req = BackupDifferential \<longrightarrow> br_Type q' = BackupFull"
        using latest_run_mem l(1) unfolding LatestUsableRun_def by fastforce+
      show ?thesis
        using plan_on_parent_sound [OF l(3) q(2) needs q(3)] disksMissingIn_none [OF l(2) assms(2) q(1)] q(1) by blast
    qed
    show ?thesis
      using assms(1) cbt needs fb full par resolveLegacyPlan_sound [OF _ assms(2) needs]
      by (auto simp: resolvePlan_def Let_def result_simps split: if_splits sum.splits store_error.splits)
  qed
qed

section \<open>The invariant of the service\<close>

text \<open>
  The database side: chains are whole (whatever was touched before), parent links are acyclic, every row
  has a chain, and a row needs a parent exactly when it has one. The memory side: behind every run being
  executed there is its row, live, unfinished, outside quarantine and with the same links.
\<close>

definition typed_links :: "prune_db \<Rightarrow> bool" where
  "typed_links db \<longleftrightarrow> (\<forall>(i, q, c, t) \<in> set (links db). c \<noteq> '''' \<and> (NeedsParent t \<longleftrightarrow> q \<noteq> ''''))"

definition database_ok :: "prune_db \<Rightarrow> bool" where
  "database_ok db \<longleftrightarrow> chains_safe UNIV db \<and> (\<exists>rank. chain_ranked rank (runs_of db)) \<and>
     st_run_err (pd_store db) = (\<lambda>_. None) \<and> typed_links db"

definition backs :: "BackupRun \<Rightarrow> BackupRun \<Rightarrow> bool" where
  "backs m r \<longleftrightarrow> br_ID r = br_ID m \<and> br_ParentRunID r = br_ParentRunID m \<and> br_ChainID r = br_ChainID m \<and>
     \<not> br_Deleted r \<and> \<not> br_Deleted m \<and> in_progress r \<and> (br_Status m = RunPending \<or> br_Status m = RunRunning)"

definition service_ok :: "service \<Rightarrow> bool" where
  "service_ok s \<longleftrightarrow> database_ok (sv_db s) \<and> (\<forall>m \<in> set (sv_active s). \<exists>r \<in> set (runs_of (sv_db s)). backs m r)"

lemma database_ok_keeps:
  assumes k: "keeps_chains db db'" and ok: "database_ok db" shows "database_ok db'"
proof -
  have "chain_ranked rank (runs_of db') = chain_ranked rank (runs_of db)" for rank by (rule keeps_ranked [OF k])
  moreover have "typed_links db' = typed_links db" using k by (simp add: typed_links_def keeps_chains_def)
  ultimately show ?thesis using k ok by (simp add: database_ok_def keeps_chains_def)
qed

text \<open>A new run: a root of a chain, or a link on a live parent.\<close>

definition joins :: "prune_db \<Rightarrow> BackupRun \<Rightarrow> bool" where
  "joins db run \<longleftrightarrow> br_ID run \<noteq> '''' \<and> br_ID run \<notin> br_ID ` set (runs_of db) \<and> br_ID run \<notin> br_ParentRunID ` set (runs_of db) \<and>
     br_ChainID run \<noteq> '''' \<and> (NeedsParent (br_Type run) \<longleftrightarrow> br_ParentRunID run \<noteq> '''') \<and>
     (br_ParentRunID run \<noteq> '''' \<longrightarrow> (\<exists>q \<in> set (runs_of db). br_ID q = br_ParentRunID run \<and> \<not> br_Deleted q \<and> br_ChainID q = br_ChainID run))"

lemma insert_run_fields [simp]:
  "runs_of (insert_run run db) = runs_of db @ [run]" "pd_touched (insert_run run db) = pd_touched db"
  "st_run_err (pd_store (insert_run run db)) = st_run_err (pd_store db)"
  by (simp_all add: insert_run_def)

lemma insert_ranked:
  assumes "chain_ranked rank (runs_of db)" "joins db run"
  shows "\<exists>rank'. chain_ranked rank' (runs_of (insert_run run db))"
proof -
  let ?rank = "rank(br_ID run := Suc (rank (br_ParentRunID run)))"
  have new: "br_ID p \<noteq> br_ID run" "br_ParentRunID p \<noteq> br_ID run" if "p \<in> set (runs_of db)" for p
    using assms(2) that unfolding joins_def by (metis imageI)+
  have self: "br_ParentRunID run \<noteq> br_ID run" using assms(2) new(1) unfolding joins_def by metis
  have "chain_ranked ?rank (runs_of (insert_run run db))"
    using assms(1) new self unfolding chain_ranked_def by (auto simp: less_Suc_eq)
  then show ?thesis by (intro exI)
qed

lemma insert_safe:
  assumes "chains_safe UNIV db" "joins db run"
  shows "chains_safe UNIV (insert_run run db)"
  unfolding chains_safe_def
proof (intro conjI ballI impI)
  show "distinct (map br_ID (runs_of (insert_run run db)))" "'''' \<notin> br_ID ` set (runs_of (insert_run run db))"
    using assms by (auto simp: chains_safe_def joins_def)
  fix r assume r: "r \<in> set (runs_of (insert_run run db))" "\<not> br_Deleted r \<and> br_ParentRunID r \<noteq> ''''"
  have "br_ParentRunID r \<noteq> br_ID r \<and> (\<exists>p \<in> set (runs_of db). br_ID p = br_ParentRunID r \<and> \<not> br_Deleted p \<and> br_ChainID p = br_ChainID r)"
  proof (cases "r \<in> set (runs_of db)")
    case True
    then show ?thesis using assms(1) r(2) unfolding chains_safe_def by blast
  next
    case False
    then have "r = run" using r(1) by simp
    then show ?thesis using assms(2) r(2) unfolding joins_def by (metis imageI)
  qed
  then show "br_ParentRunID r \<noteq> br_ID r"
    and "\<exists>p \<in> set (runs_of (insert_run run db)). br_ID p = br_ParentRunID r \<and> \<not> br_Deleted p \<and> br_ChainID p = br_ChainID r \<and>
      br_ID p \<notin> set (pd_touched (insert_run run db)) - UNIV" by auto
qed

lemma insert_ok:
  assumes ok: "database_ok db" and j: "joins db run" shows "database_ok (insert_run run db)"
proof -
  obtain rank where rank: "chain_ranked rank (runs_of db)" using ok by (auto simp: database_ok_def)
  have "typed_links (insert_run run db)" using ok j by (simp add: database_ok_def typed_links_def links_def joins_def)
  then show ?thesis
    using ok insert_safe [OF _ j] insert_ranked [OF rank j] unfolding database_ok_def insert_run_fields(3) by blast
qed

lemma database_ok_copies: "runs_of db' = runs_of db \<Longrightarrow> st_run_err (pd_store db') = st_run_err (pd_store db) \<Longrightarrow> database_ok db' = database_ok db"
  by (simp add: database_ok_def typed_links_def links_def chains_safe_def)

lemma EnsurePrimaryCopy_runs:
  "EnsurePrimaryCopy env run db = Inr db' \<Longrightarrow> runs_of db' = runs_of db \<and> st_run_err (pd_store db') = st_run_err (pd_store db)"
  by (auto simp: EnsurePrimaryCopy_def CreateBackupCopy_def result_simps split: if_splits sum.splits option.splits)

lemma PurgeRunRecord_inserted:
  assumes "br_ID run \<notin> br_ID ` set (runs_of db)"
  shows "runs_of (PurgeRunRecord (br_ID run) (insert_run run db)) \<in> {runs_of db, runs_of db @ [run]}"
    and "st_run_err (pd_store (PurgeRunRecord (br_ID run) (insert_run run db))) = st_run_err (pd_store db)"
proof -
  have "filter (\<lambda>r. br_ID r \<noteq> br_ID run) (runs_of db) = runs_of db"
    using assms by (intro filter_True ballI notI) (metis imageI)
  then show "runs_of (PurgeRunRecord (br_ID run) (insert_run run db)) \<in> {runs_of db, runs_of db @ [run]}"
    by (simp add: PurgeRunRecord_def)
qed (simp add: PurgeRunRecord_def)

lemma CreateTransferBackupRun_ok:
  assumes ok: "database_ok db" and run0: "run = (if br_ChainID run0 = '''' then run0\<lparr>br_ChainID := br_ID run0\<rparr> else run0)"
    and j: "joins db run" and live: "\<not> br_Deleted run" "in_progress run"
    and res: "CreateTransferBackupRun env run0 tid db = (res, db')"
  shows "database_ok db' \<and> (\<forall>r \<in> set (runs_of db). r \<in> set (runs_of db')) \<and>
     (\<forall>run'. res = Inr run' \<longrightarrow> run' = run \<and> run \<in> set (runs_of db'))"
proof -
  have id: "br_ID run0 = br_ID run" "br_ServerID run0 = br_ServerID run" "br_VMID run0 = br_VMID run" by (simp_all add: run0)
  have fresh: "br_ID run \<notin> br_ID ` set (runs_of db)" using j by (simp add: joins_def)
  have ins: "database_ok (insert_run run db)" by (rule insert_ok [OF ok j])
  note purge = PurgeRunRecord_inserted [OF fresh]
  have purged: "database_ok (PurgeRunRecord (br_ID run) (insert_run run db)) \<and>
      (\<forall>r \<in> set (runs_of db). r \<in> set (runs_of (PurgeRunRecord (br_ID run) (insert_run run db))))"
  proof (cases "runs_of (PurgeRunRecord (br_ID run) (insert_run run db)) = runs_of db")
    case True
    then show ?thesis using database_ok_copies [OF True purge(2)] ok by simp
  next
    case False
    then have eq: "runs_of (PurgeRunRecord (br_ID run) (insert_run run db)) = runs_of (insert_run run db)" using purge(1) by simp
    then show ?thesis using database_ok_copies [OF eq] purge(2) ins by simp
  qed
  show ?thesis
  proof (cases "\<exists>db1. EnsurePrimaryCopy env run (insert_run run db) = Inr db1")
    case True
    then obtain db1 where db1: "EnsurePrimaryCopy env run (insert_run run db) = Inr db1" by blast
    have "runs_of db1 = runs_of db @ [run]" "database_ok db1"
      using EnsurePrimaryCopy_runs [OF db1] database_ok_copies [of db1 "insert_run run db"] ins by auto
    then show ?thesis using res ok db1
      by (auto simp: CreateTransferBackupRun_def Let_def run0 [symmetric] split: sum.splits if_splits)
  next
    case False
    then show ?thesis using res ok purged
      by (auto simp: CreateTransferBackupRun_def Let_def run0 [symmetric] split: sum.splits if_splits)
  qed
qed

section \<open>Every step keeps the invariant\<close>

lemma keeps_same:
  "runs_of db' = runs_of db \<Longrightarrow> pd_touched db' = pd_touched db \<Longrightarrow> st_run_err (pd_store db') = st_run_err (pd_store db) \<Longrightarrow>
   keeps_chains db db'"
  by (simp add: keeps_chains_def links_def chains_safe_def)

lemma SyncPrimaryCopy_fields [simp]:
  "runs_of (snd (SyncPrimaryCopy m db)) = runs_of db" "pd_touched (snd (SyncPrimaryCopy m db)) = pd_touched db"
  "st_run_err (pd_store (snd (SyncPrimaryCopy m db))) = st_run_err (pd_store db)"
  by (simp_all add: SyncPrimaryCopy_def)

lemma UpdateBackupRun_keeps:
  assumes "distinct (map br_ID (runs_of db))" "r \<in> set (runs_of db)" "br_ID r = br_ID m"
    and "br_ParentRunID m = br_ParentRunID r" "br_ChainID m = br_ChainID r" "br_Deleted m = br_Deleted r"
  shows "keeps_chains db (snd (UpdateBackupRun m db))"
proof -
  have only: "x = r" if "x \<in> set (runs_of db)" "br_ID x = br_ID m" for x
    using same_id [OF assms(1) that(1) assms(2)] that(2) assms(3) by simp
  have "keeps_chains db (update_run (br_ID m) (run_columns m) db)"
    using assms(4-6) only by (intro keeps_update) (auto simp: run_columns_def)
  also have "keeps_chains \<dots> (snd (SyncPrimaryCopy m (update_run (br_ID m) (run_columns m) db)))"
    by (rule keeps_same) simp_all
  finally show ?thesis by (simp add: UpdateBackupRun_def)
qed

lemma UpdateBackupRun_rows:
  assumes "r \<in> set (runs_of db)"
  shows "br_ID r \<noteq> br_ID m \<Longrightarrow> r \<in> set (runs_of (snd (UpdateBackupRun m db)))"
    and "br_ID r = br_ID m \<Longrightarrow> r \<in> set (runs_of (snd (UpdateBackupRun m db))) \<or> run_columns m r \<in> set (runs_of (snd (UpdateBackupRun m db)))"
  using assms update_run_stays [OF assms] by (auto simp: UpdateBackupRun_def update_run_def)

definition same_links :: "(BackupRun \<Rightarrow> BackupRun) \<Rightarrow> bool" where
  "same_links f \<longleftrightarrow> (\<forall>m. br_ID (f m) = br_ID m \<and> br_ParentRunID (f m) = br_ParentRunID m \<and> br_ChainID (f m) = br_ChainID m \<and>
     br_Deleted (f m) = br_Deleted m)"

lemma write_active_ok:
  assumes s: "service_ok s" and f: "same_links f"
  shows "database_ok (sv_db (write_active rid f s))"
    and "m' \<in> set (sv_active (write_active rid f s)) \<Longrightarrow> br_ID m' \<noteq> rid \<Longrightarrow>
      \<exists>r \<in> set (runs_of (sv_db (write_active rid f s))). backs m' r"
    and "(\<And>m. br_Status m = RunPending \<or> br_Status m = RunRunning \<Longrightarrow> br_Status (f m) = RunPending \<or> br_Status (f m) = RunRunning) \<Longrightarrow>
      service_ok (write_active rid f s)"
proof -
  have dis: "distinct (map br_ID (runs_of (sv_db s)))" using s by (simp add: service_ok_def database_ok_def chains_safe_def)
  show db: "database_ok (sv_db (write_active rid f s))"
  proof (cases "find_active rid s")
    case (Some m)
    then have m: "m \<in> set (sv_active s)" "br_ID m = rid" by (auto simp: find_active_def find_Some_iff)
    then obtain r where r: "r \<in> set (runs_of (sv_db s))" "backs m r" using s by (auto simp: service_ok_def)
    have "keeps_chains (sv_db s) (snd (UpdateBackupRun (f m) (sv_db s)))"
      using f r(2) by (intro UpdateBackupRun_keeps [OF dis r(1)]) (auto simp: same_links_def backs_def)
    then show ?thesis using Some s database_ok_keeps by (auto simp: write_active_def service_ok_def)
  qed (use s in \<open>simp add: write_active_def service_ok_def\<close>)
  have id: "br_ID (f x) = br_ID x" for x using f by (simp add: same_links_def)
  show other: "\<exists>r \<in> set (runs_of (sv_db (write_active rid f s))). backs m' r"
    if "m' \<in> set (sv_active (write_active rid f s))" "br_ID m' \<noteq> rid" for m'
  proof (cases "find_active rid s")
    case (Some m)
    then have m: "br_ID m = rid" by (auto simp: find_active_def find_Some_iff)
    have "m' \<in> set (sv_active s)" using that Some id m by (auto simp: write_active_def split: if_splits)
    then obtain r where r: "r \<in> set (runs_of (sv_db s))" "backs m' r" using s by (auto simp: service_ok_def)
    have "br_ID r \<noteq> br_ID (f m)" using r(2) that(2) id m by (simp add: backs_def)
    from UpdateBackupRun_rows(1) [OF r(1) this] show ?thesis using Some r(2) by (auto simp: write_active_def)
  qed (use s that in \<open>auto simp: write_active_def service_ok_def\<close>)
  show "service_ok (write_active rid f s)"
    if st: "\<And>m. br_Status m = RunPending \<or> br_Status m = RunRunning \<Longrightarrow> br_Status (f m) = RunPending \<or> br_Status (f m) = RunRunning"
  proof (cases "find_active rid s")
    case (Some m)
    then have m: "m \<in> set (sv_active s)" "br_ID m = rid" by (auto simp: find_active_def find_Some_iff)
    then obtain r where r: "r \<in> set (runs_of (sv_db s))" "backs m r" using s by (auto simp: service_ok_def)
    have own: "\<exists>r \<in> set (runs_of (sv_db (write_active rid f s))). backs (f m) r"
    proof -
      have "br_ID r = br_ID (f m)" using r(2) id by (simp add: backs_def)
      from UpdateBackupRun_rows(2) [OF r(1) this] show ?thesis
      proof
        show ?thesis if "r \<in> set (runs_of (snd (UpdateBackupRun (f m) (sv_db s))))"
          using that Some r(2) f st [of m] by (auto simp: write_active_def backs_def same_links_def)
        show ?thesis if "run_columns (f m) r \<in> set (runs_of (snd (UpdateBackupRun (f m) (sv_db s))))"
          using that Some r(2) f st [of m]
          by (intro bexI [of _ "run_columns (f m) r"])
            (auto simp: write_active_def backs_def same_links_def run_columns_def in_progress_def)
      qed
    qed
    have "\<exists>r \<in> set (runs_of (sv_db (write_active rid f s))). backs m' r" if "m' \<in> set (sv_active (write_active rid f s))" for m'
    proof (cases "br_ID m' = rid")
      case True
      then have "m' = f m" using that Some by (auto simp: write_active_def split: if_splits)
      then show ?thesis using own by simp
    qed (use other that in blast)
    then show ?thesis using db by (simp add: service_ok_def)
  qed (use s in \<open>simp add: write_active_def\<close>)
qed

lemma end_write_ok:
  assumes "service_ok s" "same_links f" shows "service_ok (end_active rid (write_active rid f s))"
  using write_active_ok(1,2) [OF assms] by (auto simp: service_ok_def end_active_def)

lemma end_active_ok: "service_ok s \<Longrightarrow> service_ok (end_active rid s)"
  by (auto simp: service_ok_def end_active_def)

lemma record_disk_ok:
  assumes s: "service_ok s" shows "service_ok (s\<lparr>sv_db := record_disk rid d (sv_db s)\<rparr>)"
proof -
  let ?db = "record_disk rid d (sv_db s)"
  have "keeps_chains (sv_db s) ?db" unfolding record_disk_def by (intro keeps_update) simp_all
  then have "database_ok ?db" using s database_ok_keeps by (auto simp: service_ok_def)
  moreover have "\<exists>r \<in> set (runs_of ?db). backs m r" if m: "m \<in> set (sv_active s)" for m
  proof -
    obtain r where r: "r \<in> set (runs_of (sv_db s))" "backs m r" using s m by (auto simp: service_ok_def)
    then show ?thesis
      by (intro bexI [of _ "if br_ID r = rid then r\<lparr>br_Disks := br_Disks r @ [d]\<rparr> else r"])
        (auto simp: backs_def in_progress_def record_disk_def update_run_def)
  qed
  ultimately show ?thesis by (simp add: service_ok_def)
qed

lemma reconcile_keeps:
  assumes "\<forall>r \<in> set stale. r \<in> set (runs_of db)" "distinct (map br_ID stale)" "chains_safe UNIV db"
  shows "keeps_chains db (fold (\<lambda>r d. snd (UpdateBackupRun (failRun env r) d)) stale db)"
  using assms
proof (induction stale arbitrary: db)
  case (Cons r stale)
  let ?db = "snd (UpdateBackupRun (failRun env r) db)"
  have dis: "distinct (map br_ID (runs_of db))" using Cons.prems(3) by (simp add: chains_safe_def)
  have k: "keeps_chains db ?db"
    using Cons.prems(1) by (intro UpdateBackupRun_keeps [OF dis, of r]) (simp_all add: failRun_def)
  have "x \<in> set (runs_of ?db)" if "x \<in> set stale" for x
  proof -
    have "br_ID x \<noteq> br_ID (failRun env r)" using that Cons.prems(2) by (simp add: failRun_def) (metis imageI)
    then show ?thesis using UpdateBackupRun_rows(1) [of x db] that Cons.prems(1) by simp
  qed
  then have "keeps_chains ?db (fold (\<lambda>r d. snd (UpdateBackupRun (failRun env r) d)) stale ?db)"
    using Cons.prems k by (intro Cons.IH) (auto simp: keeps_chains_def)
  with k show ?case by (auto intro: keeps_trans)
qed simp

lemma ReconcileStaleRuns_ok:
  assumes "database_ok db" shows "database_ok (ReconcileStaleRuns env db)"
proof (cases "ListBackupRuns db (no_filter\<lparr>rf_Statuses := [RunRunning, RunPending], rf_IncludeDeleted := True\<rparr>)")
  case (Inr stale)
  let ?f = "no_filter\<lparr>rf_Statuses := [RunRunning, RunPending], rf_IncludeDeleted := True\<rparr>"
  have safe: "chains_safe UNIV db" using assms by (simp add: database_ok_def)
  have st: "stale = sort_key (\<lambda>r. - br_CreatedAt r) (filter (run_matches ?f) (runs_of db))"
    using Inr by (simp add: ListBackupRuns_def page_def no_filter_def split: if_splits)
  have "inj_on br_ID (set (runs_of db))" "distinct (runs_of db)" using safe by (auto simp: chains_safe_def distinct_map)
  then have "distinct (map br_ID stale)" unfolding st by (auto simp: distinct_map intro: inj_on_subset)
  then have "keeps_chains db (ReconcileStaleRuns env db)"
    using Inr safe by (auto simp: ReconcileStaleRuns_def st intro!: reconcile_keeps)
  then show ?thesis using assms by (rule database_ok_keeps)
qed (use assms in \<open>simp add: ReconcileStaleRuns_def\<close>)

lemma plan_joins:
  assumes ok: "database_ok db" and plan: "resolvePlan db env True srv req disks = Inr p"
    and fresh: "ev_new_id env \<noteq> ''''" "ev_new_id env \<notin> br_ID ` set (runs_of db)" "ev_new_id env \<notin> br_ParentRunID ` set (runs_of db)"
  shows "joins db (planned_run env srv p (blank_run env req srv name tid))"
proof -
  have ids: "distinct (map br_ID (runs_of db))" "'''' \<notin> br_ID ` set (runs_of db)" using ok by (auto simp: database_ok_def chains_safe_def)
  have chain: "br_ChainID q \<noteq> ''''" "br_ID q \<noteq> ''''" if "q \<in> set (runs_of db)" for q
    using ok ids(2) that by (auto simp: database_ok_def typed_links_def links_def image_iff)
  from resolvePlan_sound [OF plan ids(1)] show ?thesis
  proof
    assume "roots_chain p"
    then show ?thesis using fresh by (simp add: joins_def roots_chain_def planned_run_def blank_run_def)
  next
    assume "\<exists>q \<in> set (runs_of db). extends_chain req disks q p"
    then obtain q where q: "q \<in> set (runs_of db)" "extends_chain req disks q p" by blast
    then show ?thesis using fresh chain [OF q(1)]
      by (auto simp: joins_def extends_chain_def planned_run_def blank_run_def usable_for_vm_def)
  qed
qed

lemma start_ok:
  assumes s: "service_ok s"
    and fresh: "ev_new_id env \<noteq> ''''" "ev_new_id env \<notin> br_ID ` set (runs_of (sv_db s))" "ev_new_id env \<notin> br_ParentRunID ` set (runs_of (sv_db s))"
    and step: "run_step env (RnStart req) s = Some s'"
  shows "service_ok s'"
proof -
  let ?db = "sv_db s"
  have ok: "database_ok ?db" using s by (simp add: service_ok_def)
  have added: "service_ok (case CreateTransferBackupRun env run0 tid ?db of
        (Inl e, db) \<Rightarrow> s\<lparr>sv_db := db\<rparr> | (Inr run, db) \<Rightarrow> s\<lparr>sv_db := db, sv_active := sv_active s @ [run]\<rparr>)"
    if r0: "run = (if br_ChainID run0 = '''' then run0\<lparr>br_ChainID := br_ID run0\<rparr> else run0)"
      and j: "joins ?db run" and live: "\<not> br_Deleted run" "br_Status run = RunPending" "br_PurgeAfter run = None" for run run0 tid
  proof -
    obtain res db' where res: "CreateTransferBackupRun env run0 tid ?db = (res, db')" by fastforce
    have ip: "in_progress run" using live by (simp add: in_progress_def)
    note made = CreateTransferBackupRun_ok [OF ok r0 j live(1) ip res]
    have "backs run run" using live ip by (simp add: backs_def)
    then show ?thesis using made s res by (cases res) (fastforce simp: service_ok_def)+
  qed
  have ova: "service_ok (case executeOVA env req srv name ?db of
        (Inl e, db) \<Rightarrow> s\<lparr>sv_db := db\<rparr> | (Inr run, db) \<Rightarrow> s\<lparr>sv_db := db, sv_active := sv_active s @ [run]\<rparr>)" for srv name
    unfolding executeOVA_def
    using fresh by (intro added [OF refl]) (auto simp: joins_def blank_run_def NeedsParent_def)
  have target: "service_ok (case start_on_target env req srv name target ?db of
        (Inl e, db) \<Rightarrow> s\<lparr>sv_db := db\<rparr> | (Inr run, db) \<Rightarrow> s\<lparr>sv_db := db, sv_active := sv_active s @ [run]\<rparr>)" for srv name target
  proof -
    have "service_ok (case CreateTransferBackupRun env (planned_run env srv p (blank_run env req srv name (st_ID target))) (rq_TransferID req) ?db of
        (Inl e, db) \<Rightarrow> s\<lparr>sv_db := db\<rparr> | (Inr run, db) \<Rightarrow> s\<lparr>sv_db := db, sv_active := sv_active s @ [run]\<rparr>)"
      if "resolvePlan ?db env True srv req disks = Inr p" for disks p
      using plan_joins [OF ok that fresh, of name "st_ID target"]
      by (intro added) (auto simp: planned_run_def blank_run_def joins_def)
    then show ?thesis using s by (auto simp: start_on_target_def split: sum.split)
  qed
  show ?thesis using step s ova target by (auto simp: Execute_start_def split: sum.splits if_splits)
qed

section \<open>Reachable states\<close>

text \<open>
  What is left out: returning a run from quarantine, turning an opened increment into a full copy, and
  deleting a run while it is being executed. Identifiers of new runs are fresh.
\<close>

definition allowed :: "plan_env \<Rightarrow> run_event \<Rightarrow> service \<Rightarrow> bool" where
  "allowed env ev s \<longleftrightarrow> (case ev of
     RnStart req \<Rightarrow> ev_new_id env \<noteq> '''' \<and> ev_new_id env \<notin> br_ID ` set (runs_of (sv_db s)) \<and>
                    ev_new_id env \<notin> br_ParentRunID ` set (runs_of (sv_db s))
   | RnDowngrade rid \<Rightarrow> False
   | RnPrune penv pev \<Rightarrow> no_undelete pev \<and> (\<forall>m \<in> set (sv_active s). ev_target pev \<noteq> Some (br_ID m))
   | _ \<Rightarrow> True)"

inductive reachable :: "service \<Rightarrow> bool" where
  init: "runs_of (sv_db s) = [] \<Longrightarrow> sv_active s = [] \<Longrightarrow> st_run_err (pd_store (sv_db s)) = (\<lambda>_. None) \<Longrightarrow> reachable s"
| step: "reachable s \<Longrightarrow> allowed env ev s \<Longrightarrow> run_step env ev s = Some s' \<Longrightarrow> reachable s'"

lemma prune_ok:
  assumes s: "service_ok s" and "allowed env (RnPrune penv pev) s" "run_step env (RnPrune penv pev) s = Some s'"
  shows "service_ok s'" "keeps_chains (sv_db s) (sv_db s')"
proof -
  have ok: "database_ok (sv_db s)" using s by (simp add: service_ok_def)
  then obtain rank where rank: "chain_ranked rank (runs_of (sv_db s))" by (auto simp: database_ok_def)
  have safe: "chains_safe UNIV (sv_db s)" using ok by (simp add: database_ok_def)
  obtain db' where db': "prune_step penv pev (sv_db s) = Some db'" "s' = s\<lparr>sv_db := db'\<rparr>"
    using assms(3) by (auto split: option.splits)
  then show k: "keeps_chains (sv_db s) (sv_db s')"
    using prune_step_keeps [OF safe rank, of pev penv] assms(2) by (auto simp: allowed_def)
  have "\<exists>r \<in> set (runs_of db'). backs m r" if m: "m \<in> set (sv_active s)" for m
  proof -
    obtain r where r: "r \<in> set (runs_of (sv_db s))" "backs m r" using s m by (auto simp: service_ok_def)
    have "distinct (map br_ID (runs_of (sv_db s)))" using safe by (simp add: chains_safe_def)
    from prune_step_stays [OF db'(1) this r(1)] show ?thesis
      using r(2) assms(2) m by (auto simp: allowed_def backs_def)
  qed
  then show "service_ok s'" using database_ok_keeps [OF k ok] db'(2) by (simp add: service_ok_def)
qed

lemma run_step_ok:
  assumes s: "service_ok s" and a: "allowed env ev s" and step: "run_step env ev s = Some s'"
  shows "service_ok s'"
proof (cases ev)
  case (RnStart req)
  then show ?thesis using start_ok s a step by (auto simp: allowed_def)
next
  case (RnRunning rid)
  have "service_ok (write_active rid (mark_running env) s)"
    by (intro write_active_ok(3) [OF s]) (simp_all add: same_links_def mark_running_def)
  then show ?thesis using RnRunning step by simp
next
  case (RnOpened rid cp snap)
  have "service_ok (write_active rid (backup_opened cp snap) s)"
    by (intro write_active_ok(3) [OF s]) (simp_all add: same_links_def backup_opened_def)
  then show ?thesis using RnOpened step by simp
next
  case (RnFinish rid partial maxAge)
  have "same_links (finish_run env partial maxAge)" by (simp add: same_links_def finish_run_def)
  then show ?thesis using RnFinish step end_write_ok [OF s] by auto
next
  case (RnFail rid)
  have "same_links (failRun env)" by (simp add: same_links_def failRun_def)
  then show ?thesis using RnFail step end_write_ok [OF s] end_active_ok [OF s] by (auto split: if_splits)
next
  case RnRestart
  have "database_ok (ReconcileStaleRuns env (sv_db s))" using s by (intro ReconcileStaleRuns_ok) (simp add: service_ok_def)
  then show ?thesis using RnRestart step by (auto simp: service_ok_def)
next
  case (RnPrune penv pev)
  then show ?thesis using prune_ok(1) s a step by blast
qed (use a s step record_disk_ok [OF s] in \<open>auto simp: allowed_def split: if_splits\<close>)

lemma service_reachable_ok: "reachable s \<Longrightarrow> service_ok s"
proof (induction rule: reachable.induct)
  case (init s)
  then show ?case
    by (simp add: service_ok_def database_ok_def chains_safe_def typed_links_def links_def chain_ranked_def)
qed (rule run_step_ok)

lemma walk_live_touched:
  assumes db: "database_ok db" and safe: "chains_safe T db" and r: "r \<in> set (runs_of db)" "\<not> br_Deleted r"
  shows "\<exists>ups. walk_up (pd_store db) [] r = Inr (r # ups) \<and> (\<forall>a \<in> set ups. br_ID a \<in> set (pd_touched db) \<longrightarrow> br_ID a \<in> T) \<and>
     set ups \<subseteq> set (runs_of db) \<and> br_ParentRunID (last (r # ups)) = ''''"
proof -
  obtain rank where rank: "chain_ranked rank (runs_of db)" "st_run_err (pd_store db) = (\<lambda>_. None)"
    using db by (auto simp: database_ok_def)
  obtain ups where "walk_up (pd_store db) [] r = Inr ([] @ r # ups)" "\<forall>a \<in> set ups. br_ID a \<notin> set (pd_touched db) - T"
     "set ups \<subseteq> set (runs_of db)" "br_ParentRunID (last (r # ups)) = ''''"
    using walk_up_safe [OF safe rank r, of "[]"] by auto
  then show ?thesis by auto
qed

lemmas walk_live = walk_live_touched [where T = UNIV]

lemma prune_returns:
  assumes s: "service_ok s" and a: "allowed env (RnPrune penv pev) s"
  shows "\<exists>s'. run_step env (RnPrune penv pev) s = Some s'"
proof -
  obtain rank where "chain_ranked rank (runs_of (sv_db s))" "chains_safe UNIV (sv_db s)"
    using s by (auto simp: service_ok_def database_ok_def)
  then show ?thesis using prune_step_keeps [of "sv_db s" rank pev penv] a by (auto simp: allowed_def)
qed

section \<open>Theorems\<close>


definition sample_vm_disk :: "string \<Rightarrow> string \<Rightarrow> vm_disk" where
  "sample_vm_disk did mode = \<lparr>od_ID = did, od_Name = did, od_Alias = '''', od_Format = ''cow'', od_Backup = mode, od_ContentType = ''data'',
     od_StorageType = ''image'', od_LunStorage = False, od_Shareable = False, od_Inactive = False\<rparr>"

definition sample_plan_env :: "int \<Rightarrow> string \<Rightarrow> plan_env" where
  "sample_plan_env now rid = \<lparr>ev_now = now, ev_ChunkSize = 0, ev_qemu_img = True,
     ev_server = \<lambda>i. Inr \<lparr>sv_ID = i, sv_Name = i, sv_SupportsCBT = True\<rparr>, ev_vm_name = \<lambda>_ vm. Inr vm, ev_client = \<lambda>_. Inr (),
     ev_ListVMDisks = \<lambda>_. Inr [sample_vm_disk ''d1'' ''incremental'', sample_vm_disk ''d2'' ''none''],
     ev_HasCheckpoint = \<lambda>_ _. Inr True, ev_GetSnapshot = \<lambda>_ _. SnapshotFound, ev_LastRunEventAt = \<lambda>_ _. Inr None,
     ev_open = \<lambda>_. False, ev_docs = sample_docs, ev_transfer_owner = \<lambda>_ _. Inr '''',
     ev_RunPrefix = \<lambda>_ _ _ _ i. i @ ''/'', ev_new_id = rid\<rparr>"

definition sample_request :: "BackupType \<Rightarrow> RunRequest" where
  "sample_request ty = \<lparr>rq_TransferID = '''', rq_ServerID = ''s'', rq_VMID = ''vm'', rq_Type = ty, rq_JobRunID = '''', rq_JobID = '''',
     rq_FullEvery = 7, rq_FallbackType = None, rq_LegacyIncrementalMode = '''', rq_StorageTargetID = ''t'', rq_ExcludeDiskIDs = [],
     rq_ExportQcow2 = False\<rparr>"

definition sample_service :: service where
  "sample_service = \<lparr>sv_db = \<lparr>pd_store = \<lparr>st_runs = [], st_copies = [], st_targets = [sample_target\<lparr>st_ObjectLockEnabled := False\<rparr>],
       st_run_err = \<lambda>_. None, st_copy_err = \<lambda>_. None, st_target_err = \<lambda>_. None\<rparr>,
       pd_transfers = [], pd_fails = \<lambda>_ _. False, pd_touched = []\<rparr>, sv_active = []\<rparr>"

text \<open>A backup taken from beginning to end.\<close>

definition whole_backup :: "int \<Rightarrow> string \<Rightarrow> BackupType \<Rightarrow> (plan_env \<times> run_event) list" where
  "whole_backup now rid ty =
     map (Pair (sample_plan_env now rid))
       [RnStart (sample_request ty), RnRunning rid, RnOpened rid (''cp-'' @ rid) '''',
        RnDisk rid \<lparr>bd_DiskID = ''d1'', bd_ManifestKey = rid @ ''/d1'', bd_DataKey = '''', bd_Status = RunSucceeded\<rparr>,
        RnDisk rid \<lparr>bd_DiskID = ''d2'', bd_ManifestKey = rid @ ''/d2'', bd_DataKey = '''', bd_Status = RunSucceeded\<rparr>,
        RnFinish rid False 0]"

fun allowed_steps :: "(plan_env \<times> run_event) list \<Rightarrow> service \<Rightarrow> bool" where
  "allowed_steps [] s = True"
| "allowed_steps ((env, ev) # evs) s =
     (allowed env ev s \<and> (case run_step env ev s of None \<Rightarrow> True | Some s1 \<Rightarrow> allowed_steps evs s1))"

lemma reachable_steps: "reachable s \<Longrightarrow> allowed_steps evs s \<Longrightarrow> run_steps evs s = Some s' \<Longrightarrow> reachable s'"
  by (induction evs s rule: allowed_steps.induct) (auto split: option.splits intro: reachable.step)

definition sample_evs :: "(plan_env \<times> run_event) list" where
  "sample_evs = whole_backup 1 ''f'' BackupFull @ whole_backup 2 ''i'' BackupIncremental"


text \<open>
  C6: a plan never asks for an increment that has nothing to stand on. Whatever was requested, a plan
  that is returned either starts a new chain with a type that needs no parent, or it keeps the requested
  type and continues, by one link and below the configured length, the chain of a live successful run of the
  same machine and repository in which every disk to be copied has a saved copy; a differential stands on a
  full copy.
\<close>

theorem plan_sound:
  assumes "resolvePlan db env c srv req disks = Inr p" "distinct (map br_ID (runs_of db))"
  shows "(\<not> NeedsParent (pn_Type p) \<and> pn_ParentRunID p = '''' \<and> pn_ChainID p = '''' \<and> pn_ChainIndex p = 0) \<or>
    (\<exists>q \<in> set (runs_of db). pn_Type p = rq_Type req \<and> NeedsParent (pn_Type p) \<and>
       pn_ParentRunID p = br_ID q \<and> pn_ChainID p = br_ChainID q \<and> pn_ChainIndex p = br_ChainIndex q + 1 \<and>
       \<not> (0 < rq_FullEvery req \<and> rq_FullEvery req \<le> pn_ChainIndex p) \<and>
       br_ServerID q = rq_ServerID req \<and> br_VMID q = rq_VMID req \<and> br_StorageTargetID q = rq_StorageTargetID req \<and>
       \<not> br_Deleted q \<and> br_Status q \<in> {RunSucceeded, RunPartial} \<and>
       (rq_Type req = BackupIncremental \<or> br_Type q \<in> {BackupFull, BackupSnapshot}) \<and>
       od_ID ` set disks \<subseteq> bd_DiskID ` {b \<in> set (br_Disks q). bd_Status b = RunSucceeded})"
  using resolvePlan_sound [OF assms]
proof
  assume "roots_chain p"
  then show ?thesis by (simp add: roots_chain_def)
next
  assume "\<exists>q \<in> set (runs_of db). extends_chain req disks q p"
  then obtain q where q: "q \<in> set (runs_of db)" "extends_chain req disks q p" by blast
  have "od_ID d \<in> bd_DiskID ` {b \<in> set (br_Disks q). bd_Status b = RunSucceeded}" if "d \<in> set disks" for d
    using q(2) that unfolding extends_chain_def by (metis (mono_tags, lifting) imageI mem_Collect_eq)
  then show ?thesis
    using q unfolding extends_chain_def usable_for_vm_def NeedsParent_def by (intro disjI2 bexI [of _ q]) auto
qed

definition sample_full_db :: prune_db where
  "sample_full_db = sv_db (the (run_steps (whole_backup 1 ''f'' BackupFull) sample_service))"

theorem plan_sound_witness:
  "\<exists>p. resolvePlan sample_full_db (sample_plan_env 2 ''i'') True \<lparr>sv_ID = ''s'', sv_Name = ''s'', sv_SupportsCBT = True\<rparr>
       (sample_request BackupIncremental) [sample_vm_disk ''d1'' ''incremental'', sample_vm_disk ''d2'' ''none''] = Inr p \<and>
     pn_ParentRunID p = ''f'' \<and> pn_FullDisks p = [(''d2'', NotIncremental)] \<and> NeedsParent (pn_Type p) \<and>
     (\<exists>q \<in> set (runs_of sample_full_db). br_ID q = ''f'' \<and> pn_ChainIndex p = br_ChainIndex q + 1)"
proof -
  let ?r = "resolvePlan sample_full_db (sample_plan_env 2 ''i'') True \<lparr>sv_ID = ''s'', sv_Name = ''s'', sv_SupportsCBT = True\<rparr>
       (sample_request BackupIncremental) [sample_vm_disk ''d1'' ''incremental'', sample_vm_disk ''d2'' ''none'']"
  have "case ?r of Inl _ \<Rightarrow> False | Inr p \<Rightarrow> pn_ParentRunID p = ''f'' \<and> pn_FullDisks p = [(''d2'', NotIncremental)]" by code_simp
  then obtain p where p: "?r = Inr p" "pn_ParentRunID p = ''f''" "pn_FullDisks p = [(''d2'', NotIncremental)]"
    by (cases ?r) auto
  have "distinct (map br_ID (runs_of sample_full_db))" by code_simp
  from plan_sound [OF p(1) this] p show ?thesis by auto
qed



text \<open>
  A failed erasure leaves a base for the next increment. Without a quarantine, or by the immediate
  erasure, objects are deleted before the run is marked; when the repository fails in the middle the run stays
  live with a copy that counts as healthy, and the next increment is planned on it.
\<close>

lemma half_erased_base:
  "\<exists>s. run_steps (whole_backup 1 ''f'' BackupFull @
         [(sample_plan_env 2 ''x'', RnPrune ((prune_surroundings 2)\<lparr>pe_delete := \<lambda>_ _. False\<rparr>) (EvPurge ''f'' ''by hand''))] @
         whole_backup 3 ''i'' BackupIncremental) sample_service = Some s \<and>
     map (\<lambda>r. (br_ID r, br_Deleted r, br_Status r, br_ParentRunID r)) (runs_of (sv_db s)) =
       [(''f'', False, RunSucceeded, ''''), (''i'', False, RunSucceeded, ''f'')] \<and>
     pd_touched (sv_db s) = [''f''] \<and> map (\<lambda>c. Healthy (Some c)) (st_copies (pd_store (sv_db s))) = [True, True]"
proof -
  let ?h = "run_steps (whole_backup 1 ''f'' BackupFull @
         [(sample_plan_env 2 ''x'', RnPrune ((prune_surroundings 2)\<lparr>pe_delete := \<lambda>_ _. False\<rparr>) (EvPurge ''f'' ''by hand''))] @
         whole_backup 3 ''i'' BackupIncremental) sample_service"
  have "map_option (\<lambda>s. (map (\<lambda>r. (br_ID r, br_Deleted r, br_Status r, br_ParentRunID r)) (runs_of (sv_db s)), pd_touched (sv_db s),
      map (\<lambda>c. Healthy (Some c)) (st_copies (pd_store (sv_db s))))) ?h =
    Some ([(''f'', False, RunSucceeded, ''''), (''i'', False, RunSucceeded, ''f'')], [''f''], [True, True])" by code_simp
  then show ?thesis by (cases ?h) simp_all
qed

end
