(* ===== verification/Replication.thy ===== *)
theory Replication
  imports Runs "HOL-Library.AList" "HOL-Library.List_Lexorder" "HOL-Library.Char_ord"
begin

text \<open>
  Copying published restore points between repositories (\<open>internal/replication/replicator.go\<close> with
  \<open>internal/store/replication.go\<close>): queueing, the lease a worker takes on a copy, the gate on the parent,
  the transfer object by object with the run document last, verification, the outcome, and the state of
  the job run that waits for the copies.

  The state is the database of \<open>Prune\<close>, the tables of attempts, objects, jobs and job runs, the contents of
  each repository, and the copies being processed, each with the record its worker holds in memory. The
  work on one copy is cut where other workers and the operator come in between: entry, start, transfer,
  end, release of the lease. Clock, digest, backends and the verifier are the fields of a \<open>repl_env\<close>, one
  per step; a write of a backend may fail and may leave anything behind. Events and alerts have no
  modelled effect. \<open>ContextCanceled\<close> stands for every error that wraps the cancellation of a context.
\<close>

section \<open>Records\<close>

record ReplicationAttempt =
  ra_ID :: string
  ra_CopyID :: string
  ra_SourceCopyID :: string
  ra_Status :: RunStatus
  ra_Attempt :: int
  ra_ObjectCount :: int
  ra_CopiedObjects :: int
  ra_TotalBytes :: int
  ra_CopiedBytes :: int
  ra_Error :: string
  ra_StartedAt :: "int option"
  ra_EndedAt :: "int option"
  ra_CreatedAt :: int

record ReplicationObject =
  ro_CopyID :: string
  ro_ObjectKey :: string
  ro_SizeBytes :: int
  ro_SHA256 :: string
  ro_Status :: string
  ro_Error :: string

record BackupJobRun =
  jr_ID :: string
  jr_Status :: RunStatus
  jr_ReplicaCount :: int
  jr_SucceededCount :: int
  jr_PartialCount :: int
  jr_FailedCount :: int
  jr_CanceledCount :: int
  jr_EndedAt :: "int option"

record BackupJob =
  bj_ID :: string
  bj_StorageTargetIDs :: "string list"
  bj_VerifyAfter :: string
  bj_LastStatus :: RunStatus

record ObjectInfo =
  oi_Key :: string
  oi_Size :: int

datatype repl_error =
    ReplStore store_error
  | OVANotReplicated
  | PrimaryUnpublished
  | TargetOff string
  | TargetReadOnly string
  | ParentErased string
  | NoSource string
  | NotReplica string
  | NotCancelable BackupCopyStatus
  | NoRunManifest
  | ParentPending string
  | ParentNoCopy string
  | ParentCopyBlocked string BackupCopyStatus
  | BackendError string
  | DigestMismatch string
  | ContextCanceled

text \<open>Where the work on a copy stands. A transfer ended with or without an error, and with the
  verification asked for by the job, if any.\<close>

datatype phase = Entered | Running | Copied "repl_error option" "string option" | Done

record task =
  tk_copy :: BackupCopy
  tk_worker :: string
  tk_attempt :: ReplicationAttempt
  tk_phase :: phase
  tk_canceled :: bool

type_synonym contents = "(string \<times> bytes) list"

record repl =
  rs_db :: prune_db
  rs_repos :: "string \<Rightarrow> contents"
  rs_objects :: "ReplicationObject list"
  rs_attempts :: "ReplicationAttempt list"
  rs_jobs :: "BackupJob list"
  rs_jobruns :: "BackupJobRun list"
  rs_tasks :: "task list"
  rs_manual :: "string list"

text \<open>A write (\<open>re_put\<close> by target, key and data; \<open>re_native\<close>, the copy inside a storage, by source, destination,
  key and data) answers an error and what became of the object; \<open>re_native\<close> also whether it applies.\<close>

record repl_env =
  re_now :: int
  re_new_id :: "string \<Rightarrow> string \<Rightarrow> string"
  re_text :: "repl_error \<Rightarrow> string"
  re_open :: "StorageTarget \<Rightarrow> string option"
  re_list :: "string \<Rightarrow> string \<Rightarrow> repl_error option"
  re_get :: "nat \<Rightarrow> string \<Rightarrow> string \<Rightarrow> repl_error option"
  re_put :: "string \<Rightarrow> string \<Rightarrow> bytes \<Rightarrow> repl_error option \<times> (bytes option \<Rightarrow> bytes option)"
  re_native :: "string \<Rightarrow> string \<Rightarrow> string \<Rightarrow> bytes \<Rightarrow> repl_error option \<times> bool \<times> (bytes option \<Rightarrow> bytes option)"
  re_sha :: "bytes \<Rightarrow> string"
  re_verifier :: bool
  re_verify :: "string \<Rightarrow> string \<Rightarrow> string \<Rightarrow> repl_error option"
  re_stopping :: bool

abbreviation copies_of :: "repl \<Rightarrow> BackupCopy list" where
  "copies_of s \<equiv> st_copies (pd_store (rs_db s))"

definition minute :: int where "minute = 60000000000"

definition copyLease :: int where "copyLease = 5 * minute"

definition retryDelays :: "int list" where
  "retryDelays = map (\<lambda>m. m * minute) [1, 5, 15, 60, 240, 720, 1440]"

section \<open>Statements\<close>

definition update_copies :: "(BackupCopy \<Rightarrow> bool) \<Rightarrow> (BackupCopy \<Rightarrow> BackupCopy) \<Rightarrow> prune_db \<Rightarrow> prune_db" where
  "update_copies p f db =
     db\<lparr>pd_store := (pd_store db)\<lparr>st_copies := map (\<lambda>c. if p c then f c else c) (st_copies (pd_store db))\<rparr>\<rparr>"

definition passed :: "int \<Rightarrow> int option \<Rightarrow> bool" where
  "passed now t \<longleftrightarrow> (case t of None \<Rightarrow> True | Some u \<Rightarrow> u \<le> now)"

definition claimable :: "prune_db \<Rightarrow> int \<Rightarrow> BackupCopy \<Rightarrow> bool" where
  "claimable db now c \<longleftrightarrow>
     bc_Role c = CopyReplica \<and> bc_Required c \<and>
     list_ex (\<lambda>t. st_ID t = bc_StorageTargetID c \<and> st_Enabled t) (st_targets (pd_store db)) \<and>
     (bc_Status c \<in> {CopyPending, CopyFailed} \<and> passed now (bc_NextRetryAt c) \<or>
      bc_Status c \<in> {CopyCopying, CopyVerifying} \<and> passed now (bc_LockedUntil c))"

definition ClaimBackupCopies ::
  "int \<Rightarrow> string \<Rightarrow> int \<Rightarrow> int \<Rightarrow> prune_db \<Rightarrow> (store_error + BackupCopy list) \<times> prune_db" where
  "ClaimBackupCopies now worker limit lease db =
     (let limit' = (if limit \<le> 0 then 1 else limit);
          until = now + (if lease \<le> 0 then 5 * minute else lease);
          ids = map bc_ID (take (nat limit') (sort_key bc_CreatedAt (filter (claimable db now) (st_copies (pd_store db)))));
          db1 = update_copies (\<lambda>c. bc_ID c \<in> set ids)
                  (\<lambda>c. c\<lparr>bc_Status := CopyCopying, bc_LockedUntil := Some until, bc_LockedBy := worker\<rparr>) db
      in if pd_fails db ''claim'' worker then (Inl (StoreFailed ''claim backup copies''), db)
         else (mapR (GetBackupCopy (pd_store db1)) ids, db1))"

definition RenewCopyLease :: "int \<Rightarrow> string \<Rightarrow> string \<Rightarrow> int \<Rightarrow> prune_db \<Rightarrow> (store_error + bool) \<times> prune_db" where
  "RenewCopyLease now cid worker lease db =
     (if pd_fails db ''renew lease'' cid then (Inl (StoreFailed ''renew copy lease''), db)
      else (Inr (list_ex (\<lambda>c. bc_ID c = cid \<and> bc_LockedBy c = worker) (st_copies (pd_store db))),
            update_copies (\<lambda>c. bc_ID c = cid \<and> bc_LockedBy c = worker) (\<lambda>c. c\<lparr>bc_LockedUntil := Some (now + lease)\<rparr>) db))"

definition ReleaseCopyLease :: "string \<Rightarrow> string \<Rightarrow> prune_db \<Rightarrow> prune_db" where
  "ReleaseCopyLease cid worker db =
     (if pd_fails db ''release lease'' cid then db
      else update_copies (\<lambda>c. bc_ID c = cid \<and> bc_LockedBy c = worker) (\<lambda>c. c\<lparr>bc_LockedUntil := None, bc_LockedBy := ''''\<rparr>) db)"

definition SetCopyProgress :: "string \<Rightarrow> int \<Rightarrow> int \<Rightarrow> prune_db \<Rightarrow> prune_db" where
  "SetCopyProgress cid objects written db =
     (if pd_fails db ''copy progress'' cid then db
      else update_copies (\<lambda>c. bc_ID c = cid) (\<lambda>c. c\<lparr>bc_CopiedObjects := objects, bc_CopiedBytes := written\<rparr>) db)"

text \<open>Both statements of a recovery are one transaction.\<close>

definition RecoverInterruptedReplications :: "int \<Rightarrow> repl \<Rightarrow> repl" where
  "RecoverInterruptedReplications now s =
     (if pd_fails (rs_db s) ''recover'' '''' then s
      else s\<lparr>rs_db := update_copies (\<lambda>c. bc_Role c = CopyReplica \<and> bc_Status c \<in> {CopyCopying, CopyVerifying})
                 (\<lambda>c. c\<lparr>bc_Status := CopyPending, bc_NextRetryAt := None,
                        bc_LastError := (if bc_LastError c = '''' then ''interrupted; will be continued'' else bc_LastError c)\<rparr>) (rs_db s),
             rs_attempts := map (\<lambda>a. if ra_Status a = RunRunning
                 then a\<lparr>ra_Status := RunFailed, ra_EndedAt := Some now,
                        ra_Error := (if ra_Error a = '''' then ''interrupted'' else ra_Error a)\<rparr> else a) (rs_attempts s)\<rparr>)"

definition CreateReplicationAttempt :: "ReplicationAttempt \<Rightarrow> repl \<Rightarrow> repl" where
  "CreateReplicationAttempt a s =
     (if pd_fails (rs_db s) ''insert attempt'' (ra_ID a) then s else s\<lparr>rs_attempts := rs_attempts s @ [a]\<rparr>)"

text \<open>The source of an attempt is not among the columns an update writes.\<close>

definition UpdateReplicationAttempt :: "ReplicationAttempt \<Rightarrow> repl \<Rightarrow> repl" where
  "UpdateReplicationAttempt a s =
     (if pd_fails (rs_db s) ''update attempt'' (ra_ID a) then s
      else s\<lparr>rs_attempts := map (\<lambda>x. if ra_ID x = ra_ID a
               then a\<lparr>ra_CopyID := ra_CopyID x, ra_SourceCopyID := ra_SourceCopyID x, ra_Attempt := ra_Attempt x,
                      ra_CreatedAt := ra_CreatedAt x\<rparr> else x) (rs_attempts s)\<rparr>)"

definition same_object :: "ReplicationObject \<Rightarrow> ReplicationObject \<Rightarrow> bool" where
  "same_object a b \<longleftrightarrow> ro_CopyID a = ro_CopyID b \<and> ro_ObjectKey a = ro_ObjectKey b"

definition UpsertReplicationObject :: "ReplicationObject \<Rightarrow> repl \<Rightarrow> (repl_error + unit) \<times> repl" where
  "UpsertReplicationObject o' s =
     (if pd_fails (rs_db s) ''upsert object'' (ro_ObjectKey o') then (Inl (ReplStore (StoreFailed ''upsert object'')), s)
      else (Inr (), s\<lparr>rs_objects :=
              (if list_ex (same_object o') (rs_objects s)
               then map (\<lambda>x. if same_object o' x then o' else x) (rs_objects s) else rs_objects s @ [o'])\<rparr>))"

definition ListReplicationObjects :: "repl \<Rightarrow> string \<Rightarrow> repl_error + (string \<Rightarrow> ReplicationObject option)" where
  "ListReplicationObjects s cid =
     (if pd_fails (rs_db s) ''list objects'' cid then Inl (ReplStore (StoreFailed ''list objects''))
      else Inr (\<lambda>k. find (\<lambda>x. ro_CopyID x = cid \<and> ro_ObjectKey x = k) (rs_objects s)))"

text \<open>The update of a copy, whose errors are those of the database.\<close>

definition save_copy :: "BackupCopy \<Rightarrow> repl \<Rightarrow> (repl_error + unit) \<times> repl" where
  "save_copy c s =
     (case UpdateBackupCopy c (rs_db s) of
        (Inr u, db) \<Rightarrow> (Inr (), s\<lparr>rs_db := db\<rparr>)
      | (Inl (PruneStore e), db) \<Rightarrow> (Inl (ReplStore e), s\<lparr>rs_db := db\<rparr>)
      | (Inl _, db) \<Rightarrow> (Inl (ReplStore (StoreFailed ''update copy'')), s\<lparr>rs_db := db\<rparr>))"

section \<open>Queueing, retrying, cancelling\<close>

fun first_source :: "store \<Rightarrow> string \<Rightarrow> BackupCopy list \<Rightarrow> (BackupCopy \<times> StorageTarget) option" where
  "first_source db ex [] = None"
| "first_source db ex (c # cs) =
     (if \<not> Healthy (Some c) \<or> bc_StorageTargetID c = ex then first_source db ex cs
      else case GetStorageTarget db (bc_StorageTargetID c) of
             Inr t \<Rightarrow> if st_Enabled t then Some (c, t) else first_source db ex cs
           | Inl _ \<Rightarrow> first_source db ex cs)"

definition healthySource :: "store \<Rightarrow> BackupRun \<Rightarrow> string \<Rightarrow> repl_error + BackupCopy \<times> StorageTarget" where
  "healthySource db run ex =
     (case ListBackupCopies db (br_ID run) of
        Inl e \<Rightarrow> Inl (ReplStore e)
      | Inr cs \<Rightarrow>
          (case first_source db ex (sort_key (\<lambda>c. if bc_Role c = CopyPrimary then 0 else (1 :: int)) cs) of
             None \<Rightarrow> Inl (NoSource (br_ID run)) | Some ct \<Rightarrow> Inr ct))"

definition new_replica :: "repl_env \<Rightarrow> BackupRun \<Rightarrow> string \<Rightarrow> BackupCopy \<Rightarrow> BackupCopy" where
  "new_replica env link tid source =
     \<lparr>bc_ID = re_new_id env (br_ID link) tid, bc_RunID = br_ID link, bc_StorageTargetID = tid, bc_Role = CopyReplica,
      bc_Required = True, bc_Status = CopyPending, bc_RepoPath = br_RepoPath link, bc_SourceCopyID = bc_ID source,
      bc_ManifestSHA256 = '''', bc_ObjectCount = 0, bc_CopiedObjects = 0, bc_TotalBytes = 0, bc_CopiedBytes = 0,
      bc_AttemptCount = 0, bc_LockedBy = '''', bc_NextRetryAt = None, bc_LastError = '''', bc_VerifiedAt = None,
      bc_LockedUntil = None, bc_StartedAt = None, bc_EndedAt = None, bc_CreatedAt = re_now env\<rparr>"

definition requeued :: "BackupCopy \<Rightarrow> BackupCopy" where
  "requeued c = (if Healthy (Some c) then c\<lparr>bc_Required := True\<rparr>
     else c\<lparr>bc_Required := True, bc_Status := CopyPending, bc_NextRetryAt := None, bc_LastError := ''''\<rparr>)"

definition queue_link :: "repl_env \<Rightarrow> string \<Rightarrow> BackupRun \<Rightarrow> repl \<Rightarrow> (repl_error + BackupCopy) \<times> repl" where
  "queue_link env tid link s =
     (if br_Deleted link then (Inl (ParentErased (br_ID link)), s)
      else case GetBackupCopyForTarget (pd_store (rs_db s)) (br_ID link) tid of
        Inr c \<Rightarrow>
          (if \<not> bc_Required c \<or> bc_Status c = CopyCanceled \<or> bc_Status c = CopyDeleted
           then case save_copy (requeued c) s of
                  (Inl e, s1) \<Rightarrow> (Inl e, s1) | (Inr _, s1) \<Rightarrow> (Inr (requeued c), s1)
           else (Inr c, s))
      | Inl (StoreFailed e) \<Rightarrow> (Inl (ReplStore (StoreFailed e)), s)
      | Inl ErrNotFound \<Rightarrow>
          (case healthySource (pd_store (rs_db s)) link tid of
             Inl e \<Rightarrow> (Inl (NoSource (br_ID link)), s)
           | Inr (source, _) \<Rightarrow>
               (case CreateBackupCopy (new_replica env link tid source) (rs_db s) of
                  Inr (Some db1) \<Rightarrow> (Inr (new_replica env link tid source), s\<lparr>rs_db := db1\<rparr>)
                | Inr None \<Rightarrow> (Inl (ReplStore (StoreFailed ''conflict'')), s)
                | Inl e \<Rightarrow> (Inl (ReplStore e), s))))"

fun queue_links :: "repl_env \<Rightarrow> string \<Rightarrow> int \<Rightarrow> BackupRun list \<Rightarrow> repl \<Rightarrow> (repl_error + BackupCopy list) \<times> repl" where
  "queue_links env tid newest [] s = (Inr [], s)"
| "queue_links env tid newest (link # rest) s =
     (if br_ChainIndex link > newest then (Inr [], s)
      else case queue_link env tid link s of
             (Inl e, s1) \<Rightarrow> (Inl e, s1)
           | (Inr c, s1) \<Rightarrow> (case queue_links env tid newest rest s1 of
                 (Inl e, s2) \<Rightarrow> (Inl e, s2) | (Inr cs, s2) \<Rightarrow> (Inr (c # cs), s2)))"

fun queue_targets :: "repl_env \<Rightarrow> BackupRun \<Rightarrow> BackupRun list \<Rightarrow> string list \<Rightarrow> repl \<Rightarrow> (repl_error + BackupCopy list) \<times> repl" where
  "queue_targets env run chain [] s = (Inr [], s)"
| "queue_targets env run chain (tid # tids) s =
     (if tid = br_StorageTargetID run then queue_targets env run chain tids s
      else case GetStorageTarget (pd_store (rs_db s)) tid of
        Inl e \<Rightarrow> (Inl (ReplStore e), s)
      | Inr t \<Rightarrow>
          (if \<not> st_Enabled t then (Inl (TargetOff (st_Name t)), s)
           else if st_ReadOnly t then (Inl (TargetReadOnly (st_Name t)), s)
           else case queue_links env tid (br_ChainIndex run) chain s of
                  (Inl e, s1) \<Rightarrow> (Inl e, s1)
                | (Inr cs, s1) \<Rightarrow> (case queue_targets env run chain tids s1 of
                      (Inl e, s2) \<Rightarrow> (Inl e, s2) | (Inr ds, s2) \<Rightarrow> (Inr (cs @ ds), s2))))"

definition QueueRun :: "repl_env \<Rightarrow> string \<Rightarrow> string list \<Rightarrow> repl \<Rightarrow> (repl_error + BackupCopy list) \<times> repl" where
  "QueueRun env rid tids s =
     (case GetBackupRun (rs_db s) rid of
        Inl e \<Rightarrow> (Inl (ReplStore e), s)
      | Inr run \<Rightarrow>
          (if br_Type run = BackupOVA then (Inl OVANotReplicated, s)
           else case GetBackupCopyForTarget (pd_store (rs_db s)) (br_ID run) (br_StorageTargetID run) of
             Inl e \<Rightarrow> (Inl (ReplStore e), s)
           | Inr primary \<Rightarrow>
               (if \<not> Healthy (Some primary) then (Inl PrimaryUnpublished, s)
                else case ListBackupRuns (rs_db s) (no_filter\<lparr>rf_ChainID := br_ChainID run, rf_IncludeDeleted := True\<rparr>) of
                  Inl e \<Rightarrow> (Inl (ReplStore e), s)
                | Inr chain \<Rightarrow> queue_targets env run (sort_key br_ChainIndex chain) tids s)))"

definition Retry :: "string \<Rightarrow> repl \<Rightarrow> (repl_error + unit) \<times> repl" where
  "Retry cid s =
     (case GetBackupCopy (pd_store (rs_db s)) cid of
        Inl e \<Rightarrow> (Inl (ReplStore e), s)
      | Inr c \<Rightarrow>
          if bc_Role c \<noteq> CopyReplica then (Inl (NotReplica cid), s)
          else save_copy (c\<lparr>bc_Status := CopyPending, bc_NextRetryAt := None, bc_LastError := ''''\<rparr>) s)"

section \<open>The state of a job run\<close>

datatype standing = Ready | Stopped | Waiting | Lost

definition standing_of :: "BackupCopy \<Rightarrow> standing" where
  "standing_of c =
     (if Healthy (Some c) then Ready
      else case bc_Status c of
        CopyCanceled \<Rightarrow> Stopped
      | CopyPending \<Rightarrow> Waiting | CopyCopying \<Rightarrow> Waiting | CopyVerifying \<Rightarrow> Waiting
      | CopyFailed \<Rightarrow> (if bc_NextRetryAt c \<noteq> None then Waiting else Lost)
      | _ \<Rightarrow> Lost)"

text \<open>The copies that count, of all runs of the job run; a list that cannot be read is passed over.\<close>

definition awaited :: "repl \<Rightarrow> string set option \<Rightarrow> BackupRun list \<Rightarrow> BackupCopy list" where
  "awaited s targets items =
     concat (map (\<lambda>item. case ListBackupCopies (pd_store (rs_db s)) (br_ID item) of
        Inl _ \<Rightarrow> []
      | Inr cs \<Rightarrow> filter (\<lambda>c. bc_Required c \<and> (case targets of None \<Rightarrow> True | Some ts \<Rightarrow> bc_StorageTargetID c \<in> ts)) cs) items)"

definition count_of :: "standing \<Rightarrow> BackupCopy list \<Rightarrow> int" where
  "count_of w cs = int (length (filter (\<lambda>c. standing_of c = w) cs))"

definition job_status :: "bool \<Rightarrow> int \<Rightarrow> int \<Rightarrow> int \<Rightarrow> int \<Rightarrow> RunStatus" where
  "job_status primaryFailed waiting succeeded canceled replicas =
     (if primaryFailed then RunFailed
      else if waiting > 0 then RunWaitingCopies
      else if succeeded = replicas then RunSucceeded
      else if succeeded > 0 then RunPartial
      else if canceled = replicas then RunCanceled
      else RunFailed)"

definition recounted :: "int \<Rightarrow> BackupCopy list \<Rightarrow> BackupJobRun \<Rightarrow> BackupJobRun" where
  "recounted now cs j =
     (let succeeded = count_of Ready cs; canceled = count_of Stopped cs; waiting = count_of Waiting cs;
          failed = count_of Lost cs; accounted = succeeded + failed + canceled + waiting;
          failed' = (if accounted < jr_ReplicaCount j then failed + (jr_ReplicaCount j - accounted) else failed);
          status = job_status (list_ex (\<lambda>c. bc_Role c = CopyPrimary \<and> \<not> Healthy (Some c)) cs)
                     waiting succeeded canceled (jr_ReplicaCount j)
      in j\<lparr>jr_Status := status, jr_SucceededCount := succeeded, jr_PartialCount := 0, jr_FailedCount := failed',
           jr_CanceledCount := canceled, jr_EndedAt := (if Terminal status then Some now else None)\<rparr>)"

definition UpdateBackupJobRun :: "BackupJobRun \<Rightarrow> repl \<Rightarrow> repl" where
  "UpdateBackupJobRun j s =
     (if pd_fails (rs_db s) ''update job run'' (jr_ID j) then s
      else s\<lparr>rs_jobruns := map (\<lambda>x. if jr_ID x = jr_ID j then j else x) (rs_jobruns s)\<rparr>)"

definition SetJobLastStatus :: "string \<Rightarrow> RunStatus \<Rightarrow> repl \<Rightarrow> repl" where
  "SetJobLastStatus jid status s =
     (if pd_fails (rs_db s) ''job status'' jid then s
      else s\<lparr>rs_jobs := map (\<lambda>j. if bj_ID j = jid then j\<lparr>bj_LastStatus := status\<rparr> else j) (rs_jobs s)\<rparr>)"

definition get_job :: "repl \<Rightarrow> string \<Rightarrow> BackupJob option" where
  "get_job s jid = (if jid = '''' \<or> pd_fails (rs_db s) ''get job'' jid then None else find (\<lambda>j. bj_ID j = jid) (rs_jobs s))"

definition get_job_run :: "repl \<Rightarrow> string \<Rightarrow> BackupJobRun option" where
  "get_job_run s jid = (if jid = '''' \<or> pd_fails (rs_db s) ''get job run'' jid then None else find (\<lambda>j. jr_ID j = jid) (rs_jobruns s))"

definition recalculateJobRun :: "int \<Rightarrow> string \<Rightarrow> string \<Rightarrow> repl \<Rightarrow> repl" where
  "recalculateJobRun now rid changed s =
     (case GetBackupRun (rs_db s) rid of
        Inl _ \<Rightarrow> s
      | Inr run \<Rightarrow>
          (case get_job_run s (br_JobRunID run) of
             None \<Rightarrow> s
           | Some j0 \<Rightarrow>
               (let job = get_job s (br_JobID run); targets = map_option (\<lambda>j. set (bj_StorageTargetIDs j)) job in
                if (case targets of None \<Rightarrow> False | Some ts \<Rightarrow> changed \<notin> ts) then s
                else case ListBackupRuns (rs_db s) (no_filter\<lparr>rf_JobRunID := jr_ID j0, rf_IncludeDeleted := True\<rparr>) of
                  Inl _ \<Rightarrow> s
                | Inr items \<Rightarrow>
                    (let j = recounted now (awaited s targets items) j0; s1 = UpdateBackupJobRun j s in
                     case job of
                       None \<Rightarrow> s1
                     | Some jb \<Rightarrow> if Terminal (jr_Status j) then SetJobLastStatus (bj_ID jb) (jr_Status j) s1 else s1))))"

definition active :: "repl \<Rightarrow> string \<Rightarrow> bool" where
  "active s cid \<longleftrightarrow> list_ex (\<lambda>t. bc_ID (tk_copy t) = cid) (rs_tasks s)"

definition cancel_task :: "string \<Rightarrow> repl \<Rightarrow> repl" where
  "cancel_task cid s =
     s\<lparr>rs_tasks := map (\<lambda>t. if bc_ID (tk_copy t) = cid then t\<lparr>tk_canceled := True\<rparr> else t) (rs_tasks s)\<rparr>"

definition Cancel :: "repl_env \<Rightarrow> string \<Rightarrow> repl \<Rightarrow> (repl_error + unit) \<times> repl" where
  "Cancel env cid s =
     (case GetBackupCopy (pd_store (rs_db s)) cid of
        Inl e \<Rightarrow> (Inl (ReplStore e), s)
      | Inr c \<Rightarrow>
          (if bc_Role c \<noteq> CopyReplica then (Inl (NotReplica cid), s)
           else let s1 = (if active s cid then cancel_task cid (s\<lparr>rs_manual := cid # rs_manual s\<rparr>) else s) in
             if bc_Status c = CopyCanceled then (Inr (), s1)
             else if bc_Status c \<in> {CopySucceeded, CopyLocked, CopyDeleted} \<and> \<not> active s cid
             then (Inl (NotCancelable (bc_Status c)), s1)
             else case save_copy (c\<lparr>bc_Status := CopyCanceled, bc_EndedAt := Some (re_now env), bc_NextRetryAt := None\<rparr>) s1 of
                    (Inl e, s2) \<Rightarrow> (Inl e, s2)
                  | (Inr _, s2) \<Rightarrow> (Inr (), recalculateJobRun (re_now env) (bc_RunID c) (bc_StorageTargetID c) s2)))"

section \<open>The transfer\<close>

definition read_object :: "repl_env \<Rightarrow> nat \<Rightarrow> string \<Rightarrow> string \<Rightarrow> (string \<Rightarrow> contents) \<Rightarrow> repl_error + bytes" where
  "read_object env n tid key repos =
     (case re_get env n tid key of
        Some e \<Rightarrow> Inl e
      | None \<Rightarrow> (case map_of (repos tid) key of None \<Rightarrow> Inl (BackendError key) | Some bs \<Rightarrow> Inr bs))"

definition write_object :: "string \<Rightarrow> string \<Rightarrow> (bytes option \<Rightarrow> bytes option) \<Rightarrow> (string \<Rightarrow> contents) \<Rightarrow> (string \<Rightarrow> contents)" where
  "write_object tid key f repos =
     repos(tid := (case f (map_of (repos tid) key) of
        None \<Rightarrow> AList.delete key (repos tid) | Some bs \<Rightarrow> AList.update key bs (repos tid)))"

definition hashObject :: "repl_env \<Rightarrow> string \<Rightarrow> string \<Rightarrow> (string \<Rightarrow> contents) \<Rightarrow> repl_error + string" where
  "hashObject env tid key repos = bindR (read_object env 3 tid key repos) (\<lambda>bs. Inr (re_sha env bs))"

text \<open>The check of what arrived.\<close>

definition check_object :: "repl_env \<Rightarrow> string \<Rightarrow> string \<Rightarrow> string \<Rightarrow> (string \<Rightarrow> contents) \<Rightarrow> repl_error + string" where
  "check_object env did key expected repos =
     bindR (read_object env 2 did key repos)
       (\<lambda>bs. if re_sha env bs \<noteq> expected then Inl (DigestMismatch key) else Inr expected)"

definition put_object ::
  "repl_env \<Rightarrow> string \<Rightarrow> string \<Rightarrow> string \<Rightarrow> (string \<Rightarrow> contents) \<Rightarrow> repl_error option \<times> (string \<Rightarrow> contents)" where
  "put_object env sid did key repos =
     (case read_object env 1 sid key repos of
        Inl e \<Rightarrow> (Some e, repos)
      | Inr bs \<Rightarrow> (fst (re_put env did key bs), write_object did key (snd (re_put env did key bs)) repos))"

definition copyOne ::
  "repl_env \<Rightarrow> string \<Rightarrow> string \<Rightarrow> string \<Rightarrow> (string \<Rightarrow> contents) \<Rightarrow> (repl_error + string) \<times> (string \<Rightarrow> contents)" where
  "copyOne env sid did key repos =
     (case read_object env 0 sid key repos of
        Inl e \<Rightarrow> (Inl e, repos)
      | Inr bs \<Rightarrow>
          (case re_native env sid did key bs of (err, applicable, f) \<Rightarrow>
             (let repos1 = write_object did key f repos in
              case err of
                Some e \<Rightarrow> (Inl e, repos1)
              | None \<Rightarrow>
                  (case (if applicable then (None, repos1) else put_object env sid did key repos1) of
                     (Some e, repos2) \<Rightarrow> (Inl e, repos2)
                   | (None, repos2) \<Rightarrow> (check_object env did key (re_sha env bs) repos2, repos2)))))"

definition object_record :: "string \<Rightarrow> ObjectInfo \<Rightarrow> string \<Rightarrow> string \<Rightarrow> string \<Rightarrow> ReplicationObject" where
  "object_record cid ob hash status err =
     \<lparr>ro_CopyID = cid, ro_ObjectKey = oi_Key ob, ro_SizeBytes = oi_Size ob, ro_SHA256 = hash, ro_Status = status, ro_Error = err\<rparr>"

definition counted :: "ObjectInfo \<Rightarrow> task \<Rightarrow> task" where
  "counted ob t = t\<lparr>tk_copy := (tk_copy t)\<lparr>bc_CopiedObjects := bc_CopiedObjects (tk_copy t) + 1,
                                            bc_CopiedBytes := bc_CopiedBytes (tk_copy t) + oi_Size ob\<rparr>\<rparr>"

definition noted :: "task \<Rightarrow> task" where
  "noted t = t\<lparr>tk_attempt := (tk_attempt t)\<lparr>ra_CopiedObjects := bc_CopiedObjects (tk_copy t), ra_CopiedBytes := bc_CopiedBytes (tk_copy t)\<rparr>\<rparr>"

definition already_there :: "repl_env \<Rightarrow> (string \<Rightarrow> ReplicationObject option) \<Rightarrow> string \<Rightarrow> ObjectInfo \<Rightarrow> repl \<Rightarrow> bool" where
  "already_there env known' did ob s =
     (case known' (oi_Key ob) of
        None \<Rightarrow> False
      | Some r \<Rightarrow> ro_Status r = ''verified'' \<and> ro_SizeBytes r = oi_Size ob \<and>
                    hashObject env did (oi_Key ob) (rs_repos s) = Inr (ro_SHA256 r))"

definition progress :: "ObjectInfo \<Rightarrow> repl \<times> task \<Rightarrow> repl \<times> task" where
  "progress ob st =
     (case st of (s, t) \<Rightarrow>
        (let t1 = noted (counted ob t); c = tk_copy t1;
             s1 = s\<lparr>rs_db := SetCopyProgress (bc_ID c) (bc_CopiedObjects c) (bc_CopiedBytes c) (rs_db s)\<rparr>
         in (UpdateReplicationAttempt (tk_attempt t1) s1, t1)))"

definition copy_object ::
  "repl_env \<Rightarrow> (string \<Rightarrow> ReplicationObject option) \<Rightarrow> string \<Rightarrow> string \<Rightarrow> ObjectInfo \<Rightarrow> repl \<times> task \<Rightarrow>
     repl_error option \<times> repl \<times> task" where
  "copy_object env known' sid did ob st =
     (case st of (s, t) \<Rightarrow>
        (if already_there env known' did ob s then (None, s, counted ob t)
         else case copyOne env sid did (oi_Key ob) (rs_repos s) of
           (Inl e, repos) \<Rightarrow>
             (Some e, snd (UpsertReplicationObject (object_record (bc_ID (tk_copy t)) ob '''' ''failed'' (re_text env e))
                            (s\<lparr>rs_repos := repos\<rparr>)), t)
         | (Inr hash, repos) \<Rightarrow>
             (case UpsertReplicationObject (object_record (bc_ID (tk_copy t)) ob hash ''verified'' '''') (s\<lparr>rs_repos := repos\<rparr>) of
                (Inl e, s1) \<Rightarrow> (Some e, s1, t)
              | (Inr _, s1) \<Rightarrow> (None, progress ob (s1, t)))))"

fun each :: "('o \<Rightarrow> 's \<Rightarrow> 'e option \<times> 's) \<Rightarrow> 'o list \<Rightarrow> 's \<Rightarrow> 'e option \<times> 's" where
  "each step [] st = (None, st)"
| "each step (ob # obs) st =
     (case step ob st of (Some e, st1) \<Rightarrow> (Some e, st1) | (None, st1) \<Rightarrow> each step obs st1)"

definition under :: "string \<Rightarrow> string \<Rightarrow> bool" where
  "under p k \<longleftrightarrow> take (length p) k = p"

definition list_objects :: "string \<Rightarrow> contents \<Rightarrow> ObjectInfo list" where
  "list_objects p repo = map (\<lambda>(k, bs). \<lparr>oi_Key = k, oi_Size = int (length bs)\<rparr>) (filter (\<lambda>(k, bs). under p k) repo)"

text \<open>The order of the transfer: by key, the run document last.\<close>

definition transfer_order :: "string \<Rightarrow> ObjectInfo list \<Rightarrow> ObjectInfo list" where
  "transfer_order m obs = sort_key oi_Key (filter (\<lambda>ob. oi_Key ob \<noteq> m) obs) @ filter (\<lambda>ob. oi_Key ob = m) obs"

definition announced :: "ObjectInfo list \<Rightarrow> task \<Rightarrow> task" where
  "announced obs t =
     t\<lparr>tk_copy := (tk_copy t)\<lparr>bc_ObjectCount := int (length obs), bc_CopiedObjects := 0,
          bc_TotalBytes := sum_list (map oi_Size obs), bc_CopiedBytes := 0\<rparr>,
       tk_attempt := (tk_attempt t)\<lparr>ra_ObjectCount := int (length obs), ra_TotalBytes := sum_list (map oi_Size obs)\<rparr>\<rparr>"

definition copy_objects :: "repl_env \<Rightarrow> string \<Rightarrow> string \<Rightarrow> ObjectInfo list \<Rightarrow> repl \<times> task \<Rightarrow> repl_error option \<times> repl \<times> task" where
  "copy_objects env sid did obs st =
     (case st of (s, t) \<Rightarrow>
        (let t1 = announced obs t; s1 = UpdateReplicationAttempt (tk_attempt t1) (snd (save_copy (tk_copy t1) s)) in
         case ListReplicationObjects s1 (bc_ID (tk_copy t1)) of
           Inl e \<Rightarrow> (Some e, s1, t1)
         | Inr known' \<Rightarrow>
             (case each (copy_object env known' sid did) obs (s1, t1) of
                (Some e, st2) \<Rightarrow> (Some e, st2)
              | (None, s2, t2) \<Rightarrow>
                  (let t3 = t2\<lparr>tk_copy := (tk_copy t2)\<lparr>bc_Status := CopyVerifying\<rparr>\<rparr>
                   in (None, snd (save_copy (tk_copy t3) s2), t3)))))"

definition copy_ends :: "BackupCopy \<Rightarrow> repl \<Rightarrow> repl_error + BackupCopy \<times> StorageTarget \<times> StorageTarget" where
  "copy_ends c s =
     (case GetBackupRun (rs_db s) (bc_RunID c) of
        Inl e \<Rightarrow> Inl (ReplStore e)
      | Inr run \<Rightarrow>
          (case GetStorageTarget (pd_store (rs_db s)) (bc_StorageTargetID c) of
             Inl e \<Rightarrow> Inl (ReplStore e)
           | Inr dt \<Rightarrow>
               if \<not> st_Enabled dt then Inl (TargetOff (st_Name dt))
               else if st_ReadOnly dt then Inl (TargetReadOnly (st_Name dt))
               else bindR (healthySource (pd_store (rs_db s)) run (bc_StorageTargetID c)) (\<lambda>(sc, st). Inr (sc, st, dt))))"

definition copy :: "repl_env \<Rightarrow> repl \<times> task \<Rightarrow> repl_error option \<times> repl \<times> task" where
  "copy env st =
     (case st of (s, t) \<Rightarrow>
        (if tk_canceled t then (Some ContextCanceled, s, t)
         else case copy_ends (tk_copy t) s of
           Inl e \<Rightarrow> (Some e, s, t)
         | Inr (sc, src, dst) \<Rightarrow>
             (let t1 = t\<lparr>tk_copy := (tk_copy t)\<lparr>bc_SourceCopyID := bc_ID sc\<rparr>,
                         tk_attempt := (tk_attempt t)\<lparr>ra_SourceCopyID := bc_ID sc\<rparr>\<rparr>;
                  obs = list_objects (bc_RepoPath sc) (rs_repos s (st_ID src));
                  m = RunManifestKey (bc_RepoPath sc)
              in case (re_open env src, re_open env dst, re_list env (st_ID src) (bc_RepoPath sc)) of
                   (Some e, _, _) \<Rightarrow> (Some (BackendError e), s, t1)
                 | (None, Some e, _) \<Rightarrow> (Some (BackendError e), s, t1)
                 | (None, None, Some e) \<Rightarrow> (Some e, s, t1)
                 | (None, None, None) \<Rightarrow>
                     if list_ex (\<lambda>ob. oi_Key ob = m) obs
                     then copy_objects env (st_ID src) (st_ID dst) (transfer_order m obs) (s, t1)
                     else (Some NoRunManifest, s, t1))))"

section \<open>The work on one copy\<close>

definition ensureParentCopyReady :: "BackupCopy \<Rightarrow> bool \<Rightarrow> repl \<Rightarrow> repl_error + unit" where
  "ensureParentCopyReady c canceled s =
     (if canceled then Inl ContextCanceled
      else case GetBackupRun (rs_db s) (bc_RunID c) of
        Inl e \<Rightarrow> Inl (ReplStore e)
      | Inr run \<Rightarrow>
          (if br_ParentRunID run = '''' then Inr ()
           else case GetBackupCopyForTarget (pd_store (rs_db s)) (br_ParentRunID run) (bc_StorageTargetID c) of
             Inl ErrNotFound \<Rightarrow> Inl (ParentNoCopy (br_ParentRunID run))
           | Inl e \<Rightarrow> Inl (ReplStore e)
           | Inr parent \<Rightarrow>
               (if Healthy (Some parent) then Inr ()
                else if bc_Status parent \<in> {CopyPending, CopyCopying, CopyVerifying, CopyFailed}
                then Inl (ParentPending (br_ParentRunID run))
                else Inl (ParentCopyBlocked (bc_ID parent) (bc_Status parent)))))"

definition no_attempt :: ReplicationAttempt where
  "no_attempt = \<lparr>ra_ID = '''', ra_CopyID = '''', ra_SourceCopyID = '''', ra_Status = RunPending, ra_Attempt = 0, ra_ObjectCount = 0,
     ra_CopiedObjects = 0, ra_TotalBytes = 0, ra_CopiedBytes = 0, ra_Error = '''', ra_StartedAt = None, ra_EndedAt = None, ra_CreatedAt = 0\<rparr>"

text \<open>A worker that claimed a copy enters it unless it is being processed already; then it leaves it as it is,
  with the lease it took.\<close>

definition enter :: "BackupCopy \<Rightarrow> repl \<Rightarrow> repl" where
  "enter c s =
     (if active s (bc_ID c) then s
      else s\<lparr>rs_tasks := rs_tasks s @ [\<lparr>tk_copy = c, tk_worker = bc_LockedBy c, tk_attempt = no_attempt, tk_phase = Entered,
                                         tk_canceled = False\<rparr>]\<rparr>)"

definition claim :: "repl_env \<Rightarrow> string \<Rightarrow> repl \<Rightarrow> repl" where
  "claim env worker s =
     (case ClaimBackupCopies (re_now env) worker 1 copyLease (rs_db s) of
        (Inr (c # _), db) \<Rightarrow> enter c (s\<lparr>rs_db := db\<rparr>)
      | (_, db) \<Rightarrow> s\<lparr>rs_db := db\<rparr>)"

definition put_task :: "task \<Rightarrow> repl \<Rightarrow> repl" where
  "put_task t s = s\<lparr>rs_tasks := map (\<lambda>x. if bc_ID (tk_copy x) = bc_ID (tk_copy t) then t else x) (rs_tasks s)\<rparr>"

definition finished :: "BackupCopy \<Rightarrow> task \<Rightarrow> task" where
  "finished c t = t\<lparr>tk_copy := c, tk_phase := Done\<rparr>"

definition postponed :: "repl_env \<Rightarrow> BackupCopy \<Rightarrow> BackupCopy" where
  "postponed env c = c\<lparr>bc_Status := CopyPending, bc_NextRetryAt := Some (re_now env + 10000000000)\<rparr>"

definition blocked :: "repl_env \<Rightarrow> repl_error \<Rightarrow> BackupCopy \<Rightarrow> BackupCopy" where
  "blocked env e c = c\<lparr>bc_Status := CopyLocked, bc_LastError := re_text env e, bc_NextRetryAt := None\<rparr>"

definition started :: "repl_env \<Rightarrow> BackupCopy \<Rightarrow> BackupCopy" where
  "started env c = c\<lparr>bc_Status := CopyCopying, bc_StartedAt := Some (re_now env), bc_EndedAt := None,
     bc_AttemptCount := bc_AttemptCount c + 1, bc_NextRetryAt := None, bc_LastError := ''''\<rparr>"

definition new_attempt :: "repl_env \<Rightarrow> BackupCopy \<Rightarrow> ReplicationAttempt" where
  "new_attempt env c = no_attempt\<lparr>ra_ID := re_new_id env (bc_ID c) ''attempt'', ra_CopyID := bc_ID c, ra_SourceCopyID := bc_SourceCopyID c,
     ra_Status := RunRunning, ra_Attempt := bc_AttemptCount c, ra_StartedAt := Some (re_now env), ra_CreatedAt := re_now env\<rparr>"

definition process_start :: "repl_env \<Rightarrow> task \<Rightarrow> repl \<Rightarrow> repl \<times> task" where
  "process_start env t s =
     (let c = tk_copy t in
      case ensureParentCopyReady c (tk_canceled t) s of
        Inl e \<Rightarrow>
          (case e of
             ParentPending _ \<Rightarrow> (snd (save_copy (postponed env c) s), finished (postponed env c) t)
           | _ \<Rightarrow> (recalculateJobRun (re_now env) (bc_RunID c) (bc_StorageTargetID c) (snd (save_copy (blocked env e c) s)),
                   finished (blocked env e c) t))
      | Inr _ \<Rightarrow>
          (case save_copy (started env c) s of
             (Inl _, s1) \<Rightarrow> (s1, finished (started env c) t)
           | (Inr _, s1) \<Rightarrow>
               (CreateReplicationAttempt (new_attempt env (started env c)) s1,
                t\<lparr>tk_copy := started env c, tk_attempt := new_attempt env (started env c), tk_phase := Running\<rparr>)))"

text \<open>The transfer, and which verification the job asks for after it.\<close>

definition asked_verification :: "repl_env \<Rightarrow> task \<Rightarrow> repl \<Rightarrow> string option" where
  "asked_verification env t s =
     (if \<not> re_verifier env \<or> tk_canceled t then None
      else case GetBackupRun (rs_db s) (bc_RunID (tk_copy t)) of
        Inl _ \<Rightarrow> None
      | Inr run \<Rightarrow> (case get_job s (br_JobID run) of
           None \<Rightarrow> None | Some j \<Rightarrow> if bj_VerifyAfter j = '''' then None else Some (bj_VerifyAfter j)))"

definition process_copy :: "repl_env \<Rightarrow> task \<Rightarrow> repl \<Rightarrow> repl \<times> task" where
  "process_copy env t s =
     (case copy env (s, t) of
        (Some e, s1, t1) \<Rightarrow> (s1, t1\<lparr>tk_phase := Copied (Some e) None\<rparr>)
      | (None, s1, t1) \<Rightarrow> (s1, t1\<lparr>tk_phase := Copied None (asked_verification env t1 s1)\<rparr>))"

definition verified_err :: "repl_env \<Rightarrow> task \<Rightarrow> repl_error option \<Rightarrow> string option \<Rightarrow> repl_error option" where
  "verified_err env t err mode =
     (case (err, mode) of
        (Some e, _) \<Rightarrow> Some e
      | (None, None) \<Rightarrow> None
      | (None, Some m) \<Rightarrow> if tk_canceled t then Some ContextCanceled else re_verify env (bc_RunID (tk_copy t)) (bc_ID (tk_copy t)) m)"

definition retry_at :: "int \<Rightarrow> int \<Rightarrow> int" where
  "retry_at now attempts = now + retryDelays ! nat (min (attempts - 1) (int (length retryDelays) - 1))"

definition ended_copy :: "repl_env \<Rightarrow> bool \<Rightarrow> repl_error option \<Rightarrow> StorageTarget option \<Rightarrow> BackupCopy \<Rightarrow> BackupCopy" where
  "ended_copy env manual err target c =
     (let now = re_now env in
      if err = Some ContextCanceled \<and> (manual \<or> re_stopping env)
      then c\<lparr>bc_EndedAt := Some now, bc_NextRetryAt := None, bc_Status := (if manual then CopyCanceled else CopyPending),
             bc_LastError := (if manual then ''canceled by operator'' else ''interrupted'')\<rparr>
      else case err of
        None \<Rightarrow> c\<lparr>bc_Status := CopySucceeded, bc_EndedAt := Some now, bc_NextRetryAt := None, bc_LastError := '''', bc_VerifiedAt := Some now,
                  bc_LockedUntil := (case target of
                      Some t \<Rightarrow> if st_ObjectLockEnabled t then Some (now + st_ObjectLockDays t * 86400000000000) else bc_LockedUntil c
                    | None \<Rightarrow> bc_LockedUntil c)\<rparr>
      | Some e \<Rightarrow> c\<lparr>bc_Status := CopyFailed, bc_EndedAt := Some now, bc_LastError := re_text env e,
                    bc_NextRetryAt := Some (retry_at now (bc_AttemptCount c))\<rparr>)"

definition ended_attempt :: "repl_env \<Rightarrow> bool \<Rightarrow> repl_error option \<Rightarrow> BackupCopy \<Rightarrow> ReplicationAttempt \<Rightarrow> ReplicationAttempt" where
  "ended_attempt env manual err c a =
     a\<lparr>ra_EndedAt := Some (re_now env),
       ra_Status := (if err = Some ContextCanceled \<and> (manual \<or> re_stopping env) then RunCanceled
                     else if err = None then RunSucceeded else RunFailed),
       ra_Error := (if err = Some ContextCanceled \<and> (manual \<or> re_stopping env)
                    then (if manual then ''canceled by operator'' else ''interrupted'')
                    else case err of None \<Rightarrow> ra_Error a | Some e \<Rightarrow> re_text env e),
       ra_ObjectCount := bc_ObjectCount c, ra_CopiedObjects := bc_CopiedObjects c,
       ra_TotalBytes := bc_TotalBytes c, ra_CopiedBytes := bc_CopiedBytes c\<rparr>"

definition process_end :: "repl_env \<Rightarrow> repl_error option \<Rightarrow> task \<Rightarrow> repl \<Rightarrow> repl \<times> task" where
  "process_end env err0 t s =
     (let manual = bc_ID (tk_copy t) \<in> set (rs_manual s);
          err = (if manual then Some ContextCanceled else err0);
          target = (case GetStorageTarget (pd_store (rs_db s)) (bc_StorageTargetID (tk_copy t)) of
                      Inr tg \<Rightarrow> if tk_canceled t then None else Some tg | Inl _ \<Rightarrow> None);
          c = ended_copy env manual err target (tk_copy t)
      in (recalculateJobRun (re_now env) (bc_RunID c) (bc_StorageTargetID c)
            (UpdateReplicationAttempt (ended_attempt env manual err c (tk_attempt t)) (snd (save_copy c s))),
          finished c t))"

definition release :: "task \<Rightarrow> repl \<Rightarrow> repl" where
  "release t s =
     (let cid = bc_ID (tk_copy t) in
      s\<lparr>rs_db := ReleaseCopyLease cid (tk_worker t) (rs_db s),
        rs_tasks := filter (\<lambda>x. bc_ID (tk_copy x) \<noteq> cid) (rs_tasks s),
        rs_manual := filter (\<lambda>x. x \<noteq> cid) (rs_manual s)\<rparr>)"

definition renew :: "repl_env \<Rightarrow> task \<Rightarrow> repl \<Rightarrow> repl" where
  "renew env t s =
     (let cid = bc_ID (tk_copy t) in
      case RenewCopyLease (re_now env) cid (tk_worker t) copyLease (rs_db s) of
        (Inl _, db) \<Rightarrow> s\<lparr>rs_db := db\<rparr>
      | (Inr held, db) \<Rightarrow> (if held then s\<lparr>rs_db := db\<rparr> else cancel_task cid (s\<lparr>rs_db := db\<rparr>)))"

text \<open>The steps of the service. A restart of the process loses the tasks.\<close>

datatype repl_event =
    RlQueue string "string list"
  | RlRetry string
  | RlCancel string
  | RlClaim string
  | RlProcess string
  | RlRenew string
  | RlRestart

definition process_step :: "repl_env \<Rightarrow> task \<Rightarrow> repl \<Rightarrow> repl" where
  "process_step env t s =
     (case tk_phase t of
        Entered \<Rightarrow> (case process_start env t s of (s1, t1) \<Rightarrow> put_task t1 s1)
      | Running \<Rightarrow> (case process_copy env t s of (s1, t1) \<Rightarrow> put_task t1 s1)
      | Copied err mode \<Rightarrow> (case process_end env (verified_err env t err mode) t s of (s1, t1) \<Rightarrow> put_task t1 s1)
      | Done \<Rightarrow> release t s)"

definition the_task :: "repl \<Rightarrow> string \<Rightarrow> task option" where
  "the_task s cid = find (\<lambda>t. bc_ID (tk_copy t) = cid) (rs_tasks s)"

fun repl_step :: "repl_env \<Rightarrow> repl_event \<Rightarrow> repl \<Rightarrow> repl" where
  "repl_step env (RlQueue rid tids) s = snd (QueueRun env rid tids s)"
| "repl_step env (RlRetry cid) s = snd (Retry cid s)"
| "repl_step env (RlCancel cid) s = snd (Cancel env cid s)"
| "repl_step env (RlClaim worker) s = claim env worker s"
| "repl_step env (RlProcess cid) s = (case the_task s cid of None \<Rightarrow> s | Some t \<Rightarrow> process_step env t s)"
| "repl_step env (RlRenew cid) s = (case the_task s cid of None \<Rightarrow> s | Some t \<Rightarrow> if tk_phase t = Done then s else renew env t s)"
| "repl_step env RlRestart s = (RecoverInterruptedReplications (re_now env) s)\<lparr>rs_tasks := [], rs_manual := []\<rparr>"

section \<open>What a write of an object may do\<close>

text \<open>\<open>ref\<close> gives the bytes of each published object. A content is genuine when it does not share its digest with a
  different published object. A backend is sound when a write over an object that has the bytes already leaves
  it, produces no collision, and never shows a half-written run document; other objects may be left in any
  state by a write that fails, or that reports success.\<close>

definition genuine :: "(string \<rightharpoonup> bytes) \<Rightarrow> (bytes \<Rightarrow> string) \<Rightarrow> bytes \<Rightarrow> bool" where
  "genuine ref sha x \<longleftrightarrow> (\<forall>b \<in> ran ref. sha x = sha b \<longrightarrow> x = b)"

definition sound_write :: "(string \<rightharpoonup> bytes) \<Rightarrow> (bytes \<Rightarrow> string) \<Rightarrow> string set \<Rightarrow> string \<Rightarrow> bytes \<Rightarrow> bytes option \<Rightarrow> bytes option \<Rightarrow> bool" where
  "sound_write ref sha M k b old new \<longleftrightarrow>
     (old = Some b \<longrightarrow> new = Some b) \<and>
     (\<forall>x. new = Some x \<longrightarrow> old = Some x \<or> genuine ref sha x) \<and>
     (k \<in> M \<longrightarrow> new \<in> {old, None, Some b})"

definition sound_env :: "(string \<rightharpoonup> bytes) \<Rightarrow> (bytes \<Rightarrow> string) \<Rightarrow> string set \<Rightarrow> repl_env \<Rightarrow> bool" where
  "sound_env ref sha M env \<longleftrightarrow>
     re_sha env = sha \<and>
     (\<forall>k b old. ref k = Some b \<longrightarrow>
        (\<forall>did. sound_write ref sha M k b old (snd (re_put env did k b) old)) \<and>
        (\<forall>sid did. sound_write ref sha M k b old (snd (snd (re_native env sid did k b)) old)))"

lemma sound_write_refl [simp]: "sound_write ref sha M k b old old"
  by (simp add: sound_write_def)

lemma sound_write_trans: "sound_write ref sha M k b x y \<Longrightarrow> sound_write ref sha M k b y z \<Longrightarrow> sound_write ref sha M k b x z"
  unfolding sound_write_def by auto

text \<open>All that a transfer of the object \<open>k\<close> changes, in terms of the contents of the repositories.\<close>

definition alters :: "(string \<rightharpoonup> bytes) \<Rightarrow> (bytes \<Rightarrow> string) \<Rightarrow> string set \<Rightarrow> string \<Rightarrow> string \<Rightarrow> bytes \<Rightarrow> (string \<Rightarrow> contents) \<Rightarrow> (string \<Rightarrow> contents) \<Rightarrow> bool" where
  "alters ref sha M did k b repos repos' \<longleftrightarrow>
     (\<forall>tid k'. tid \<noteq> did \<or> k' \<noteq> k \<longrightarrow> map_of (repos' tid) k' = map_of (repos tid) k') \<and>
     sound_write ref sha M k b (map_of (repos did) k) (map_of (repos' did) k)"

lemma alters_refl [simp]: "alters ref sha M did k b repos repos"
  by (simp add: alters_def)

lemma alters_trans: "alters ref sha M did k b r1 r2 \<Longrightarrow> alters ref sha M did k b r2 r3 \<Longrightarrow> alters ref sha M did k b r1 r3"
  unfolding alters_def using sound_write_trans by metis

lemma map_of_write_object:
  "map_of (write_object did k f repos tid) k' =
     (if tid = did \<and> k' = k then f (map_of (repos did) k) else map_of (repos tid) k')"
  by (auto simp: write_object_def update_conv delete_conv split: option.splits)

lemma write_object_alters:
  "sound_write ref sha M k b (map_of (repos did) k) (f (map_of (repos did) k)) \<Longrightarrow> alters ref sha M did k b repos (write_object did k f repos)"
  by (simp add: alters_def map_of_write_object)

lemma read_object_Inr: "read_object env n tid k repos = Inr bs \<Longrightarrow> map_of (repos tid) k = Some bs"
  by (auto simp: read_object_def split: option.splits)

lemma check_object_Inr: "check_object env did k expected repos = Inr h \<Longrightarrow> h = expected \<and> (\<exists>x. map_of (repos did) k = Some x \<and> re_sha env x = expected)"
  by (auto simp: check_object_def result_simps split: if_splits dest: read_object_Inr)

lemma put_object_alters:
  assumes "sound_env ref sha M env" "ref k = Some b" "map_of (repos sid) k = Some b" "put_object env sid did k repos = (r, repos')"
  shows "alters ref sha M did k b repos repos'"
proof (cases "read_object env 1 sid k repos")
  case (Inr bs)
  then have "bs = b" using read_object_Inr assms(3) by fastforce
  then show ?thesis using Inr assms by (auto simp: put_object_def sound_env_def intro!: write_object_alters)
qed (use assms in \<open>auto simp: put_object_def\<close>)

text \<open>What a transfer of one object promises.\<close>

lemma copyOne_promise:
  assumes env: "sound_env ref sha M env" and k: "ref k = Some b" "map_of (repos sid) k = Some b" and ends: "sid \<noteq> did"
    and fin: "\<forall>x. map_of (repos did) k = Some x \<longrightarrow> genuine ref sha x"
    and run: "copyOne env sid did k repos = (r, repos')"
  shows "alters ref sha M did k b repos repos'" "r = Inr h \<Longrightarrow> h = sha b \<and> map_of (repos' did) k = Some b"
proof -
  have sha: "re_sha env = sha" using env by (simp add: sound_env_def)
  have "alters ref sha M did k b repos repos' \<and> (r = Inr h \<longrightarrow> h = sha b \<and> map_of (repos' did) k = Some b)" for h
  proof (cases "read_object env 0 sid k repos")
    case (Inr bs)
    then have bs: "bs = b" using read_object_Inr k(2) by fastforce
    obtain err applicable f where nat: "re_native env sid did k b = (err, applicable, f)" by (metis prod_cases3)
    let ?r1 = "write_object did k f repos"
    have "sound_write ref sha M k b old (f old)" for old using env k(1) nat unfolding sound_env_def by (metis snd_conv)
    then have r1: "alters ref sha M did k b repos ?r1" by (rule write_object_alters)
    have src: "map_of (?r1 sid) k = Some b" using k(2) ends by (simp add: map_of_write_object)
    show ?thesis
    proof (cases err)
      case (Some e)
      then show ?thesis using run Inr bs nat r1 by (auto simp: copyOne_def)
    next
      case None
      obtain perr r2 where mid: "(if applicable then (None, ?r1) else put_object env sid did k ?r1) = (perr, r2)" by fastforce
      have r2: "alters ref sha M did k b repos r2"
        proof (cases applicable)
        case False
        then have "alters ref sha M did k b ?r1 r2"
          using mid by (intro put_object_alters [where repos = ?r1 and sid = sid, OF env k(1) src]) simp
        then show ?thesis by (rule alters_trans [OF r1])
      qed (use mid r1 in simp)
      have out: "repos' = r2 \<and> r = (case perr of Some e \<Rightarrow> Inl e | None \<Rightarrow> check_object env did k (sha b) r2)"
        using run unfolding copyOne_def Inr bs sum.case nat prod.case Let_def None option.case mid sha by (cases perr) auto
      have "h = sha b \<and> map_of (r2 did) k = Some b" if "r = Inr h"
      proof -
        have "check_object env did k (sha b) r2 = Inr h" using out that by (cases perr) auto
        from check_object_Inr [OF this] sha obtain x where x: "map_of (r2 did) k = Some x" "sha x = sha b" "h = sha b" by blast
        have "genuine ref sha x" using r2 x(1) fin unfolding alters_def sound_write_def by metis
        then show ?thesis using x k(1) unfolding genuine_def by (metis ranI)
      qed
      then show ?thesis using r2 out by simp
    qed
  qed (use run in \<open>auto simp: copyOne_def\<close>)
  then show "alters ref sha M did k b repos repos'" "r = Inr h \<Longrightarrow> h = sha b \<and> map_of (repos' did) k = Some b" by blast+
qed

section \<open>Objects one after another\<close>

text \<open>The contract of the transfer of one object: the invariant is kept, what arrived stays, success means that
  the object arrived, and only the transfer of the marker makes the marker appear, whole.\<close>

locale object_transfer =
  fixes step :: "'o \<Rightarrow> 's \<Rightarrow> 'e option \<times> 's"
    and ok :: "'s \<Rightarrow> bool"
    and wanted :: "'o \<Rightarrow> bool"
    and marker :: "'o \<Rightarrow> bool"
    and got :: "'s \<Rightarrow> 'o \<Rightarrow> bool"
    and shown :: "'s \<Rightarrow> bool"
  assumes keeps: "ok st \<Longrightarrow> wanted ob \<Longrightarrow> ok (snd (step ob st))"
    and arrives: "ok st \<Longrightarrow> wanted ob \<Longrightarrow> fst (step ob st) = None \<Longrightarrow> got (snd (step ob st)) ob"
    and stays: "ok st \<Longrightarrow> wanted ob \<Longrightarrow> got st ob' \<Longrightarrow> got (snd (step ob st)) ob'"
    and hidden: "ok st \<Longrightarrow> wanted ob \<Longrightarrow> \<not> marker ob \<Longrightarrow> shown (snd (step ob st)) = shown st"
    and whole: "ok st \<Longrightarrow> wanted ob \<Longrightarrow> marker ob \<Longrightarrow> (shown st \<longrightarrow> got st ob) \<Longrightarrow>
      shown (snd (step ob st)) \<longrightarrow> got (snd (step ob st)) ob"
    and alike: "marker a \<Longrightarrow> marker b \<Longrightarrow> got st a = got st b"
begin

lemma loop_keeps: "ok st \<Longrightarrow> \<forall>ob \<in> set obs. wanted ob \<Longrightarrow> ok (snd (each step obs st))"
proof (induction obs arbitrary: st)
  case (Cons ob obs)
  obtain r st1 where r: "step ob st = (r, st1)" by fastforce
  have "ok st1" using keeps [of st ob] Cons.prems r by auto
  then show ?case using Cons.IH [of st1] Cons.prems r by (auto split: option.splits)
qed simp

lemma loop_stays: "ok st \<Longrightarrow> \<forall>ob \<in> set obs. wanted ob \<Longrightarrow> got st ob' \<Longrightarrow> got (snd (each step obs st)) ob'"
proof (induction obs arbitrary: st)
  case (Cons ob obs)
  obtain r st1 where r: "step ob st = (r, st1)" by fastforce
  have "ok st1" "got st1 ob'" using keeps [of st ob] stays [of st ob ob'] Cons.prems r by auto
  then show ?case using Cons.IH [of st1] Cons.prems r by (auto split: option.splits)
qed simp

lemma loop_arrives: "ok st \<Longrightarrow> \<forall>ob \<in> set obs. wanted ob \<Longrightarrow> fst (each step obs st) = None \<Longrightarrow> ob \<in> set obs \<Longrightarrow> got (snd (each step obs st)) ob"
proof (induction obs arbitrary: st)
  case (Cons x obs)
  obtain st1 where r: "step x st = (None, st1)" using Cons.prems(3) by (auto split: prod.splits option.splits)
  have st1: "ok st1" "got st1 x" using keeps [of st x] arrives [of st x] Cons.prems r by auto
  then show ?case using Cons.IH [of st1] loop_stays [OF st1(1), of obs x] Cons.prems r by auto
qed simp

lemma loop_hidden: "ok st \<Longrightarrow> \<forall>ob \<in> set obs. wanted ob \<and> \<not> marker ob \<Longrightarrow> shown (snd (each step obs st)) = shown st"
proof (induction obs arbitrary: st)
  case (Cons ob obs)
  obtain r st1 where r: "step ob st = (r, st1)" by fastforce
  have "ok st1" "shown st1 = shown st" using keeps [of st ob] hidden [of st ob] Cons.prems r by auto
  then show ?case using Cons.IH [of st1] Cons.prems r by (auto split: option.splits)
qed simp

lemma loop_whole:
  "ok st \<Longrightarrow> \<forall>ob \<in> set obs. wanted ob \<and> marker ob \<Longrightarrow> marker m \<Longrightarrow> (shown st \<longrightarrow> got st m) \<Longrightarrow>
   shown (snd (each step obs st)) \<longrightarrow> got (snd (each step obs st)) m"
proof (induction obs arbitrary: st)
  case (Cons x obs)
  obtain r st1 where r: "step x st = (r, st1)" by fastforce
  have x: "wanted x" "marker x" using Cons.prems by auto
  have st1: "ok st1" using keeps [of st x] Cons.prems(1) x r by auto
  have "shown st \<longrightarrow> got st x" using Cons.prems(4) alike [OF x(2) Cons.prems(3)] by metis
  then have "shown st1 \<longrightarrow> got st1 x" using whole [OF Cons.prems(1) x] r by simp
  then have "shown st1 \<longrightarrow> got st1 m" using alike [OF x(2) Cons.prems(3)] by metis
  then show ?case using Cons.IH [OF st1] Cons.prems(2,3) r by (cases r) auto
qed simp

text \<open>With the markers last, a marker that shows means that everything is there, however the loop ended.\<close>

lemma loop_marker_last:
  assumes ok: "ok st" and w: "\<forall>ob \<in> set (obs @ ms). wanted ob" "\<forall>ob \<in> set obs. \<not> marker ob" "\<forall>ob \<in> set ms. marker ob"
    and before: "shown st \<longrightarrow> (\<forall>ob \<in> set (obs @ ms). got st ob)" and shown: "shown (snd (each step (obs @ ms) st))"
  shows "\<forall>ob \<in> set (obs @ ms). got (snd (each step (obs @ ms) st)) ob"
proof -
  obtain r st1 where r: "each step obs st = (r, st1)" by fastforce
  have app: "each step (obs @ ms) st = (case r of Some e \<Rightarrow> (Some e, st1) | None \<Rightarrow> each step ms st1)"
    using r by (induction obs arbitrary: st) (auto split: prod.splits option.splits)
  have st1: "ok st1" "shown st1 = shown st" "got st ob \<Longrightarrow> got st1 ob" for ob
    using loop_keeps [OF ok, of obs] loop_hidden [OF ok, of obs] loop_stays [OF ok, of obs] w r by auto
  show ?thesis
  proof (cases r)
    case (Some e)
    then show ?thesis using app st1 before shown by auto
  next
    case None
    have obs: "got st1 ob" if "ob \<in> set obs" for ob using loop_arrives [OF ok, of obs ob] w r None that by auto
    have ms: "\<forall>ob \<in> set ms. wanted ob \<and> marker ob" "shown st1 \<longrightarrow> got st1 ob" if "ob \<in> set ms" for ob
      using w before st1 that by auto
    have "got (snd (each step ms st1)) ob" if "ob \<in> set ms" for ob
      using loop_whole [OF st1(1) ms(1) _ ms(2)] w(3) shown app None that by auto
    moreover have "got (snd (each step ms st1)) ob" if "ob \<in> set obs" for ob
      using loop_stays [OF st1(1), of ms ob] obs [OF that] w by auto
    ultimately show ?thesis using app None by auto
  qed
qed

end

section \<open>The transfer keeps the contract\<close>

text \<open>A repository is intact for a path when a run document there means that every published object below
  the path is there with its bytes.\<close>

definition intact :: "(string \<rightharpoonup> bytes) \<Rightarrow> string \<Rightarrow> contents \<Rightarrow> bool" where
  "intact ref p repo \<longleftrightarrow>
     (map_of repo (RunManifestKey p) \<noteq> None \<longrightarrow> (\<forall>k b. under p k \<and> ref k = Some b \<longrightarrow> map_of repo k = Some b))"

definition contents_ok :: "(string \<rightharpoonup> bytes) \<Rightarrow> (bytes \<Rightarrow> string) \<Rightarrow> (string \<Rightarrow> contents) \<Rightarrow> bool" where
  "contents_ok ref sha repos \<longleftrightarrow> (\<forall>tid k x. map_of (repos tid) k = Some x \<longrightarrow> ref k \<noteq> None \<and> genuine ref sha x)"

definition record_true :: "(string \<rightharpoonup> bytes) \<Rightarrow> (bytes \<Rightarrow> string) \<Rightarrow> ReplicationObject \<Rightarrow> bool" where
  "record_true ref sha r \<longleftrightarrow> (ro_Status r = ''verified'' \<longrightarrow> (\<exists>b. ref (ro_ObjectKey r) = Some b \<and> ro_SHA256 r = sha b))"

definition apart :: "string set \<Rightarrow> bool" where
  "apart P \<longleftrightarrow> (\<forall>p \<in> P. \<forall>q \<in> P. under q (RunManifestKey p) \<longrightarrow> p = q)"

definition transfer_ok ::
  "(string \<rightharpoonup> bytes) \<Rightarrow> (bytes \<Rightarrow> string) \<Rightarrow> string set \<Rightarrow> repl_env \<Rightarrow> (string \<Rightarrow> ReplicationObject option) \<Rightarrow> string \<Rightarrow> string \<Rightarrow> string \<Rightarrow>
     repl \<times> task \<Rightarrow> bool" where
  "transfer_ok ref sha P env known' sid did q st \<longleftrightarrow>
     sid \<noteq> did \<and> sound_env ref sha (RunManifestKey ` P) env \<and> apart P \<and> q \<in> P \<and>
     (\<forall>k r. known' k = Some r \<longrightarrow> ro_ObjectKey r = k \<and> record_true ref sha r) \<and>
     (\<forall>k b. under q k \<and> ref k = Some b \<longrightarrow> map_of (rs_repos (fst st) sid) k = Some b) \<and>
     contents_ok ref sha (rs_repos (fst st)) \<and> (\<forall>r \<in> set (rs_objects (fst st)). record_true ref sha r) \<and>
     (\<forall>p \<in> P - {q}. intact ref p (rs_repos (fst st) did))"

lemma alters_got:
  assumes "alters ref sha M did k b repos repos'" "ref k = Some b" "map_of (repos tid) k' = ref k'"
  shows "map_of (repos' tid) k' = ref k'"
  using assms unfolding alters_def sound_write_def by metis

lemma alters_contents_ok: "alters ref sha M did k b repos repos' \<Longrightarrow> ref k = Some b \<Longrightarrow> contents_ok ref sha repos \<Longrightarrow> contents_ok ref sha repos'"
proof -
  assume a: "alters ref sha M did k b repos repos'" "ref k = Some b" "contents_ok ref sha repos"
  have "ref k' \<noteq> None \<and> genuine ref sha x" if x: "map_of (repos' tid) k' = Some x" for tid k' x
  proof (cases "map_of (repos tid) k' = Some x")
    case True
    then show ?thesis using a(3) by (simp add: contents_ok_def)
  next
    case False
    then have "tid = did \<and> k' = k" using a(1) x unfolding alters_def by metis
    then show ?thesis using a(1,2) x False unfolding alters_def sound_write_def by auto
  qed
  then show ?thesis unfolding contents_ok_def by blast
qed

lemma alters_intact:
  assumes a: "alters ref sha M did k b repos repos'" "ref k = Some b" and i: "intact ref p (repos tid)" and ne: "tid \<noteq> did \<or> k \<noteq> RunManifestKey p"
  shows "intact ref p (repos' tid)"
  unfolding intact_def
proof (intro impI allI)
  fix k' b' assume m: "map_of (repos' tid) (RunManifestKey p) \<noteq> None" and k': "under p k' \<and> ref k' = Some b'"
  have "map_of (repos' tid) (RunManifestKey p) = map_of (repos tid) (RunManifestKey p)" using a(1) ne unfolding alters_def by metis
  then have "\<forall>k b. under p k \<and> ref k = Some b \<longrightarrow> map_of (repos tid) k = Some b" using i m unfolding intact_def by metis
  then have "map_of (repos tid) k' = ref k'" using k' by metis
  from alters_got [OF a this] k' show "map_of (repos' tid) k' = Some b'" by simp
qed

lemma under_manifest [simp]: "under p (RunManifestKey p)"
  by (simp add: under_def RunManifestKey_def)

lemma Upsert_objects:
  assumes "\<forall>r \<in> set (rs_objects s). record_true ref sha r" "record_true ref sha o'"
  shows "\<forall>r \<in> set (rs_objects (snd (UpsertReplicationObject o' s))). record_true ref sha r"
  using assms by (auto simp: UpsertReplicationObject_def)

lemma Upsert_repos [simp]:
  "rs_repos (snd (UpsertReplicationObject o' s)) = rs_repos s" "rs_db (snd (UpsertReplicationObject o' s)) = rs_db s"
  "rs_tasks (snd (UpsertReplicationObject o' s)) = rs_tasks s"
  by (simp_all add: UpsertReplicationObject_def)

lemma Attempt_same [simp]:
  "rs_repos (UpdateReplicationAttempt a s) = rs_repos s" "rs_objects (UpdateReplicationAttempt a s) = rs_objects s"
  "rs_db (UpdateReplicationAttempt a s) = rs_db s" "rs_tasks (UpdateReplicationAttempt a s) = rs_tasks s"
  by (simp_all add: UpdateReplicationAttempt_def)

lemma progress_same [simp]:
  "rs_repos (fst (progress ob st)) = rs_repos (fst st)" "rs_objects (fst (progress ob st)) = rs_objects (fst st)"
  "rs_tasks (fst (progress ob st)) = rs_tasks (fst st)"
  by (simp_all add: progress_def Let_def split: prod.splits)

text \<open>One object: what changes, and what success means.\<close>

lemma copy_object_promise:
  assumes ok: "transfer_ok ref sha P env known' sid did q (s, t)" and w: "under q (oi_Key ob)" "ref (oi_Key ob) = Some b"
    and run: "copy_object env known' sid did ob (s, t) = (r, s', t')"
  shows "alters ref sha (RunManifestKey ` P) did (oi_Key ob) b (rs_repos s) (rs_repos s')"
    "r = None \<Longrightarrow> map_of (rs_repos s' did) (oi_Key ob) = Some b"
    "\<forall>r \<in> set (rs_objects s'). record_true ref sha r"
proof -
  let ?k = "oi_Key ob"
  let ?al = "alters ref sha (RunManifestKey ` P) did ?k b (rs_repos s)"
  have env: "sound_env ref sha (RunManifestKey ` P) env" "sid \<noteq> did" and rec: "\<forall>r \<in> set (rs_objects s). record_true ref sha r"
    and gen: "\<forall>x. map_of (rs_repos s did) ?k = Some x \<longrightarrow> genuine ref sha x"
    using ok by (auto simp: transfer_ok_def contents_ok_def)
  have sha: "re_sha env = sha" using env(1) by (simp add: sound_env_def)
  have src: "map_of (rs_repos s sid) ?k = Some b" using ok w by (simp add: transfer_ok_def)
  have "?al (rs_repos s') \<and> (r = None \<longrightarrow> map_of (rs_repos s' did) ?k = Some b) \<and> (\<forall>r \<in> set (rs_objects s'). record_true ref sha r)"
  proof (cases "already_there env known' did ob s")
    case True
    then obtain rec' where r': "known' ?k = Some rec'" "ro_Status rec' = ''verified''" "hashObject env did ?k (rs_repos s) = Inr (ro_SHA256 rec')"
      by (auto simp: already_there_def split: option.splits)
    have "ro_ObjectKey rec' = ?k \<and> record_true ref sha rec'" using ok r'(1) by (simp add: transfer_ok_def)
    then have "ro_SHA256 rec' = sha b" using w(2) r'(2) by (auto simp: record_true_def)
    then obtain x where x: "map_of (rs_repos s did) ?k = Some x" "sha x = sha b"
      using r'(3) sha by (auto simp: hashObject_def result_simps dest: read_object_Inr)
    then have "x = b" using gen w(2) unfolding genuine_def by (metis ranI)
    then show ?thesis using True run x(1) rec by (auto simp: copy_object_def)
  next
    case False
    obtain h repos where one: "copyOne env sid did ?k (rs_repos s) = (h, repos)" by fastforce
    note al = copyOne_promise [OF env(1) w(2) src env(2) gen one]
    show ?thesis
    proof (cases h)
      case (Inl e)
      then have s': "s' = snd (UpsertReplicationObject (object_record (bc_ID (tk_copy t)) ob '''' ''failed'' (re_text env e)) (s\<lparr>rs_repos := repos\<rparr>))" "r = Some e"
        using False one run by (auto simp: copy_object_def)
      have "\<forall>r \<in> set (rs_objects s'). record_true ref sha r"
        unfolding s' by (rule Upsert_objects) (use rec in \<open>simp_all add: record_true_def object_record_def\<close>)
      then show ?thesis using s' al(1) by simp
    next
      case (Inr hash)
      let ?o = "object_record (bc_ID (tk_copy t)) ob hash ''verified'' ''''"
      obtain u s1 where up: "UpsertReplicationObject ?o (s\<lparr>rs_repos := repos\<rparr>) = (u, s1)" by fastforce
      have repos': "rs_repos s' = rs_repos s1" "rs_objects s' = rs_objects s1"
        using False one Inr up run by (auto simp: copy_object_def progress_def Let_def split: sum.splits)
      have hash: "hash = sha b" "map_of (repos did) ?k = Some b" using al(2) [OF Inr] by auto
      have "\<forall>r \<in> set (rs_objects s1). record_true ref sha r"
        using Upsert_objects [of "s\<lparr>rs_repos := repos\<rparr>" ref sha ?o] rec up hash w(2) by (simp add: record_true_def object_record_def)
      moreover have "rs_repos s1 = repos" using Upsert_repos(1) [of ?o "s\<lparr>rs_repos := repos\<rparr>"] up by simp
      ultimately show ?thesis using repos' al(1) hash(2) by simp
    qed
  qed
  then show "?al (rs_repos s')" "r = None \<Longrightarrow> map_of (rs_repos s' did) ?k = Some b" "\<forall>r \<in> set (rs_objects s'). record_true ref sha r" by blast+
qed

lemma transfer_ok_step:
  assumes ok: "transfer_ok ref sha P env known' sid did q (s, t)" and w: "under q k" "ref k = Some b"
    and al: "alters ref sha (RunManifestKey ` P) did k b (rs_repos s) (rs_repos s')" and rec: "\<forall>r \<in> set (rs_objects s'). record_true ref sha r"
  shows "transfer_ok ref sha P env known' sid did q (s', t')"
proof -
  have "intact ref p (rs_repos s' did)" if p: "p \<in> P - {q}" for p
  proof -
    have "k \<noteq> RunManifestKey p" using ok p w(1) by (auto simp: transfer_ok_def apart_def)
    then show ?thesis using alters_intact [OF al w(2), of p did] ok p by (auto simp: transfer_ok_def)
  qed
  moreover have "map_of (rs_repos s' sid) k' = Some b'" if "under q k'" "ref k' = Some b'" for k' b'
    using alters_got [OF al w(2), of sid k'] ok that by (auto simp: transfer_ok_def)
  moreover have "contents_ok ref sha (rs_repos s')" using alters_contents_ok [OF al w(2)] ok by (auto simp: transfer_ok_def)
  ultimately show ?thesis using ok rec by (auto simp: transfer_ok_def)
qed

abbreviation here :: "string \<Rightarrow> repl \<times> task \<Rightarrow> string \<Rightarrow> bytes option" where
  "here did st k \<equiv> map_of (rs_repos (fst st) did) k"

interpretation ct: object_transfer
  "copy_object env known' sid did"
  "transfer_ok ref sha P env known' sid did q"
  "\<lambda>ob. under q (oi_Key ob) \<and> ref (oi_Key ob) \<noteq> None"
  "\<lambda>ob. oi_Key ob = RunManifestKey q"
  "\<lambda>st ob. here did st (oi_Key ob) = ref (oi_Key ob)"
  "\<lambda>st. here did st (RunManifestKey q) \<noteq> None"
  for env known' sid did ref sha P q
proof
  fix st :: "repl \<times> task" and ob ob' :: ObjectInfo
  assume ok: "transfer_ok ref sha P env known' sid did q st" and w: "under q (oi_Key ob) \<and> ref (oi_Key ob) \<noteq> None"
  obtain s t where st: "st = (s, t)" by fastforce
  obtain b where b: "ref (oi_Key ob) = Some b" using w by blast
  obtain r s' t' where run: "copy_object env known' sid did ob (s, t) = (r, s', t')" by (metis prod_cases3)
  note pr = copy_object_promise [OF ok [unfolded st] _ b run]
  have al: "alters ref sha (RunManifestKey ` P) did (oi_Key ob) b (rs_repos s) (rs_repos s')" using pr(1) w by blast
  have q: "q \<in> P" using ok by (simp add: transfer_ok_def)
  show "transfer_ok ref sha P env known' sid did q (snd (copy_object env known' sid did ob st))"
    using transfer_ok_step [OF ok [unfolded st] _ b al] pr(3) w run st by simp
  show "fst (copy_object env known' sid did ob st) = None \<Longrightarrow> here did (snd (copy_object env known' sid did ob st)) (oi_Key ob) = ref (oi_Key ob)"
    using pr(2) w b run st by simp
  show "here did st (oi_Key ob') = ref (oi_Key ob') \<Longrightarrow> here did (snd (copy_object env known' sid did ob st)) (oi_Key ob') = ref (oi_Key ob')"
    using alters_got [OF al b] run st by simp
  show "oi_Key ob \<noteq> RunManifestKey q \<Longrightarrow>
      (here did (snd (copy_object env known' sid did ob st)) (RunManifestKey q) \<noteq> None) = (here did st (RunManifestKey q) \<noteq> None)"
    using al run st unfolding alters_def by simp
  assume m: "oi_Key ob = RunManifestKey q" and before: "here did st (RunManifestKey q) \<noteq> None \<longrightarrow> here did st (oi_Key ob) = ref (oi_Key ob)"
  have "map_of (rs_repos s' did) (oi_Key ob) \<in> {map_of (rs_repos s did) (oi_Key ob), None, Some b}"
    using al q m unfolding alters_def sound_write_def by blast
  then show "here did (snd (copy_object env known' sid did ob st)) (RunManifestKey q) \<noteq> None \<longrightarrow>
      here did (snd (copy_object env known' sid did ob st)) (oi_Key ob) = ref (oi_Key ob)"
    using before b m run st by auto
qed auto

section \<open>The invariant of the service\<close>

abbreviation paths :: "repl \<Rightarrow> string set" where
  "paths s \<equiv> br_RepoPath ` set (runs_of (rs_db s))"

text \<open>A copy is placed where its run says; it is held when its repository has the run document.\<close>

definition placed :: "repl \<Rightarrow> BackupCopy \<Rightarrow> bool" where
  "placed s c \<longleftrightarrow> (\<forall>r \<in> set (runs_of (rs_db s)). br_ID r = bc_RunID c \<longrightarrow> bc_RepoPath c = br_RepoPath r)"

definition held :: "repl \<Rightarrow> BackupCopy \<Rightarrow> bool" where
  "held s c \<longleftrightarrow> (bc_RepoPath c \<in> paths s \<longrightarrow> map_of (rs_repos s (bc_StorageTargetID c)) (RunManifestKey (bc_RepoPath c)) \<noteq> None)"

definition loc :: "BackupCopy \<Rightarrow> string \<times> string \<times> string \<times> string" where
  "loc c = (bc_ID c, bc_RunID c, bc_StorageTargetID c, bc_RepoPath c)"

definition task_ok :: "repl \<Rightarrow> task \<Rightarrow> bool" where
  "task_ok s t \<longleftrightarrow> placed s (tk_copy t) \<and> (\<forall>x \<in> set (copies_of s). bc_ID x = bc_ID (tk_copy t) \<longrightarrow> loc x = loc (tk_copy t)) \<and>
     (tk_phase t = Running \<longrightarrow> bc_Status (tk_copy t) \<noteq> CopySucceeded) \<and>
     (\<forall>m. tk_phase t = Copied None m \<longrightarrow> held s (tk_copy t))"

definition rows_ok :: "repl \<Rightarrow> bool" where
  "rows_ok s \<longleftrightarrow>
     (\<forall>c \<in> set (copies_of s). placed s c \<and> (bc_Status c = CopySucceeded \<longrightarrow> held s c) \<and>
        (\<forall>x \<in> set (copies_of s). bc_ID x = bc_ID c \<longrightarrow> loc x = loc c)) \<and> (\<forall>t \<in> set (rs_tasks s). task_ok s t)"

lemma rows_okD:
  assumes "rows_ok s" "c \<in> set (copies_of s)"
  shows "placed s c" "bc_Status c = CopySucceeded \<Longrightarrow> held s c" "\<And>x. x \<in> set (copies_of s) \<Longrightarrow> bc_ID x = bc_ID c \<Longrightarrow> loc x = loc c"
  using assms unfolding rows_ok_def by blast+

definition data_ok :: "(string \<rightharpoonup> bytes) \<Rightarrow> (bytes \<Rightarrow> string) \<Rightarrow> repl \<Rightarrow> bool" where
  "data_ok ref sha s \<longleftrightarrow> contents_ok ref sha (rs_repos s) \<and> (\<forall>r \<in> set (rs_objects s). record_true ref sha r) \<and>
     apart (paths s) \<and> (\<forall>p \<in> paths s. \<forall>tid. intact ref p (rs_repos s tid))"

definition grows :: "(string \<rightharpoonup> bytes) \<Rightarrow> (string \<Rightarrow> contents) \<Rightarrow> (string \<Rightarrow> contents) \<Rightarrow> bool" where
  "grows ref repos repos' \<longleftrightarrow> (\<forall>tid k. map_of (repos tid) k = ref k \<longrightarrow> map_of (repos' tid) k = ref k)"

lemma grows_refl [simp]: "grows ref repos repos"
  by (simp add: grows_def)

lemma grows_trans: "grows ref a b \<Longrightarrow> grows ref b c \<Longrightarrow> grows ref a c"
  by (simp add: grows_def)

lemma held_grows:
  assumes d: "data_ok ref sha s" and g: "grows ref (rs_repos s) (rs_repos s')" and runs: "runs_of (rs_db s') = runs_of (rs_db s)" and h: "held s c"
  shows "held s' c"
proof (cases "bc_RepoPath c \<in> paths s")
  case True
  let ?m = "RunManifestKey (bc_RepoPath c)" and ?repo = "rs_repos s (bc_StorageTargetID c)"
  obtain x where x: "map_of ?repo ?m = Some x" using h True by (auto simp: held_def)
  then obtain b where b: "ref ?m = Some b" using d unfolding data_ok_def contents_ok_def by blast
  have "intact ref (bc_RepoPath c) ?repo" using d True unfolding data_ok_def by blast
  then have "map_of ?repo ?m = ref ?m" using x b unfolding intact_def by (metis option.distinct(1) under_manifest)
  then have "map_of (rs_repos s' (bc_StorageTargetID c)) ?m = Some b" using g b unfolding grows_def by metis
  then show ?thesis by (simp add: held_def)
qed (simp add: held_def runs)

lemma placed_runs: "runs_of (rs_db s') = runs_of (rs_db s) \<Longrightarrow> placed s' c = placed s c"
  by (simp add: placed_def)

lemma held_same: "runs_of (rs_db s') = runs_of (rs_db s) \<Longrightarrow> rs_repos s' = rs_repos s \<Longrightarrow> held s' c = held s c"
  by (simp add: held_def)

lemma held_loc: "loc c = loc c' \<Longrightarrow> held s c = held s c'" "loc c = loc c' \<Longrightarrow> placed s c = placed s c'"
  by (auto simp: held_def placed_def loc_def)

lemma task_ok_mono:
  assumes "task_ok s t" "runs_of (rs_db s') = runs_of (rs_db s)" "\<And>c. held s c \<Longrightarrow> held s' c"
    "\<And>x'. x' \<in> set (copies_of s') \<Longrightarrow> bc_ID x' = bc_ID (tk_copy t) \<Longrightarrow> \<exists>x \<in> set (copies_of s). loc x' = loc x"
  shows "task_ok s' t"
proof -
  have "loc x' = loc (tk_copy t)" if "x' \<in> set (copies_of s')" "bc_ID x' = bc_ID (tk_copy t)" for x'
    using assms(1) assms(4) [OF that] that(2) by (auto simp: task_ok_def loc_def)
  then show ?thesis using assms(1,3) by (auto simp: task_ok_def placed_runs [OF assms(2)])
qed

text \<open>A step may change rows without declaring a copy ready, and let the contents grow.\<close>

lemma rows_ok_mono:
  assumes rows: "rows_ok s" and runs: "runs_of (rs_db s') = runs_of (rs_db s)" and h: "\<And>c. held s c \<Longrightarrow> held s' c"
    and copies: "\<And>x'. x' \<in> set (copies_of s') \<Longrightarrow>
       \<exists>x \<in> set (copies_of s). loc x' = loc x \<and> (bc_Status x' = CopySucceeded \<longrightarrow> bc_Status x = CopySucceeded \<or> held s' x)"
    and tasks: "\<And>t'. t' \<in> set (rs_tasks s') \<Longrightarrow> \<exists>t \<in> set (rs_tasks s). tk_copy t' = tk_copy t \<and> tk_phase t' = tk_phase t"
  shows "rows_ok s'"
  unfolding rows_ok_def
proof (intro conjI ballI)
  fix x' assume x': "x' \<in> set (copies_of s')"
  have "placed s x'" using copies [OF x'] rows held_loc(2) [of x'] unfolding rows_ok_def by blast
  then show "placed s' x'" by (simp add: placed_runs [OF runs])
  show "bc_Status x' = CopySucceeded \<longrightarrow> held s' x'"
  proof
    assume "bc_Status x' = CopySucceeded"
    then obtain x where x: "x \<in> set (copies_of s)" "loc x' = loc x" "bc_Status x = CopySucceeded \<or> held s' x" using copies [OF x'] by blast
    then have "held s' x" using rows h unfolding rows_ok_def by blast
    then show "held s' x'" using held_loc(1) [OF x(2)] by simp
  qed
next
  fix c' x' assume x': "c' \<in> set (copies_of s')" "x' \<in> set (copies_of s')"
  obtain c x where "c \<in> set (copies_of s)" "loc c' = loc c" "x \<in> set (copies_of s)" "loc x' = loc x"
    using copies [OF x'(1)] copies [OF x'(2)] by blast
  then show "bc_ID x' = bc_ID c' \<longrightarrow> loc x' = loc c'" using rows unfolding rows_ok_def loc_def by (metis prod.inject)
next
  fix t' assume "t' \<in> set (rs_tasks s')"
  from tasks [OF this] obtain t where t: "t \<in> set (rs_tasks s)" "tk_copy t' = tk_copy t" "tk_phase t' = tk_phase t" by blast
  have "\<exists>x \<in> set (copies_of s). loc x' = loc x" if "x' \<in> set (copies_of s')" "bc_ID x' = bc_ID (tk_copy t)" for x'
    using copies [OF that(1)] by metis
  moreover have "task_ok s t" using rows t(1) by (simp add: rows_ok_def)
  ultimately have "task_ok s' t" using task_ok_mono [of s t s'] runs h by metis
  then show "task_ok s' t'" by (simp add: task_ok_def t(2,3))
qed

text \<open>Statements that leave the repositories alone.\<close>

definition replicas_ok :: "(string \<rightharpoonup> bytes) \<Rightarrow> (bytes \<Rightarrow> string) \<Rightarrow> repl \<Rightarrow> bool" where
  "replicas_ok ref sha s \<longleftrightarrow> data_ok ref sha s \<and> rows_ok s"

lemma update_copies_fields [simp]:
  "runs_of (update_copies p f db) = runs_of db" "pd_fails (update_copies p f db) = pd_fails db"
  "st_targets (pd_store (update_copies p f db)) = st_targets (pd_store db)"
  "st_copies (pd_store (update_copies p f db)) = map (\<lambda>c. if p c then f c else c) (st_copies (pd_store db))"
  by (simp_all add: update_copies_def)

lemma update_copies_ok:
  assumes ok: "replicas_ok ref sha s" and f: "\<And>c. loc (f c) = loc c" "\<And>c. bc_Status (f c) = CopySucceeded \<Longrightarrow> bc_Status c = CopySucceeded"
  shows "replicas_ok ref sha (s\<lparr>rs_db := update_copies p f (rs_db s)\<rparr>)"
  unfolding replicas_ok_def
proof
  let ?s = "s\<lparr>rs_db := update_copies p f (rs_db s)\<rparr>"
  show "data_ok ref sha ?s" using ok by (simp add: replicas_ok_def data_ok_def)
  show "rows_ok ?s"
  proof (rule rows_ok_mono [where s = s])
    show "rows_ok s" using ok by (simp add: replicas_ok_def)
    show "held ?s c" if "held s c" for c using that by (simp add: held_def)
    show "\<exists>x \<in> set (copies_of s). loc x' = loc x \<and> (bc_Status x' = CopySucceeded \<longrightarrow> bc_Status x = CopySucceeded \<or> held ?s x)" if "x' \<in> set (copies_of ?s)" for x'
      using that f by auto
  qed auto
qed

lemma save_copy_rows:
  "snd (save_copy c s) = s \<or> snd (save_copy c s) = s\<lparr>rs_db := update_copies (\<lambda>x. bc_ID x = bc_ID c)
     (\<lambda>x. c\<lparr>bc_RunID := bc_RunID x, bc_StorageTargetID := bc_StorageTargetID x, bc_Role := bc_Role x, bc_RepoPath := bc_RepoPath x,
             bc_LockedBy := bc_LockedBy x, bc_CreatedAt := bc_CreatedAt x\<rparr>) (rs_db s)\<rparr>"
  by (auto simp: save_copy_def UpdateBackupCopy_def update_copies_def split: prod.splits sum.splits prune_error.splits)

lemma save_copy_fields [simp]:
  "runs_of (rs_db (snd (save_copy c s))) = runs_of (rs_db s)" "rs_repos (snd (save_copy c s)) = rs_repos s"
  "rs_objects (snd (save_copy c s)) = rs_objects s" "rs_tasks (snd (save_copy c s)) = rs_tasks s" "rs_manual (snd (save_copy c s)) = rs_manual s"
  using save_copy_rows [of c s] by auto

lemma save_copy_locs:
  assumes x': "x' \<in> set (copies_of (snd (save_copy c s)))"
  shows "\<exists>x \<in> set (copies_of s). loc x' = loc x \<and> (x' = x \<or> bc_ID x = bc_ID c \<and> bc_Status x' = bc_Status c)"
proof -
  let ?f = "\<lambda>x. c\<lparr>bc_RunID := bc_RunID x, bc_StorageTargetID := bc_StorageTargetID x, bc_Role := bc_Role x, bc_RepoPath := bc_RepoPath x,
             bc_LockedBy := bc_LockedBy x, bc_CreatedAt := bc_CreatedAt x\<rparr>"
  have "x' \<in> set (copies_of s) \<or> (\<exists>x \<in> set (copies_of s). bc_ID x = bc_ID c \<and> x' = ?f x)"
    using save_copy_rows [of c s] x' by (elim disjE) auto
  then show ?thesis
  proof
    assume "\<exists>x \<in> set (copies_of s). bc_ID x = bc_ID c \<and> x' = ?f x"
    then obtain x where x: "x \<in> set (copies_of s)" "bc_ID x = bc_ID c" "x' = ?f x" by blast
    then have "loc x' = loc x \<and> bc_Status x' = bc_Status c" by (simp add: loc_def)
    then show ?thesis using x by blast
  qed blast
qed

lemma save_copy_ok:
  assumes ok: "replicas_ok ref sha s" and c: "bc_Status c = CopySucceeded \<Longrightarrow> (\<forall>x \<in> set (copies_of s). bc_ID x = bc_ID c \<longrightarrow> held s x)"
  shows "replicas_ok ref sha (snd (save_copy c s))"
  unfolding replicas_ok_def
proof
  let ?s = "snd (save_copy c s)"
  show "data_ok ref sha ?s" using ok by (simp add: replicas_ok_def data_ok_def)
  show "rows_ok ?s"
  proof (rule rows_ok_mono [where s = s])
    show "rows_ok s" using ok by (simp add: replicas_ok_def)
    have h: "held ?s x = held s x" for x by (simp add: held_def)
    then show "held ?s x" if "held s x" for x using that by simp
    fix x' assume x': "x' \<in> set (copies_of ?s)"
    have "\<exists>x \<in> set (copies_of s). loc x' = loc x \<and> (bc_Status x' = CopySucceeded \<longrightarrow> bc_Status x = CopySucceeded \<or> held s x)"
      using save_copy_locs [OF x'] c by metis
    then show "\<exists>x \<in> set (copies_of s). loc x' = loc x \<and> (bc_Status x' = CopySucceeded \<longrightarrow> bc_Status x = CopySucceeded \<or> held ?s x)" by (simp add: h)
  qed auto
qed

text \<open>The tables of jobs, job runs and attempts are outside the invariant.\<close>

lemma replicas_ok_cong:
  assumes "rs_db s' = rs_db s" "rs_repos s' = rs_repos s" "rs_objects s' = rs_objects s" "rs_tasks s' = rs_tasks s"
  shows "replicas_ok ref sha s' = replicas_ok ref sha s"
  unfolding replicas_ok_def data_ok_def rows_ok_def task_ok_def placed_def held_def using assms by simp

lemma recalculate_same [simp]:
  "rs_db (recalculateJobRun now rid tid s) = rs_db s" "rs_repos (recalculateJobRun now rid tid s) = rs_repos s"
  "rs_objects (recalculateJobRun now rid tid s) = rs_objects s" "rs_tasks (recalculateJobRun now rid tid s) = rs_tasks s"
  by (auto simp: recalculateJobRun_def Let_def UpdateBackupJobRun_def SetJobLastStatus_def split: sum.splits option.splits)

lemma table_ok [simp]:
  "replicas_ok ref sha (recalculateJobRun now rid tid s) = replicas_ok ref sha s"
  "replicas_ok ref sha (UpdateReplicationAttempt a s) = replicas_ok ref sha s"
  "replicas_ok ref sha (CreateReplicationAttempt a s) = replicas_ok ref sha s"
  by (rule replicas_ok_cong; simp add: CreateReplicationAttempt_def)+

section \<open>The transfer keeps the invariant\<close>

lemma each_rel:
  assumes "\<And>st. R st st" "\<And>a b c. R a b \<Longrightarrow> R b c \<Longrightarrow> R a c"
    and step: "\<And>ob st. ob \<in> set obs \<Longrightarrow> P st \<Longrightarrow> P (snd (step ob st)) \<and> R st (snd (step ob st))" and "P st"
  shows "R st (snd (each step obs st))"
  using step assms(4)
proof (induction obs arbitrary: st)
  case (Cons ob obs)
  obtain r st1 where r: "step ob st = (r, st1)" by fastforce
  have "P st1" "R st st1" using Cons.prems(1) [of ob st] Cons.prems(2) r by auto
  moreover have "R st1 (snd (each step obs st1))" using Cons.IH [of st1] Cons.prems(1) \<open>P st1\<close> by auto
  ultimately show ?case using assms(2) r by (cases r) auto
qed (simp add: assms(1))

text \<open>What the loop over the objects leaves alone.\<close>

definition frame :: "(string \<rightharpoonup> bytes) \<Rightarrow> string \<Rightarrow> repl \<times> task \<Rightarrow> repl \<times> task \<Rightarrow> bool" where
  "frame ref did st st' \<longleftrightarrow>
     runs_of (rs_db (fst st')) = runs_of (rs_db (fst st)) \<and> rs_tasks (fst st') = rs_tasks (fst st) \<and>
     map (\<lambda>c. (loc c, bc_Status c)) (copies_of (fst st')) = map (\<lambda>c. (loc c, bc_Status c)) (copies_of (fst st)) \<and>
     loc (tk_copy (snd st')) = loc (tk_copy (snd st)) \<and> bc_Status (tk_copy (snd st')) = bc_Status (tk_copy (snd st)) \<and>
     grows ref (rs_repos (fst st)) (rs_repos (fst st')) \<and>
     (\<forall>tid k. tid \<noteq> did \<longrightarrow> map_of (rs_repos (fst st') tid) k = map_of (rs_repos (fst st) tid) k)"

lemma frame_refl: "frame ref did st st"
  by (simp add: frame_def)

lemma frame_trans: "frame ref did a b \<Longrightarrow> frame ref did b c \<Longrightarrow> frame ref did a c"
  using grows_trans unfolding frame_def by (auto simp: grows_def)

lemma alters_grows: "alters ref sha M did k b repos repos' \<Longrightarrow> ref k = Some b \<Longrightarrow> grows ref repos repos'"
  unfolding grows_def using alters_got by metis

lemma progress_frame: "frame ref did st (progress ob st)"
  by (simp add: frame_def progress_def Let_def SetCopyProgress_def counted_def noted_def loc_def comp_def split: prod.splits)

lemma counted_frame: "frame ref did (s, t) (s, counted ob t)"
  by (simp add: frame_def counted_def loc_def)

lemma copy_object_frame:
  assumes ok: "transfer_ok ref sha P env known' sid did q st" and w: "under q (oi_Key ob)" "ref (oi_Key ob) = Some b"
  shows "frame ref did st (snd (copy_object env known' sid did ob st))"
proof -
  obtain s t where st: "st = (s, t)" by fastforce
  obtain r s' t' where run: "copy_object env known' sid did ob (s, t) = (r, s', t')" by (metis prod_cases3)
  have al: "alters ref sha (RunManifestKey ` P) did (oi_Key ob) b (rs_repos s) (rs_repos s')"
    using copy_object_promise(1) [OF ok [unfolded st] w run] .
  have contents: "grows ref (rs_repos s) (rs_repos s')" "\<And>tid k. tid \<noteq> did \<Longrightarrow> map_of (rs_repos s' tid) k = map_of (rs_repos s tid) k"
    using alters_grows [OF al w(2)] al unfolding alters_def by blast+
  have "runs_of (rs_db s') = runs_of (rs_db s) \<and> rs_tasks s' = rs_tasks s \<and>
     map (\<lambda>c. (loc c, bc_Status c)) (copies_of s') = map (\<lambda>c. (loc c, bc_Status c)) (copies_of s) \<and>
     loc (tk_copy t') = loc (tk_copy t) \<and> bc_Status (tk_copy t') = bc_Status (tk_copy t)"
  proof (cases "already_there env known' did ob s")
    case True
    then show ?thesis using run by (auto simp: copy_object_def counted_def loc_def)
  next
    case False
    obtain h repos where one: "copyOne env sid did (oi_Key ob) (rs_repos s) = (h, repos)" by fastforce
    show ?thesis
    proof (cases h)
      case (Inl e)
      then show ?thesis using False one run by (auto simp: copy_object_def)
    next
      case (Inr hash)
      let ?o = "object_record (bc_ID (tk_copy t)) ob hash ''verified'' ''''"
      obtain u s1 where up: "UpsertReplicationObject ?o (s\<lparr>rs_repos := repos\<rparr>) = (u, s1)" by fastforce
      have s1: "rs_db s1 = rs_db s" "rs_tasks s1 = rs_tasks s"
        using Upsert_repos [of ?o "s\<lparr>rs_repos := repos\<rparr>"] up by auto
      have "frame ref did (s1, t) (s', t')"
      proof (cases u)
        case (Inl e)
        then show ?thesis using False one Inr up run by (simp add: copy_object_def frame_refl)
      next
        case (Inr v)
        then have "progress ob (s1, t) = (s', t')" using False one \<open>h = Inr hash\<close> up run by (simp add: copy_object_def)
        then show ?thesis using progress_frame [of ref did "(s1, t)" ob] by metis
      qed
      then show ?thesis using s1 by (simp add: frame_def)
    qed
  qed
  then show ?thesis using contents run st by (simp add: frame_def)
qed

lemma transfer_order_set [simp]: "set (transfer_order m obs) = set obs"
  by (auto simp: transfer_order_def)

lemma transfer_order_split:
  obtains A B where "transfer_order m obs = A @ B" "\<forall>ob \<in> set A. oi_Key ob \<noteq> m" "\<forall>ob \<in> set B. oi_Key ob = m"
  by (rule that [of "sort_key oi_Key (filter (\<lambda>ob. oi_Key ob \<noteq> m) obs)" "filter (\<lambda>ob. oi_Key ob = m) obs"]) (auto simp: transfer_order_def)

lemma list_objects_key: "ob \<in> set (list_objects q repo) \<Longrightarrow> under q (oi_Key ob) \<and> map_of repo (oi_Key ob) \<noteq> None"
  by (auto simp: list_objects_def map_of_eq_None_iff) (metis image_eqI fst_conv)

lemma list_objects_has: "under q k \<Longrightarrow> map_of repo k = Some b \<Longrightarrow> \<exists>ob \<in> set (list_objects q repo). oi_Key ob = k"
  by (force simp: list_objects_def dest: map_of_SomeD)

text \<open>The whole loop, from a source that has the run document.\<close>

lemma each_copy_data:
  assumes d: "data_ok ref sha s" and env: "sound_env ref sha (RunManifestKey ` paths s) env" and ends: "sid \<noteq> did" and q: "q \<in> paths s"
    and src: "map_of (rs_repos s sid) (RunManifestKey q) \<noteq> None"
    and known: "\<And>k r. known' k = Some r \<Longrightarrow> ro_ObjectKey r = k \<and> r \<in> set (rs_objects s)"
    and obs: "obs = transfer_order (RunManifestKey q) (list_objects q (rs_repos s sid))"
    and run: "each (copy_object env known' sid did) obs (s, t) = (r, s', t')"
  shows "data_ok ref sha s'" "frame ref did (s, t) (s', t')" "r = None \<Longrightarrow> map_of (rs_repos s' did) (RunManifestKey q) \<noteq> None"
proof -
  let ?ok = "transfer_ok ref sha (paths s) env known' sid did q"
  have iq: "intact ref p (rs_repos s tid)" if "p \<in> paths s" for p tid using d that unfolding data_ok_def by blast
  have whole: "map_of (rs_repos s sid) k = Some b" if "under q k" "ref k = Some b" for k b
    using iq [OF q, of sid] src that unfolding intact_def by blast
  have ok: "?ok (s, t)"
    unfolding transfer_ok_def using d env ends q whole known iq by (auto simp: data_ok_def)
  have w: "under q (oi_Key ob) \<and> ref (oi_Key ob) \<noteq> None" if "ob \<in> set obs" for ob
  proof -
    have l: "under q (oi_Key ob)" "map_of (rs_repos s sid) (oi_Key ob) \<noteq> None" using list_objects_key that obs by auto
    then show ?thesis using d unfolding data_ok_def contents_ok_def by blast
  qed
  have fr: "frame ref did (s, t) (snd (each (copy_object env known' sid did) obs (s, t)))"
  proof (rule each_rel [where P = ?ok, OF frame_refl frame_trans])
    fix ob st assume ob: "ob \<in> set obs" and st: "?ok st"
    obtain b where "under q (oi_Key ob)" "ref (oi_Key ob) = Some b" using w [OF ob] by auto
    then show "?ok (snd (copy_object env known' sid did ob st)) \<and> frame ref did st (snd (copy_object env known' sid did ob st))"
      using ct.keeps [OF st, of ob] copy_object_frame [OF st, of ob b] by auto
  qed (use ok in auto)
  then show "frame ref did (s, t) (s', t')" using run by simp
  then have runs: "paths s' = paths s" "\<And>tid k. tid \<noteq> did \<Longrightarrow> map_of (rs_repos s' tid) k = map_of (rs_repos s tid) k"
    by (auto simp: frame_def)
  have ok': "?ok (s', t')" using ct.loop_keeps [OF ok, of obs] w run by auto
  obtain m where m: "m \<in> set obs" "oi_Key m = RunManifestKey q"
    using list_objects_has [of q "RunManifestKey q" "rs_repos s sid"] src obs by auto
  show "map_of (rs_repos s' did) (RunManifestKey q) \<noteq> None" if "r = None"
  proof -
    have "map_of (rs_repos s' did) (oi_Key m) = ref (oi_Key m)" using ct.loop_arrives [OF ok, of obs m] w m(1) run that by auto
    then show ?thesis using w [OF m(1)] m(2) by simp
  qed
  have iq': "intact ref q (rs_repos s' did)"
    unfolding intact_def
  proof (intro impI allI)
    fix k b assume shown: "map_of (rs_repos s' did) (RunManifestKey q) \<noteq> None" and k: "under q k \<and> ref k = Some b"
    obtain A B where AB: "obs = A @ B" "\<forall>ob \<in> set A. oi_Key ob \<noteq> RunManifestKey q" "\<forall>ob \<in> set B. oi_Key ob = RunManifestKey q"
      unfolding obs by (rule transfer_order_split)
    have before: "\<forall>ob \<in> set obs. map_of (rs_repos s did) (oi_Key ob) = ref (oi_Key ob)" if "map_of (rs_repos s did) (RunManifestKey q) \<noteq> None"
      using iq [OF q, of did] that w unfolding intact_def by force
    have "\<forall>ob \<in> set (A @ B). here did (snd (each (copy_object env known' sid did) (A @ B) (s, t))) (oi_Key ob) = ref (oi_Key ob)"
    proof (rule ct.loop_marker_last [OF ok])
      show "\<forall>ob \<in> set (A @ B). under q (oi_Key ob) \<and> ref (oi_Key ob) \<noteq> None" using w AB(1) by blast
      show "\<forall>ob \<in> set A. oi_Key ob \<noteq> RunManifestKey q" "\<forall>ob \<in> set B. oi_Key ob = RunManifestKey q" by (rule AB)+
      show "here did (s, t) (RunManifestKey q) \<noteq> None \<longrightarrow> (\<forall>ob \<in> set (A @ B). here did (s, t) (oi_Key ob) = ref (oi_Key ob))"
        using before unfolding AB(1) fst_conv by blast
      show "here did (snd (each (copy_object env known' sid did) (A @ B) (s, t))) (RunManifestKey q) \<noteq> None"
        using shown run unfolding AB(1) by (metis fst_conv snd_conv)
    qed
    then have all: "\<forall>ob \<in> set obs. map_of (rs_repos s' did) (oi_Key ob) = ref (oi_Key ob)" using run AB(1) by simp
    obtain ob where "ob \<in> set obs" "oi_Key ob = k" using list_objects_has [of q k] whole k obs by (metis transfer_order_set)
    then show "map_of (rs_repos s' did) k = Some b" using all k by auto
  qed
  have "intact ref p (rs_repos s' tid)" if "p \<in> paths s" for p tid
  proof (cases "tid = did")
    case True
    have "\<forall>p \<in> paths s - {q}. intact ref p (rs_repos s' did)" using ok' unfolding transfer_ok_def fst_conv by blast
    then show ?thesis using iq' that True by (cases "p = q") auto
  next
    case False
    then show ?thesis using iq [OF that, of tid] runs(2) [OF False] unfolding intact_def by metis
  qed
  then show "data_ok ref sha s'" unfolding data_ok_def runs(1) using ok' unfolding transfer_ok_def fst_conv by blast
qed

lemma frame_rows_ok:
  assumes ok: "replicas_ok ref sha s" and fr: "frame ref did (s, t) (s', t')"
  shows "rows_ok s'"
proof (rule rows_ok_mono [where s = s])
  have d: "data_ok ref sha s" using ok by (simp add: replicas_ok_def)
  show "rows_ok s" using ok by (simp add: replicas_ok_def)
  show runs: "runs_of (rs_db s') = runs_of (rs_db s)" using fr by (simp add: frame_def)
  show "held s' c" if "held s c" for c using held_grows [OF d _ runs that] fr by (simp add: frame_def)
  have "set (map (\<lambda>c. (loc c, bc_Status c)) (copies_of s')) = set (map (\<lambda>c. (loc c, bc_Status c)) (copies_of s))"
    using fr unfolding frame_def fst_conv by metis
  then have "\<exists>x \<in> set (copies_of s). (loc x, bc_Status x) = (loc x', bc_Status x')" if "x' \<in> set (copies_of s')" for x'
    using that by (metis (no_types, lifting) imageE image_eqI list.set_map)
  then show "\<exists>x \<in> set (copies_of s). loc x' = loc x \<and> (bc_Status x' = CopySucceeded \<longrightarrow> bc_Status x = CopySucceeded \<or> held s' x)" if "x' \<in> set (copies_of s')" for x'
    using that by (metis prod.inject)
  show "\<exists>t \<in> set (rs_tasks s). tk_copy t' = tk_copy t \<and> tk_phase t' = tk_phase t" if "t' \<in> set (rs_tasks s')" for t'
    using that fr by (auto simp: frame_def)
qed

lemma copy_objects_ok:
  assumes ok: "replicas_ok ref sha s" and env: "sound_env ref sha (RunManifestKey ` paths s) env" and ends: "sid \<noteq> did" and q: "q \<in> paths s"
    and src: "map_of (rs_repos s sid) (RunManifestKey q) \<noteq> None" and st: "bc_Status (tk_copy t) \<noteq> CopySucceeded"
    and run: "copy_objects env sid did (transfer_order (RunManifestKey q) (list_objects q (rs_repos s sid))) (s, t) = (r, s', t')"
  shows "replicas_ok ref sha s' \<and> rs_tasks s' = rs_tasks s \<and> runs_of (rs_db s') = runs_of (rs_db s) \<and> loc (tk_copy t') = loc (tk_copy t) \<and>
    (r = None \<longrightarrow> map_of (rs_repos s' did) (RunManifestKey q) \<noteq> None)"
proof -
  define obs where obs: "obs = transfer_order (RunManifestKey q) (list_objects q (rs_repos s sid))"
  define t1 where t1: "t1 = announced obs t"
  define s1 where s1: "s1 = UpdateReplicationAttempt (tk_attempt t1) (snd (save_copy (tk_copy t1) s))"
  have t1': "loc (tk_copy t1) = loc (tk_copy t)" "bc_Status (tk_copy t1) = bc_Status (tk_copy t)" by (simp_all add: t1 announced_def loc_def)
  have ok1: "replicas_ok ref sha s1" unfolding s1 table_ok by (rule save_copy_ok [OF ok]) (use st t1' in simp)
  have same: "rs_repos s1 = rs_repos s" "rs_objects s1 = rs_objects s" "runs_of (rs_db s1) = runs_of (rs_db s)" "rs_tasks s1 = rs_tasks s" by (simp_all add: s1)
  show ?thesis
  proof (cases "ListReplicationObjects s1 (bc_ID (tk_copy t1))")
    case (Inl e)
    then have "r = Some e" "s' = s1" "t' = t1" using run by (auto simp: copy_objects_def Let_def obs [symmetric] t1 [symmetric] s1 [symmetric])
    then show ?thesis using ok1 same t1' by simp
  next
    case (Inr known')
    have known: "ro_ObjectKey r = k \<and> r \<in> set (rs_objects s1)" if "known' k = Some r" for k r
      using Inr that by (auto simp: ListReplicationObjects_def find_Some_iff split: if_splits)
    obtain r2 s2 t2 where loop: "each (copy_object env known' sid did) obs (s1, t1) = (r2, s2, t2)" by (metis prod_cases3)
    have d1: "data_ok ref sha s1" using ok1 by (simp add: replicas_ok_def)
    note cd = each_copy_data [where s = s1, unfolded same, OF d1 env ends q src known [unfolded same(2)] obs loop]
    have fr: "frame ref did (s1, t1) (s2, t2)" by (rule cd(2))
    have ok2: "replicas_ok ref sha s2" using cd(1) frame_rows_ok [OF ok1 fr] by (simp add: replicas_ok_def)
    have fr': "rs_tasks s2 = rs_tasks s" "runs_of (rs_db s2) = runs_of (rs_db s)" "loc (tk_copy t2) = loc (tk_copy t)"
      using fr same t1' by (auto simp: frame_def)
    show ?thesis
    proof (cases r2)
      case (Some e)
      then have "r = Some e" "s' = s2" "t' = t2" using run Inr loop by (auto simp: copy_objects_def Let_def obs [symmetric] t1 [symmetric] s1 [symmetric])
      then show ?thesis using ok2 fr' by simp
    next
      case None
      let ?t3 = "t2\<lparr>tk_copy := (tk_copy t2)\<lparr>bc_Status := CopyVerifying\<rparr>\<rparr>"
      have out: "r = None" "s' = snd (save_copy (tk_copy ?t3) s2)" "t' = ?t3"
        using run Inr loop None by (auto simp: copy_objects_def Let_def obs [symmetric] t1 [symmetric] s1 [symmetric])
      have "replicas_ok ref sha s'" unfolding out(2) by (rule save_copy_ok [OF ok2]) simp
      moreover have "loc (tk_copy t') = loc (tk_copy t)" using fr'(3) by (simp add: out(3) loc_def)
      ultimately show ?thesis using fr' cd(3) None by (simp add: out(2))
    qed
  qed
qed

lemma first_source_mem:
  "first_source db ex cs = Some (c, tg) \<Longrightarrow> c \<in> set cs \<and> bc_StorageTargetID c \<noteq> ex \<and> st_ID tg = bc_StorageTargetID c"
  by (induction cs) (auto simp: GetStorageTarget_def split: if_splits sum.splits dest: query_mem)

lemma healthySource_mem:
  assumes "healthySource db run ex = Inr (c, tg)"
  shows "c \<in> set (st_copies db)" "bc_RunID c = br_ID run" "bc_StorageTargetID c \<noteq> ex" "st_ID tg = bc_StorageTargetID c"
  using assms by (auto simp: healthySource_def ListBackupCopies_def split: sum.splits option.splits dest!: first_source_mem)

lemma copy_ok:
  assumes ok: "replicas_ok ref sha s" and t: "task_ok s t" "tk_phase t = Running"
    and env: "sound_env ref sha (RunManifestKey ` paths s) env" and run: "copy env (s, t) = (r, s', t')"
  shows "replicas_ok ref sha s' \<and> rs_tasks s' = rs_tasks s \<and> runs_of (rs_db s') = runs_of (rs_db s) \<and> loc (tk_copy t') = loc (tk_copy t) \<and>
    (r = None \<longrightarrow> held s' (tk_copy t'))"
proof (cases "tk_canceled t \<or> (\<exists>e. copy_ends (tk_copy t) s = Inl e)")
  case True
  then have "r \<noteq> None \<and> s' = s \<and> t' = t" using run unfolding copy_def prod.case by (cases "tk_canceled t") auto
  then show ?thesis using ok by auto
next
  case False
  then obtain sc src dst where ends: "copy_ends (tk_copy t) s = Inr (sc, src, dst)" by (metis obj_sumE prod_cases3)
  from ends obtain rn where rn: "GetBackupRun (rs_db s) (bc_RunID (tk_copy t)) = Inr rn" "GetStorageTarget (pd_store (rs_db s)) (bc_StorageTargetID (tk_copy t)) = Inr dst"
    "healthySource (pd_store (rs_db s)) rn (bc_StorageTargetID (tk_copy t)) = Inr (sc, src)"
    by (auto simp: copy_ends_def result_simps split: sum.splits if_splits)
  have rn': "rn \<in> set (runs_of (rs_db s))" "br_ID rn = bc_RunID (tk_copy t)" using rn(1) by (auto simp: GetBackupRun_def dest: query_mem)
  have dst: "st_ID dst = bc_StorageTargetID (tk_copy t)" using rn(2) by (auto simp: GetStorageTarget_def dest: query_mem)
  note hs = healthySource_mem [OF rn(3)]
  have path: "bc_RepoPath sc = br_RepoPath rn" "bc_RepoPath (tk_copy t) = br_RepoPath rn"
    using ok hs(1,2) t(1) rn' unfolding replicas_ok_def rows_ok_def task_ok_def placed_def by metis+
  define t1 where t1: "t1 = t\<lparr>tk_copy := (tk_copy t)\<lparr>bc_SourceCopyID := bc_ID sc\<rparr>, tk_attempt := (tk_attempt t)\<lparr>ra_SourceCopyID := bc_ID sc\<rparr>\<rparr>"
  have t1': "loc (tk_copy t1) = loc (tk_copy t)" "bc_Status (tk_copy t1) \<noteq> CopySucceeded" using t by (simp_all add: t1 loc_def task_ok_def)
  let ?q = "br_RepoPath rn"
  let ?obs = "list_objects ?q (rs_repos s (st_ID src))"
  have out: "r \<noteq> None \<and> s' = s \<and> t' = t1 \<or>
     (\<exists>ob \<in> set ?obs. oi_Key ob = RunManifestKey ?q) \<and> copy_objects env (st_ID src) (st_ID dst) (transfer_order (RunManifestKey ?q) ?obs) (s, t1) = (r, s', t')"
    using run False unfolding copy_def prod.case ends sum.case Let_def path t1 [symmetric] by (auto simp: list_ex_iff split: option.splits if_splits)
  then show ?thesis
  proof
    assume "r \<noteq> None \<and> s' = s \<and> t' = t1"
    then show ?thesis using ok t1' by auto
  next
    assume c: "(\<exists>ob \<in> set ?obs. oi_Key ob = RunManifestKey ?q) \<and> copy_objects env (st_ID src) (st_ID dst) (transfer_order (RunManifestKey ?q) ?obs) (s, t1) = (r, s', t')"
    then have m: "map_of (rs_repos s (st_ID src)) (RunManifestKey ?q) \<noteq> None" using list_objects_key by metis
    have res: "replicas_ok ref sha s' \<and> rs_tasks s' = rs_tasks s \<and> runs_of (rs_db s') = runs_of (rs_db s) \<and> loc (tk_copy t') = loc (tk_copy t1) \<and>
        (r = None \<longrightarrow> map_of (rs_repos s' (st_ID dst)) (RunManifestKey ?q) \<noteq> None)"
      by (rule copy_objects_ok [OF ok env _ _ m t1'(2)]) (use c hs(3,4) dst rn' in auto)
    moreover have "bc_StorageTargetID (tk_copy t') = st_ID dst \<and> bc_RepoPath (tk_copy t') = ?q" using res t1' dst path by (auto simp: loc_def)
    ultimately show ?thesis using t1' by (auto simp: held_def)
  qed
qed

section \<open>Every step keeps the invariant\<close>

lemma task_ok_cong: "rs_db s' = rs_db s \<Longrightarrow> rs_repos s' = rs_repos s \<Longrightarrow> task_ok s' t = task_ok s t"
  by (simp add: task_ok_def placed_def held_def)

lemma replicas_ok_tasks:
  assumes ok: "replicas_ok ref sha s" and s': "rs_db s' = rs_db s" "rs_repos s' = rs_repos s" "rs_objects s' = rs_objects s"
    and t: "\<And>t. t \<in> set (rs_tasks s') \<Longrightarrow> task_ok s t"
  shows "replicas_ok ref sha s'"
proof -
  have "\<forall>t \<in> set (rs_tasks s'). task_ok s' t" using t task_ok_cong [OF s'(1,2)] by simp
  moreover have "data_ok ref sha s'" using ok s' by (simp add: replicas_ok_def data_ok_def)
  moreover have "placed s' c = placed s c" "held s' c = held s c" for c by (simp_all add: placed_def held_def s')
  then have "\<forall>c \<in> set (copies_of s'). placed s' c \<and> (bc_Status c = CopySucceeded \<longrightarrow> held s' c) \<and>
      (\<forall>x \<in> set (copies_of s'). bc_ID x = bc_ID c \<longrightarrow> loc x = loc c)"
    using rows_okD [of s] ok unfolding replicas_ok_def s' by metis
  ultimately show ?thesis unfolding replicas_ok_def rows_ok_def by blast
qed

lemma task_ok_loc:
  assumes "task_ok s t" "loc (tk_copy t') = loc (tk_copy t)" "tk_phase t' = Running \<Longrightarrow> bc_Status (tk_copy t') \<noteq> CopySucceeded"
    "\<And>m. tk_phase t' = Copied None m \<Longrightarrow> held s (tk_copy t')"
  shows "task_ok s t'"
  using assms held_loc(2) [OF assms(2), of s] unfolding task_ok_def loc_def by auto

lemma task_ok_mem: "replicas_ok ref sha s \<Longrightarrow> t \<in> set (rs_tasks s) \<Longrightarrow> task_ok s t"
  by (simp add: replicas_ok_def rows_ok_def)

lemma put_task_ok:
  assumes "replicas_ok ref sha s" "task_ok s t" shows "replicas_ok ref sha (put_task t s)"
  by (rule replicas_ok_tasks [OF assms(1)]) (use assms in \<open>auto simp: put_task_def dest: task_ok_mem split: if_splits\<close>)

lemma cancel_task_ok: "replicas_ok ref sha s \<Longrightarrow> replicas_ok ref sha (cancel_task cid s)"
  by (rule replicas_ok_tasks) (auto simp: cancel_task_def task_ok_def dest: task_ok_mem)

lemma same_id_held:
  assumes "replicas_ok ref sha s" "c \<in> set (copies_of s)" "x \<in> set (copies_of s)" "bc_ID x = bc_ID c" "bc_Status c = CopySucceeded"
  shows "held s x"
  using assms held_loc(1) [of x c s] unfolding replicas_ok_def rows_ok_def by blast

lemma attempt_tasks: "rs_tasks (CreateReplicationAttempt a s) = rs_tasks s"
  by (simp add: CreateReplicationAttempt_def)

lemma process_start_ok:
  assumes ok: "replicas_ok ref sha s" and t: "t \<in> set (rs_tasks s)" and run: "process_start env t s = (s', t')"
  shows "replicas_ok ref sha (put_task t' s')"
proof (rule put_task_ok)
  let ?c = "tk_copy t"
  have saved: "replicas_ok ref sha (snd (save_copy c s))" if "bc_Status c \<noteq> CopySucceeded" for c
    using that by (intro save_copy_ok [OF ok]) simp
  have out: "(\<exists>c. bc_Status c \<noteq> CopySucceeded \<and> loc c = loc ?c \<and> replicas_ok ref sha s' = replicas_ok ref sha (snd (save_copy c s)) \<and> tk_copy t' = c) \<and>
      rs_tasks s' = rs_tasks s \<and> (tk_phase t' = Done \<or> tk_phase t' = Running)"
  proof (cases "ensureParentCopyReady ?c (tk_canceled t) s")
    case (Inl e)
    have "s' = snd (save_copy (postponed env ?c) s) \<and> t' = finished (postponed env ?c) t \<or>
        s' = recalculateJobRun (re_now env) (bc_RunID ?c) (bc_StorageTargetID ?c) (snd (save_copy (blocked env e ?c) s)) \<and> t' = finished (blocked env e ?c) t"
      using run unfolding process_start_def Let_def Inl sum.case by (cases e) simp_all
    moreover have "bc_Status (postponed env ?c) = CopyPending" "loc (postponed env ?c) = loc ?c"
        "bc_Status (blocked env e ?c) = CopyLocked" "loc (blocked env e ?c) = loc ?c"
      by (simp_all add: postponed_def blocked_def loc_def)
    ultimately show ?thesis by (auto simp: finished_def)
  next
    case (Inr u)
    obtain r s1 where sv: "save_copy (started env ?c) s = (r, s1)" by fastforce
    then have s1: "s1 = snd (save_copy (started env ?c) s)" by simp
    have c: "bc_Status (started env ?c) \<noteq> CopySucceeded" "loc (started env ?c) = loc ?c" by (simp_all add: started_def loc_def)
    have "t' = finished (started env ?c) t \<and> s' = s1 \<or>
        t' = t\<lparr>tk_copy := started env ?c, tk_attempt := new_attempt env (started env ?c), tk_phase := Running\<rparr> \<and>
        s' = CreateReplicationAttempt (new_attempt env (started env ?c)) s1"
      using run unfolding process_start_def Let_def Inr sum.case sv prod.case by (auto split: sum.splits)
    then have "replicas_ok ref sha s' = replicas_ok ref sha s1 \<and> rs_tasks s' = rs_tasks s \<and> tk_copy t' = started env ?c \<and> (tk_phase t' = Done \<or> tk_phase t' = Running)"
      by (elim disjE conjE) (simp_all add: finished_def s1 attempt_tasks)
    then show ?thesis using c s1 by metis
  qed
  then obtain c where c: "bc_Status c \<noteq> CopySucceeded" "loc c = loc ?c" "replicas_ok ref sha s' = replicas_ok ref sha (snd (save_copy c s))" "tk_copy t' = c" by blast
  show ok': "replicas_ok ref sha s'" using c saved by simp
  have "task_ok s' t" using task_ok_mem [OF ok'] t out by simp
  then show "task_ok s' t'" by (rule task_ok_loc) (use c out in auto)
qed

lemma process_copy_ok:
  assumes ok: "replicas_ok ref sha s" and t: "t \<in> set (rs_tasks s)" "tk_phase t = Running"
    and env: "sound_env ref sha (RunManifestKey ` paths s) env" and run: "process_copy env t s = (s', t')"
  shows "replicas_ok ref sha (put_task t' s')"
proof -
  obtain r s1 t1 where c: "copy env (s, t) = (r, s1, t1)" by (metis prod_cases3)
  note res = copy_ok [OF ok task_ok_mem [OF ok t(1)] t(2) env c]
  have out: "s' = s1" "tk_copy t' = tk_copy t1" "\<exists>m. tk_phase t' = Copied r m"
    using run c by (auto simp: process_copy_def split: option.splits)
  have "task_ok s1 t" using task_ok_mem [of ref sha s1 t] res t(1) by simp
  then have "task_ok s1 t'" by (rule task_ok_loc) (use res out in auto)
  then show ?thesis using put_task_ok res out(1) by blast
qed

lemma ended_copy_succeeded: "bc_Status (ended_copy env manual err target c) = CopySucceeded \<longleftrightarrow> err = None"
  by (auto simp: ended_copy_def Let_def split: option.splits)

lemma ended_copy_loc: "loc (ended_copy env manual err target c) = loc c"
  by (auto simp: ended_copy_def Let_def loc_def split: option.splits)

lemma process_end_ok:
  assumes ok: "replicas_ok ref sha s" and t: "t \<in> set (rs_tasks s)" "tk_phase t = Copied err mode"
    and run: "process_end env (verified_err env t err mode) t s = (s', t')"
  shows "replicas_ok ref sha (put_task t' s')"
proof (rule put_task_ok)
  define manual where "manual \<longleftrightarrow> bc_ID (tk_copy t) \<in> set (rs_manual s)"
  define e0 where "e0 = (if manual then Some ContextCanceled else verified_err env t err mode)"
  define target where "target = (case GetStorageTarget (pd_store (rs_db s)) (bc_StorageTargetID (tk_copy t)) of
      Inr tg \<Rightarrow> if tk_canceled t then None else Some tg | Inl _ \<Rightarrow> None)"
  have out: "t' = finished (ended_copy env manual e0 target (tk_copy t)) t"
     "s' = recalculateJobRun (re_now env) (bc_RunID (tk_copy t')) (bc_StorageTargetID (tk_copy t'))
        (UpdateReplicationAttempt (ended_attempt env manual e0 (tk_copy t') (tk_attempt t)) (snd (save_copy (tk_copy t') s)))"
    using run unfolding process_end_def Let_def manual_def [symmetric] e0_def [symmetric] target_def [symmetric] by (auto simp: finished_def)
  have c: "tk_copy t' = ended_copy env manual e0 target (tk_copy t)" "tk_phase t' = Done" "rs_tasks s' = rs_tasks s"
     "replicas_ok ref sha s' = replicas_ok ref sha (snd (save_copy (tk_copy t') s))" "e0 = None \<Longrightarrow> verified_err env t err mode = None"
    by (simp_all only: out(2) table_ok) (simp_all add: out(1) finished_def e0_def split: if_splits)
  have "held s x" if succ: "bc_Status (tk_copy t') = CopySucceeded" and x: "x \<in> set (copies_of s)" "bc_ID x = bc_ID (tk_copy t')" for x
  proof -
    have "verified_err env t err mode = None" using succ c by (simp add: ended_copy_succeeded)
    then have "err = None" by (auto simp: verified_err_def split: option.splits)
    then have h: "held s (tk_copy t)" using task_ok_mem [OF ok t(1)] t(2) by (auto simp: task_ok_def)
    have "bc_ID x = bc_ID (tk_copy t)" using x(2) c(1) ended_copy_loc by (simp add: loc_def)
    then have "loc x = loc (tk_copy t)" using task_ok_mem [OF ok t(1)] x(1) unfolding task_ok_def by blast
    then show ?thesis using h held_loc(1) by blast
  qed
  then show ok': "replicas_ok ref sha s'" unfolding c(4) by (intro save_copy_ok [OF ok]) blast
  have "task_ok s' t" using task_ok_mem [OF ok'] t(1) c(3) by simp
  then show "task_ok s' t'" by (rule task_ok_loc) (use c ended_copy_loc in auto)
qed

lemma release_ok: "replicas_ok ref sha s \<Longrightarrow> replicas_ok ref sha (release t s)"
proof -
  assume ok: "replicas_ok ref sha s"
  let ?s1 = "s\<lparr>rs_db := ReleaseCopyLease (bc_ID (tk_copy t)) (tk_worker t) (rs_db s)\<rparr>"
  have "replicas_ok ref sha ?s1"
    using ok by (auto simp: ReleaseCopyLease_def loc_def intro!: update_copies_ok)
  note ok1 = this
  have "task_ok ?s1 t'" if "t' \<in> set (rs_tasks s)" for t' using task_ok_mem [OF ok1] that by simp
  then show ?thesis by (intro replicas_ok_tasks [OF ok1]) (simp_all add: release_def Let_def)
qed

lemma renew_ok: "replicas_ok ref sha s \<Longrightarrow> replicas_ok ref sha (renew env t s)"
proof -
  assume ok: "replicas_ok ref sha s"
  obtain r db where r: "RenewCopyLease (re_now env) (bc_ID (tk_copy t)) (tk_worker t) copyLease (rs_db s) = (r, db)" by fastforce
  have "replicas_ok ref sha (s\<lparr>rs_db := db\<rparr>)"
    using r ok by (auto simp: RenewCopyLease_def loc_def split: if_splits intro!: update_copies_ok)
  then show ?thesis using r cancel_task_ok by (auto simp: renew_def Let_def split: sum.splits)
qed

lemma mapR_mem: "mapR f xs = Inr ys \<Longrightarrow> y \<in> set ys \<Longrightarrow> \<exists>x \<in> set xs. f x = Inr y"
  by (induction xs arbitrary: ys) (auto simp: result_simps)

lemma ClaimBackupCopies_mem:
  assumes "ClaimBackupCopies now worker limit lease db = (Inr cs, db')" "c \<in> set cs"
  shows "c \<in> set (st_copies (pd_store db'))"
proof -
  obtain ids where "mapR (GetBackupCopy (pd_store db')) ids = Inr cs"
    using assms(1) by (auto simp: ClaimBackupCopies_def Let_def split: if_splits)
  from mapR_mem [OF this assms(2)] obtain i where "GetBackupCopy (pd_store db') i = Inr c" by blast
  then show ?thesis by (auto simp: GetBackupCopy_def dest: query_mem)
qed

lemma claim_ok:
  assumes ok: "replicas_ok ref sha s" shows "replicas_ok ref sha (claim env worker s)"
proof -
  obtain r db where r: "ClaimBackupCopies (re_now env) worker 1 copyLease (rs_db s) = (r, db)" by fastforce
  have ok1: "replicas_ok ref sha (s\<lparr>rs_db := db\<rparr>)"
    using r ok by (auto simp: ClaimBackupCopies_def Let_def loc_def split: if_splits intro!: update_copies_ok)
  have "replicas_ok ref sha (enter c (s\<lparr>rs_db := db\<rparr>))" if "r = Inr (c # cs)" for c cs
  proof -
    have "c \<in> set (st_copies (pd_store db))" using ClaimBackupCopies_mem [OF r [unfolded that]] by simp
    then have "task_ok (s\<lparr>rs_db := db\<rparr>) \<lparr>tk_copy = c, tk_worker = w, tk_attempt = a, tk_phase = Entered, tk_canceled = False\<rparr>" for w a
    proof -
      have r1: "rows_ok (s\<lparr>rs_db := db\<rparr>)" using ok1 by (simp add: replicas_ok_def)
      have c: "c \<in> set (copies_of (s\<lparr>rs_db := db\<rparr>))" using \<open>c \<in> set (st_copies (pd_store db))\<close> by simp
      show ?thesis using rows_okD(1) [OF r1 c] rows_okD(3) [OF r1 c] unfolding task_ok_def task.simps by blast
    qed
    moreover have "task_ok (s\<lparr>rs_db := db\<rparr>) t" if "t \<in> set (rs_tasks s)" for t using task_ok_mem [OF ok1] that by simp
    ultimately show ?thesis by (intro replicas_ok_tasks [OF ok1]) (auto simp: enter_def split: if_splits)
  qed
  then show ?thesis using ok1 r by (auto simp: claim_def split: sum.splits list.splits)
qed

text \<open>Identifiers of runs are unique, those of new copies unique and new.\<close>

definition fresh_ids :: "repl_env \<Rightarrow> repl \<Rightarrow> bool" where
  "fresh_ids env s \<longleftrightarrow>
     distinct (map br_ID (runs_of (rs_db s))) \<and>
     (\<forall>r t r' t'. re_new_id env r t = re_new_id env r' t' \<longrightarrow> r = r' \<and> t = t') \<and>
     (\<forall>c \<in> set (copies_of s). \<forall>r t. bc_ID c = re_new_id env r t \<longrightarrow> bc_RunID c = r \<and> bc_StorageTargetID c = t) \<and>
     (\<forall>x \<in> set (rs_tasks s). \<forall>r t. bc_ID (tk_copy x) \<noteq> re_new_id env r t)"

definition queue_ok :: "(string \<rightharpoonup> bytes) \<Rightarrow> (bytes \<Rightarrow> string) \<Rightarrow> repl_env \<Rightarrow> BackupRun list \<Rightarrow> repl \<Rightarrow> bool" where
  "queue_ok ref sha env rs s \<longleftrightarrow> replicas_ok ref sha s \<and> fresh_ids env s \<and> runs_of (rs_db s) = rs"

lemma add_copy_ok:
  assumes ok: "replicas_ok ref sha s" and c: "placed s c" "bc_Status c \<noteq> CopySucceeded"
    and new: "bc_ID c \<notin> bc_ID ` set (copies_of s)" "\<forall>x \<in> set (rs_tasks s). bc_ID (tk_copy x) \<noteq> bc_ID c"
    and s': "s' = s\<lparr>rs_db := (rs_db s)\<lparr>pd_store := (pd_store (rs_db s))\<lparr>st_copies := copies_of s @ [c]\<rparr>\<rparr>\<rparr>"
  shows "replicas_ok ref sha s'"
proof -
  have same: "runs_of (rs_db s') = runs_of (rs_db s)" "rs_repos s' = rs_repos s" "rs_objects s' = rs_objects s" "rs_tasks s' = rs_tasks s"
    and copies: "set (copies_of s') = insert c (set (copies_of s))" by (simp_all add: s')
  have rows: "rows_ok s" using ok by (simp add: replicas_ok_def)
  have "placed s' x = placed s x" "held s' x = held s x" for x by (simp_all add: placed_def held_def same)
  then have "placed s' x \<and> (bc_Status x = CopySucceeded \<longrightarrow> held s' x) \<and> (\<forall>y \<in> set (copies_of s'). bc_ID y = bc_ID x \<longrightarrow> loc y = loc x)"
    if "x \<in> set (copies_of s')" for x
    using that rows_okD [OF rows] c new(1) unfolding copies by (metis image_eqI insertE)
  moreover have "task_ok s' t" if t: "t \<in> set (rs_tasks s')" for t
  proof (rule task_ok_mono [of s])
    show "task_ok s t" using task_ok_mem [OF ok] t same by simp
    show "held s' x" if "held s x" for x using that by (simp add: held_def same)
    show "\<exists>x \<in> set (copies_of s). loc x' = loc x" if "x' \<in> set (copies_of s')" "bc_ID x' = bc_ID (tk_copy t)" for x'
      using that copies new(2) t same(4) by (metis insertE)
  qed (rule same)
  moreover have "data_ok ref sha s'" using ok by (simp add: replicas_ok_def data_ok_def same)
  ultimately show ?thesis unfolding replicas_ok_def rows_ok_def by blast
qed

lemma fresh_save:
  assumes f: "fresh_ids env s" shows "fresh_ids env (snd (save_copy c s))"
proof -
  have "bc_RunID x = r \<and> bc_StorageTargetID x = t" if x: "x \<in> set (copies_of (snd (save_copy c s)))" "bc_ID x = re_new_id env r t" for x r t
  proof -
    obtain y where "y \<in> set (copies_of s)" "loc x = loc y" using save_copy_locs [OF x(1)] by blast
    then show ?thesis using f x(2) unfolding fresh_ids_def loc_def by (metis prod.inject)
  qed
  then show ?thesis using f unfolding fresh_ids_def save_copy_fields by metis
qed

lemma queue_save:
  assumes q: "queue_ok ref sha env rs s" and c: "c \<in> set (copies_of s)"
  shows "queue_ok ref sha env rs (snd (save_copy (requeued c) s))"
proof -
  have ok: "replicas_ok ref sha s" using q by (simp add: queue_ok_def)
  have r: "bc_ID (requeued c) = bc_ID c" "bc_Status (requeued c) = CopySucceeded \<Longrightarrow> bc_Status c = CopySucceeded"
    by (auto simp: requeued_def split: if_splits)
  have "replicas_ok ref sha (snd (save_copy (requeued c) s))"
    by (rule save_copy_ok [OF ok]) (use same_id_held [OF ok c] r in auto)
  then show ?thesis using q fresh_save by (simp add: queue_ok_def)
qed

lemma queue_add:
  assumes q: "queue_ok ref sha env rs s" and link: "link \<in> set rs" and add: "CreateBackupCopy (new_replica env link tid source) (rs_db s) = Inr (Some db)"
  shows "queue_ok ref sha env rs (s\<lparr>rs_db := db\<rparr>)"
proof -
  let ?c = "new_replica env link tid source"
  have ok: "replicas_ok ref sha s" and fr: "fresh_ids env s" and runs: "runs_of (rs_db s) = rs" using q by (simp_all add: queue_ok_def)
  have db: "db = (rs_db s)\<lparr>pd_store := (pd_store (rs_db s))\<lparr>st_copies := copies_of s @ [?c]\<rparr>\<rparr>"
    and none: "\<not> (\<exists>x \<in> set (copies_of s). bc_RunID x = br_ID link \<and> bc_StorageTargetID x = tid)"
    using add by (auto simp: CreateBackupCopy_def list_ex_iff new_replica_def split: if_splits)
  have c: "bc_ID ?c = re_new_id env (br_ID link) tid" "bc_RunID ?c = br_ID link" "bc_StorageTargetID ?c = tid" "bc_Status ?c = CopyPending"
    "bc_RepoPath ?c = br_RepoPath link" by (simp_all add: new_replica_def)
  have new: "bc_ID ?c \<notin> bc_ID ` set (copies_of s)" "\<forall>x \<in> set (rs_tasks s). bc_ID (tk_copy x) \<noteq> bc_ID ?c"
    using fr none unfolding c fresh_ids_def by (metis imageE, metis)
  have "placed s ?c" if "\<forall>r \<in> set rs. br_ID r = br_ID link \<longrightarrow> br_RepoPath r = br_RepoPath link"
    using that by (simp add: placed_def c runs)
  moreover have "\<forall>r \<in> set rs. br_ID r = br_ID link \<longrightarrow> br_RepoPath r = br_RepoPath link"
    using fr link unfolding fresh_ids_def runs by (metis distinct_map inj_onD)
  ultimately have "replicas_ok ref sha (s\<lparr>rs_db := db\<rparr>)" using add_copy_ok [OF ok _ _ new] c db by simp
  moreover have "fresh_ids env (s\<lparr>rs_db := db\<rparr>)"
  proof -
    have "set (copies_of (s\<lparr>rs_db := db\<rparr>)) = insert ?c (set (copies_of s))" "rs_tasks (s\<lparr>rs_db := db\<rparr>) = rs_tasks s"
      "runs_of (rs_db (s\<lparr>rs_db := db\<rparr>)) = runs_of (rs_db s)" by (simp_all add: db)
    then show ?thesis using fr c unfolding fresh_ids_def by (metis insertE)
  qed
  ultimately show ?thesis using runs db by (simp add: queue_ok_def)
qed

lemma queue_link_ok:
  assumes q: "queue_ok ref sha env rs s" and link: "link \<in> set rs"
  shows "queue_ok ref sha env rs (snd (queue_link env tid link s))"
proof (cases "GetBackupCopyForTarget (pd_store (rs_db s)) (br_ID link) tid")
  case (Inr c)
  then have "c \<in> set (copies_of s)" by (auto simp: GetBackupCopyForTarget_def dest: query_mem)
  then have "queue_ok ref sha env rs (snd (save_copy (requeued c) s))" by (rule queue_save [OF q])
  then show ?thesis using q by (auto simp: queue_link_def Inr split: prod.splits sum.splits)
next
  case (Inl e)
  show ?thesis
  proof (cases "\<not> br_Deleted link \<and> e = ErrNotFound \<and> (\<exists>source tg db. healthySource (pd_store (rs_db s)) link tid = Inr (source, tg) \<and>
      CreateBackupCopy (new_replica env link tid source) (rs_db s) = Inr (Some db))")
    case True
    then obtain source tg db where d: "healthySource (pd_store (rs_db s)) link tid = Inr (source, tg)"
      "CreateBackupCopy (new_replica env link tid source) (rs_db s) = Inr (Some db)" by blast
    have "queue_ok ref sha env rs (s\<lparr>rs_db := db\<rparr>)" by (rule queue_add [OF q link d(2)])
    then show ?thesis using True d by (simp add: queue_link_def Inl)
  next
    case False
    then have "snd (queue_link env tid link s) = s"
      by (auto simp: queue_link_def Inl split: sum.splits option.splits store_error.splits)
    then show ?thesis using q by simp
  qed
qed

lemma queue_links_ok:
  "queue_ok ref sha env rs s \<Longrightarrow> set links' \<subseteq> set rs \<Longrightarrow> queue_ok ref sha env rs (snd (queue_links env tid newest links' s))"
proof (induction links' arbitrary: s)
  case (Cons link links')
  obtain r s1 where l: "queue_link env tid link s = (r, s1)" by fastforce
  have s1: "queue_ok ref sha env rs s1" using queue_link_ok [OF Cons.prems(1), of link tid] Cons.prems(2) l by simp
  have "queue_ok ref sha env rs (snd (queue_links env tid newest links' s1))" using Cons.IH [OF s1] Cons.prems(2) by simp
  then show ?case using s1 l Cons.prems(1) by (auto split: prod.splits sum.splits)
qed simp

lemma queue_targets_ok:
  "queue_ok ref sha env rs s \<Longrightarrow> set chain \<subseteq> set rs \<Longrightarrow> queue_ok ref sha env rs (snd (queue_targets env run chain tids s))"
proof (induction tids arbitrary: s)
  case (Cons tid tids)
  obtain r s1 where l: "queue_links env tid (br_ChainIndex run) chain s = (r, s1)" by fastforce
  have s1: "queue_ok ref sha env rs s1" using queue_links_ok [OF Cons.prems, of tid "br_ChainIndex run"] l by simp
  have "queue_ok ref sha env rs (snd (queue_targets env run chain tids s))" "queue_ok ref sha env rs (snd (queue_targets env run chain tids s1))"
    using Cons.IH Cons.prems s1 by simp_all
  then show ?case using s1 l Cons.prems(1) by (auto split: prod.splits sum.splits)
qed simp

lemma QueueRun_ok:
  assumes ok: "replicas_ok ref sha s" "fresh_ids env s" shows "replicas_ok ref sha (snd (QueueRun env rid tids s))"
proof -
  have q: "queue_ok ref sha env (runs_of (rs_db s)) s" using ok by (simp add: queue_ok_def)
  have "snd (QueueRun env rid tids s) = s \<or>
      (\<exists>run chain. set chain \<subseteq> set (runs_of (rs_db s)) \<and> snd (QueueRun env rid tids s) = snd (queue_targets env run chain tids s))"
    by (auto simp: QueueRun_def ListBackupRuns_def page_def no_filter_def split: sum.splits if_splits)
       (metis (no_types, lifting) filter_is_subset set_sort)
  then show ?thesis using queue_targets_ok [OF q] ok by (auto simp: queue_ok_def)
qed

lemma Retry_ok: "replicas_ok ref sha s \<Longrightarrow> replicas_ok ref sha (snd (Retry cid s))"
  by (auto simp: Retry_def split: sum.splits intro: save_copy_ok)

lemma Cancel_ok:
  assumes ok: "replicas_ok ref sha s" shows "replicas_ok ref sha (snd (Cancel env cid s))"
proof -
  define s1 where "s1 = (if active s cid then cancel_task cid (s\<lparr>rs_manual := cid # rs_manual s\<rparr>) else s)"
  have "replicas_ok ref sha (s\<lparr>rs_manual := cid # rs_manual s\<rparr>)" using ok by (subst replicas_ok_cong [of _ s]) simp_all
  then have ok1: "replicas_ok ref sha s1" using ok cancel_task_ok by (simp add: s1_def)
  have saved: "replicas_ok ref sha (snd (save_copy (c\<lparr>bc_Status := CopyCanceled, bc_EndedAt := Some (re_now env), bc_NextRetryAt := None\<rparr>) s1))" for c
    by (rule save_copy_ok [OF ok1]) simp
  then have saved': "replicas_ok ref sha s2"
    if "save_copy (c\<lparr>bc_Status := CopyCanceled, bc_EndedAt := Some (re_now env), bc_NextRetryAt := None\<rparr>) s1 = (r, s2)" for c r s2
    using that by (metis snd_conv)
  show ?thesis
    unfolding Cancel_def Let_def s1_def [symmetric]
    using ok ok1 saved' by (auto split: sum.splits prod.splits)
qed

lemma restart_ok: "replicas_ok ref sha s \<Longrightarrow> replicas_ok ref sha ((RecoverInterruptedReplications now s)\<lparr>rs_tasks := [], rs_manual := []\<rparr>)"
proof -
  assume ok: "replicas_ok ref sha s"
  let ?s1 = "s\<lparr>rs_db := rs_db (RecoverInterruptedReplications now s)\<rparr>"
  have "replicas_ok ref sha ?s1" using ok by (auto simp: RecoverInterruptedReplications_def loc_def intro!: update_copies_ok)
  then show ?thesis by (rule replicas_ok_tasks) (simp_all add: RecoverInterruptedReplications_def)
qed

lemma the_task_mem: "the_task s cid = Some t \<Longrightarrow> t \<in> set (rs_tasks s)"
  by (auto simp: the_task_def find_Some_iff)

lemma process_step_ok:
  assumes ok: "replicas_ok ref sha s" and t: "t \<in> set (rs_tasks s)" and env: "sound_env ref sha (RunManifestKey ` paths s) env"
  shows "replicas_ok ref sha (process_step env t s)"
proof (cases "tk_phase t")
  case Entered
  then show ?thesis using process_start_ok [OF ok t, of env] by (auto simp: process_step_def split: prod.splits)
next
  case Running
  then show ?thesis using process_copy_ok [OF ok t Running env] by (auto simp: process_step_def split: prod.splits)
next
  case (Copied err mode)
  then show ?thesis using process_end_ok [OF ok t Copied, of env] by (auto simp: process_step_def split: prod.splits)
qed (use release_ok [OF ok] in \<open>simp add: process_step_def\<close>)

lemma repl_step_ok:
  assumes ok: "replicas_ok ref sha s" and env: "sound_env ref sha (RunManifestKey ` paths s) env"
    and ids: "\<And>rid tids. ev = RlQueue rid tids \<Longrightarrow> fresh_ids env s"
  shows "replicas_ok ref sha (repl_step env ev s)"
proof (cases ev)
  case (RlProcess cid)
  then show ?thesis using ok process_step_ok [OF ok the_task_mem env] by (auto split: option.splits)
next
  case (RlQueue rid tids)
  then show ?thesis using QueueRun_ok [OF ok ids [OF RlQueue]] by simp
qed (use ok Retry_ok [OF ok] Cancel_ok [OF ok] claim_ok [OF ok] renew_ok [OF ok] restart_ok [OF ok]
     in \<open>auto split: option.splits\<close>)

text \<open>The states the service reaches from one whose copies are as recorded. \<open>ref\<close> and \<open>sha\<close> do not change.\<close>

inductive repl_reachable :: "(string \<rightharpoonup> bytes) \<Rightarrow> (bytes \<Rightarrow> string) \<Rightarrow> repl \<Rightarrow> repl \<Rightarrow> bool" for ref sha s0 where
  start: "repl_reachable ref sha s0 s0"
| step: "repl_reachable ref sha s0 s \<Longrightarrow> sound_env ref sha (RunManifestKey ` paths s) env \<Longrightarrow>
    (\<And>rid tids. ev = RlQueue rid tids \<Longrightarrow> fresh_ids env s) \<Longrightarrow> repl_reachable ref sha s0 (repl_step env ev s)"

lemma repl_reachable_ok: "repl_reachable ref sha s0 s \<Longrightarrow> replicas_ok ref sha s0 \<Longrightarrow> replicas_ok ref sha s"
  by (induction rule: repl_reachable.induct) (auto intro: repl_step_ok)

section \<open>Results\<close>


section \<open>The lease\<close>

lemma claimed_rows:
  assumes run: "ClaimBackupCopies now worker limit lease db = (Inr cs, db')" and l: "0 < lease" and c: "c \<in> set cs" and x: "x \<in> set (st_copies (pd_store db'))" "bc_ID x = bc_ID c"
  shows "bc_Status x = CopyCopying" "bc_LockedUntil x = Some (now + lease)" "bc_LockedBy x = worker"
proof -
  define ids where "ids = map bc_ID (take (nat (if limit \<le> 0 then 1 else limit)) (sort_key bc_CreatedAt (filter (claimable db now) (st_copies (pd_store db)))))"
  define f where "f = (\<lambda>c :: BackupCopy. c\<lparr>bc_Status := CopyCopying, bc_LockedUntil := Some (now + lease), bc_LockedBy := worker\<rparr>)"
  have db': "db' = update_copies (\<lambda>c. bc_ID c \<in> set ids) f db" "mapR (GetBackupCopy (pd_store db')) ids = Inr cs"
    using run l unfolding ClaimBackupCopies_def Let_def ids_def [symmetric] f_def by (auto split: if_splits)
  from mapR_mem [OF db'(2) c] obtain i where "i \<in> set ids" "GetBackupCopy (pd_store db') i = Inr c" by blast
  then have "bc_ID x \<in> set ids" using x(2) by (auto simp: GetBackupCopy_def dest: query_mem)
  moreover obtain y where "y \<in> set (st_copies (pd_store db))" "x = (if bc_ID y \<in> set ids then f y else y)" using x(1) db'(1) by auto
  ultimately have "x = f y" by (auto simp: f_def split: if_splits)
  then show "bc_Status x = CopyCopying" "bc_LockedUntil x = Some (now + lease)" "bc_LockedBy x = worker" by (simp_all add: f_def)
qed

lemma claimed_were_due:
  assumes run: "ClaimBackupCopies now worker limit lease db = (Inr cs, db')" and c: "c \<in> set cs"
  obtains x where "x \<in> set (st_copies (pd_store db))" "bc_ID x = bc_ID c" "claimable db now x"
proof -
  define ids where "ids = map bc_ID (take (nat (if limit \<le> 0 then 1 else limit)) (sort_key bc_CreatedAt (filter (claimable db now) (st_copies (pd_store db)))))"
  have "mapR (GetBackupCopy (pd_store db')) ids = Inr cs"
    using run unfolding ClaimBackupCopies_def Let_def ids_def [symmetric] by (auto split: if_splits)
  from mapR_mem [OF this c] obtain i where i: "i \<in> set ids" "GetBackupCopy (pd_store db') i = Inr c" by blast
  then have "bc_ID c = i" by (auto simp: GetBackupCopy_def dest: query_mem)
  moreover from i(1) obtain x where "x \<in> set (st_copies (pd_store db))" "claimable db now x" "bc_ID x = i"
    by (auto simp: ids_def dest!: in_set_takeD)
  ultimately show ?thesis using that by blast
qed


section \<open>Protection of a run\<close>

text \<open>How a run is shown: protected when every required copy is ready, degraded when some copy is, and so on.\<close>

record run_protection =
  rp_CopyCount :: nat
  rp_HealthyCopyCount :: nat
  rp_Status :: string

definition EnrichRunCopies :: "store \<Rightarrow> string \<Rightarrow> store_error + run_protection" where
  "EnrichRunCopies db rid =
     bindR (ListBackupCopies db rid) (\<lambda>cs.
       let healthy = filter (\<lambda>c. Healthy (Some c)) cs;
           required = filter (\<lambda>c. bc_Required c \<and> bc_Status c \<noteq> CopyDeleted) cs;
           healthyRequired = filter (\<lambda>c. Healthy (Some c)) required
       in Inr \<lparr>rp_CopyCount = length cs, rp_HealthyCopyCount = length healthy,
               rp_Status = (if length required > 0 \<and> length healthyRequired = length required then ''protected''
                            else if length healthyRequired > 0 \<or> length healthy > 0 then ''degraded''
                            else if length required > 0 \<or> length cs > 0 then ''unavailable''
                            else ''unknown'')\<rparr>)"

lemma protected_complete:
  assumes p: "EnrichRunCopies db rid = Inr p" "rp_Status p = ''protected''" and c: "c \<in> set (st_copies db)" "bc_RunID c = rid" "bc_Required c" "bc_Status c \<noteq> CopyDeleted"
  shows "Healthy (Some c)"
proof -
  obtain cs where cs: "ListBackupCopies db rid = Inr cs" using p(1) by (auto simp: EnrichRunCopies_def result_simps)
  then have mem: "set cs = {c \<in> set (st_copies db). bc_RunID c = rid}" by (auto simp: ListBackupCopies_def split: option.splits)
  let ?req = "filter (\<lambda>c. bc_Required c \<and> bc_Status c \<noteq> CopyDeleted) cs"
  have "length (filter (\<lambda>c. Healthy (Some c)) ?req) = length ?req"
    using p cs by (auto simp: EnrichRunCopies_def result_simps Let_def split: if_splits)
  moreover have "c \<in> set ?req" using c mem by simp
  ultimately show ?thesis using length_filter_less [of c ?req "\<lambda>c. Healthy (Some c)"] by linarith
qed

section \<open>Concrete histories\<close>

fun repl_history :: "(repl_env \<times> repl_event) list \<Rightarrow> repl \<Rightarrow> repl" where
  "repl_history [] s = s"
| "repl_history ((env, ev) # steps) s = repl_history steps (repl_step env ev s)"

definition sample_sha :: "bytes \<Rightarrow> string" where
  "sample_sha bs = map (\<lambda>w. char_of (unat w)) bs"

definition sample_id :: "string \<Rightarrow> string \<Rightarrow> string" where
  "sample_id r t = CHR ''#'' # replicate (length r) CHR ''x'' @ CHR ''/'' # r @ t"

text \<open>Backends that store what they are given, at a time given in seconds.\<close>

definition sample_repl_env :: "int \<Rightarrow> repl_env" where
  "sample_repl_env sec =
     \<lparr>re_now = sec * 1000000000, re_new_id = sample_id, re_text = (\<lambda>_. ''error''), re_open = (\<lambda>_. None), re_list = (\<lambda>_ _. None),
      re_get = (\<lambda>_ _ _. None), re_put = (\<lambda>_ _ bs. (None, \<lambda>_. Some bs)), re_native = (\<lambda>_ _ _ _. (None, False, \<lambda>old. old)),
      re_sha = sample_sha, re_verifier = True, re_verify = (\<lambda>_ _ _. None), re_stopping = False\<rparr>"

definition full_run :: BackupRun where
  "full_run = (sample_run ''f'' BackupFull '''' 1)\<lparr>br_RepoPath := ''f/'', br_JobID := ''job'', br_JobRunID := ''jr0''\<rparr>"

definition next_run :: BackupRun where
  "next_run = (sample_run ''i'' BackupIncremental ''f'' 2)\<lparr>br_RepoPath := ''i/'', br_ChainIndex := 1, br_JobID := ''job'', br_JobRunID := ''jr1''\<rparr>"

definition sample_objects :: contents where
  "sample_objects = [(''f/run.json'', [1, 2]), (''f/disk.data'', [7, 8, 9]), (''i/run.json'', [3]), (''i/disk.data'', [4])]"

text \<open>A full copy and an increment in the repository \<open>t\<close>; the second repository \<open>u\<close> is empty. \<open>verify\<close> is the
  verification the job asks for, \<open>replicas\<close> the copies already recorded for \<open>u\<close>.\<close>

definition sample_repl :: "string \<Rightarrow> BackupCopy list \<Rightarrow> repl" where
  "sample_repl verify replicas =
     \<lparr>rs_db = \<lparr>pd_store = \<lparr>st_runs = [full_run, next_run],
        st_copies = [sample_copy ''c1'' ''f'' 1 ''f/'', sample_copy ''c2'' ''i'' 2 ''i/''] @ replicas,
        st_targets = [sample_target, sample_target\<lparr>st_ID := ''u'', st_Name := ''u''\<rparr>],
        st_run_err = (\<lambda>_. None), st_copy_err = (\<lambda>_. None), st_target_err = (\<lambda>_. None)\<rparr>,
        pd_transfers = [], pd_fails = (\<lambda>_ _. False), pd_touched = []\<rparr>,
      rs_repos = (\<lambda>tid. if tid = ''t'' then sample_objects else []), rs_objects = [], rs_attempts = [],
      rs_jobs = [\<lparr>bj_ID = ''job'', bj_StorageTargetIDs = [''t'', ''u''], bj_VerifyAfter = verify, bj_LastStatus = RunRunning\<rparr>],
      rs_jobruns = map (\<lambda>j. \<lparr>jr_ID = j, jr_Status = RunWaitingCopies, jr_ReplicaCount = 2, jr_SucceededCount = 0, jr_PartialCount = 0,
         jr_FailedCount = 0, jr_CanceledCount = 0, jr_EndedAt = None\<rparr>) [''jr0'', ''jr1''],
      rs_tasks = [], rs_manual = []\<rparr>"

definition replica_of :: "string \<Rightarrow> string \<Rightarrow> string \<Rightarrow> BackupCopyStatus \<Rightarrow> BackupCopy" where
  "replica_of cid rid path status = (sample_copy cid rid 3 path)\<lparr>bc_StorageTargetID := ''u'', bc_Role := CopyReplica, bc_Status := status\<rparr>"

definition at :: "int \<Rightarrow> repl_event \<Rightarrow> repl_env \<times> repl_event" where
  "at sec ev = (sample_repl_env sec, ev)"

definition whole_transfer :: "string \<Rightarrow> (repl_env \<times> repl_event) list" where
  "whole_transfer cid = [at 0 (RlClaim ''w1''), at 1 (RlProcess cid), at 2 (RlProcess cid), at 3 (RlProcess cid)]"

text \<open>What is recorded of the copies of a state.\<close>

definition ledger :: "repl \<Rightarrow> (string \<times> BackupCopyStatus \<times> int option \<times> string) list" where
  "ledger s = map (\<lambda>c. (bc_ID c, bc_Status c, bc_LockedUntil c, bc_LockedBy c)) (copies_of s)"

lemma sample_sha_inj: "sample_sha a = sample_sha b \<Longrightarrow> a = b"
proof -
  have "inj (\<lambda>w :: 8 word. char_of (unat w) :: char)"
  proof (rule injI)
    fix v w :: "8 word" assume "(char_of (unat v) :: char) = char_of (unat w)"
    then have "(of_char (char_of (unat v)) :: nat) = of_char (char_of (unat w))" by simp
    moreover have "unat v < 256" "unat w < 256" using unsigned_less [of v] unsigned_less [of w] by simp_all
    ultimately show "v = w" by (simp add: of_char_of unsigned_word_eqI)
  qed
  then show "sample_sha a = sample_sha b \<Longrightarrow> a = b" by (simp add: sample_sha_def)
qed

lemma sample_env_sound: "sound_env ref sample_sha M (sample_repl_env sec)"
  using sample_sha_inj by (auto simp: sound_env_def sample_repl_env_def sound_write_def genuine_def)

lemma sample_id_inj: "sample_id r t = sample_id r' t' \<Longrightarrow> r = r' \<and> t = t'"
proof -
  assume eq: "sample_id r t = sample_id r' t'"
  have len: "length (takeWhile (\<lambda>c. c = CHR ''x'') (tl (sample_id a b))) = length a" for a b
  proof -
    have "length (takeWhile (\<lambda>c. c = CHR ''x'') (replicate n CHR ''x'' @ CHR ''/'' # a @ b)) = n" for n by (induction n) simp_all
    then show ?thesis by (simp add: sample_id_def)
  qed
  have "length r = length r'" using len [of r t] len [of r' t'] eq by simp
  then show ?thesis using eq by (simp add: sample_id_def)
qed

lemma sample_repl_ok: "replicas_ok (map_of sample_objects) sample_sha (sample_repl verify [])"
proof -
  have "apart {''f/'', ''i/''}" by (simp add: apart_def under_def RunManifestKey_def)
  moreover have "intact (map_of sample_objects) p (rs_repos (sample_repl verify []) tid)" for p tid
    by (simp add: intact_def sample_repl_def)
  moreover have "contents_ok (map_of sample_objects) sample_sha (rs_repos (sample_repl verify []))"
    using sample_sha_inj by (auto simp: contents_ok_def sample_repl_def genuine_def split: if_splits)
  ultimately have "data_ok (map_of sample_objects) sample_sha (sample_repl verify [])"
    by (simp add: data_ok_def sample_repl_def full_run_def next_run_def)
  moreover have "rows_ok (sample_repl verify [])"
  proof -
    let ?s = "sample_repl verify []"
    have cs: "copies_of ?s = [sample_copy ''c1'' ''f'' 1 ''f/'', sample_copy ''c2'' ''i'' 2 ''i/'']" "rs_tasks ?s = []" by (simp_all add: sample_repl_def)
    have "placed ?s (sample_copy ''c1'' ''f'' 1 ''f/'')" "placed ?s (sample_copy ''c2'' ''i'' 2 ''i/'')"
      by (simp_all add: placed_def sample_repl_def full_run_def next_run_def sample_run_def sample_copy_def)
    moreover have "held ?s (sample_copy ''c1'' ''f'' 1 ''f/'')" "held ?s (sample_copy ''c2'' ''i'' 2 ''i/'')"
      by (simp_all add: held_def sample_repl_def sample_copy_def RunManifestKey_def sample_objects_def)
    moreover have "bc_ID (sample_copy ''c1'' ''f'' 1 ''f/'') \<noteq> bc_ID (sample_copy ''c2'' ''i'' 2 ''i/'')" by (simp add: sample_copy_def)
    moreover have "set (copies_of ?s) = {sample_copy ''c1'' ''f'' 1 ''f/'', sample_copy ''c2'' ''i'' 2 ''i/''}" by (simp add: cs)
    ultimately show ?thesis unfolding rows_ok_def cs(2) by (metis empty_iff insert_iff list.set(1))
  qed
  ultimately show ?thesis by (simp add: replicas_ok_def)
qed

lemma sample_fresh: "fresh_ids (sample_repl_env sec) (sample_repl verify [])"
proof -
  have new: "re_new_id (sample_repl_env sec) = sample_id" by (simp add: sample_repl_env_def)
  have "sample_id r t \<noteq> ''c1''" "sample_id r t \<noteq> ''c2''" for r t by (simp_all add: sample_id_def)
  moreover have "bc_ID ` set (copies_of (sample_repl verify [])) = {''c1'', ''c2''}" by (simp add: sample_repl_def sample_copy_def)
  moreover have "rs_tasks (sample_repl verify []) = []" "distinct (map br_ID (runs_of (rs_db (sample_repl verify []))))"
    by (simp_all add: sample_repl_def full_run_def next_run_def sample_run_def)
  ultimately show ?thesis unfolding fresh_ids_def new using sample_id_inj
    by (metis empty_iff image_eqI insert_iff list.set(1))
qed

lemma history_reachable:
  assumes "repl_reachable ref sample_sha s0 s" "\<forall>(env, ev) \<in> set steps. (\<exists>sec. env = sample_repl_env sec) \<and> (\<forall>rid tids. ev \<noteq> RlQueue rid tids)"
  shows "repl_reachable ref sample_sha s0 (repl_history steps s)"
  using assms
proof (induction steps arbitrary: s)
  case (Cons step steps)
  obtain env ev where e: "step = (env, ev)" by fastforce
  have "repl_reachable ref sample_sha s0 (repl_step env ev s)"
    using Cons.prems e sample_env_sound by (intro repl_reachable.step) auto
  then show ?case using Cons.IH Cons.prems(2) e by simp
qed simp

definition queued_sample :: repl where
  "queued_sample = repl_step (sample_repl_env 0) (RlQueue ''f'' [''u'']) (sample_repl '''' [])"

definition replicated_sample :: repl where
  "replicated_sample = repl_history (whole_transfer ''#x/fu'') queued_sample"

lemma replicated_reachable: "repl_reachable (map_of sample_objects) sample_sha (sample_repl '''' []) replicated_sample"
  unfolding replicated_sample_def queued_sample_def
  by (rule history_reachable, rule repl_reachable.step [OF repl_reachable.start sample_env_sound sample_fresh])
     (auto simp: whole_transfer_def at_def)

lemma replicated_rows:
  "list_ex (\<lambda>c. bc_RunID c = ''f'' \<and> bc_StorageTargetID c = ''u'' \<and> bc_Status c = CopySucceeded) (copies_of replicated_sample)"
  "list_ex (\<lambda>r. br_ID r = ''f'' \<and> br_RepoPath r = ''f/'') (runs_of (rs_db replicated_sample))"
  by code_simp+


definition sample_claim :: "int \<Rightarrow> string \<Rightarrow> prune_db \<Rightarrow> (store_error + BackupCopy list) \<times> prune_db" where
  "sample_claim now worker db = ClaimBackupCopies now worker 1 copyLease db"



text \<open>
  The deadline of an object lock does not survive the transfer that recorded it: it shares its column with the
  lease, which the worker clears when it leaves the copy. The copy of a locked repository ends without a deadline.\<close>

lemma lock_deadline_lost:
  "let s0 = sample_repl '''' [replica_of ''r1'' ''f'' ''f/'' CopyPending]; s1 = repl_history (whole_transfer ''r1'') s0; s2 = repl_history [at 4 (RlProcess ''r1'')] s1
   in list_all st_ObjectLockEnabled (st_targets (pd_store (rs_db s0))) \<and>
      drop 2 (ledger s1) = [(''r1'', CopySucceeded, Some (3000000000 + 7 * 86400000000000), ''w1'')] \<and>
      drop 2 (ledger s2) = [(''r1'', CopySucceeded, None, '''')]"
  by code_simp


end
