(* ===== verification/Scheduling.thy ===== *)
theory Scheduling
  imports Replication
begin

text \<open>
  Running backup jobs (\<open>internal/scheduler/scheduler.go\<close> with \<open>internal/store/backup_tasks.go\<close>,
  \<open>internal/store/backup_jobs.go\<close>, \<open>internal/store/backup_quality.go\<close> and \<open>internal/model/job_selector.go\<close>): the
  choice of the machines, the trigger of a job, the persistent queue of tasks with its leases, the workers,
  the close of a job run, the recovery at start and the schedule points missed while the service was down.

  The state holds the tables, and for every instance of the service what it keeps in memory: the jobs it
  takes for active, the triggers under way, the slots of each job, the tasks its workers hold. Triggers and
  workers are cut into steps at each statement another one can come in between. What a backup does to the
  tables of runs and copies is any change of them. The clock, the failures of the database, the fresh
  identifiers, the cron library and the regular expressions are the fields of a \<open>sched_env\<close>, one per step.
  A payload is kept as what its decoding gives. Alerts, events and logs have no modelled effect.
\<close>

section \<open>Records\<close>

datatype StorageMode = StorageModeCopy | StorageModeParallel | StorageModeSeparate | StorageModeOther string

text \<open>The columns of a job that the scheduler reads, beside those \<open>Replication\<close> has.\<close>

record Job = BackupJob +
  bj_Name :: string
  bj_Enabled :: bool
  bj_ServerID :: string
  bj_VMIDs :: "string list"
  bj_VMNameRegex :: string
  bj_ClusterIDs :: "string list"
  bj_Tags :: "string list"
  bj_ExcludeVMIDs :: "string list"
  bj_ExcludeDiskIDs :: "string list"
  bj_Type :: BackupType
  bj_FullEvery :: int
  bj_FallbackType :: "BackupType option"
  bj_LegacyIncrementalMode :: string
  bj_Schedule :: string
  bj_StorageMode :: StorageMode
  bj_ReplicationEnabled :: bool
  bj_ForceFullNext :: bool
  bj_ExportQcow2 :: bool
  bj_Priority :: int
  bj_Concurrency :: int
  bj_LastRunAt :: "int option"
  bj_NextRunAt :: "int option"

record JobRun = BackupJobRun +
  jr_JobID :: string
  jr_ServerID :: string
  jr_TriggeredBy :: string
  jr_ScheduledAt :: "int option"
  jr_MissedIntervals :: int
  jr_VMCount :: int
  jr_Error :: string
  jr_StartedAt :: "int option"
  jr_CreatedAt :: int

record VM =
  vm_ID :: string
  vm_ServerID :: string
  vm_Name :: string
  vm_ClusterID :: string
  vm_Tags :: "string list"

text \<open>A request for a backup: what the modelled components read of it. The options of consistency, limits, encryption and
  retention are carried along in the same way and read nowhere here.\<close>

record Request = RunRequest +
  rq_MirrorTargetIDs :: "string list"
  rq_VerifyAfter :: string
  rq_TriggeredBy :: string

record queuedBackupTask =
  qt_Request :: Request
  qt_Job :: Job

text \<open>A payload is no JSON, is JSON of another shape, or decodes.\<close>

datatype payload = NotJSON | OtherShape | Payload queuedBackupTask

datatype BackupTaskStatus = BackupTaskQueued | BackupTaskRunning | BackupTaskSucceeded | BackupTaskFailed

record BackupTask =
  bt_ID :: string
  bt_JobRunID :: string
  bt_JobID :: string
  bt_ServerID :: string
  bt_VMID :: string
  bt_Priority :: int
  bt_Concurrency :: int
  bt_Payload :: payload
  bt_Status :: BackupTaskStatus
  bt_LeaseOwner :: string
  bt_LeaseUntil :: "int option"
  bt_HeartbeatAt :: "int option"
  bt_Error :: string
  bt_CreatedAt :: int
  bt_UpdatedAt :: int

datatype sched_error =
    SchedStore store_error
  | NoStorage string
  | BadRegex string
  | NoSchedule
  | BadSchedule string
  | JobBusy string
  | BadPayload string

text \<open>A trigger has chosen the machines, has asked for open tasks, has marked the job, has its job run.\<close>

datatype trigger_phase = Resolved | Checked bool | Marked | Recorded

record trigger =
  tg_inst :: string
  tg_id :: string
  tg_job :: Job
  tg_run :: JobRun
  tg_vms :: "VM list"
  tg_phase :: trigger_phase

datatype work_phase =
    Claimed
  | Queueing queuedBackupTask
  | Slotted queuedBackupTask
  | Executing queuedBackupTask
  | Executed queuedBackupTask "string option"
  | Finished "Job option"
  | Closing "Job option"
  | Elected "Job option"
  | Released "Job option"

record work =
  wk_inst :: string
  wk_owner :: string
  wk_task :: BackupTask
  wk_phase :: work_phase

text \<open>\<open>ss_active\<close> and \<open>ss_slots\<close> are the maps of each instance; \<open>ss_started\<close> records, for the proofs only, each call of
  the backup engine by task, machine and worker.\<close>

record sched =
  ss_db :: prune_db
  ss_vms :: "VM list"
  ss_jobs :: "Job list"
  ss_jobruns :: "JobRun list"
  ss_queue :: "BackupTask list"
  ss_active :: "(string \<times> string) list"
  ss_slots :: "((string \<times> string) \<times> int) list"
  ss_triggers :: "trigger list"
  ss_work :: "work list"
  ss_started :: "(string \<times> string \<times> string) list"

text \<open>\<open>se_next\<close> parses a cron expression and answers the next point after a time, the zero time when there is none.\<close>

record sched_env =
  se_now :: int
  se_fails :: "string \<Rightarrow> string \<Rightarrow> bool"
  se_new_id :: "nat \<Rightarrow> string"
  se_next :: "string \<Rightarrow> (int \<Rightarrow> int) option"
  se_regex :: "string \<Rightarrow> (string \<Rightarrow> bool) option"

definition backupTaskLease :: int where "backupTaskLease = 2 * minute"

section \<open>Choosing machines\<close>

definition ListVMs :: "sched_env \<Rightarrow> string \<Rightarrow> sched \<Rightarrow> sched_error + VM list" where
  "ListVMs env sid s =
     (if se_fails env ''list vms'' sid then Inl (SchedStore (StoreFailed ''list vms''))
      else Inr (sort_key vm_Name (filter (\<lambda>v. sid = '''' \<or> vm_ServerID v = sid) (ss_vms s))))"

record VMSelector =
  sl_job :: Job
  sl_nameRE :: "(string \<Rightarrow> bool) option"

definition NewVMSelector :: "sched_env \<Rightarrow> Job \<Rightarrow> sched_error + VMSelector" where
  "NewVMSelector env job =
     (if bj_VMNameRegex job = '''' then Inr \<lparr>sl_job = job, sl_nameRE = None\<rparr>
      else case se_regex env (bj_VMNameRegex job) of
             None \<Rightarrow> Inl (BadRegex (bj_VMNameRegex job))
           | Some re \<Rightarrow> Inr \<lparr>sl_job = job, sl_nameRE = Some re\<rparr>)"

text \<open>The answer carries the reason shown in a preview.\<close>

definition Match :: "VMSelector \<Rightarrow> VM \<Rightarrow> bool \<times> string" where
  "Match sel vm =
     (let job = sl_job sel in
      if vm_ID vm \<in> set (bj_ExcludeVMIDs job) then (False, ''excluded'')
      else if bj_VMIDs job = [] \<and> sl_nameRE sel = None \<and> bj_ClusterIDs job = [] \<and> bj_Tags job = [] then (True, ''no selection'')
      else if vm_ID vm \<in> set (bj_VMIDs job) then (True, ''chosen'')
      else if vm_ClusterID vm \<in> set (bj_ClusterIDs job) then (True, ''cluster'')
      else if (case sl_nameRE sel of None \<Rightarrow> False | Some re \<Rightarrow> re (vm_Name vm)) then (True, ''name'')
      else if list_ex (\<lambda>tag. tag \<in> set (vm_Tags vm)) (bj_Tags job) then (True, ''tag'')
      else (False, ''no match''))"

definition resolveVMs :: "sched_env \<Rightarrow> Job \<Rightarrow> sched \<Rightarrow> sched_error + VM list" where
  "resolveVMs env job s =
     bindR (ListVMs env (bj_ServerID job) s)
       (\<lambda>vms. bindR (NewVMSelector env job) (\<lambda>sel. Inr (filter (\<lambda>vm. fst (Match sel vm)) vms)))"

section \<open>Jobs and job runs\<close>

definition NormalizeStorageMode :: "Job \<Rightarrow> Job" where
  "NormalizeStorageMode j =
     (let mode = (case bj_StorageMode j of
                    StorageModeOther _ \<Rightarrow> if bj_ReplicationEnabled j then StorageModeCopy else StorageModeSeparate
                  | m \<Rightarrow> m)
      in j\<lparr>bj_StorageMode := mode, bj_ReplicationEnabled := (mode = StorageModeCopy)\<rparr>)"

definition GetBackupJob :: "sched_env \<Rightarrow> string \<Rightarrow> sched \<Rightarrow> sched_error + Job" where
  "GetBackupJob env jid s =
     (if se_fails env ''get job'' jid then Inl (SchedStore (StoreFailed ''scan backup job''))
      else case find (\<lambda>j. bj_ID j = jid) (ss_jobs s) of
             None \<Rightarrow> Inl (SchedStore ErrNotFound) | Some j \<Rightarrow> Inr (NormalizeStorageMode j))"

definition ListBackupJobs :: "sched_env \<Rightarrow> string \<Rightarrow> sched \<Rightarrow> sched_error + Job list" where
  "ListBackupJobs env sid s =
     (if se_fails env ''list jobs'' sid then Inl (SchedStore (StoreFailed ''list backup jobs''))
      else Inr (map NormalizeStorageMode (sort_key bj_Name (filter (\<lambda>j. sid = '''' \<or> bj_ServerID j = sid) (ss_jobs s)))))"

definition SetJobSchedulingState :: "sched_env \<Rightarrow> string \<Rightarrow> int option \<Rightarrow> RunStatus \<Rightarrow> int option \<Rightarrow> sched \<Rightarrow> sched" where
  "SetJobSchedulingState env jid lastRun status nextRun s =
     (if se_fails env ''job state'' jid then s
      else s\<lparr>ss_jobs := map (\<lambda>j. if bj_ID j = jid
               then j\<lparr>bj_LastRunAt := lastRun, bj_LastStatus := status, bj_NextRunAt := nextRun\<rparr> else j) (ss_jobs s)\<rparr>)"

definition ClearForceFullNext :: "sched_env \<Rightarrow> string \<Rightarrow> sched \<Rightarrow> sched" where
  "ClearForceFullNext env jid s =
     (if se_fails env ''clear force'' jid then s
      else s\<lparr>ss_jobs := map (\<lambda>j. if bj_ID j = jid then j\<lparr>bj_ForceFullNext := False\<rparr> else j) (ss_jobs s)\<rparr>)"

definition CreateBackupJobRun :: "sched_env \<Rightarrow> JobRun \<Rightarrow> sched \<Rightarrow> (sched_error + JobRun) \<times> sched" where
  "CreateBackupJobRun env r s =
     (let r' = r\<lparr>jr_ID := (if jr_ID r = '''' then se_new_id env 0 else jr_ID r), jr_CreatedAt := se_now env\<rparr> in
      if se_fails env ''insert job run'' (jr_JobID r) then (Inl (SchedStore (StoreFailed ''insert backup job run'')), s)
      else (Inr r', s\<lparr>ss_jobruns := ss_jobruns s @ [r']\<rparr>))"

text \<open>The columns an update leaves alone are those that name the job, its origin and its creation.\<close>

definition SaveJobRun :: "sched_env \<Rightarrow> JobRun \<Rightarrow> sched \<Rightarrow> sched" where
  "SaveJobRun env r s =
     (if se_fails env ''update job run'' (jr_ID r) then s
      else s\<lparr>ss_jobruns := map (\<lambda>x. if jr_ID x = jr_ID r
               then r\<lparr>jr_JobID := jr_JobID x, jr_ServerID := jr_ServerID x, jr_TriggeredBy := jr_TriggeredBy x,
                      jr_ScheduledAt := jr_ScheduledAt x, jr_MissedIntervals := jr_MissedIntervals x,
                      jr_CreatedAt := jr_CreatedAt x\<rparr> else x) (ss_jobruns s)\<rparr>)"

definition GetBackupJobRun :: "sched_env \<Rightarrow> string \<Rightarrow> sched \<Rightarrow> sched_error + JobRun" where
  "GetBackupJobRun env rid s =
     (if se_fails env ''get job run'' rid then Inl (SchedStore (StoreFailed ''scan backup job run''))
      else case find (\<lambda>j. jr_ID j = rid) (ss_jobruns s) of None \<Rightarrow> Inl (SchedStore ErrNotFound) | Some j \<Rightarrow> Inr j)"

definition ClaimBackupJobRunFinalization :: "sched_env \<Rightarrow> string \<Rightarrow> sched \<Rightarrow> (sched_error + bool) \<times> sched" where
  "ClaimBackupJobRunFinalization env rid s =
     (if se_fails env ''claim finalization'' rid then (Inl (SchedStore (StoreFailed ''claim finalization'')), s)
      else (Inr (list_ex (\<lambda>j. jr_ID j = rid \<and> jr_Status j = RunRunning) (ss_jobruns s)),
            s\<lparr>ss_jobruns := map (\<lambda>j. if jr_ID j = rid \<and> jr_Status j = RunRunning then j\<lparr>jr_Status := RunWaitingCopies\<rparr> else j)
                 (ss_jobruns s)\<rparr>))"

text \<open>The runs in one of the statuses, newest first, as many as asked for.\<close>

definition ListBackupJobRuns :: "sched_env \<Rightarrow> RunStatus list \<Rightarrow> nat \<Rightarrow> sched \<Rightarrow> sched_error + JobRun list" where
  "ListBackupJobRuns env statuses limit s =
     (if se_fails env ''list job runs'' '''' then Inl (SchedStore (StoreFailed ''list backup job runs''))
      else Inr (take limit (sort_key (\<lambda>j. - jr_CreatedAt j) (filter (\<lambda>j. jr_Status j \<in> set statuses) (ss_jobruns s)))))"

section \<open>The queue of tasks\<close>

fun numbered :: "nat \<Rightarrow> 'a list \<Rightarrow> (nat \<times> 'a) list" where
  "numbered n [] = []"
| "numbered n (x # xs) = (n, x) # numbered (Suc n) xs"

text \<open>All tasks are inserted in one transaction. The callers leave the identifiers to the insertion.\<close>

definition EnqueueBackupTasks :: "sched_env \<Rightarrow> BackupTask list \<Rightarrow> sched \<Rightarrow> (sched_error + unit) \<times> sched" where
  "EnqueueBackupTasks env tasks s =
     (let rows = map (\<lambda>(n, t). t\<lparr>bt_ID := (if bt_ID t = '''' then se_new_id env n else bt_ID t),
                       bt_Concurrency := (if bt_Concurrency t \<le> 0 then 1 else bt_Concurrency t),
                       bt_Status := BackupTaskQueued, bt_LeaseOwner := '''', bt_LeaseUntil := None, bt_HeartbeatAt := None,
                       bt_Error := '''', bt_CreatedAt := se_now env, bt_UpdatedAt := se_now env\<rparr>) (numbered 0 tasks)
      in if list_ex (\<lambda>t. se_fails env ''insert task'' (bt_VMID t)) rows
         then (Inl (SchedStore (StoreFailed ''enqueue backup task'')), s)
         else (Inr (), s\<lparr>ss_queue := ss_queue s @ rows\<rparr>))"

definition update_queue :: "(BackupTask \<Rightarrow> bool) \<Rightarrow> (BackupTask \<Rightarrow> BackupTask) \<Rightarrow> sched \<Rightarrow> sched" where
  "update_queue p f s = s\<lparr>ss_queue := map (\<lambda>t. if p t then f t else t) (ss_queue s)\<rparr>"

definition takeable :: "int \<Rightarrow> BackupTask \<Rightarrow> bool" where
  "takeable now t \<longleftrightarrow> bt_Status t = BackupTaskQueued \<or> bt_Status t = BackupTaskRunning \<and> passed now (bt_LeaseUntil t)"

definition scanBackupTask :: "BackupTask \<Rightarrow> sched_error + BackupTask" where
  "scanBackupTask t = (if bt_Payload t = NotJSON then Inl (BadPayload (bt_ID t)) else Inr t)"

definition next_tasks :: "int \<Rightarrow> nat \<Rightarrow> BackupTask list \<Rightarrow> BackupTask list" where
  "next_tasks now limit q = take limit (sort_key (\<lambda>t. - bt_Priority t) (sort_key bt_CreatedAt (filter (takeable now) q)))"

text \<open>A row that cannot be read makes the whole call fail; the rows are claimed all the same.\<close>

definition ClaimBackupTasks :: "sched_env \<Rightarrow> string \<Rightarrow> int \<Rightarrow> int \<Rightarrow> sched \<Rightarrow> (sched_error + BackupTask list) \<times> sched" where
  "ClaimBackupTasks env owner limit lease s =
     (let limit' = (if limit \<le> 0 then 1 else limit); lease' = (if lease \<le> 0 then 2 * minute else lease); now = se_now env;
          ids = map bt_ID (next_tasks now (nat limit') (ss_queue s));
          s1 = update_queue (\<lambda>t. bt_ID t \<in> set ids)
                 (\<lambda>t. t\<lparr>bt_Status := BackupTaskRunning, bt_LeaseOwner := owner, bt_LeaseUntil := Some (now + lease'),
                        bt_HeartbeatAt := Some now, bt_UpdatedAt := now\<rparr>) s
      in if se_fails env ''claim tasks'' owner then (Inl (SchedStore (StoreFailed ''claim backup tasks'')), s)
         else (mapR scanBackupTask (filter (\<lambda>t. bt_ID t \<in> set ids) (ss_queue s1)), s1))"

definition leased :: "string \<Rightarrow> string \<Rightarrow> BackupTask \<Rightarrow> bool" where
  "leased tid owner t \<longleftrightarrow> bt_ID t = tid \<and> bt_Status t = BackupTaskRunning \<and> bt_LeaseOwner t = owner"

definition RenewBackupTaskLease :: "sched_env \<Rightarrow> string \<Rightarrow> string \<Rightarrow> int \<Rightarrow> sched \<Rightarrow> (sched_error + bool) \<times> sched" where
  "RenewBackupTaskLease env tid owner lease s =
     (if se_fails env ''renew task'' tid then (Inl (SchedStore (StoreFailed ''renew'')), s)
      else (Inr (list_ex (leased tid owner) (ss_queue s)),
            update_queue (leased tid owner)
              (\<lambda>t. t\<lparr>bt_LeaseUntil := Some (se_now env + lease), bt_HeartbeatAt := Some (se_now env), bt_UpdatedAt := se_now env\<rparr>) s))"

text \<open>The status of the row is not looked at: a closed row has no owner.\<close>

definition FinishBackupTask :: "sched_env \<Rightarrow> string \<Rightarrow> string \<Rightarrow> BackupTaskStatus \<Rightarrow> string \<Rightarrow> sched \<Rightarrow> (sched_error + unit) \<times> sched" where
  "FinishBackupTask env tid owner status msg s =
     (if se_fails env ''finish task'' tid then (Inl (SchedStore (StoreFailed ''finish'')), s)
      else if \<not> list_ex (\<lambda>t. bt_ID t = tid \<and> bt_LeaseOwner t = owner) (ss_queue s) then (Inl (SchedStore ErrNotFound), s)
      else (Inr (), update_queue (\<lambda>t. bt_ID t = tid \<and> bt_LeaseOwner t = owner)
              (\<lambda>t. t\<lparr>bt_Status := status, bt_Error := msg, bt_LeaseOwner := '''', bt_LeaseUntil := None, bt_UpdatedAt := se_now env\<rparr>) s))"

definition open_task :: "BackupTask \<Rightarrow> bool" where
  "open_task t \<longleftrightarrow> bt_Status t \<in> {BackupTaskQueued, BackupTaskRunning}"

definition HasOpenBackupTasks :: "sched_env \<Rightarrow> string \<Rightarrow> string \<Rightarrow> sched \<Rightarrow> sched_error + bool" where
  "HasOpenBackupTasks env jid rid s =
     (if se_fails env ''open tasks'' (jid @ rid) then Inl (SchedStore (StoreFailed ''open tasks''))
      else Inr (list_ex (\<lambda>t. open_task t \<and> (jid = '''' \<or> bt_JobID t = jid) \<and> (rid = '''' \<or> bt_JobRunID t = rid)) (ss_queue s)))"

definition GetBackupTaskForJobRun :: "sched_env \<Rightarrow> string \<Rightarrow> sched \<Rightarrow> sched_error + BackupTask" where
  "GetBackupTaskForJobRun env rid s =
     (if se_fails env ''task of run'' rid then Inl (SchedStore (StoreFailed ''task of run''))
      else case sort_key bt_CreatedAt (filter (\<lambda>t. bt_JobRunID t = rid) (ss_queue s)) of
             [] \<Rightarrow> Inl (SchedStore ErrNotFound) | t # _ \<Rightarrow> scanBackupTask t)"

section \<open>Marks of the jobs under way\<close>

definition JobActive :: "string \<Rightarrow> string \<Rightarrow> sched \<Rightarrow> bool" where
  "JobActive inst jid s \<longleftrightarrow> (inst, jid) \<in> set (ss_active s)"

definition claimJob :: "string \<Rightarrow> string \<Rightarrow> sched \<Rightarrow> bool \<times> sched" where
  "claimJob inst jid s = (if JobActive inst jid s then (False, s) else (True, s\<lparr>ss_active := (inst, jid) # ss_active s\<rparr>))"

definition releaseJob :: "string \<Rightarrow> string \<Rightarrow> sched \<Rightarrow> sched" where
  "releaseJob inst jid s = s\<lparr>ss_active := filter (\<lambda>p. p \<noteq> (inst, jid)) (ss_active s)\<rparr>"

definition markJob :: "string \<Rightarrow> string \<Rightarrow> sched \<Rightarrow> sched" where
  "markJob inst jid s = s\<lparr>ss_active := List.insert (inst, jid) (ss_active s)\<rparr>"

section \<open>Triggering a job\<close>

definition ValidateSchedule :: "sched_env \<Rightarrow> string \<Rightarrow> sched_error + int" where
  "ValidateSchedule env spec =
     (if spec = '''' then Inl NoSchedule
      else case se_next env spec of None \<Rightarrow> Inl (BadSchedule spec) | Some nxt \<Rightarrow> Inr (nxt (se_now env)))"

definition upcoming_run :: "sched_env \<Rightarrow> Job \<Rightarrow> int option" where
  "upcoming_run env job = (case ValidateSchedule env (bj_Schedule job) of Inl _ \<Rightarrow> None | Inr t \<Rightarrow> Some t)"

definition new_job_run :: "sched_env \<Rightarrow> Job \<Rightarrow> string \<Rightarrow> int option \<Rightarrow> VM list \<Rightarrow> JobRun" where
  "new_job_run env job by' at' vms =
     \<lparr>jr_ID = '''', jr_Status = RunRunning,
      jr_ReplicaCount = (if bj_Type job = BackupOVA then int (length vms) else int (length vms) * int (length (bj_StorageTargetIDs job))),
      jr_SucceededCount = 0, jr_PartialCount = 0, jr_FailedCount = 0, jr_CanceledCount = 0, jr_EndedAt = None,
      jr_JobID = bj_ID job, jr_ServerID = bj_ServerID job, jr_TriggeredBy = by', jr_ScheduledAt = at', jr_MissedIntervals = 0,
      jr_VMCount = int (length vms), jr_Error = '''', jr_StartedAt = Some (se_now env), jr_CreatedAt = 0\<rparr>"

text \<open>Each step answers what the call returns when it ends there.\<close>

type_synonym answer = "(sched_error + JobRun) option"

definition trigger_begin :: "sched_env \<Rightarrow> string \<Rightarrow> string \<Rightarrow> string \<Rightarrow> string \<Rightarrow> int option \<Rightarrow> sched \<Rightarrow> answer \<times> sched" where
  "trigger_begin env inst gid jid by' at' s =
     (case GetBackupJob env jid s of
        Inl e \<Rightarrow> (Some (Inl e), s)
      | Inr job \<Rightarrow>
          if bj_Type job \<noteq> BackupOVA \<and> bj_StorageTargetIDs job = [] then (Some (Inl (NoStorage (bj_Name job))), s)
          else case resolveVMs env job s of
            Inl e \<Rightarrow> (Some (Inl e), s)
          | Inr vms \<Rightarrow>
              (let run = new_job_run env job by' at' vms in
               if vms = []
               then (case CreateBackupJobRun env (run\<lparr>jr_Status := RunFailed, jr_Error := ''no machine selected'', jr_EndedAt := Some (se_now env)\<rparr>) s of
                       (r, s1) \<Rightarrow> (Some r, s1))
               else (None, s\<lparr>ss_triggers := ss_triggers s @
                       [\<lparr>tg_inst = inst, tg_id = gid, tg_job = job, tg_run = run, tg_vms = vms, tg_phase = Resolved\<rparr>]\<rparr>)))"

definition drop_trigger :: "string \<Rightarrow> sched \<Rightarrow> sched" where
  "drop_trigger gid s = s\<lparr>ss_triggers := filter (\<lambda>g. tg_id g \<noteq> gid) (ss_triggers s)\<rparr>"

definition set_trigger :: "trigger \<Rightarrow> sched \<Rightarrow> sched" where
  "set_trigger g s = s\<lparr>ss_triggers := map (\<lambda>x. if tg_id x = tg_id g then g else x) (ss_triggers s)\<rparr>"

definition trigger_check :: "sched_env \<Rightarrow> trigger \<Rightarrow> sched \<Rightarrow> answer \<times> sched" where
  "trigger_check env g s =
     (case HasOpenBackupTasks env (bj_ID (tg_job g)) '''' s of
        Inl e \<Rightarrow> (Some (Inl e), drop_trigger (tg_id g) s)
      | Inr busy \<Rightarrow> (None, set_trigger (g\<lparr>tg_phase := Checked busy\<rparr>) s))"

definition refused_run :: "JobRun \<Rightarrow> JobRun" where
  "refused_run r =
     (let r' = r\<lparr>jr_EndedAt := jr_StartedAt r, jr_Error := ''previous run still active''\<rparr> in
      if jr_ScheduledAt r \<noteq> None then r'\<lparr>jr_Status := RunMissed, jr_MissedIntervals := 1\<rparr> else r'\<lparr>jr_Status := RunFailed\<rparr>)"

text \<open>The mark is taken only when no task was open.\<close>

definition trigger_mark :: "sched_env \<Rightarrow> bool \<Rightarrow> trigger \<Rightarrow> sched \<Rightarrow> answer \<times> sched" where
  "trigger_mark env busy g s =
     (case (if busy then (False, s) else claimJob (tg_inst g) (bj_ID (tg_job g)) s) of
        (True, s1) \<Rightarrow> (None, set_trigger (g\<lparr>tg_phase := Marked\<rparr>) s1)
      | (False, s1) \<Rightarrow>
          (case CreateBackupJobRun env (refused_run (tg_run g)) s1 of
             (Inl e, s2) \<Rightarrow> (Some (Inl e), drop_trigger (tg_id g) s2)
           | (Inr _, s2) \<Rightarrow> (Some (Inl (JobBusy (bj_Name (tg_job g)))), drop_trigger (tg_id g) s2)))"

definition trigger_record :: "sched_env \<Rightarrow> trigger \<Rightarrow> sched \<Rightarrow> answer \<times> sched" where
  "trigger_record env g s =
     (case CreateBackupJobRun env (tg_run g) s of
        (Inl e, s1) \<Rightarrow> (Some (Inl e), drop_trigger (tg_id g) (releaseJob (tg_inst g) (bj_ID (tg_job g)) s1))
      | (Inr run, s1) \<Rightarrow>
          (None, set_trigger (g\<lparr>tg_run := run, tg_phase := Recorded\<rparr>)
             (SetJobSchedulingState env (bj_ID (tg_job g)) (jr_StartedAt run) RunRunning (upcoming_run env (tg_job g)) s1)))"

definition direct_targets :: "Job \<Rightarrow> string list \<times> string list" where
  "direct_targets job =
     (if bj_Type job = BackupOVA then ([''''], [])
      else case bj_StorageMode job of
             StorageModeCopy \<Rightarrow> (take 1 (bj_StorageTargetIDs job), [])
           | StorageModeParallel \<Rightarrow> (take 1 (bj_StorageTargetIDs job), drop 1 (bj_StorageTargetIDs job))
           | _ \<Rightarrow> (bj_StorageTargetIDs job, []))"

definition run_request :: "Job \<Rightarrow> JobRun \<Rightarrow> string \<Rightarrow> string list \<Rightarrow> VM \<Rightarrow> Request" where
  "run_request job run target mirrors vm =
     \<lparr>rq_TransferID = '''', rq_ServerID = bj_ServerID job, rq_VMID = vm_ID vm,
      rq_Type = (if bj_ForceFullNext job then BackupFull else bj_Type job), rq_JobRunID = jr_ID run, rq_JobID = bj_ID job,
      rq_FullEvery = bj_FullEvery job, rq_FallbackType = bj_FallbackType job, rq_LegacyIncrementalMode = bj_LegacyIncrementalMode job,
      rq_StorageTargetID = target, rq_ExcludeDiskIDs = bj_ExcludeDiskIDs job, rq_ExportQcow2 = bj_ExportQcow2 job,
      rq_MirrorTargetIDs = mirrors, rq_VerifyAfter = bj_VerifyAfter job, rq_TriggeredBy = jr_TriggeredBy run\<rparr>"

definition job_requests :: "Job \<Rightarrow> JobRun \<Rightarrow> VM list \<Rightarrow> Request list" where
  "job_requests job run vms =
     (case direct_targets job of (targets, mirrors) \<Rightarrow> concat (map (\<lambda>vm. map (\<lambda>t. run_request job run t mirrors vm) targets) vms))"

definition new_task :: "Job \<Rightarrow> JobRun \<Rightarrow> Request \<Rightarrow> BackupTask" where
  "new_task job run req =
     \<lparr>bt_ID = '''', bt_JobRunID = jr_ID run, bt_JobID = bj_ID job, bt_ServerID = rq_ServerID req, bt_VMID = rq_VMID req,
      bt_Priority = bj_Priority job, bt_Concurrency = max 1 (bj_Concurrency job), bt_Payload = Payload \<lparr>qt_Request = req, qt_Job = job\<rparr>,
      bt_Status = BackupTaskQueued, bt_LeaseOwner = '''', bt_LeaseUntil = None, bt_HeartbeatAt = None, bt_Error = '''',
      bt_CreatedAt = 0, bt_UpdatedAt = 0\<rparr>"

definition trigger_enqueue :: "sched_env \<Rightarrow> trigger \<Rightarrow> sched \<Rightarrow> answer \<times> sched" where
  "trigger_enqueue env g s =
     (let job = tg_job g; run = tg_run g in
      case EnqueueBackupTasks env (map (new_task job run) (job_requests job run (tg_vms g))) s of
        (Inr _, s1) \<Rightarrow> (Some (Inr run), drop_trigger (tg_id g) s1)
      | (Inl e, s1) \<Rightarrow>
          (Some (Inl e), drop_trigger (tg_id g)
             (SaveJobRun env (run\<lparr>jr_Status := RunFailed, jr_Error := ''enqueue failed'', jr_EndedAt := Some (se_now env)\<rparr>)
                (releaseJob (tg_inst g) (bj_ID job) s1))))"

definition trigger_step :: "sched_env \<Rightarrow> string \<Rightarrow> sched \<Rightarrow> answer \<times> sched" where
  "trigger_step env gid s =
     (case find (\<lambda>g. tg_id g = gid) (ss_triggers s) of
        None \<Rightarrow> (None, s)
      | Some g \<Rightarrow>
          (case tg_phase g of
             Resolved \<Rightarrow> trigger_check env g s
           | Checked busy \<Rightarrow> trigger_mark env busy g s
           | Marked \<Rightarrow> trigger_record env g s
           | Recorded \<Rightarrow> trigger_enqueue env g s))"

section \<open>Closing a job run\<close>

record tally =
  ty_succeeded :: int
  ty_partial :: int
  ty_failed :: int
  ty_canceled :: int
  ty_waiting :: int
  ty_primary :: bool

definition no_tally :: tally where
  "no_tally = \<lparr>ty_succeeded = 0, ty_partial = 0, ty_failed = 0, ty_canceled = 0, ty_waiting = 0, ty_primary = False\<rparr>"

definition tally_copy :: "BackupCopy \<Rightarrow> tally \<Rightarrow> tally" where
  "tally_copy c y =
     (let y1 = (case standing_of c of
                  Ready \<Rightarrow> y\<lparr>ty_succeeded := ty_succeeded y + 1\<rparr>
                | Stopped \<Rightarrow> y\<lparr>ty_canceled := ty_canceled y + 1\<rparr>
                | Waiting \<Rightarrow> y\<lparr>ty_waiting := ty_waiting y + 1\<rparr>
                | Lost \<Rightarrow> y\<lparr>ty_failed := ty_failed y + 1\<rparr>)
      in if bc_Role c = CopyPrimary \<and> \<not> Healthy (Some c) then y1\<lparr>ty_primary := True\<rparr> else y1)"

definition counts_for :: "Job \<Rightarrow> BackupCopy \<Rightarrow> bool" where
  "counts_for job c \<longleftrightarrow> bc_Required c \<and> bc_StorageTargetID c \<in> set (bj_StorageTargetIDs job)"

definition tally_run :: "prune_db \<Rightarrow> Job \<Rightarrow> BackupRun \<Rightarrow> tally \<Rightarrow> tally" where
  "tally_run db job r y =
     (if bj_StorageMode job \<in> {StorageModeCopy, StorageModeParallel}
      then case ListBackupCopies (pd_store db) (br_ID r) of
             Inl _ \<Rightarrow> y\<lparr>ty_failed := ty_failed y + int (length (bj_StorageTargetIDs job))\<rparr>
           | Inr cs \<Rightarrow> fold tally_copy (filter (counts_for job) cs) y
      else case br_Status r of
             RunSucceeded \<Rightarrow> y\<lparr>ty_succeeded := ty_succeeded y + 1\<rparr>
           | RunPartial \<Rightarrow> y\<lparr>ty_partial := ty_partial y + 1\<rparr>
           | RunCanceled \<Rightarrow> y\<lparr>ty_canceled := ty_canceled y + 1\<rparr>
           | _ \<Rightarrow> y\<lparr>ty_failed := ty_failed y + 1\<rparr>)"

definition accounted :: "tally \<Rightarrow> int" where
  "accounted y = ty_succeeded y + ty_partial y + ty_failed y + ty_canceled y + ty_waiting y"

text \<open>What no run accounts for has failed.\<close>

definition missing_failed :: "int \<Rightarrow> tally \<Rightarrow> tally" where
  "missing_failed replicas y = (if accounted y < replicas then y\<lparr>ty_failed := ty_failed y + (replicas - accounted y)\<rparr> else y)"

definition finish_status :: "int \<Rightarrow> tally \<Rightarrow> RunStatus" where
  "finish_status replicas y =
     (if ty_primary y then RunFailed
      else if ty_waiting y > 0 then RunWaitingCopies
      else if ty_failed y > 0 \<and> ty_succeeded y = 0 \<and> ty_partial y = 0 then RunFailed
      else if ty_failed y > 0 \<or> ty_partial y > 0 then RunPartial
      else if ty_canceled y = replicas then RunCanceled
      else if ty_canceled y > 0 then RunPartial
      else RunSucceeded)"

definition totalled_run :: "sched_env \<Rightarrow> tally \<Rightarrow> JobRun \<Rightarrow> JobRun" where
  "totalled_run env y r =
     (let status = finish_status (jr_ReplicaCount r) y
      in r\<lparr>jr_SucceededCount := ty_succeeded y, jr_PartialCount := ty_partial y, jr_FailedCount := ty_failed y,
           jr_CanceledCount := ty_canceled y, jr_Status := status,
           jr_EndedAt := (if Terminal status then Some (se_now env) else None)\<rparr>)"

definition finishJob :: "sched_env \<Rightarrow> Job \<Rightarrow> JobRun \<Rightarrow> sched \<Rightarrow> sched" where
  "finishJob env job run s =
     (case ListBackupRuns (ss_db s) (no_filter\<lparr>rf_JobRunID := jr_ID run, rf_IncludeDeleted := True\<rparr>) of
        Inl _ \<Rightarrow> s
      | Inr runs \<Rightarrow>
          (let y = missing_failed (jr_ReplicaCount run) (fold (tally_run (ss_db s) job) runs no_tally);
               run' = totalled_run env y run;
               s1 = SaveJobRun env run' s;
               s2 = (if bj_ForceFullNext job \<and> \<not> ty_primary y then ClearForceFullNext env (bj_ID job) s1 else s1)
           in SetJobSchedulingState env (bj_ID job) (Some (se_now env)) (jr_Status run') (upcoming_run env job) s2))"

section \<open>Workers\<close>

definition set_work :: "work \<Rightarrow> sched \<Rightarrow> sched" where
  "set_work w s = s\<lparr>ss_work := map (\<lambda>x. if wk_owner x = wk_owner w then w else x) (ss_work s)\<rparr>"

definition drop_work :: "work \<Rightarrow> sched \<Rightarrow> sched" where
  "drop_work w s = s\<lparr>ss_work := filter (\<lambda>x. wk_owner x \<noteq> wk_owner w) (ss_work s)\<rparr>"

definition free_worker :: "string \<Rightarrow> sched \<Rightarrow> bool" where
  "free_worker owner s \<longleftrightarrow> \<not> list_ex (\<lambda>w. wk_owner w = owner) (ss_work s)"

definition worker_claim :: "sched_env \<Rightarrow> string \<Rightarrow> string \<Rightarrow> sched \<Rightarrow> sched" where
  "worker_claim env inst owner s =
     (if \<not> free_worker owner s then s
      else case ClaimBackupTasks env owner 1 backupTaskLease s of
             (Inr (t # _), s1) \<Rightarrow> s1\<lparr>ss_work := ss_work s1 @ [\<lparr>wk_inst = inst, wk_owner = owner, wk_task = t, wk_phase = Claimed\<rparr>]\<rparr>
           | (_, s1) \<Rightarrow> s1)"

text \<open>A payload that cannot be decoded closes the task without marking the job.\<close>

definition work_decode :: "sched_env \<Rightarrow> work \<Rightarrow> sched \<Rightarrow> sched" where
  "work_decode env w s =
     (case bt_Payload (wk_task w) of
        Payload q \<Rightarrow> set_work (w\<lparr>wk_phase := Queueing q\<rparr>) (markJob (wk_inst w) (bt_JobID (wk_task w)) s)
      | _ \<Rightarrow> set_work (w\<lparr>wk_phase := Finished None\<rparr>)
              (snd (FinishBackupTask env (bt_ID (wk_task w)) (wk_owner w) BackupTaskFailed ''payload'' s)))"

fun holds_slot :: "work_phase \<Rightarrow> bool" where
  "holds_slot Claimed = False"
| "holds_slot (Queueing q) = False"
| "holds_slot (Slotted q) = True"
| "holds_slot (Executing q) = True"
| "holds_slot (Executed q e) = True"
| "holds_slot (Finished j) = (j \<noteq> None)"
| "holds_slot (Closing j) = (j \<noteq> None)"
| "holds_slot (Elected j) = (j \<noteq> None)"
| "holds_slot (Released j) = (j \<noteq> None)"

definition slots_used :: "string \<Rightarrow> string \<Rightarrow> sched \<Rightarrow> int" where
  "slots_used inst jid s = int (length (filter (\<lambda>w. wk_inst w = inst \<and> bt_JobID (wk_task w) = jid \<and> holds_slot (wk_phase w)) (ss_work s)))"

text \<open>The channel of a job keeps the size the first task gave it. Nothing happens while it is full.\<close>

definition acquireTaskSlot :: "work \<Rightarrow> queuedBackupTask \<Rightarrow> sched \<Rightarrow> sched" where
  "acquireTaskSlot w q s =
     (let k = (wk_inst w, bt_JobID (wk_task w)); c = bt_Concurrency (wk_task w);
          size' = (case map_of (ss_slots s) k of Some n \<Rightarrow> n | None \<Rightarrow> if c \<le> 0 then 1 else c);
          s1 = (if map_of (ss_slots s) k = None then s\<lparr>ss_slots := (k, size') # ss_slots s\<rparr> else s)
      in if slots_used (fst k) (snd k) s < size' then set_work (w\<lparr>wk_phase := Slotted q\<rparr>) s1 else s1)"

definition work_start :: "work \<Rightarrow> queuedBackupTask \<Rightarrow> sched \<Rightarrow> sched" where
  "work_start w q s =
     set_work (w\<lparr>wk_phase := Executing q\<rparr>)
       (s\<lparr>ss_started := ss_started s @ [(bt_ID (wk_task w), rq_VMID (qt_Request q), wk_owner w)]\<rparr>)"

definition work_finish :: "sched_env \<Rightarrow> work \<Rightarrow> queuedBackupTask \<Rightarrow> string option \<Rightarrow> sched \<Rightarrow> sched" where
  "work_finish env w q err s =
     (case FinishBackupTask env (bt_ID (wk_task w)) (wk_owner w)
             (if err = None then BackupTaskSucceeded else BackupTaskFailed) (case err of None \<Rightarrow> '''' | Some m \<Rightarrow> m) s of
        (Inl _, s1) \<Rightarrow> drop_work w s1
      | (Inr _, s1) \<Rightarrow> set_work (w\<lparr>wk_phase := Finished (Some (qt_Job q))\<rparr>) s1)"

text \<open>The close of the group, \<open>maybeFinalizeBackupTaskGroup\<close>: the question for open tasks, the election, the release of
  the job, the totals.\<close>

definition work_open :: "sched_env \<Rightarrow> work \<Rightarrow> Job option \<Rightarrow> sched \<Rightarrow> sched" where
  "work_open env w j s =
     (case HasOpenBackupTasks env '''' (bt_JobRunID (wk_task w)) s of
        Inr False \<Rightarrow> set_work (w\<lparr>wk_phase := Closing j\<rparr>) s
      | _ \<Rightarrow> drop_work w s)"

definition work_elect :: "sched_env \<Rightarrow> work \<Rightarrow> Job option \<Rightarrow> sched \<Rightarrow> sched" where
  "work_elect env w j s =
     (case ClaimBackupJobRunFinalization env (bt_JobRunID (wk_task w)) s of
        (Inr True, s1) \<Rightarrow> set_work (w\<lparr>wk_phase := Elected j\<rparr>) s1
      | (_, s1) \<Rightarrow> drop_work w s1)"

definition work_release :: "work \<Rightarrow> Job option \<Rightarrow> sched \<Rightarrow> sched" where
  "work_release w j s = set_work (w\<lparr>wk_phase := Released j\<rparr>) (releaseJob (wk_inst w) (bt_JobID (wk_task w)) s)"

definition work_total :: "sched_env \<Rightarrow> work \<Rightarrow> Job option \<Rightarrow> sched \<Rightarrow> sched" where
  "work_total env w j s =
     drop_work w
       (case (case j of Some job \<Rightarrow> Inr job | None \<Rightarrow> GetBackupJob env (bt_JobID (wk_task w)) s) of
          Inl _ \<Rightarrow> s
        | Inr job \<Rightarrow>
            (case GetBackupJobRun env (bt_JobRunID (wk_task w)) s of Inl _ \<Rightarrow> s | Inr run \<Rightarrow> finishJob env job run s))"

text \<open>The end of \<open>executeOne\<close>: its error, and the tables of runs and copies as the backup and everything after it left them.\<close>

definition work_end :: "string \<Rightarrow> string option \<Rightarrow> prune_db \<Rightarrow> sched \<Rightarrow> sched" where
  "work_end owner err db s =
     (case find (\<lambda>w. wk_owner w = owner) (ss_work s) of
        None \<Rightarrow> s
      | Some w \<Rightarrow>
          (case wk_phase w of Executing q \<Rightarrow> set_work (w\<lparr>wk_phase := Executed q err\<rparr>) (s\<lparr>ss_db := db\<rparr>) | _ \<Rightarrow> s))"

text \<open>The end of the context: a worker waiting for a slot gives up, one waiting for the limit of backups fails its task.\<close>

definition work_stop :: "string \<Rightarrow> sched \<Rightarrow> sched" where
  "work_stop owner s =
     (case find (\<lambda>w. wk_owner w = owner) (ss_work s) of
        None \<Rightarrow> s
      | Some w \<Rightarrow>
          (case wk_phase w of
             Queueing q \<Rightarrow> drop_work w s
           | Slotted q \<Rightarrow> set_work (w\<lparr>wk_phase := Executed q (Some ''context canceled'')\<rparr>) s
           | _ \<Rightarrow> s))"

text \<open>The heartbeat runs from the slot to the end of the backup.\<close>

definition work_renew :: "sched_env \<Rightarrow> string \<Rightarrow> sched \<Rightarrow> sched" where
  "work_renew env owner s =
     (case find (\<lambda>w. wk_owner w = owner) (ss_work s) of
        None \<Rightarrow> s
      | Some w \<Rightarrow>
          (case wk_phase w of
             Slotted q \<Rightarrow> snd (RenewBackupTaskLease env (bt_ID (wk_task w)) owner backupTaskLease s)
           | Executing q \<Rightarrow> snd (RenewBackupTaskLease env (bt_ID (wk_task w)) owner backupTaskLease s)
           | _ \<Rightarrow> s))"

definition work_step :: "sched_env \<Rightarrow> string \<Rightarrow> sched \<Rightarrow> sched" where
  "work_step env owner s =
     (case find (\<lambda>w. wk_owner w = owner) (ss_work s) of
        None \<Rightarrow> s
      | Some w \<Rightarrow>
          (case wk_phase w of
             Claimed \<Rightarrow> work_decode env w s
           | Queueing q \<Rightarrow> acquireTaskSlot w q s
           | Slotted q \<Rightarrow> work_start w q s
           | Executing q \<Rightarrow> s
           | Executed q err \<Rightarrow> work_finish env w q err s
           | Finished j \<Rightarrow> work_open env w j s
           | Closing j \<Rightarrow> work_elect env w j s
           | Elected j \<Rightarrow> work_release w j s
           | Released j \<Rightarrow> work_total env w j s))"

section \<open>Start\<close>

definition forget :: "string \<Rightarrow> sched \<Rightarrow> sched" where
  "forget inst s =
     s\<lparr>ss_active := filter (\<lambda>p. fst p \<noteq> inst) (ss_active s), ss_slots := filter (\<lambda>p. fst (fst p) \<noteq> inst) (ss_slots s),
       ss_triggers := filter (\<lambda>g. tg_inst g \<noteq> inst) (ss_triggers s), ss_work := filter (\<lambda>w. wk_inst w \<noteq> inst) (ss_work s)\<rparr>"

fun recover_runs :: "sched_env \<Rightarrow> string \<Rightarrow> JobRun list \<Rightarrow> sched \<Rightarrow> sched_error option \<times> sched" where
  "recover_runs env inst [] s = (None, s)"
| "recover_runs env inst (r # rs) s =
     (case HasOpenBackupTasks env '''' (jr_ID r) s of
        Inl e \<Rightarrow> (Some e, s)
      | Inr True \<Rightarrow> recover_runs env inst rs s
      | Inr False \<Rightarrow>
          (case (if jr_Status r = RunRunning then ClaimBackupJobRunFinalization env (jr_ID r) s else (Inr True, s)) of
             (Inl e, s1) \<Rightarrow> (Some e, s1)
           | (Inr False, s1) \<Rightarrow> recover_runs env inst rs s1
           | (Inr True, s1) \<Rightarrow>
               (case GetBackupTaskForJobRun env (jr_ID r) s1 of
                  Inl _ \<Rightarrow> recover_runs env inst rs s1
                | Inr t \<Rightarrow>
                    (case (case bt_Payload t of Payload q \<Rightarrow> Inr (qt_Job q) | _ \<Rightarrow> GetBackupJob env (jr_JobID r) s1) of
                       Inl e \<Rightarrow> (Some e, s1)
                     | Inr job \<Rightarrow> recover_runs env inst rs (finishJob env job r (releaseJob inst (jr_JobID r) s1))))))"

definition recoverTaskFinalizations :: "sched_env \<Rightarrow> string \<Rightarrow> sched \<Rightarrow> sched_error option \<times> sched" where
  "recoverTaskFinalizations env inst s =
     (case ListBackupJobRuns env [RunRunning, RunWaitingCopies] 1000 s of
        Inl e \<Rightarrow> (Some e, s) | Inr runs \<Rightarrow> recover_runs env inst runs s)"

text \<open>The points of a schedule from the one that was due to now, at most a hundred thousand: their number and the last.\<close>

function missed_points :: "(int \<Rightarrow> int) \<Rightarrow> int \<Rightarrow> int \<Rightarrow> int \<Rightarrow> int \<Rightarrow> int \<times> int" where
  "missed_points nxt now point n latest =
     (if point \<le> now then (if n + 1 \<ge> 100000 then (n + 1, point) else missed_points nxt now (nxt point) (n + 1) point)
      else (n, latest))"
  by pat_completeness auto
termination by (relation "measure (\<lambda>(nxt, now, point, n, latest). nat (100000 - n))") auto

declare missed_points.simps [simp del]

definition missed_run :: "sched_env \<Rightarrow> Job \<Rightarrow> VM list \<Rightarrow> int \<Rightarrow> int \<Rightarrow> JobRun" where
  "missed_run env job vms n latest =
     (new_job_run env job ''scheduler'' (Some latest) vms)\<lparr>jr_ID := '''', jr_Status := RunMissed, jr_MissedIntervals := n,
        jr_ReplicaCount := int (length vms) * int (length (bj_StorageTargetIDs job)), jr_StartedAt := None,
        jr_Error := ''service was down'', jr_EndedAt := Some (se_now env)\<rparr>"

definition due :: "sched_env \<Rightarrow> Job \<Rightarrow> (int \<times> (int \<Rightarrow> int)) option" where
  "due env job =
     (if \<not> bj_Enabled job \<or> bj_Schedule job = '''' then None
      else case bj_NextRunAt job of
             None \<Rightarrow> None
           | Some t \<Rightarrow> if t > se_now env then None else map_option (\<lambda>nxt. (t, nxt)) (se_next env (bj_Schedule job)))"

text \<open>The answer lists the jobs to catch up with, each with its last missed point. A selection that fails counts no machine.\<close>

fun recover_missed :: "sched_env \<Rightarrow> Job list \<Rightarrow> sched \<Rightarrow> (sched_error + (string \<times> int) list) \<times> sched" where
  "recover_missed env [] s = (Inr [], s)"
| "recover_missed env (job # jobs) s =
     (case due env job of
        None \<Rightarrow> recover_missed env jobs s
      | Some (first, nxt) \<Rightarrow>
          (case missed_points nxt (se_now env) first 0 first of (n, latest) \<Rightarrow>
             (if n = 0 then recover_missed env jobs s
              else case CreateBackupJobRun env
                          (missed_run env job (case resolveVMs env job s of Inl _ \<Rightarrow> [] | Inr vms \<Rightarrow> vms) n latest) s of
                (Inl e, s1) \<Rightarrow> (Inl e, s1)
              | (Inr _, s1) \<Rightarrow>
                  (case recover_missed env jobs s1 of
                     (Inl e, s2) \<Rightarrow> (Inl e, s2) | (Inr out, s2) \<Rightarrow> (Inr ((bj_ID job, latest) # out), s2)))))"

definition recoverMissedSchedules :: "sched_env \<Rightarrow> sched \<Rightarrow> (sched_error + (string \<times> int) list) \<times> sched" where
  "recoverMissedSchedules env s =
     (case ListBackupJobs env '''' s of Inl e \<Rightarrow> (Inl e, s) | Inr jobs \<Rightarrow> recover_missed env jobs s)"

text \<open>Rebuilding the cron entries of the machine jobs, which also stores the time of the next run.\<close>

definition reload_job :: "sched_env \<Rightarrow> Job \<Rightarrow> string list \<times> sched \<Rightarrow> string list \<times> sched" where
  "reload_job env job acc =
     (if \<not> bj_Enabled job \<or> bj_Schedule job = '''' then acc
      else case ValidateSchedule env (bj_Schedule job) of
             Inl _ \<Rightarrow> acc
           | Inr t \<Rightarrow> (fst acc @ [bj_ID job],
                        SetJobSchedulingState env (bj_ID job) (bj_LastRunAt job) (bj_LastStatus job) (Some t) (snd acc)))"

definition reload :: "sched_env \<Rightarrow> sched \<Rightarrow> (sched_error + string list) \<times> sched" where
  "reload env s =
     (case ListBackupJobs env '''' s of
        Inl e \<Rightarrow> (Inl e, s)
      | Inr jobs \<Rightarrow> (case fold (reload_job env) jobs ([], s) of (entries, s1) \<Rightarrow> (Inr entries, s1)))"

text \<open>Start of an instance whose memory is empty; the answer is what is to be caught up with.\<close>

definition Start :: "sched_env \<Rightarrow> string \<Rightarrow> bool \<Rightarrow> sched \<Rightarrow> (sched_error + (string \<times> int) list) \<times> sched" where
  "Start env inst enabled s =
     (case recoverTaskFinalizations env inst (forget inst s) of
        (Some e, s1) \<Rightarrow> (Inl e, s1)
      | (None, s1) \<Rightarrow>
          (case (if enabled then recoverMissedSchedules env s1 else (Inr [], s1)) of
             (Inl e, s2) \<Rightarrow> (Inl e, s2)
           | (Inr out, s2) \<Rightarrow> (case reload env s2 of (Inl e, s3) \<Rightarrow> (Inl e, s3) | (Inr _, s3) \<Rightarrow> (Inr out, s3))))"

section \<open>The service\<close>

text \<open>What the replication sees of the tables, and what its recount of a job run writes back.\<close>

definition repl_view :: "sched \<Rightarrow> repl" where
  "repl_view s =
     \<lparr>rs_db = ss_db s, rs_repos = (\<lambda>_. []), rs_objects = [], rs_attempts = [], rs_jobs = map BackupJob.truncate (ss_jobs s),
      rs_jobruns = map BackupJobRun.truncate (ss_jobruns s), rs_tasks = [], rs_manual = []\<rparr>"

definition recount :: "sched_env \<Rightarrow> string \<Rightarrow> string \<Rightarrow> sched \<Rightarrow> sched" where
  "recount env rid changed s =
     (let v = recalculateJobRun (se_now env) rid changed (repl_view s) in
      s\<lparr>ss_jobruns := map (\<lambda>(j, b). BackupJobRun.extend b (BackupJobRun.more j)) (zip (ss_jobruns s) (rs_jobruns v)),
        ss_jobs := map (\<lambda>(j, b). BackupJob.extend b (BackupJob.more j)) (zip (ss_jobs s) (rs_jobs v))\<rparr>)"

datatype sched_event =
    TgBegin string string string string "int option"
  | TgStep string
  | WkClaim string string
  | WkStep string
  | WkEnd string "string option" prune_db
  | WkStop string
  | WkRenew string
  | ScRecount string string
  | ScTables prune_db "Job list" "VM list"
  | ScStart string bool

fun sched_step :: "sched_env \<Rightarrow> sched_event \<Rightarrow> sched \<Rightarrow> sched" where
  "sched_step env (TgBegin inst gid jid by' at') s =
     (if list_ex (\<lambda>g. tg_id g = gid) (ss_triggers s) then s else snd (trigger_begin env inst gid jid by' at' s))"
| "sched_step env (TgStep gid) s = snd (trigger_step env gid s)"
| "sched_step env (WkClaim inst owner) s = worker_claim env inst owner s"
| "sched_step env (WkStep owner) s = work_step env owner s"
| "sched_step env (WkEnd owner err db) s = work_end owner err db s"
| "sched_step env (WkStop owner) s = work_stop owner s"
| "sched_step env (WkRenew owner) s = work_renew env owner s"
| "sched_step env (ScRecount rid changed) s = recount env rid changed s"
| "sched_step env (ScTables db jobs vms) s = s\<lparr>ss_db := db, ss_jobs := jobs, ss_vms := vms\<rparr>"
| "sched_step env (ScStart inst enabled) s = snd (Start env inst enabled s)"

fun sched_history :: "(sched_env \<times> sched_event) list \<Rightarrow> sched \<Rightarrow> sched" where
  "sched_history [] s = s"
| "sched_history ((env, ev) # rest) s = sched_history rest (sched_step env ev s)"

section \<open>What is under way for a job\<close>

definition running :: "sched \<Rightarrow> string \<Rightarrow> bool" where
  "running s rid \<longleftrightarrow> (\<exists>j \<in> set (ss_jobruns s). jr_ID j = rid \<and> jr_Status j = RunRunning)"

text \<open>Runs with open tasks; runs some worker is about to close; triggers that hold the mark; workers elected to close.\<close>

definition open_runs :: "sched \<Rightarrow> string \<Rightarrow> string set" where
  "open_runs s jid = {bt_JobRunID t | t. t \<in> set (ss_queue s) \<and> open_task t \<and> bt_JobID t = jid}"

fun is_closing :: "work_phase \<Rightarrow> bool" where
  "is_closing (Finished j) = True"
| "is_closing (Closing j) = True"
| "is_closing _ = False"

fun is_elected :: "work_phase \<Rightarrow> bool" where
  "is_elected (Elected j) = True"
| "is_elected _ = False"

definition closing_runs :: "sched \<Rightarrow> string \<Rightarrow> string set" where
  "closing_runs s jid = {bt_JobRunID (wk_task w) | w. w \<in> set (ss_work s) \<and> is_closing (wk_phase w) \<and> bt_JobID (wk_task w) = jid \<and>
     running s (bt_JobRunID (wk_task w))}"

definition holders :: "sched \<Rightarrow> string \<Rightarrow> string set" where
  "holders s jid = {tg_id g | g. g \<in> set (ss_triggers s) \<and> tg_phase g \<in> {Marked, Recorded} \<and> bj_ID (tg_job g) = jid}"

definition electors :: "sched \<Rightarrow> string \<Rightarrow> string set" where
  "electors s jid = {wk_owner w | w. w \<in> set (ss_work s) \<and> is_elected (wk_phase w) \<and> bt_JobID (wk_task w) = jid}"

definition cleared :: "sched \<Rightarrow> string \<Rightarrow> bool" where
  "cleared s jid \<longleftrightarrow> (\<exists>g \<in> set (ss_triggers s). tg_phase g = Checked False \<and> bj_ID (tg_job g) = jid)"

definition marked :: "sched \<Rightarrow> string \<Rightarrow> bool" where
  "marked s jid \<longleftrightarrow> jid \<in> snd ` set (ss_active s)"

text \<open>At most one thing is under way for a job, and where it could be disturbed the job is marked.\<close>

definition one_at_a_time :: "sched \<Rightarrow> string \<Rightarrow> bool" where
  "one_at_a_time s jid \<longleftrightarrow>
     (\<forall>a \<in> open_runs s jid \<union> closing_runs s jid. \<forall>b \<in> open_runs s jid \<union> closing_runs s jid. a = b) \<and>
     (\<forall>a \<in> holders s jid. \<forall>b \<in> holders s jid. a = b) \<and>
     (\<forall>a \<in> electors s jid. \<forall>b \<in> electors s jid. a = b) \<and>
     (holders s jid \<noteq> {} \<longrightarrow> open_runs s jid = {} \<and> closing_runs s jid = {} \<and> electors s jid = {}) \<and>
     (electors s jid \<noteq> {} \<longrightarrow> open_runs s jid = {} \<and> closing_runs s jid = {}) \<and>
     (holders s jid \<noteq> {} \<or> electors s jid \<noteq> {} \<or> closing_runs s jid \<noteq> {} \<or> cleared s jid \<and> open_runs s jid \<noteq> {} \<longrightarrow> marked s jid)"

text \<open>The rows of the queue, the workers and the triggers of the one instance fit together.\<close>

definition row_of :: "sched \<Rightarrow> work \<Rightarrow> BackupTask \<Rightarrow> bool" where
  "row_of s w t \<longleftrightarrow> t \<in> set (ss_queue s) \<and> bt_ID t = bt_ID (wk_task w)"

definition tasks_ok :: "BackupTask list \<Rightarrow> bool" where
  "tasks_ok q \<longleftrightarrow> distinct (map bt_ID q) \<and>
     (\<forall>t \<in> set q. (\<exists>p. bt_Payload t = Payload p) \<and> (bt_LeaseOwner t \<noteq> '''' \<longrightarrow> bt_Status t = BackupTaskRunning) \<and> bt_JobRunID t \<noteq> '''' \<and>
        (\<forall>u \<in> set q. bt_JobRunID u = bt_JobRunID t \<longrightarrow> bt_JobID u = bt_JobID t))"

fun past_mark :: "work_phase \<Rightarrow> bool" where
  "past_mark (Queueing q) = True"
| "past_mark (Slotted q) = True"
| "past_mark (Executing q) = True"
| "past_mark (Executed q e) = True"
| "past_mark _ = False"

definition work_ok :: "string \<Rightarrow> sched \<Rightarrow> work \<Rightarrow> bool" where
  "work_ok inst s w \<longleftrightarrow> wk_inst w = inst \<and> wk_owner w \<noteq> '''' \<and> (\<exists>p. bt_Payload (wk_task w) = Payload p) \<and>
     (\<exists>t. row_of s w t) \<and>
     (\<forall>t. row_of s w t \<longrightarrow> bt_JobRunID t = bt_JobRunID (wk_task w) \<and> bt_JobID t = bt_JobID (wk_task w) \<and>
        (past_mark (wk_phase w) \<and> bt_LeaseOwner t = wk_owner w \<longrightarrow> marked s (bt_JobID t))) \<and>
     ((\<exists>j. wk_phase w = Closing j) \<longrightarrow> bt_JobRunID (wk_task w) \<notin> open_runs s (bt_JobID (wk_task w)))"

definition trigger_ok :: "string \<Rightarrow> sched \<Rightarrow> trigger \<Rightarrow> bool" where
  "trigger_ok inst s g \<longleftrightarrow> tg_inst g = inst \<and>
     (if tg_phase g = Recorded then jr_ID (tg_run g) \<noteq> '''' \<and> (\<forall>t \<in> set (ss_queue s). bt_JobRunID t \<noteq> jr_ID (tg_run g)) else jr_ID (tg_run g) = '''')"

definition sched_ok :: "string \<Rightarrow> sched \<Rightarrow> bool" where
  "sched_ok inst s \<longleftrightarrow> tasks_ok (ss_queue s) \<and> distinct (map wk_owner (ss_work s)) \<and> distinct (map tg_id (ss_triggers s)) \<and>
     (\<forall>w \<in> set (ss_work s). work_ok inst s w) \<and> (\<forall>g \<in> set (ss_triggers s). trigger_ok inst s g) \<and>
     (\<forall>g \<in> set (ss_triggers s). \<forall>h \<in> set (ss_triggers s). tg_phase g = Recorded \<and> tg_phase h = Recorded \<and> jr_ID (tg_run g) = jr_ID (tg_run h) \<longrightarrow> g = h) \<and>
     fst ` set (ss_active s) \<subseteq> {inst} \<and> (\<forall>jid. one_at_a_time s jid)"

lemmas under_way_defs = open_runs_def closing_runs_def holders_def electors_def cleared_def marked_def

lemma one_at_a_timeD:
  assumes "one_at_a_time s jid"
  shows "a \<in> open_runs s jid \<union> closing_runs s jid \<Longrightarrow> b \<in> open_runs s jid \<union> closing_runs s jid \<Longrightarrow> a = b"
    and "a \<in> holders s jid \<Longrightarrow> b \<in> holders s jid \<Longrightarrow> a = b" and "a \<in> electors s jid \<Longrightarrow> b \<in> electors s jid \<Longrightarrow> a = b"
    and "holders s jid \<noteq> {} \<Longrightarrow> open_runs s jid = {} \<and> closing_runs s jid = {} \<and> electors s jid = {} \<and> marked s jid"
    and "electors s jid \<noteq> {} \<Longrightarrow> open_runs s jid = {} \<and> closing_runs s jid = {} \<and> holders s jid = {} \<and> marked s jid"
    and "closing_runs s jid \<noteq> {} \<Longrightarrow> marked s jid" and "cleared s jid \<Longrightarrow> open_runs s jid \<noteq> {} \<Longrightarrow> marked s jid"
  using assms unfolding one_at_a_time_def by blast+

lemma one_at_a_timeI:
  assumes "\<And>a b. a \<in> open_runs s jid \<union> closing_runs s jid \<Longrightarrow> b \<in> open_runs s jid \<union> closing_runs s jid \<Longrightarrow> a = b"
    "\<And>a b. a \<in> holders s jid \<Longrightarrow> b \<in> holders s jid \<Longrightarrow> a = b" "\<And>a b. a \<in> electors s jid \<Longrightarrow> b \<in> electors s jid \<Longrightarrow> a = b"
    "holders s jid \<noteq> {} \<Longrightarrow> open_runs s jid = {} \<and> closing_runs s jid = {} \<and> electors s jid = {} \<and> marked s jid"
    "electors s jid \<noteq> {} \<Longrightarrow> open_runs s jid = {} \<and> closing_runs s jid = {} \<and> marked s jid"
    "closing_runs s jid \<noteq> {} \<Longrightarrow> marked s jid" "cleared s jid \<Longrightarrow> open_runs s jid \<noteq> {} \<Longrightarrow> marked s jid"
  shows "one_at_a_time s jid"
proof -
  have u: "\<forall>a \<in> open_runs s jid \<union> closing_runs s jid. \<forall>b \<in> open_runs s jid \<union> closing_runs s jid. a = b"
    "\<forall>a \<in> holders s jid. \<forall>b \<in> holders s jid. a = b" "\<forall>a \<in> electors s jid. \<forall>b \<in> electors s jid. a = b"
    using assms(1-3) by blast+
  show ?thesis unfolding one_at_a_time_def by (intro conjI u impI) (use assms(4-7) in auto)
qed

lemma one_at_a_time_mono:
  assumes ok: "one_at_a_time s jid" and o: "open_runs s' jid \<subseteq> open_runs s jid" and c: "closing_runs s' jid \<subseteq> closing_runs s jid \<union> open_runs s jid"
    and cm: "closing_runs s' jid \<noteq> {} \<Longrightarrow> marked s' jid" and h: "holders s' jid \<subseteq> holders s jid" and e: "electors s' jid \<subseteq> electors s jid"
    and cl: "cleared s' jid \<Longrightarrow> cleared s jid \<or> open_runs s' jid = {}" and m: "marked s jid \<Longrightarrow> marked s' jid"
  shows "one_at_a_time s' jid"
proof (rule one_at_a_timeI)
  note d = one_at_a_timeD [OF ok]
  show "a = b" if "a \<in> open_runs s' jid \<union> closing_runs s' jid" "b \<in> open_runs s' jid \<union> closing_runs s' jid" for a b
    by (rule d(1)) (use that o c in auto)
  show "a = b" if "a \<in> holders s' jid" "b \<in> holders s' jid" for a b by (rule d(2)) (use that h in auto)
  show "a = b" if "a \<in> electors s' jid" "b \<in> electors s' jid" for a b by (rule d(3)) (use that e in auto)
  show "open_runs s' jid = {} \<and> closing_runs s' jid = {} \<and> electors s' jid = {} \<and> marked s' jid" if "holders s' jid \<noteq> {}"
  proof -
    have "open_runs s jid = {} \<and> closing_runs s jid = {} \<and> electors s jid = {} \<and> marked s jid" by (rule d(4)) (use that h in auto)
    then show ?thesis using o c e m by auto
  qed
  show "open_runs s' jid = {} \<and> closing_runs s' jid = {} \<and> marked s' jid" if "electors s' jid \<noteq> {}"
  proof -
    have "open_runs s jid = {} \<and> closing_runs s jid = {} \<and> holders s jid = {} \<and> marked s jid" by (rule d(5)) (use that e in auto)
    then show ?thesis using o c m by auto
  qed
  show "marked s' jid" if "closing_runs s' jid \<noteq> {}" using that by (rule cm)
  show "marked s' jid" if "cleared s' jid" "open_runs s' jid \<noteq> {}"
  proof -
    have "cleared s jid" "open_runs s jid \<noteq> {}" using that cl o by auto
    then show ?thesis using d(7) m by blast
  qed
qed

lemma sched_okD:
  assumes "sched_ok inst s"
  shows "tasks_ok (ss_queue s)" "distinct (map wk_owner (ss_work s))" "distinct (map tg_id (ss_triggers s))"
    "w \<in> set (ss_work s) \<Longrightarrow> work_ok inst s w" "g \<in> set (ss_triggers s) \<Longrightarrow> trigger_ok inst s g" "fst ` set (ss_active s) \<subseteq> {inst}"
    "one_at_a_time s jid" "p \<in> set (ss_active s) \<Longrightarrow> fst p = inst"
    "g \<in> set (ss_triggers s) \<Longrightarrow> h \<in> set (ss_triggers s) \<Longrightarrow> tg_phase g = Recorded \<Longrightarrow> tg_phase h = Recorded \<Longrightarrow> jr_ID (tg_run g) = jr_ID (tg_run h) \<Longrightarrow> g = h"
  using assms unfolding sched_ok_def by blast+

lemma tasks_okD:
  assumes "tasks_ok q" "t \<in> set q"
  shows "\<exists>p. bt_Payload t = Payload p" "bt_LeaseOwner t \<noteq> '''' \<Longrightarrow> bt_Status t = BackupTaskRunning" "bt_JobRunID t \<noteq> ''''"
    "u \<in> set q \<Longrightarrow> bt_JobRunID u = bt_JobRunID t \<Longrightarrow> bt_JobID u = bt_JobID t" "u \<in> set q \<Longrightarrow> bt_ID u = bt_ID t \<Longrightarrow> u = t"
  using assms unfolding tasks_ok_def by (blast, blast, blast, blast) (meson assms eq_key_imp_eq_value inj_onD distinct_map tasks_ok_def)

lemma active_marked: "sched_ok inst s \<Longrightarrow> JobActive inst jid s \<longleftrightarrow> marked s jid"
  by (force simp: JobActive_def marked_def dest: sched_okD(8))

lemma work_row:
  assumes "sched_ok inst s" "w \<in> set (ss_work s)"
  obtains t where "t \<in> set (ss_queue s)" "bt_ID t = bt_ID (wk_task w)" "bt_JobRunID t = bt_JobRunID (wk_task w)" "bt_JobID t = bt_JobID (wk_task w)"
  using sched_okD(4) [OF assms] unfolding work_ok_def row_of_def by blast

lemma work_ok_mono:
  assumes "work_ok inst s w" "\<exists>t. row_of s' w t"
    "\<And>t. row_of s' w t \<Longrightarrow> \<exists>t0. row_of s w t0 \<and> bt_JobRunID t0 = bt_JobRunID t \<and> bt_JobID t0 = bt_JobID t \<and> (bt_LeaseOwner t = wk_owner w \<longrightarrow> past_mark (wk_phase w) \<longrightarrow> bt_LeaseOwner t0 = wk_owner w)"
    "\<And>t. row_of s w t \<Longrightarrow> bt_LeaseOwner t = wk_owner w \<Longrightarrow> past_mark (wk_phase w) \<Longrightarrow> marked s (bt_JobID t) \<Longrightarrow> marked s' (bt_JobID t)"
    "(\<exists>j. wk_phase w = Closing j) \<Longrightarrow> bt_JobRunID (wk_task w) \<notin> open_runs s (bt_JobID (wk_task w)) \<Longrightarrow> bt_JobRunID (wk_task w) \<notin> open_runs s' (bt_JobID (wk_task w))"
  shows "work_ok inst s' w"
proof -
  have a: "bt_JobRunID t = bt_JobRunID (wk_task w) \<and> bt_JobID t = bt_JobID (wk_task w) \<and> (past_mark (wk_phase w) \<and> bt_LeaseOwner t = wk_owner w \<longrightarrow> marked s' (bt_JobID t))"
    if "row_of s' w t" for t
  proof -
    from assms(3) [OF that] obtain t0 where t0: "row_of s w t0" "bt_JobRunID t0 = bt_JobRunID t" "bt_JobID t0 = bt_JobID t"
      "bt_LeaseOwner t = wk_owner w \<longrightarrow> past_mark (wk_phase w) \<longrightarrow> bt_LeaseOwner t0 = wk_owner w" by blast
    moreover have "bt_JobRunID t0 = bt_JobRunID (wk_task w)" "bt_JobID t0 = bt_JobID (wk_task w)"
      "past_mark (wk_phase w) \<and> bt_LeaseOwner t0 = wk_owner w \<longrightarrow> marked s (bt_JobID t0)" using assms(1) t0(1) unfolding work_ok_def by blast+
    ultimately show ?thesis using assms(4) [OF t0(1)] by metis
  qed
  show ?thesis using assms(1) unfolding work_ok_def
    by (intro conjI assms(2) allI impI a [THEN conjunct1] a [THEN conjunct2, THEN conjunct1] assms(5)) (use a in blast)+
qed

section \<open>How the steps change it\<close>

lemma sched_okI:
  assumes "tasks_ok (ss_queue s)" "distinct (map wk_owner (ss_work s))" "distinct (map tg_id (ss_triggers s))"
    "\<And>w. w \<in> set (ss_work s) \<Longrightarrow> work_ok inst s w" "\<And>g. g \<in> set (ss_triggers s) \<Longrightarrow> trigger_ok inst s g"
    "\<And>g h. g \<in> set (ss_triggers s) \<Longrightarrow> h \<in> set (ss_triggers s) \<Longrightarrow> tg_phase g = Recorded \<Longrightarrow> tg_phase h = Recorded \<Longrightarrow> jr_ID (tg_run g) = jr_ID (tg_run h) \<Longrightarrow> g = h"
    "fst ` set (ss_active s) \<subseteq> {inst}" "\<And>jid. one_at_a_time s jid"
  shows "sched_ok inst s"
  unfolding sched_ok_def using assms(1,2,3,7) by (intro conjI ballI allI impI assms(4,5,6,8)) auto

lemma row_of_cong: "ss_queue s' = ss_queue s \<Longrightarrow> row_of s' w t \<longleftrightarrow> row_of s w t"
  by (simp add: row_of_def)

lemma closing_runs_cong:
  assumes ok: "sched_ok inst s" and w: "ss_work s' = ss_work s" and r: "\<And>rid. running s' rid \<Longrightarrow> running s rid \<or> rid \<notin> bt_JobRunID ` set (ss_queue s)"
  shows "closing_runs s' jid \<subseteq> closing_runs s jid"
proof
  fix rid assume "rid \<in> closing_runs s' jid"
  then obtain v where v: "v \<in> set (ss_work s)" "is_closing (wk_phase v)" "bt_JobID (wk_task v) = jid" "rid = bt_JobRunID (wk_task v)" "running s' rid"
    using w by (auto simp: closing_runs_def)
  from work_row [OF ok v(1)] have "rid \<in> bt_JobRunID ` set (ss_queue s)" using v(4) by (metis image_eqI)
  then show "rid \<in> closing_runs s jid" using v r by (auto simp: closing_runs_def)
qed

lemma sched_ok_frame:
  assumes ok: "sched_ok inst s"
    and same: "ss_queue s' = ss_queue s" "ss_active s' = ss_active s" "ss_triggers s' = ss_triggers s" "ss_work s' = ss_work s"
    and r: "\<And>rid. running s' rid \<Longrightarrow> running s rid \<or> rid \<notin> bt_JobRunID ` set (ss_queue s)"
  shows "sched_ok inst s'"
proof -
  have eq: "open_runs s' jid = open_runs s jid" "holders s' jid = holders s jid" "electors s' jid = electors s jid"
    "cleared s' jid = cleared s jid" "marked s' jid = marked s jid" for jid
    by (simp_all add: open_runs_def holders_def electors_def cleared_def marked_def same)
  have one: "one_at_a_time s' jid" for jid
    by (rule one_at_a_time_mono [OF sched_okD(7) [OF ok]])
       (use closing_runs_cong [OF ok same(4) r] one_at_a_timeD(6) [OF sched_okD(7) [OF ok]] in \<open>auto simp: eq\<close>)
  have "work_ok inst s' w \<longleftrightarrow> work_ok inst s w" for w by (simp add: work_ok_def row_of_cong [OF same(1)] eq)
  moreover have "trigger_ok inst s' g \<longleftrightarrow> trigger_ok inst s g" for g by (simp add: trigger_ok_def same)
  ultimately show ?thesis by (intro sched_okI one) (use sched_okD [OF ok] in \<open>simp_all add: same\<close>)
qed

lemma keyed_update:
  assumes "distinct (map f xs)" "x \<in> set xs" "f x' = f x"
  shows "set (map (\<lambda>y. if f y = f x' then x' else y) xs) = insert x' (set xs - {x})" "map f (map (\<lambda>y. if f y = f x' then x' else y) xs) = map f xs"
proof -
  have key: "y = x" if "y \<in> set xs" "f y = f x" for y using that assms(1,2) by (metis distinct_map inj_onD)
  show "map f (map (\<lambda>y. if f y = f x' then x' else y) xs) = map f xs" by simp
  have "set (map (\<lambda>y. if f y = f x' then x' else y) xs) = (\<lambda>y. if y = x then x' else y) ` set xs"
    unfolding set_map by (rule image_cong) (use key assms(3) in auto)
  also have "\<dots> = insert x' (set xs - {x})" using assms(2) by auto
  finally show "set (map (\<lambda>y. if f y = f x' then x' else y) xs) = insert x' (set xs - {x})" .
qed

lemma keyed_remove:
  assumes "distinct (map f xs)" "x \<in> set xs"
  shows "set (filter (\<lambda>y. f y \<noteq> f x) xs) = set xs - {x}" "distinct (map f (filter (\<lambda>y. f y \<noteq> f x) xs))"
proof -
  have "y = x" if "y \<in> set xs" "f y = f x" for y using that assms by (metis distinct_map inj_onD)
  then show "set (filter (\<lambda>y. f y \<noteq> f x) xs) = set xs - {x}" by auto
  show "distinct (map f (filter (\<lambda>y. f y \<noteq> f x) xs))" using assms(1) by (rule distinct_map_filter)
qed

lemma find_keyed: "find P xs = Some x \<Longrightarrow> x \<in> set xs \<and> P x"
  by (auto simp: find_Some_iff)

text \<open>A state in which only the triggers differ, and the mark is not lost where it is needed.\<close>

lemma sched_ok_triggers:
  assumes ok: "sched_ok inst s" and same: "ss_queue s' = ss_queue s" "ss_work s' = ss_work s"
    and r: "\<And>rid. running s' rid \<Longrightarrow> running s rid \<or> rid \<notin> bt_JobRunID ` set (ss_queue s)"
    and act: "fst ` set (ss_active s') \<subseteq> {inst}" "\<And>jid. marked s jid \<Longrightarrow> marked s' jid \<or> open_runs s jid = {}"
    and d: "distinct (map tg_id (ss_triggers s'))" and tg: "\<And>g. g \<in> set (ss_triggers s') \<Longrightarrow> trigger_ok inst s' g"
    and rec: "\<And>g h. g \<in> set (ss_triggers s') \<Longrightarrow> h \<in> set (ss_triggers s') \<Longrightarrow> tg_phase g = Recorded \<Longrightarrow> tg_phase h = Recorded \<Longrightarrow> jr_ID (tg_run g) = jr_ID (tg_run h) \<Longrightarrow> g = h"
    and one: "\<And>jid. one_at_a_time s' jid"
  shows "sched_ok inst s'"
proof -
  have op: "open_runs s' jid = open_runs s jid" for jid by (simp add: open_runs_def same)
  have "work_ok inst s' w" if w: "w \<in> set (ss_work s)" for w
  proof (rule work_ok_mono [OF sched_okD(4) [OF ok w]])
    show "\<exists>t. row_of s' w t" using work_row [OF ok w] by (metis row_of_def same(1))
    show "\<exists>t0. row_of s w t0 \<and> bt_JobRunID t0 = bt_JobRunID t \<and> bt_JobID t0 = bt_JobID t \<and> (bt_LeaseOwner t = wk_owner w \<longrightarrow> past_mark (wk_phase w) \<longrightarrow> bt_LeaseOwner t0 = wk_owner w)"
      if "row_of s' w t" for t using that by (auto simp: row_of_cong [OF same(1)])
    show "marked s' (bt_JobID t)" if t: "row_of s w t" "bt_LeaseOwner t = wk_owner w" "marked s (bt_JobID t)" for t
    proof -
      have "wk_owner w \<noteq> ''''" "t \<in> set (ss_queue s)" using sched_okD(4) [OF ok w] t(1) by (auto simp: work_ok_def row_of_def)
      then have "open_task t" using tasks_okD(2) [OF sched_okD(1) [OF ok]] t(2) by (auto simp: open_task_def)
      then have "open_runs s (bt_JobID t) \<noteq> {}" using \<open>t \<in> set (ss_queue s)\<close> by (auto simp: open_runs_def)
      then show ?thesis using act(2) t(3) by blast
    qed
  qed (simp add: op)
  then show ?thesis by (intro sched_okI one tg rec d act(1)) (use sched_okD(1,2) [OF ok] in \<open>simp_all add: same\<close>)
qed
text \<open>Identifiers are new where they are drawn.\<close>

definition fresh_uuids :: "sched_env \<Rightarrow> sched \<Rightarrow> bool" where
  "fresh_uuids env s \<longleftrightarrow> inj (se_new_id env) \<and>
     (\<forall>n. se_new_id env n \<noteq> '''' \<and> se_new_id env n \<notin> bt_ID ` set (ss_queue s) \<and> se_new_id env n \<notin> bt_JobRunID ` set (ss_queue s) \<and>
        se_new_id env n \<notin> (\<lambda>g. jr_ID (tg_run g)) ` set (ss_triggers s))"

lemma set_trigger_sel [simp]:
  "ss_queue (set_trigger g s) = ss_queue s" "ss_work (set_trigger g s) = ss_work s" "ss_active (set_trigger g s) = ss_active s"
  "ss_jobruns (set_trigger g s) = ss_jobruns s" "ss_queue (drop_trigger gid s) = ss_queue s" "ss_work (drop_trigger gid s) = ss_work s"
  "ss_active (drop_trigger gid s) = ss_active s" "ss_jobruns (drop_trigger gid s) = ss_jobruns s"
  by (simp_all add: set_trigger_def drop_trigger_def)

lemma set_set_trigger:
  assumes "sched_ok inst s" "g \<in> set (ss_triggers s)" "tg_id g' = tg_id g"
  shows "set (ss_triggers (set_trigger g' s)) = insert g' (set (ss_triggers s) - {g})" "map tg_id (ss_triggers (set_trigger g' s)) = map tg_id (ss_triggers s)"
  using keyed_update [OF sched_okD(3) [OF assms(1)] assms(2,3)] by (simp_all add: set_trigger_def)

lemma drop_trigger_ok:
  assumes ok: "sched_ok inst s" shows "sched_ok inst (drop_trigger gid s)"
proof (rule sched_ok_triggers [OF ok])
  let ?s = "drop_trigger gid s"
  have sub: "set (ss_triggers ?s) \<subseteq> set (ss_triggers s)" by (auto simp: drop_trigger_def)
  show "distinct (map tg_id (ss_triggers ?s))" using sched_okD(3) [OF ok] by (simp add: drop_trigger_def distinct_map_filter)
  show "trigger_ok inst ?s g" if "g \<in> set (ss_triggers ?s)" for g using sched_okD(5) [OF ok] that sub by (auto simp: trigger_ok_def)
  show "g = h" if "g \<in> set (ss_triggers ?s)" "h \<in> set (ss_triggers ?s)" "tg_phase g = Recorded" "tg_phase h = Recorded" "jr_ID (tg_run g) = jr_ID (tg_run h)" for g h
    using sched_okD(9) [OF ok] that sub by blast
  show "one_at_a_time ?s jid" for jid
  proof (rule one_at_a_time_mono [OF sched_okD(7) [OF ok]])
    show "closing_runs ?s jid \<subseteq> closing_runs s jid \<union> open_runs s jid" by (auto simp: closing_runs_def running_def)
    show "marked ?s jid" if "closing_runs ?s jid \<noteq> {}"
      using that one_at_a_timeD(6) [OF sched_okD(7) [OF ok], of jid] by (simp add: closing_runs_def running_def marked_def)
  qed (use sub in \<open>auto simp: open_runs_def holders_def electors_def cleared_def marked_def\<close>)
  show "fst ` set (ss_active ?s) \<subseteq> {inst}" using sched_okD(6) [OF ok] by simp
qed (simp_all add: running_def marked_def)

lemma set_trigger_checked:
  assumes ok: "sched_ok inst s" and g: "g \<in> set (ss_triggers s)" "tg_phase g = Resolved" and free: "\<not> busy \<Longrightarrow> open_runs s (bj_ID (tg_job g)) = {}"
  shows "sched_ok inst (set_trigger (g\<lparr>tg_phase := Checked busy\<rparr>) s)"
proof (rule sched_ok_triggers [OF ok])
  let ?g = "g\<lparr>tg_phase := Checked busy\<rparr>" let ?s = "set_trigger ?g s"
  have ts: "set (ss_triggers ?s) = insert ?g (set (ss_triggers s) - {g})" "map tg_id (ss_triggers ?s) = map tg_id (ss_triggers s)"
    using set_set_trigger [OF ok g(1), of ?g] by simp_all
  show "distinct (map tg_id (ss_triggers ?s))" using sched_okD(3) [OF ok] ts(2) by simp
  show "trigger_ok inst ?s h" if "h \<in> set (ss_triggers ?s)" for h
    using sched_okD(5) [OF ok] that g ts(1) by (auto simp: trigger_ok_def)
  show "h = k" if "h \<in> set (ss_triggers ?s)" "k \<in> set (ss_triggers ?s)" "tg_phase h = Recorded" "tg_phase k = Recorded" "jr_ID (tg_run h) = jr_ID (tg_run k)" for h k
    using sched_okD(9) [OF ok] that ts(1) by auto
  show "one_at_a_time ?s jid" for jid
  proof (rule one_at_a_time_mono [OF sched_okD(7) [OF ok]])
    show "closing_runs ?s jid \<subseteq> closing_runs s jid \<union> open_runs s jid" by (auto simp: closing_runs_def running_def)
    show "marked ?s jid" if "closing_runs ?s jid \<noteq> {}"
      using that one_at_a_timeD(6) [OF sched_okD(7) [OF ok], of jid] by (simp add: closing_runs_def running_def marked_def)
    show "holders ?s jid \<subseteq> holders s jid" using ts(1) by (auto simp: holders_def)
    show "cleared s jid \<or> open_runs ?s jid = {}" if "cleared ?s jid"
      using that ts(1) free by (auto simp: cleared_def open_runs_def)
  qed (simp_all add: open_runs_def electors_def marked_def)
  show "fst ` set (ss_active ?s) \<subseteq> {inst}" using sched_okD(6) [OF ok] by simp
qed (simp_all add: running_def marked_def)

lemma trigger_check_ok:
  assumes ok: "sched_ok inst s" and g: "g \<in> set (ss_triggers s)" "tg_phase g = Resolved"
  shows "sched_ok inst (snd (trigger_check env g s))"
proof (cases "HasOpenBackupTasks env (bj_ID (tg_job g)) '''' s")
  case (Inr busy)
  have "open_runs s (bj_ID (tg_job g)) = {}" if "\<not> busy"
    using Inr that by (auto simp: HasOpenBackupTasks_def open_runs_def list_ex_iff split: if_splits)
  then show ?thesis using Inr set_trigger_checked [OF ok g] by (simp add: trigger_check_def)
qed (simp add: trigger_check_def drop_trigger_ok [OF ok])
lemma create_job_run:
  assumes "CreateBackupJobRun env r s = (res, s')"
  shows "ss_queue s' = ss_queue s" "ss_work s' = ss_work s" "ss_active s' = ss_active s" "ss_triggers s' = ss_triggers s"
    "running s' rid \<Longrightarrow> running s rid \<or> jr_Status r = RunRunning \<and> rid = (if jr_ID r = '''' then se_new_id env 0 else jr_ID r)"
  using assms by (auto simp: CreateBackupJobRun_def Let_def running_def split: if_splits)

lemma create_job_run_ok:
  assumes ok: "sched_ok inst s" and run: "CreateBackupJobRun env r s = (res, s')" and st: "jr_Status r \<noteq> RunRunning \<or> jr_ID r = '''' \<and> fresh_uuids env s"
  shows "sched_ok inst s'"
proof (rule sched_ok_frame [OF ok create_job_run(1,3,4,2) [OF run]])
  fix rid assume "running s' rid"
  then have "running s rid \<or> jr_Status r = RunRunning \<and> rid = (if jr_ID r = '''' then se_new_id env 0 else jr_ID r)" by (rule create_job_run(5) [OF run])
  moreover have "se_new_id env 0 \<notin> bt_JobRunID ` set (ss_queue s)" if "fresh_uuids env s" using that unfolding fresh_uuids_def by blast
  ultimately show "running s rid \<or> rid \<notin> bt_JobRunID ` set (ss_queue s)" using st by (metis (full_types))
qed

lemma refused_not_running [simp]: "jr_Status (refused_run r) \<noteq> RunRunning"
  by (simp add: refused_run_def Let_def)

lemma marked_claim: "marked (s\<lparr>ss_active := (inst, jid) # ss_active s\<rparr>) j \<longleftrightarrow> j = jid \<or> marked s j"
  by (auto simp: marked_def)

lemma set_trigger_marked:
  assumes ok: "sched_ok inst s" and g: "g \<in> set (ss_triggers s)" "tg_phase g = Checked False" and free: "\<not> marked s (bj_ID (tg_job g))"
  shows "sched_ok inst (set_trigger (g\<lparr>tg_phase := Marked\<rparr>) (s\<lparr>ss_active := (inst, bj_ID (tg_job g)) # ss_active s\<rparr>))"
proof (rule sched_ok_triggers [OF ok])
  let ?g = "g\<lparr>tg_phase := Marked\<rparr>" let ?s = "set_trigger ?g (s\<lparr>ss_active := (inst, bj_ID (tg_job g)) # ss_active s\<rparr>)" let ?j = "bj_ID (tg_job g)"
  have ts: "set (ss_triggers ?s) = insert ?g (set (ss_triggers s) - {g})" "map tg_id (ss_triggers ?s) = map tg_id (ss_triggers s)"
    using set_set_trigger [OF ok g(1), of ?g] by (simp_all add: set_trigger_def)
  have m: "marked ?s jid \<longleftrightarrow> jid = ?j \<or> marked s jid" for jid by (auto simp: marked_def)
  have same: "open_runs ?s jid = open_runs s jid" "closing_runs ?s jid = closing_runs s jid" "electors ?s jid = electors s jid" for jid
    by (simp_all add: open_runs_def closing_runs_def running_def electors_def)
  show "distinct (map tg_id (ss_triggers ?s))" using sched_okD(3) [OF ok] ts(2) by simp
  show "trigger_ok inst ?s h" if "h \<in> set (ss_triggers ?s)" for h
    using sched_okD(5) [OF ok] that g ts(1) by (auto simp: trigger_ok_def)
  show "h = k" if "h \<in> set (ss_triggers ?s)" "k \<in> set (ss_triggers ?s)" "tg_phase h = Recorded" "tg_phase k = Recorded" "jr_ID (tg_run h) = jr_ID (tg_run k)" for h k
    using sched_okD(9) [OF ok] that ts(1) by auto
  show "one_at_a_time ?s jid" for jid
  proof (cases "jid = ?j")
    case True
    note d = one_at_a_timeD [OF sched_okD(7) [OF ok, of jid]]
    have "cleared s jid" using g True by (auto simp: cleared_def)
    then have none: "open_runs s jid = {}" "closing_runs s jid = {}" "holders s jid = {}" "electors s jid = {}"
      using d(4,5,6,7) free True by blast+
    then have h: "a = tg_id g" if "a \<in> holders ?s jid" for a using that ts(1) by (auto simp: holders_def)
    show ?thesis
    proof (rule one_at_a_timeI)
      show "a = b" if "a \<in> holders ?s jid" "b \<in> holders ?s jid" for a b using h [OF that(1)] h [OF that(2)] by simp
    qed (use none True in \<open>simp_all add: m same\<close>)
  next
    case False
    show ?thesis
      by (rule one_at_a_time_mono [OF sched_okD(7) [OF ok]])
         (use False ts(1) one_at_a_timeD(6) [OF sched_okD(7) [OF ok], of jid] in \<open>auto simp: m same holders_def cleared_def\<close>)
  qed
  show "fst ` set (ss_active ?s) \<subseteq> {inst}" using sched_okD(6) [OF ok] by auto
  show "marked ?s jid \<or> open_runs s jid = {}" if "marked s jid" for jid using that m by blast
qed (simp_all add: running_def)

lemma trigger_mark_ok:
  assumes ok: "sched_ok inst s" and g: "g \<in> set (ss_triggers s)" "tg_phase g = Checked busy"
  shows "sched_ok inst (snd (trigger_mark env busy g s))"
proof -
  have i: "tg_inst g = inst" using sched_okD(5) [OF ok g(1)] by (simp add: trigger_ok_def)
  have refused: "sched_ok inst (drop_trigger gid s')" if "CreateBackupJobRun env (refused_run (tg_run g)) s = (res, s')" for gid res s'
    by (rule drop_trigger_ok, rule create_job_run_ok [OF ok that]) simp
  show ?thesis
  proof (cases "busy \<or> marked s (bj_ID (tg_job g))")
    case True
    then have "(if busy then (False, s) else claimJob (tg_inst g) (bj_ID (tg_job g)) s) = (False, s)"
      using active_marked [OF ok] by (auto simp: claimJob_def i)
    then show ?thesis using refused by (auto simp: trigger_mark_def split: prod.splits sum.splits)
  next
    case False
    then show ?thesis using set_trigger_marked [OF ok g(1)] g(2) active_marked [OF ok]
      by (simp add: trigger_mark_def claimJob_def i)
  qed
qed
lemma sched_state_sel [simp]:
  "ss_queue (SetJobSchedulingState env jid a b c s) = ss_queue s" "ss_work (SetJobSchedulingState env jid a b c s) = ss_work s"
  "ss_active (SetJobSchedulingState env jid a b c s) = ss_active s" "ss_triggers (SetJobSchedulingState env jid a b c s) = ss_triggers s"
  "ss_jobruns (SetJobSchedulingState env jid a b c s) = ss_jobruns s"
  "ss_queue (ClearForceFullNext env jid s) = ss_queue s" "ss_work (ClearForceFullNext env jid s) = ss_work s"
  "ss_active (ClearForceFullNext env jid s) = ss_active s" "ss_triggers (ClearForceFullNext env jid s) = ss_triggers s"
  "ss_jobruns (ClearForceFullNext env jid s) = ss_jobruns s"
  "ss_queue (SaveJobRun env r s) = ss_queue s" "ss_work (SaveJobRun env r s) = ss_work s"
  "ss_active (SaveJobRun env r s) = ss_active s" "ss_triggers (SaveJobRun env r s) = ss_triggers s"
  "ss_queue (releaseJob inst jid s) = ss_queue s" "ss_work (releaseJob inst jid s) = ss_work s"
  "ss_triggers (releaseJob inst jid s) = ss_triggers s" "ss_jobruns (releaseJob inst jid s) = ss_jobruns s"
  by (simp_all add: SetJobSchedulingState_def ClearForceFullNext_def SaveJobRun_def releaseJob_def)

lemma running_state [simp]:
  "running (SetJobSchedulingState env jid a b c s) = running s" "running (ClearForceFullNext env jid s) = running s"
  "running (releaseJob inst jid s) = running s" "running (set_trigger g s) = running s" "running (drop_trigger gid s) = running s"
  "running (s\<lparr>ss_work := ws\<rparr>) = running s" "running (s\<lparr>ss_db := db, ss_jobs := jobs, ss_vms := vms\<rparr>) = running s"
  by (simp_all add: running_def fun_eq_iff)

lemma running_SaveJobRun: "running (SaveJobRun env r s) rid \<Longrightarrow> jr_Status r \<noteq> RunRunning \<Longrightarrow> running s rid"
  by (auto simp: running_def SaveJobRun_def split: if_splits)

lemma marked_release: "sched_ok inst s \<Longrightarrow> marked (releaseJob inst jid s) j \<longleftrightarrow> j \<noteq> jid \<and> marked s j"
  by (force simp: marked_def releaseJob_def dest: sched_okD(8))

text \<open>A trigger that holds the mark gives it back.\<close>

lemma trigger_release_ok:
  assumes ok: "sched_ok inst s" and g: "g \<in> set (ss_triggers s)" "tg_phase g \<in> {Marked, Recorded}"
    and s': "ss_queue s' = ss_queue s" "ss_work s' = ss_work s" "ss_triggers s' = ss_triggers s" "ss_active s' = ss_active (releaseJob inst (bj_ID (tg_job g)) s)"
      "\<And>rid. running s' rid \<Longrightarrow> running s rid"
  shows "sched_ok inst (drop_trigger (tg_id g) s')"
proof (rule sched_ok_triggers [OF ok])
  let ?s = "drop_trigger (tg_id g) s'" let ?j = "bj_ID (tg_job g)"
  have ts: "set (ss_triggers ?s) = set (ss_triggers s) - {g}" "distinct (map tg_id (ss_triggers ?s))"
    using keyed_remove [OF sched_okD(3) [OF ok] g(1)] by (simp_all add: drop_trigger_def s'(3))
  note d = one_at_a_timeD [OF sched_okD(7) [OF ok]]
  have h: "tg_id g \<in> holders s ?j" using g by (auto simp: holders_def)
  then have none: "open_runs s ?j = {}" "closing_runs s ?j = {}" "electors s ?j = {}" using d(4) [of ?j] by auto
  have m: "marked ?s jid \<longleftrightarrow> jid \<noteq> ?j \<and> marked s jid" for jid using marked_release [OF ok, of ?j jid] by (simp add: marked_def s'(4))
  have same: "open_runs ?s jid = open_runs s jid" "electors ?s jid = electors s jid" for jid
    by (simp_all add: open_runs_def electors_def s')
  have cl: "closing_runs ?s jid \<subseteq> closing_runs s jid" for jid by (rule closing_runs_cong [OF ok]) (use s' in auto)
  have key: "k = g" if "k \<in> set (ss_triggers s)" "tg_id k = tg_id g" for k using that g(1) sched_okD(3) [OF ok] by (metis distinct_map inj_onD)
  show "distinct (map tg_id (ss_triggers ?s))" by (rule ts(2))
  show "trigger_ok inst ?s h" if "h \<in> set (ss_triggers ?s)" for h using sched_okD(5) [OF ok] that ts(1) by (auto simp: trigger_ok_def s')
  show "h = k" if "h \<in> set (ss_triggers ?s)" "k \<in> set (ss_triggers ?s)" "tg_phase h = Recorded" "tg_phase k = Recorded" "jr_ID (tg_run h) = jr_ID (tg_run k)" for h k
    using sched_okD(9) [OF ok] that ts(1) by auto
  show "one_at_a_time ?s jid" for jid
  proof (cases "jid = ?j")
    case True
    have "holders ?s jid = {}"
    proof (rule ccontr)
      assume "holders ?s jid \<noteq> {}"
      then obtain k where k: "k \<in> set (ss_triggers s)" "k \<noteq> g" "tg_phase k \<in> {Marked, Recorded}" "bj_ID (tg_job k) = jid" using ts(1) by (auto simp: holders_def)
      then have "tg_id k \<in> holders s jid" by (auto simp: holders_def)
      then show False using d(2) h True key k(1,2) by blast
    qed
    then show ?thesis using none cl [of jid] True by (intro one_at_a_timeI) (auto simp: same)
  next
    case False
    show ?thesis
      by (rule one_at_a_time_mono [OF sched_okD(7) [OF ok]])
         (use False ts(1) cl [of jid] d(6) [of jid] in \<open>auto simp: m same holders_def cleared_def\<close>)
  qed
  show "fst ` set (ss_active ?s) \<subseteq> {inst}" using sched_okD(6) [OF ok] by (auto simp: s'(4) releaseJob_def)
  show "marked ?s jid \<or> open_runs s jid = {}" if "marked s jid" for jid using that m none(1) by auto
  show "running s rid \<or> rid \<notin> bt_JobRunID ` set (ss_queue s)" if "running ?s rid" for rid using that s'(5) by simp
qed (simp_all add: s')

lemma set_trigger_recorded:
  assumes ok: "sched_ok inst s" and g: "g \<in> set (ss_triggers s)" "tg_phase g = Marked"
    and new: "jr_ID run \<noteq> ''''" "jr_ID run \<notin> bt_JobRunID ` set (ss_queue s)" "jr_ID run \<notin> (\<lambda>g. jr_ID (tg_run g)) ` set (ss_triggers s)"
  shows "sched_ok inst (set_trigger (g\<lparr>tg_run := run, tg_phase := Recorded\<rparr>) s)"
proof (rule sched_ok_triggers [OF ok])
  let ?g = "g\<lparr>tg_run := run, tg_phase := Recorded\<rparr>" let ?s = "set_trigger ?g s"
  have ts: "set (ss_triggers ?s) = insert ?g (set (ss_triggers s) - {g})" "map tg_id (ss_triggers ?s) = map tg_id (ss_triggers s)"
    using set_set_trigger [OF ok g(1), of ?g] by simp_all
  have same: "open_runs ?s jid = open_runs s jid" "closing_runs ?s jid = closing_runs s jid" "electors ?s jid = electors s jid" "marked ?s jid = marked s jid" for jid
    by (simp_all add: open_runs_def closing_runs_def electors_def marked_def)
  show "distinct (map tg_id (ss_triggers ?s))" using sched_okD(3) [OF ok] ts(2) by simp
  show "trigger_ok inst ?s h" if "h \<in> set (ss_triggers ?s)" for h
  proof (cases "h = ?g")
    case True
    have "bt_JobRunID t \<noteq> jr_ID run" if "t \<in> set (ss_queue s)" for t using that new(2) by (metis image_eqI)
    then show ?thesis using True new(1) sched_okD(5) [OF ok g(1)] by (auto simp: trigger_ok_def)
  qed (use sched_okD(5) [OF ok] that ts(1) in \<open>auto simp: trigger_ok_def\<close>)
  show "h = k" if "h \<in> set (ss_triggers ?s)" "k \<in> set (ss_triggers ?s)" "tg_phase h = Recorded" "tg_phase k = Recorded" "jr_ID (tg_run h) = jr_ID (tg_run k)" for h k
  proof -
    have "jr_ID (tg_run l) \<noteq> jr_ID run" if "l \<in> set (ss_triggers s)" for l using that new(3) by (metis (mono_tags) image_eqI)
    then show ?thesis using sched_okD(9) [OF ok] that ts(1) by (auto dest: sym)
  qed
  show "one_at_a_time ?s jid" for jid
    by (rule one_at_a_time_mono [OF sched_okD(7) [OF ok]])
       (use ts(1) g one_at_a_timeD(6) [OF sched_okD(7) [OF ok], of jid] in \<open>auto simp: same holders_def cleared_def\<close>)
  show "fst ` set (ss_active ?s) \<subseteq> {inst}" using sched_okD(6) [OF ok] by simp
qed (simp_all add: marked_def)

lemma trigger_record_ok:
  assumes ok: "sched_ok inst s" and g: "g \<in> set (ss_triggers s)" "tg_phase g = Marked" and fresh: "fresh_uuids env s"
  shows "sched_ok inst (snd (trigger_record env g s))"
proof -
  have i: "tg_inst g = inst" and id0: "jr_ID (tg_run g) = ''''" using sched_okD(5) [OF ok g(1)] g(2) by (simp_all add: trigger_ok_def)
  obtain res s1 where c: "CreateBackupJobRun env (tg_run g) s = (res, s1)" by fastforce
  show ?thesis
  proof (cases res)
    case (Inl e)
    then have "s1 = s" using c by (auto simp: CreateBackupJobRun_def Let_def split: if_splits)
    then show ?thesis using Inl c i trigger_release_ok [OF ok g(1), of "releaseJob inst (bj_ID (tg_job g)) s"] g(2)
      by (simp add: trigger_record_def)
  next
    case (Inr run)
    have id': "jr_ID run = se_new_id env 0" using c Inr id0 by (auto simp: CreateBackupJobRun_def Let_def split: if_splits)
    have ok1: "sched_ok inst s1" by (rule create_job_run_ok [OF ok c]) (use id0 fresh in auto)
    let ?s2 = "SetJobSchedulingState env (bj_ID (tg_job g)) (jr_StartedAt run) RunRunning (upcoming_run env (tg_job g)) s1"
    have ok2: "sched_ok inst ?s2" by (rule sched_ok_frame [OF ok1]) simp_all
    note same = create_job_run(1-4) [OF c]
    have "sched_ok inst (set_trigger (g\<lparr>tg_run := run, tg_phase := Recorded\<rparr>) ?s2)"
      by (rule set_trigger_recorded [OF ok2]) (use g fresh in \<open>auto simp: same id' fresh_uuids_def\<close>)
    then show ?thesis using Inr c by (simp add: trigger_record_def)
  qed
qed
lemma numbered_bound: "p \<in> set (numbered k xs) \<Longrightarrow> k \<le> fst p"
  by (induction xs arbitrary: k) (auto dest: Suc_leD)

lemma numbered_distinct: "distinct (map fst (numbered k xs))"
proof (induction xs arbitrary: k)
  case (Cons x xs)
  have "k \<noteq> fst p" if "p \<in> set (numbered (Suc k) xs)" for p using numbered_bound [OF that] by simp
  then show ?case using Cons.IH [of "Suc k"] by auto
qed simp

lemma numbered_snd: "snd ` set (numbered k xs) = set xs"
  by (induction xs arbitrary: k) auto

text \<open>What a trigger puts into the queue.\<close>

lemma enqueued_rows:
  assumes run: "EnqueueBackupTasks env (map (new_task job run) reqs) s = (Inr u, s')" and fresh: "fresh_uuids env s"
  obtains rows where "s' = s\<lparr>ss_queue := ss_queue s @ rows\<rparr>" "distinct (map bt_ID (ss_queue s)) \<Longrightarrow> distinct (map bt_ID (ss_queue s @ rows))"
    "\<And>t. t \<in> set rows \<Longrightarrow> bt_JobRunID t = jr_ID run \<and> bt_JobID t = bj_ID job \<and> (\<exists>p. bt_Payload t = Payload p) \<and> bt_LeaseOwner t = '''' \<and> bt_ID t \<notin> bt_ID ` set (ss_queue s)"
proof -
  define f where "f = (\<lambda>(n, t :: BackupTask). t\<lparr>bt_ID := (if bt_ID t = '''' then se_new_id env n else bt_ID t),
                       bt_Concurrency := (if bt_Concurrency t \<le> 0 then 1 else bt_Concurrency t),
                       bt_Status := BackupTaskQueued, bt_LeaseOwner := '''', bt_LeaseUntil := None, bt_HeartbeatAt := None,
                       bt_Error := '''', bt_CreatedAt := se_now env, bt_UpdatedAt := se_now env\<rparr>)"
  define rows where "rows = map f (numbered 0 (map (new_task job run) reqs))"
  have s': "s' = s\<lparr>ss_queue := ss_queue s @ rows\<rparr>"
    using run unfolding EnqueueBackupTasks_def Let_def rows_def f_def by (auto split: if_splits)
  have p: "bt_ID (f p) = se_new_id env (fst p) \<and> bt_JobRunID (f p) = jr_ID run \<and> bt_JobID (f p) = bj_ID job \<and> (\<exists>q. bt_Payload (f p) = Payload q) \<and> bt_LeaseOwner (f p) = ''''"
    if "p \<in> set (numbered 0 (map (new_task job run) reqs))" for p
  proof -
    have "snd p \<in> set (map (new_task job run) reqs)" using imageI [OF that, of snd] by (simp only: numbered_snd)
    then obtain r where "snd p = new_task job run r" by auto
    then show ?thesis by (cases p) (simp add: f_def new_task_def)
  qed
  have new: "se_new_id env n \<notin> bt_ID ` set (ss_queue s)" for n using fresh unfolding fresh_uuids_def by blast
  have ids: "map bt_ID rows = map (se_new_id env) (map fst (numbered 0 (map (new_task job run) reqs)))"
    using p by (simp add: rows_def)
  have "inj (se_new_id env)" using fresh unfolding fresh_uuids_def by blast
  then have "distinct (map bt_ID rows)" unfolding ids using numbered_distinct [of 0] distinct_map inj_on_subset subset_UNIV by metis
  moreover have row: "bt_JobRunID t = jr_ID run \<and> bt_JobID t = bj_ID job \<and> (\<exists>p. bt_Payload t = Payload p) \<and> bt_LeaseOwner t = '''' \<and> bt_ID t \<notin> bt_ID ` set (ss_queue s)"
    if t: "t \<in> set rows" for t
  proof -
    obtain p where "p \<in> set (numbered 0 (map (new_task job run) reqs))" "t = f p" using t unfolding rows_def set_map by blast
    then show ?thesis using p [of p] new [of "fst p"] by simp
  qed
  moreover have "bt_ID ` set (ss_queue s) \<inter> bt_ID ` set rows = {}"
  proof (rule equals0I)
    fix x assume x: "x \<in> bt_ID ` set (ss_queue s) \<inter> bt_ID ` set rows"
    then obtain t where t: "t \<in> set rows" "x = bt_ID t" by blast
    from row [OF t(1)] have "bt_ID t \<notin> bt_ID ` set (ss_queue s)" by simp
    then show False using x t(2) by simp
  qed
  ultimately have "distinct (map bt_ID (ss_queue s @ rows))" if "distinct (map bt_ID (ss_queue s))"
    using that by (simp only: map_append distinct_append set_map)
  from that [OF s' this row] show thesis by blast
qed
lemma enqueue_ok:
  assumes ok: "sched_ok inst s" and g: "g \<in> set (ss_triggers s)" "tg_phase g = Recorded"
    and s': "s' = s\<lparr>ss_queue := ss_queue s @ rows\<rparr>" and dist: "distinct (map bt_ID (ss_queue s @ rows))"
    and rows: "\<And>t. t \<in> set rows \<Longrightarrow> bt_JobRunID t = jr_ID (tg_run g) \<and> bt_JobID t = bj_ID (tg_job g) \<and> (\<exists>p. bt_Payload t = Payload p) \<and> bt_LeaseOwner t = '''' \<and> bt_ID t \<notin> bt_ID ` set (ss_queue s)"
  shows "sched_ok inst (drop_trigger (tg_id g) s')"
proof (rule sched_okI)
  let ?s = "drop_trigger (tg_id g) s'" let ?j = "bj_ID (tg_job g)" let ?r = "jr_ID (tg_run g)"
  have q: "set (ss_queue s') = set (ss_queue s) \<union> set rows" "set (ss_queue ?s) = set (ss_queue s) \<union> set rows" by (simp_all add: s')
  have ts: "set (ss_triggers ?s) = set (ss_triggers s) - {g}" "distinct (map tg_id (ss_triggers ?s))"
    using keyed_remove [OF sched_okD(3) [OF ok] g(1)] by (simp_all add: drop_trigger_def s')
  have fresh: "?r \<noteq> ''''" "\<And>t. t \<in> set (ss_queue s) \<Longrightarrow> bt_JobRunID t \<noteq> ?r"
    using sched_okD(5) [OF ok g(1)] g(2) by (auto simp: trigger_ok_def)
  note d = one_at_a_timeD [OF sched_okD(7) [OF ok]]
  have h: "tg_id g \<in> holders s ?j" using g by (auto simp: holders_def)
  have none: "open_runs s ?j = {}" "closing_runs s ?j = {}" "electors s ?j = {}" "marked s ?j" using d(4) [of ?j] h by auto
  have same: "closing_runs ?s jid = closing_runs s jid" "electors ?s jid = electors s jid" "marked ?s jid = marked s jid" for jid
    by (simp_all add: closing_runs_def running_def electors_def marked_def s')
  have op: "open_runs ?s jid \<subseteq> open_runs s jid \<union> (if jid = ?j then {?r} else {})" for jid
    using rows by (auto simp: open_runs_def q)
  show "tasks_ok (ss_queue ?s)"
    unfolding tasks_ok_def
  proof (intro conjI ballI impI)
    show "distinct (map bt_ID (ss_queue ?s))" using dist by (simp add: s')
    fix t assume t: "t \<in> set (ss_queue ?s)"
    show "\<exists>p. bt_Payload t = Payload p" "bt_JobRunID t \<noteq> ''''"
      using t q rows fresh(1) tasks_okD(1,3) [OF sched_okD(1) [OF ok]] by auto
    show "bt_Status t = BackupTaskRunning" if "bt_LeaseOwner t \<noteq> ''''" using that t q rows tasks_okD(2) [OF sched_okD(1) [OF ok]] by auto
    show "bt_JobID u = bt_JobID t" if "u \<in> set (ss_queue ?s)" "bt_JobRunID u = bt_JobRunID t" for u
      using that t q rows fresh(2) tasks_okD(4) [OF sched_okD(1) [OF ok]] by (metis Un_iff)
  qed
  show "distinct (map wk_owner (ss_work ?s))" using sched_okD(2) [OF ok] by (simp add: s')
  show "distinct (map tg_id (ss_triggers ?s))" by (rule ts(2))
  show "work_ok inst ?s w" if "w \<in> set (ss_work ?s)" for w
  proof -
    have w: "w \<in> set (ss_work s)" using that by (simp add: s')
    obtain t0 where t0: "t0 \<in> set (ss_queue s)" "bt_ID t0 = bt_ID (wk_task w)" "bt_JobRunID t0 = bt_JobRunID (wk_task w)" using work_row [OF ok w] by metis
    have ids: "bt_ID t \<noteq> bt_ID (wk_task w)" if "t \<in> set rows" for t using rows [OF that] t0(1,2) by (metis image_eqI)
    have "row_of ?s w t \<longleftrightarrow> row_of s w t" for t using ids by (auto simp: row_of_def q)
    moreover have "bt_JobRunID (wk_task w) \<noteq> ?r" using fresh(2) t0 by metis
    ultimately show ?thesis
      using sched_okD(4) [OF ok w] op [of "bt_JobID (wk_task w)"] unfolding work_ok_def same(3) by (auto split: if_splits)
  qed
  show "trigger_ok inst ?s h" if "h \<in> set (ss_triggers ?s)" for h
  proof -
    have h: "h \<in> set (ss_triggers s)" "h \<noteq> g" using that ts(1) by auto
    have "jr_ID (tg_run h) \<noteq> ?r" if "tg_phase h = Recorded" using sched_okD(9) [OF ok h(1) g(1) that g(2)] h(2) by blast
    then have "bt_JobRunID t \<noteq> jr_ID (tg_run h)" if "tg_phase h = Recorded" "t \<in> set rows" for t using that rows by metis
    then show ?thesis using sched_okD(5) [OF ok h(1)] by (auto simp: trigger_ok_def q split: if_splits)
  qed
  show "h = k" if "h \<in> set (ss_triggers ?s)" "k \<in> set (ss_triggers ?s)" "tg_phase h = Recorded" "tg_phase k = Recorded" "jr_ID (tg_run h) = jr_ID (tg_run k)" for h k
    using sched_okD(9) [OF ok] that ts(1) by auto
  show "fst ` set (ss_active ?s) \<subseteq> {inst}" using sched_okD(6) [OF ok] by (simp add: s')
  show "one_at_a_time ?s jid" for jid
  proof (cases "jid = ?j")
    case True
    have "holders ?s jid \<subseteq> holders s jid" using ts(1) by (auto simp: holders_def)
    moreover have "tg_id g \<notin> holders ?s jid" using ts(1) sched_okD(3) [OF ok] g(1) by (auto simp: holders_def distinct_map inj_on_def)
    ultimately have "holders ?s jid = {}" using d(2) h True by blast
    moreover have "a = ?r" if "a \<in> open_runs ?s jid" for a using that op [of jid] none(1) True by auto
    ultimately show ?thesis using none True by (intro one_at_a_timeI) (simp_all add: same, metis)
  next
    case False
    show ?thesis
      by (rule one_at_a_time_mono [OF sched_okD(7) [OF ok]])
         (use False ts(1) op [of jid] d(6) [of jid] in \<open>auto simp: same holders_def cleared_def\<close>)
  qed
qed

lemma trigger_enqueue_ok:
  assumes ok: "sched_ok inst s" and g: "g \<in> set (ss_triggers s)" "tg_phase g = Recorded" and fresh: "fresh_uuids env s"
  shows "sched_ok inst (snd (trigger_enqueue env g s))"
proof -
  have i: "tg_inst g = inst" using sched_okD(5) [OF ok g(1)] by (simp add: trigger_ok_def)
  let ?tasks = "map (new_task (tg_job g) (tg_run g)) (job_requests (tg_job g) (tg_run g) (tg_vms g))"
  obtain res s1 where e: "EnqueueBackupTasks env ?tasks s = (res, s1)" by fastforce
  show ?thesis
  proof (cases res)
    case (Inr u)
    from enqueued_rows [OF e [unfolded Inr] fresh] obtain rows where "s1 = s\<lparr>ss_queue := ss_queue s @ rows\<rparr>" "distinct (map bt_ID (ss_queue s @ rows))"
      "\<And>t. t \<in> set rows \<Longrightarrow> bt_JobRunID t = jr_ID (tg_run g) \<and> bt_JobID t = bj_ID (tg_job g) \<and> (\<exists>p. bt_Payload t = Payload p) \<and> bt_LeaseOwner t = '''' \<and> bt_ID t \<notin> bt_ID ` set (ss_queue s)"
      using sched_okD(1) [OF ok] unfolding tasks_ok_def by metis
    from enqueue_ok [OF ok g this] show ?thesis using e Inr by (simp add: trigger_enqueue_def Let_def)
  next
    case (Inl err)
    then have "s1 = s" using e by (auto simp: EnqueueBackupTasks_def Let_def split: if_splits)
    moreover have "sched_ok inst (drop_trigger (tg_id g) (SaveJobRun env ((tg_run g)\<lparr>jr_Status := RunFailed, jr_Error := ''enqueue failed'', jr_EndedAt := Some (se_now env)\<rparr>)
                (releaseJob inst (bj_ID (tg_job g)) s)))"
      by (rule trigger_release_ok [OF ok g(1)]) (use g(2) in \<open>auto dest: running_SaveJobRun\<close>)
    ultimately show ?thesis using e Inl i by (simp add: trigger_enqueue_def Let_def)
  qed
qed

lemma trigger_begin_ok:
  assumes ok: "sched_ok inst s" and new: "\<not> list_ex (\<lambda>g. tg_id g = gid) (ss_triggers s)"
  shows "sched_ok inst (snd (trigger_begin env inst gid jid by' at' s))"
proof -
  have failed: "sched_ok inst s'" if "CreateBackupJobRun env r s = (res, s')" "jr_Status r \<noteq> RunRunning" for r res s'
    using create_job_run_ok [OF ok that(1)] that(2) by blast
  have added: "sched_ok inst (s\<lparr>ss_triggers := ss_triggers s @ [\<lparr>tg_inst = inst, tg_id = gid, tg_job = job, tg_run = new_job_run env job by' at' vms, tg_vms = vms, tg_phase = Resolved\<rparr>]\<rparr>)" for job vms
  proof (rule sched_ok_triggers [OF ok])
    let ?g = "\<lparr>tg_inst = inst, tg_id = gid, tg_job = job, tg_run = new_job_run env job by' at' vms, tg_vms = vms, tg_phase = Resolved\<rparr>"
    let ?s = "s\<lparr>ss_triggers := ss_triggers s @ [?g]\<rparr>"
    show "distinct (map tg_id (ss_triggers ?s))" using sched_okD(3) [OF ok] new by (auto simp: list_ex_iff)
    show "trigger_ok inst ?s g" if "g \<in> set (ss_triggers ?s)" for g
      using that sched_okD(5) [OF ok] by (auto simp: trigger_ok_def new_job_run_def)
    show "g = h" if "g \<in> set (ss_triggers ?s)" "h \<in> set (ss_triggers ?s)" "tg_phase g = Recorded" "tg_phase h = Recorded" "jr_ID (tg_run g) = jr_ID (tg_run h)" for g h
      using that sched_okD(9) [OF ok] by auto
    show "one_at_a_time ?s j" for j
      by (rule one_at_a_time_mono [OF sched_okD(7) [OF ok]])
         (use one_at_a_timeD(6) [OF sched_okD(7) [OF ok], of j] in \<open>auto simp: open_runs_def closing_runs_def running_def holders_def electors_def cleared_def marked_def\<close>)
    show "fst ` set (ss_active ?s) \<subseteq> {inst}" using sched_okD(6) [OF ok] by simp
  qed (simp_all add: running_def marked_def)
  show ?thesis unfolding trigger_begin_def Let_def
    using ok failed added by (auto split: sum.splits prod.splits if_splits)
qed

lemma trigger_step_ok:
  assumes ok: "sched_ok inst s" and fresh: "fresh_uuids env s"
  shows "sched_ok inst (snd (trigger_step env gid s))"
proof (cases "find (\<lambda>g. tg_id g = gid) (ss_triggers s)")
  case (Some g)
  then have g: "g \<in> set (ss_triggers s)" using find_keyed by metis
  show ?thesis
    using Some trigger_check_ok [OF ok g] trigger_mark_ok [OF ok g] trigger_record_ok [OF ok g _ fresh] trigger_enqueue_ok [OF ok g _ fresh]
    by (cases "tg_phase g") (simp_all add: trigger_step_def)
qed (simp add: trigger_step_def ok)
text \<open>A change of rows that keeps identities, owners sound and opens nothing.\<close>

definition row_change :: "(BackupTask \<Rightarrow> BackupTask) \<Rightarrow> sched \<Rightarrow> sched \<Rightarrow> bool" where
  "row_change f s s' \<longleftrightarrow> ss_queue s' = map f (ss_queue s) \<and>
     (\<forall>t \<in> set (ss_queue s). bt_ID (f t) = bt_ID t \<and> bt_JobRunID (f t) = bt_JobRunID t \<and> bt_JobID (f t) = bt_JobID t \<and> bt_Payload (f t) = bt_Payload t \<and>
        (bt_LeaseOwner (f t) \<noteq> '''' \<longrightarrow> bt_Status (f t) = BackupTaskRunning) \<and> (open_task (f t) \<longrightarrow> open_task t))"

lemma row_changeD:
  assumes "row_change f s s'" "t \<in> set (ss_queue s)"
  shows "bt_ID (f t) = bt_ID t" "bt_JobRunID (f t) = bt_JobRunID t" "bt_JobID (f t) = bt_JobID t" "bt_Payload (f t) = bt_Payload t"
    "bt_LeaseOwner (f t) \<noteq> '''' \<Longrightarrow> bt_Status (f t) = BackupTaskRunning" "open_task (f t) \<Longrightarrow> open_task t" "f t \<in> set (ss_queue s')"
  using assms unfolding row_change_def by auto

lemma row_change_id: "sched_ok inst s \<Longrightarrow> ss_queue s' = ss_queue s \<Longrightarrow> row_change (\<lambda>t. t) s s'"
  using tasks_okD(2) [OF sched_okD(1)] by (auto simp: row_change_def)

lemma row_change_set: "row_change f s s' \<Longrightarrow> set (ss_queue s') = f ` set (ss_queue s)"
  by (simp add: row_change_def)

lemma row_change_open: "row_change f s s' \<Longrightarrow> open_runs s' jid \<subseteq> open_runs s jid"
proof
  fix rid assume c: "row_change f s s'" and "rid \<in> open_runs s' jid"
  then obtain t where t: "t \<in> set (ss_queue s)" "open_task (f t)" "bt_JobID (f t) = jid" "rid = bt_JobRunID (f t)"
    using row_change_set [OF c] by (auto simp: open_runs_def)
  then show "rid \<in> open_runs s jid" using row_changeD(2,3,6) [OF c t(1)] by (auto simp: open_runs_def)
qed

lemma row_change_tasks:
  assumes ok: "tasks_ok (ss_queue s)" and c: "row_change f s s'" shows "tasks_ok (ss_queue s')"
proof -
  have ids: "map bt_ID (ss_queue s') = map bt_ID (ss_queue s)" using c by (simp add: row_change_def)
  have "(\<exists>p. bt_Payload u = Payload p) \<and> (bt_LeaseOwner u \<noteq> '''' \<longrightarrow> bt_Status u = BackupTaskRunning) \<and> bt_JobRunID u \<noteq> ''''" if "u \<in> set (ss_queue s')" for u
  proof -
    obtain t where t: "t \<in> set (ss_queue s)" "u = f t" using \<open>u \<in> set (ss_queue s')\<close> row_change_set [OF c] by blast
    show ?thesis using tasks_okD(1,3) [OF ok t(1)] row_changeD(2,4,5) [OF c t(1)] t(2) by simp
  qed
  moreover have "bt_JobID v = bt_JobID u" if "u \<in> set (ss_queue s')" "v \<in> set (ss_queue s')" "bt_JobRunID v = bt_JobRunID u" for u v
  proof -
    obtain a b where "a \<in> set (ss_queue s)" "u = f a" "b \<in> set (ss_queue s)" "v = f b" using \<open>u \<in> _\<close> \<open>v \<in> _\<close> row_change_set [OF c] by blast
    then show ?thesis using tasks_okD(4) [OF ok] row_changeD(2,3) [OF c] \<open>bt_JobRunID v = _\<close> by metis
  qed
  ultimately show ?thesis using ok ids unfolding tasks_ok_def by metis
qed

lemma sched_ok_work:
  assumes ok: "sched_ok inst s" and c: "row_change f s s'" and tg: "ss_triggers s' = ss_triggers s"
    and d: "distinct (map wk_owner (ss_work s'))" and w: "\<And>w. w \<in> set (ss_work s') \<Longrightarrow> work_ok inst s' w"
    and act: "fst ` set (ss_active s') \<subseteq> {inst}" and one: "\<And>jid. one_at_a_time s' jid"
  shows "sched_ok inst s'"
proof (rule sched_okI)
  show "tasks_ok (ss_queue s')" by (rule row_change_tasks [OF sched_okD(1) [OF ok] c])
  show "trigger_ok inst s' g" if "g \<in> set (ss_triggers s')" for g
  proof -
    have g: "trigger_ok inst s g" using sched_okD(5) [OF ok] that tg by simp
    have "bt_JobRunID u \<noteq> jr_ID (tg_run g)" if "u \<in> set (ss_queue s')" "tg_phase g = Recorded" for u
    proof -
      obtain t where "t \<in> set (ss_queue s)" "u = f t" using \<open>u \<in> _\<close> row_change_set [OF c] by blast
      then show ?thesis using g row_changeD(2) [OF c] that(2) by (auto simp: trigger_ok_def)
    qed
    then show ?thesis using g by (auto simp: trigger_ok_def)
  qed
qed (use d w act one sched_okD(3,9) [OF ok] tg in simp_all)

text \<open>A worker that is not touched keeps its place.\<close>

lemma work_ok_rows:
  assumes ok: "sched_ok inst s" and w: "w \<in> set (ss_work s)" and c: "row_change f s s'"
    and own: "\<And>t. t \<in> set (ss_queue s) \<Longrightarrow> bt_ID t = bt_ID (wk_task w) \<Longrightarrow> bt_LeaseOwner (f t) = wk_owner w \<Longrightarrow> past_mark (wk_phase w) \<Longrightarrow> bt_LeaseOwner t = wk_owner w"
    and m: "\<And>t. row_of s w t \<Longrightarrow> bt_LeaseOwner t = wk_owner w \<Longrightarrow> past_mark (wk_phase w) \<Longrightarrow> marked s (bt_JobID t) \<Longrightarrow> marked s' (bt_JobID t)"
  shows "work_ok inst s' w"
proof (rule work_ok_mono [OF sched_okD(4) [OF ok w]])
  show "\<exists>t. row_of s' w t" using work_row [OF ok w] row_changeD(1,7) [OF c] unfolding row_of_def by metis
  show "\<exists>t0. row_of s w t0 \<and> bt_JobRunID t0 = bt_JobRunID u \<and> bt_JobID t0 = bt_JobID u \<and> (bt_LeaseOwner u = wk_owner w \<longrightarrow> past_mark (wk_phase w) \<longrightarrow> bt_LeaseOwner t0 = wk_owner w)"
    if u: "row_of s' w u" for u
  proof -
    obtain t where t: "t \<in> set (ss_queue s)" "u = f t" using u row_change_set [OF c] unfolding row_of_def by blast
    have "bt_ID t = bt_ID (wk_task w)" using u t row_changeD(1) [OF c t(1)] by (simp add: row_of_def)
    then show ?thesis using t row_changeD(2,3) [OF c t(1)] own [OF t(1)] by (auto simp: row_of_def)
  qed
qed (use m row_change_open [OF c] in auto)

lemma work_step_sel [simp]:
  "ss_queue (set_work w s) = ss_queue s" "ss_triggers (set_work w s) = ss_triggers s" "ss_active (set_work w s) = ss_active s" "ss_jobruns (set_work w s) = ss_jobruns s"
  "ss_queue (drop_work w s) = ss_queue s" "ss_triggers (drop_work w s) = ss_triggers s" "ss_active (drop_work w s) = ss_active s" "ss_jobruns (drop_work w s) = ss_jobruns s"
  "running (set_work w s) = running s" "running (drop_work w s) = running s"
  by (simp_all add: set_work_def drop_work_def running_def fun_eq_iff)

lemma set_set_work:
  assumes "sched_ok inst s" "w \<in> set (ss_work s)" "wk_owner w' = wk_owner w" "ss_work s1 = ss_work s"
  shows "set (ss_work (set_work w' s1)) = insert w' (set (ss_work s) - {w})" "distinct (map wk_owner (ss_work (set_work w' s1)))"
proof -
  have eq: "ss_work (set_work w' s1) = map (\<lambda>y. if wk_owner y = wk_owner w' then w' else y) (ss_work s)" by (simp add: set_work_def assms(4))
  note k = keyed_update [OF sched_okD(2) [OF assms(1)] assms(2,3)]
  show "set (ss_work (set_work w' s1)) = insert w' (set (ss_work s) - {w})" unfolding eq by (rule k(1))
  show "distinct (map wk_owner (ss_work (set_work w' s1)))" unfolding eq k(2) by (rule sched_okD(2) [OF assms(1)])
qed

lemma set_drop_work:
  assumes "sched_ok inst s" "w \<in> set (ss_work s)" "ss_work s1 = ss_work s"
  shows "set (ss_work (drop_work w s1)) = set (ss_work s) - {w}" "distinct (map wk_owner (ss_work (drop_work w s1)))"
  using keyed_remove [OF sched_okD(2) [OF assms(1)] assms(2)] assms(3) by (simp_all add: drop_work_def)

lemma under_way_sub:
  assumes "set (ss_work s') \<subseteq> insert w' (set (ss_work s))" "\<not> is_closing (wk_phase w')" "\<not> is_elected (wk_phase w')" "\<And>rid. running s' rid \<Longrightarrow> running s rid"
  shows "closing_runs s' jid \<subseteq> closing_runs s jid" "electors s' jid \<subseteq> electors s jid"
  using assms by (auto simp: closing_runs_def electors_def)

lemma drop_work_ok:
  assumes ok: "sched_ok inst s" and w: "w \<in> set (ss_work s)" shows "sched_ok inst (drop_work w s)"
proof (rule sched_ok_work [OF ok row_change_id [OF ok]])
  let ?s = "drop_work w s"
  note ws = set_drop_work [OF ok w refl]
  show "distinct (map wk_owner (ss_work ?s))" by (rule ws(2))
  show "work_ok inst ?s v" if "v \<in> set (ss_work ?s)" for v
    by (rule work_ok_rows [OF ok _ row_change_id [OF ok]]) (use that ws(1) in \<open>auto simp: marked_def\<close>)
  have sub: "closing_runs ?s jid \<subseteq> closing_runs s jid" "electors ?s jid \<subseteq> electors s jid" for jid
    using ws(1) by (auto simp: closing_runs_def electors_def)
  show "one_at_a_time ?s jid" for jid
    by (rule one_at_a_time_mono [OF sched_okD(7) [OF ok]])
       (use sub [of jid] one_at_a_timeD(6) [OF sched_okD(7) [OF ok], of jid] in \<open>auto simp: open_runs_def holders_def cleared_def marked_def\<close>)
  show "fst ` set (ss_active ?s) \<subseteq> {inst}" using sched_okD(6) [OF ok] by simp
qed simp_all
text \<open>One worker moves on; a mark may go only where nothing is open.\<close>

lemma replace_work_ok:
  assumes ok: "sched_ok inst s" and w: "w \<in> set (ss_work s)" and s': "s' = set_work w' s1" "wk_owner w' = wk_owner w"
    and c: "row_change f s s1" "\<And>t. t \<in> set (ss_queue s) \<Longrightarrow> bt_LeaseOwner (f t) \<noteq> bt_LeaseOwner t \<Longrightarrow> bt_LeaseOwner (f t) = ''''"
    and same: "ss_triggers s1 = ss_triggers s" "ss_work s1 = ss_work s"
    and act: "fst ` set (ss_active s1) \<subseteq> {inst}" "\<And>jid. marked s jid \<Longrightarrow> marked s1 jid \<or> open_runs s jid = {}"
    and w': "work_ok inst s' w'" and one: "\<And>jid. one_at_a_time s' jid"
  shows "sched_ok inst s'"
proof (rule sched_ok_work [OF ok, of f])
  have c': "row_change f s s'" using c(1) by (simp add: row_change_def s'(1))
  have m: "marked s' = marked s1" by (simp add: marked_def s'(1) fun_eq_iff)
  have ws: "set (ss_work s') = insert w' (set (ss_work s) - {w})" "distinct (map wk_owner (ss_work s'))"
    using set_set_work [OF ok w s'(2) same(2)] by (simp_all add: s'(1))
  show "row_change f s s'" by (rule c')
  show "distinct (map wk_owner (ss_work s'))" by (rule ws(2))
  show "work_ok inst s' v" if v: "v \<in> set (ss_work s')" for v
  proof (cases "v = w'")
    case False
    then have v': "v \<in> set (ss_work s)" using v ws(1) by auto
    have name: "wk_owner v \<noteq> ''''" using sched_okD(4) [OF ok v'] by (simp add: work_ok_def)
    show ?thesis
    proof (rule work_ok_rows [OF ok v' c'])
      show "bt_LeaseOwner t = wk_owner v" if "t \<in> set (ss_queue s)" "bt_LeaseOwner (f t) = wk_owner v" for t
        using c(2) [OF that(1)] that(2) name by metis
      fix t assume t: "row_of s v t" "bt_LeaseOwner t = wk_owner v" "marked s (bt_JobID t)"
      then have "open_task t" "t \<in> set (ss_queue s)" using name tasks_okD(2) [OF sched_okD(1) [OF ok]] by (auto simp: row_of_def open_task_def)
      then have "open_runs s (bt_JobID t) \<noteq> {}" by (auto simp: open_runs_def)
      then show "marked s' (bt_JobID t)" using act(2) [OF t(3)] by (simp add: m)
    qed
  qed (simp add: w')
  show "one_at_a_time s' jid" for jid by (rule one)
  show "fst ` set (ss_active s') \<subseteq> {inst}" using act(1) by (simp add: s'(1))
  show "ss_triggers s' = ss_triggers s" using same(1) by (simp add: s'(1))
qed

lemma phase_change_ok:
  assumes ok: "sched_ok inst s" and w: "w \<in> set (ss_work s)" and s': "s' = set_work (w\<lparr>wk_phase := p\<rparr>) s1"
    and same: "ss_queue s1 = ss_queue s" "ss_triggers s1 = ss_triggers s" "ss_work s1 = ss_work s" "\<And>rid. running s1 rid \<Longrightarrow> running s rid"
    and act: "fst ` set (ss_active s1) \<subseteq> {inst}" "\<And>jid. marked s jid \<Longrightarrow> marked s1 jid"
    and p: "\<not> is_closing p" "\<not> is_elected p" "past_mark p \<Longrightarrow> past_mark (wk_phase w) \<or> marked s1 (bt_JobID (wk_task w))"
  shows "sched_ok inst s'"
proof (rule replace_work_ok [OF ok w s' _ row_change_id [OF ok same(1)] _ same(2,3) act(1)])
  let ?w = "w\<lparr>wk_phase := p\<rparr>"
  have ws: "set (ss_work s') = insert ?w (set (ss_work s) - {w})" using set_set_work [OF ok w, of ?w s1] same(3) by (simp add: s')
  have m: "marked s' jid = marked s1 jid" for jid by (simp add: marked_def s')
  have sub: "closing_runs s' jid \<subseteq> closing_runs s jid" "electors s' jid \<subseteq> electors s jid" for jid
    by (rule under_way_sub [of s' ?w]; use ws(1) p same(4) in \<open>auto simp: s'\<close>)+
  have "row_of s' ?w t \<longleftrightarrow> row_of s w t" for t by (simp add: row_of_def s' same)
  then show "work_ok inst s' ?w" using sched_okD(4) [OF ok w] p act(2) unfolding work_ok_def by (auto simp: m)
  show "one_at_a_time s' jid" for jid
    by (rule one_at_a_time_mono [OF sched_okD(7) [OF ok]])
       (use sub [of jid] act(2) one_at_a_timeD(6) [OF sched_okD(7) [OF ok], of jid] in \<open>auto simp: m\<close>, auto simp: open_runs_def holders_def cleared_def s' same)
qed (simp_all add: act(2))

lemma work_decode_ok:
  assumes ok: "sched_ok inst s" and w: "w \<in> set (ss_work s)" shows "sched_ok inst (work_decode env w s)"
proof -
  obtain q where q: "bt_Payload (wk_task w) = Payload q" "wk_inst w = inst" using sched_okD(4) [OF ok w] by (auto simp: work_ok_def)
  have "sched_ok inst (set_work (w\<lparr>wk_phase := Queueing q\<rparr>) (markJob inst (bt_JobID (wk_task w)) s))"
    by (rule phase_change_ok [OF ok w refl]) (use sched_okD(6) [OF ok] in \<open>auto simp: markJob_def marked_def running_def image_iff\<close>)
  then show ?thesis using q by (simp add: work_decode_def)
qed

lemma acquireTaskSlot_ok:
  assumes ok: "sched_ok inst s" and w: "w \<in> set (ss_work s)" "wk_phase w = Queueing q" shows "sched_ok inst (acquireTaskSlot w q s)"
proof -
  have slots: "sched_ok inst (s\<lparr>ss_slots := x\<rparr>)" for x by (rule sched_ok_frame [OF ok]) (simp_all add: running_def)
  have "sched_ok inst (set_work (w\<lparr>wk_phase := Slotted q\<rparr>) s1)" if "s1 = s \<or> (\<exists>x. s1 = s\<lparr>ss_slots := x\<rparr>)" for s1
  proof -
    have "ss_queue s1 = ss_queue s" "ss_triggers s1 = ss_triggers s" "ss_work s1 = ss_work s" "ss_active s1 = ss_active s" "running s1 = running s"
      using that by (auto simp: running_def)
    then show ?thesis by (intro phase_change_ok [OF ok w(1) refl]) (use sched_okD(6) [OF ok] w(2) in \<open>simp_all add: marked_def\<close>)
  qed
  then show ?thesis using ok slots unfolding acquireTaskSlot_def Let_def by (auto split: option.splits)
qed

lemma work_start_ok:
  assumes ok: "sched_ok inst s" and w: "w \<in> set (ss_work s)" "wk_phase w = Slotted q" shows "sched_ok inst (work_start w q s)"
  unfolding work_start_def
  by (rule phase_change_ok [OF ok w(1) refl]) (use sched_okD(6) [OF ok] w(2) in \<open>auto simp: marked_def running_def\<close>)

lemma work_end_ok: assumes ok: "sched_ok inst s" shows "sched_ok inst (work_end owner err db s)"
proof (cases "find (\<lambda>w. wk_owner w = owner) (ss_work s)")
  case (Some w)
  then have w: "w \<in> set (ss_work s)" using find_keyed by metis
  have "sched_ok inst (set_work (w\<lparr>wk_phase := Executed q err\<rparr>) (s\<lparr>ss_db := db\<rparr>))" if "wk_phase w = Executing q" for q
    by (rule phase_change_ok [OF ok w refl]) (use sched_okD(6) [OF ok] that in \<open>auto simp: marked_def running_def\<close>)
  then show ?thesis using Some ok by (auto simp: work_end_def split: work_phase.splits)
qed (simp add: work_end_def ok)

lemma work_stop_ok: assumes ok: "sched_ok inst s" shows "sched_ok inst (work_stop owner s)"
proof (cases "find (\<lambda>w. wk_owner w = owner) (ss_work s)")
  case (Some w)
  then have w: "w \<in> set (ss_work s)" using find_keyed by metis
  have "sched_ok inst (set_work (w\<lparr>wk_phase := Executed q e\<rparr>) s)" if "wk_phase w = Slotted q" for q e
    by (rule phase_change_ok [OF ok w refl]) (use sched_okD(6) [OF ok] that in \<open>auto simp: marked_def running_def\<close>)
  then show ?thesis using Some ok drop_work_ok [OF ok w] by (auto simp: work_stop_def split: work_phase.splits)
qed (simp add: work_stop_def ok)

lemma row_change_update:
  assumes ok: "sched_ok inst s" and q: "ss_queue s' = ss_queue (update_queue p f s)"
    and f: "\<And>t. t \<in> set (ss_queue s) \<Longrightarrow> p t \<Longrightarrow> bt_ID (f t) = bt_ID t \<and> bt_JobRunID (f t) = bt_JobRunID t \<and> bt_JobID (f t) = bt_JobID t \<and> bt_Payload (f t) = bt_Payload t \<and>
        (bt_LeaseOwner (f t) \<noteq> '''' \<longrightarrow> bt_Status (f t) = BackupTaskRunning) \<and> (open_task (f t) \<longrightarrow> open_task t)"
  shows "row_change (\<lambda>t. if p t then f t else t) s s'"
  using f tasks_okD(2) [OF sched_okD(1) [OF ok]] by (auto simp: row_change_def q update_queue_def)

lemma update_queue_sel [simp]:
  "ss_triggers (update_queue p f s) = ss_triggers s" "ss_work (update_queue p f s) = ss_work s" "ss_active (update_queue p f s) = ss_active s"
  "ss_jobruns (update_queue p f s) = ss_jobruns s" "running (update_queue p f s) = running s"
  by (simp_all add: update_queue_def running_def fun_eq_iff)

text \<open>Rows that change without a worker: the same runs are open as before, or fewer.\<close>

lemma rows_change_ok:
  assumes ok: "sched_ok inst s" and c: "row_change f s s'"
    and same: "ss_triggers s' = ss_triggers s" "ss_work s' = ss_work s" "ss_active s' = ss_active s" "running s' = running s"
    and own: "\<And>t. t \<in> set (ss_queue s) \<Longrightarrow> bt_LeaseOwner (f t) = bt_LeaseOwner t"
  shows "sched_ok inst s'"
proof (rule sched_ok_work [OF ok c same(1)])
  have m: "marked s' = marked s" by (simp add: marked_def same fun_eq_iff)
  show "work_ok inst s' w" if "w \<in> set (ss_work s')" for w
    by (rule work_ok_rows [OF ok _ c]) (use that own in \<open>auto simp: same m\<close>)
  have cl: "closing_runs s' jid = closing_runs s jid" for jid by (simp add: closing_runs_def same)
  show "one_at_a_time s' jid" for jid
    by (rule one_at_a_time_mono [OF sched_okD(7) [OF ok]])
       (use row_change_open [OF c, of jid] one_at_a_timeD(6) [OF sched_okD(7) [OF ok], of jid] in
          \<open>auto simp: m cl holders_def electors_def cleared_def same\<close>)
qed (use sched_okD(2,6) [OF ok] in \<open>simp_all add: same\<close>)

lemma renewed_ok: assumes ok: "sched_ok inst s" shows "sched_ok inst (snd (RenewBackupTaskLease env tid owner lease s))"
proof -
  have "sched_ok inst (update_queue (leased tid owner) (\<lambda>t. t\<lparr>bt_LeaseUntil := a, bt_HeartbeatAt := b, bt_UpdatedAt := c\<rparr>) s)" for a b c
    by (rule rows_change_ok [OF ok row_change_update [OF ok refl]]) (auto simp: leased_def open_task_def)
  then show ?thesis using ok by (simp add: RenewBackupTaskLease_def)
qed

lemma work_renew_ok: "sched_ok inst s \<Longrightarrow> sched_ok inst (work_renew env owner s)"
  by (auto simp: work_renew_def renewed_ok split: option.splits work_phase.splits)
lemma worker_claim_ok:
  assumes ok: "sched_ok inst s" and o: "owner \<noteq> ''''" shows "sched_ok inst (worker_claim env inst owner s)"
proof (cases "free_worker owner s")
  case True
  obtain res s1 where c: "ClaimBackupTasks env owner 1 backupTaskLease s = (res, s1)" by fastforce
  define ids where "ids = map bt_ID (next_tasks (se_now env) 1 (ss_queue s))"
  define f where "f = (\<lambda>t :: BackupTask. t\<lparr>bt_Status := BackupTaskRunning, bt_LeaseOwner := owner, bt_LeaseUntil := Some (se_now env + backupTaskLease),
                        bt_HeartbeatAt := Some (se_now env), bt_UpdatedAt := se_now env\<rparr>)"
  define s2 where "s2 = update_queue (\<lambda>t. bt_ID t \<in> set ids) f s"
  have lease: "\<not> backupTaskLease \<le> 0" by (simp add: backupTaskLease_def minute_def)
  have cases: "s1 = s \<and> (\<exists>e. res = Inl e) \<or> s1 = s2 \<and> res = mapR scanBackupTask (filter (\<lambda>t. bt_ID t \<in> set ids) (ss_queue s2))"
    using c lease unfolding ClaimBackupTasks_def Let_def ids_def s2_def f_def by (auto split: if_splits)
  have due: "takeable (se_now env) t" if t: "t \<in> set (ss_queue s)" "bt_ID t \<in> set ids" for t
  proof -
    obtain u where u: "u \<in> set (next_tasks (se_now env) 1 (ss_queue s))" "bt_ID u = bt_ID t" using t(2) unfolding ids_def by auto
    have "set (next_tasks (se_now env) 1 (ss_queue s)) \<subseteq> set (filter (takeable (se_now env)) (ss_queue s))"
      using set_take_subset unfolding next_tasks_def by fastforce
    then have "u \<in> set (ss_queue s)" "takeable (se_now env) u" using u(1) by auto
    then show ?thesis using tasks_okD(5) [OF sched_okD(1) [OF ok] t(1)] u(2) by blast
  qed
  let ?f = "\<lambda>t. if bt_ID t \<in> set ids then f t else t"
  have rc: "row_change ?f s s'" if "ss_queue s' = ss_queue s2" for s'
    by (rule row_change_update [OF ok]) (use that due in \<open>auto simp: s2_def f_def open_task_def takeable_def\<close>)
  have free: "wk_owner w \<noteq> owner" if "w \<in> set (ss_work s)" for w using True that by (auto simp: free_worker_def list_ex_iff)
  have main: "sched_ok inst s'" if s': "ss_queue s' = ss_queue s2" "ss_triggers s' = ss_triggers s" "ss_active s' = ss_active s" "running s' = running s"
      and w: "ss_work s' = ss_work s \<or> (\<exists>t \<in> set (ss_queue s2). ss_work s' = ss_work s @ [\<lparr>wk_inst = inst, wk_owner = owner, wk_task = t, wk_phase = Claimed\<rparr>])" for s'
  proof (rule sched_ok_work [OF ok rc [OF s'(1)] s'(2)])
    have m: "marked s' = marked s" by (simp add: marked_def s' fun_eq_iff)
    have "owner \<notin> wk_owner ` set (ss_work s)" using free by blast
    then show "distinct (map wk_owner (ss_work s'))" using w sched_okD(2) [OF ok] by auto
    have old: "work_ok inst s' v" if "v \<in> set (ss_work s)" for v
      by (rule work_ok_rows [OF ok that rc [OF s'(1)]]) (use free [OF that] in \<open>auto simp: m f_def split: if_splits\<close>)
    show "work_ok inst s' v" if v: "v \<in> set (ss_work s')" for v
    proof (cases "v \<in> set (ss_work s)")
      case False
      then obtain t where t: "t \<in> set (ss_queue s2)" "v = \<lparr>wk_inst = inst, wk_owner = owner, wk_task = t, wk_phase = Claimed\<rparr>" using v w by auto
      have tk: "tasks_ok (ss_queue s2)" using row_change_tasks [OF sched_okD(1) [OF ok] rc [OF s'(1)]] s'(1) by simp
      have "row_of s' v u \<longleftrightarrow> u = t" for u using t tasks_okD(5) [OF tk t(1)] by (auto simp: row_of_def s'(1))
      then show ?thesis using t o tasks_okD(1) [OF tk t(1)] by (simp add: work_ok_def)
    qed (rule old)
    have sub: "closing_runs s' jid \<subseteq> closing_runs s jid" "electors s' jid \<subseteq> electors s jid" for jid
      using w by (auto simp: closing_runs_def electors_def s'(4))
    show "one_at_a_time s' jid" for jid
      by (rule one_at_a_time_mono [OF sched_okD(7) [OF ok]])
         (use sub [of jid] row_change_open [OF rc [OF s'(1)], of jid] one_at_a_timeD(6) [OF sched_okD(7) [OF ok], of jid] in
           \<open>auto simp: m holders_def cleared_def s'(2)\<close>)
    show "fst ` set (ss_active s') \<subseteq> {inst}" using sched_okD(6) [OF ok] by (simp add: s'(3))
  qed
  have s2: "ss_triggers s2 = ss_triggers s" "ss_active s2 = ss_active s" "running s2 = running s" "ss_work s2 = ss_work s" by (simp_all add: s2_def)
  show ?thesis
  proof (cases "s1 = s \<and> (\<exists>e. res = Inl e)")
    case True then show ?thesis using c \<open>free_worker owner s\<close> ok by (auto simp: worker_claim_def)
  next
    case False
    then have r: "s1 = s2" "res = mapR scanBackupTask (filter (\<lambda>t. bt_ID t \<in> set ids) (ss_queue s2))" using cases by auto
    have "t \<in> set (ss_queue s2)" if t: "res = Inr (t # ts)" for t ts
    proof -
      have "mapR scanBackupTask (filter (\<lambda>t. bt_ID t \<in> set ids) (ss_queue s2)) = Inr (t # ts)" using r(2) t by simp
      from mapR_mem [OF this, of t] obtain x where "x \<in> set (ss_queue s2)" "scanBackupTask x = Inr t" by auto
      then show ?thesis by (simp add: scanBackupTask_def split: if_splits)
    qed
    then show ?thesis using c \<open>free_worker owner s\<close> r(1) main [of s2] s2
      by (auto simp: worker_claim_def intro!: main split: sum.splits list.splits)
  qed
qed (simp add: worker_claim_def ok)

lemma work_finish_ok:
  assumes ok: "sched_ok inst s" and w: "w \<in> set (ss_work s)" "wk_phase w = Executed q err" shows "sched_ok inst (work_finish env w q err s)"
proof -
  let ?p = "\<lambda>t. bt_ID t = bt_ID (wk_task w) \<and> bt_LeaseOwner t = wk_owner w" let ?j = "bt_JobID (wk_task w)" let ?r = "bt_JobRunID (wk_task w)"
  obtain status msg where st: "status \<in> {BackupTaskSucceeded, BackupTaskFailed}"
    and sm: "work_finish env w q err s = (case FinishBackupTask env (bt_ID (wk_task w)) (wk_owner w) status msg s of
        (Inl _, s1) \<Rightarrow> drop_work w s1 | (Inr _, s1) \<Rightarrow> set_work (w\<lparr>wk_phase := Finished (Some (qt_Job q))\<rparr>) s1)"
    unfolding work_finish_def by (cases err) auto
  define f where "f = (\<lambda>t :: BackupTask. t\<lparr>bt_Status := status, bt_Error := msg, bt_LeaseOwner := '''', bt_LeaseUntil := None, bt_UpdatedAt := se_now env\<rparr>)"
  define s1 where "s1 = update_queue ?p f s"
  define s' where "s' = set_work (w\<lparr>wk_phase := Finished (Some (qt_Job q))\<rparr>) s1"
  have rc: "row_change (\<lambda>t. if ?p t then f t else t) s s1" and rc': "row_change (\<lambda>t. if ?p t then f t else t) s s'"
    by (rule row_change_update [OF ok]; use st in \<open>auto simp: s'_def s1_def f_def open_task_def\<close>)+
  note d = one_at_a_timeD [OF sched_okD(7) [OF ok]]
  have "sched_ok inst s'" if own: "list_ex ?p (ss_queue s)"
  proof -
    from own obtain t where t: "t \<in> set (ss_queue s)" "bt_ID t = bt_ID (wk_task w)" "bt_LeaseOwner t = wk_owner w" by (auto simp: list_ex_iff)
    have wk: "wk_owner w \<noteq> ''''" "bt_JobRunID t = ?r" "bt_JobID t = ?j" "marked s ?j"
      using sched_okD(4) [OF ok w(1)] t w(2) unfolding work_ok_def row_of_def by auto
    have "open_task t" using tasks_okD(2) [OF sched_okD(1) [OF ok] t(1)] t(3) wk(1) by (simp add: open_task_def)
    then have r: "?r \<in> open_runs s ?j" using t(1) wk(2,3) unfolding open_runs_def by (metis (mono_tags, lifting) mem_Collect_eq)
    have m: "marked s' = marked s" by (simp add: marked_def s'_def s1_def fun_eq_iff)
    have ws: "set (ss_work s') = insert (w\<lparr>wk_phase := Finished (Some (qt_Job q))\<rparr>) (set (ss_work s) - {w})"
      using set_set_work [OF ok w(1), of _ s1] by (simp add: s'_def s1_def)
    show ?thesis
    proof (rule replace_work_ok [OF ok w(1) s'_def _ rc])
      have "work_ok inst s' w"
        by (rule work_ok_rows [OF ok w(1) rc']) (use sched_okD(4) [OF ok w(1)] in \<open>auto simp: m f_def work_ok_def split: if_splits\<close>)
      then show "work_ok inst s' (w\<lparr>wk_phase := Finished (Some (qt_Job q))\<rparr>)" using w(2) by (auto simp: work_ok_def row_of_def)
      have cl: "closing_runs s' jid \<subseteq> closing_runs s jid \<union> (if jid = ?j then {?r} else {})" "electors s' jid \<subseteq> electors s jid" for jid
        using ws(1) by (auto simp: closing_runs_def electors_def s'_def s1_def)
      have tr: "holders s' jid = holders s jid" "cleared s' jid = cleared s jid" for jid by (simp_all add: holders_def cleared_def s'_def s1_def)
      show "one_at_a_time s' jid" for jid
        by (rule one_at_a_time_mono [OF sched_okD(7) [OF ok]])
           (use cl [of jid] r row_change_open [OF rc', of jid] d(6) [of jid] wk(4) in \<open>auto simp: m tr split: if_splits\<close>)
    qed (use sched_okD(6) [OF ok] in \<open>auto simp: s1_def f_def marked_def split: if_splits\<close>)
  qed
  then show ?thesis unfolding sm FinishBackupTask_def s'_def s1_def f_def using drop_work_ok [OF ok w(1)] by auto
qed
text \<open>The close of a group: the question, the election, the release, the totals.\<close>

lemma work_open_ok:
  assumes ok: "sched_ok inst s" and w: "w \<in> set (ss_work s)" "wk_phase w = Finished j" shows "sched_ok inst (work_open env w j s)"
proof (cases "HasOpenBackupTasks env '''' (bt_JobRunID (wk_task w)) s = Inr False")
  case True
  let ?w = "w\<lparr>wk_phase := Closing j\<rparr>" let ?s = "set_work ?w s"
  obtain t where t: "t \<in> set (ss_queue s)" "bt_JobRunID t = bt_JobRunID (wk_task w)" using work_row [OF ok w(1)] by metis
  then have "bt_JobRunID (wk_task w) \<noteq> ''''" using tasks_okD(3) [OF sched_okD(1) [OF ok] t(1)] by simp
  then have none: "bt_JobRunID (wk_task w) \<notin> open_runs s jid" for jid
    using True by (auto simp: HasOpenBackupTasks_def open_runs_def list_ex_iff split: if_splits)
  have ws: "set (ss_work ?s) = insert ?w (set (ss_work s) - {w})" "distinct (map wk_owner (ss_work ?s))"
    using set_set_work [OF ok w(1), of ?w s] by simp_all
  have same: "open_runs ?s jid = open_runs s jid" "marked ?s jid = marked s jid" "holders ?s jid = holders s jid" "cleared ?s jid = cleared s jid" for jid
    by (simp_all add: open_runs_def marked_def holders_def cleared_def)
  have sub: "closing_runs ?s jid \<subseteq> closing_runs s jid" "electors ?s jid \<subseteq> electors s jid" for jid
    using ws(1) w by (auto simp: closing_runs_def electors_def)
  have "sched_ok inst ?s"
  proof (rule replace_work_ok [OF ok w(1) refl _ row_change_id [OF ok refl]])
    show "work_ok inst ?s ?w" using sched_okD(4) [OF ok w(1)] none w(2) by (simp add: work_ok_def row_of_def same)
    show "one_at_a_time ?s jid" for jid
      by (rule one_at_a_time_mono [OF sched_okD(7) [OF ok]])
         (use sub [of jid] one_at_a_timeD(6) [OF sched_okD(7) [OF ok], of jid] in \<open>auto simp: same\<close>)
  qed (use sched_okD(6) [OF ok] in simp_all)
  then show ?thesis using True by (simp add: work_open_def)
next
  case False
  then show ?thesis using drop_work_ok [OF ok w(1)] by (auto simp: work_open_def split: sum.splits bool.splits)
qed

lemma running_claim:
  assumes "ClaimBackupJobRunFinalization env rid s = (res, s1)"
  shows "running s1 r \<Longrightarrow> running s r" "res = Inr True \<Longrightarrow> running s rid \<and> \<not> running s1 rid"
    "ss_queue s1 = ss_queue s" "ss_work s1 = ss_work s" "ss_triggers s1 = ss_triggers s" "ss_active s1 = ss_active s"
  using assms by (auto simp: ClaimBackupJobRunFinalization_def running_def list_ex_iff split: if_splits)

lemma work_elect_ok:
  assumes ok: "sched_ok inst s" and w: "w \<in> set (ss_work s)" "wk_phase w = Closing j" shows "sched_ok inst (work_elect env w j s)"
proof -
  let ?j = "bt_JobID (wk_task w)" let ?r = "bt_JobRunID (wk_task w)" let ?w = "w\<lparr>wk_phase := Elected j\<rparr>"
  obtain res s1 where c: "ClaimBackupJobRunFinalization env ?r s = (res, s1)" by fastforce
  note same = running_claim(3-6) [OF c]
  have ok1: "sched_ok inst s1" by (rule sched_ok_frame [OF ok same(1,4,3,2)]) (use running_claim(1) [OF c] in blast)
  have w1: "w \<in> set (ss_work s1)" using w(1) same(2) by simp
  have "sched_ok inst (set_work ?w s1)" if "res = Inr True"
  proof -
    let ?s = "set_work ?w s1"
    have run: "running s ?r" "\<not> running s1 ?r" using running_claim(2) [OF c that] by auto
    note d = one_at_a_timeD [OF sched_okD(7) [OF ok, of ?j]]
    have cl: "?r \<in> closing_runs s ?j" using w run(1) by (auto simp: closing_runs_def)
    have "?r \<notin> open_runs s ?j" using sched_okD(4) [OF ok w(1)] w(2) by (simp add: work_ok_def)
    then have op: "open_runs s ?j = {}" using d(1) cl by blast
    have none: "holders s ?j = {}" "electors s ?j = {}" "marked s ?j" using d(4,5,6) cl by blast+
    have all: "closing_runs s1 ?j = {}"
    proof (rule equals0I)
      fix x assume x: "x \<in> closing_runs s1 ?j"
      then have "running s1 x" "x \<in> closing_runs s ?j" using running_claim(1) [OF c] by (auto simp: closing_runs_def same)
      then show False using d(1) [of x ?r] cl run(2) by blast
    qed
    have ws: "set (ss_work ?s) = insert ?w (set (ss_work s1) - {w})" "distinct (map wk_owner (ss_work ?s))"
      using set_set_work [OF ok1 w1, of ?w s1] by simp_all
    have eq: "open_runs ?s jid = open_runs s jid" "marked ?s jid = marked s jid" "holders ?s jid = holders s jid" "cleared ?s jid = cleared s jid" for jid
      by (simp_all add: open_runs_def marked_def holders_def cleared_def same)
    have sub: "closing_runs ?s jid \<subseteq> closing_runs s1 jid" "electors ?s jid \<subseteq> electors s jid \<union> (if jid = ?j then {wk_owner w} else {})" for jid
      using ws(1) by (auto simp: closing_runs_def electors_def same)
    show ?thesis
    proof (rule replace_work_ok [OF ok1 w1 refl _ row_change_id [OF ok1 refl]])
      show "work_ok inst ?s ?w" using sched_okD(4) [OF ok1 w1] by (simp add: work_ok_def row_of_def)
      show "one_at_a_time ?s jid" for jid
      proof (cases "jid = ?j")
        case True
        have e: "x = wk_owner w" if "x \<in> electors ?s jid" for x using that sub(2) [of jid] none(2) True by auto
        show ?thesis
          by (rule one_at_a_timeI) (use op none all sub(1) [of jid] True in \<open>simp_all add: eq\<close>, use e in metis)
      next
        case False
        show ?thesis
          by (rule one_at_a_time_mono [OF sched_okD(7) [OF ok1]])
             (use False sub [of jid] one_at_a_timeD(6) [OF sched_okD(7) [OF ok1], of jid] in
               \<open>auto simp: eq open_runs_def marked_def holders_def cleared_def electors_def same\<close>)
      qed
    qed (use sched_okD(6) [OF ok1] in simp_all)
  qed
  then show ?thesis using c drop_work_ok [OF ok1 w1] by (auto simp: work_elect_def split: sum.splits bool.splits)
qed

lemma work_release_ok:
  assumes ok: "sched_ok inst s" and w: "w \<in> set (ss_work s)" "wk_phase w = Elected j" shows "sched_ok inst (work_release w j s)"
proof -
  let ?j = "bt_JobID (wk_task w)" let ?w = "w\<lparr>wk_phase := Released j\<rparr>" let ?s = "set_work ?w (releaseJob inst ?j s)"
  have i: "wk_inst w = inst" using sched_okD(4) [OF ok w(1)] by (simp add: work_ok_def)
  note d = one_at_a_timeD [OF sched_okD(7) [OF ok]]
  have e: "wk_owner w \<in> electors s ?j" using w by (auto simp: electors_def)
  have none: "open_runs s ?j = {}" "closing_runs s ?j = {}" "holders s ?j = {}" using d(5) [of ?j] e by auto
  have ws: "set (ss_work ?s) = insert ?w (set (ss_work s) - {w})" "distinct (map wk_owner (ss_work ?s))"
    using set_set_work [OF ok w(1), of ?w "releaseJob inst ?j s"] by simp_all
  have m: "marked ?s jid \<longleftrightarrow> jid \<noteq> ?j \<and> marked s jid" for jid using marked_release [OF ok, of ?j jid] by (simp add: marked_def)
  have eq: "open_runs ?s jid = open_runs s jid" "holders ?s jid = holders s jid" "cleared ?s jid = cleared s jid" for jid
    by (simp_all add: open_runs_def holders_def cleared_def)
  have sub: "closing_runs ?s jid \<subseteq> closing_runs s jid" "electors ?s jid \<subseteq> electors s jid" for jid
    by (rule under_way_sub [of _ ?w]; use ws(1) in auto)+
  have "sched_ok inst ?s"
  proof (rule replace_work_ok [OF ok w(1) refl _ row_change_id [OF ok]])
    show "work_ok inst ?s ?w" using sched_okD(4) [OF ok w(1)] by (simp add: work_ok_def row_of_def)
    show "marked (releaseJob inst ?j s) jid \<or> open_runs s jid = {}" if "marked s jid" for jid using that marked_release [OF ok] none(1) by auto
    show "one_at_a_time ?s jid" for jid
    proof (cases "jid = ?j")
      case True
      have "electors ?s jid = {}"
      proof (rule equals0I)
        fix x assume x: "x \<in> electors ?s jid"
        then obtain v where v: "v \<in> set (ss_work s)" "v \<noteq> w" "x = wk_owner v" using ws(1) by (auto simp: electors_def)
        have "x = wk_owner w" using d(3) [of x ?j "wk_owner w"] x sub(2) [of jid] e True by blast
        then show False using v w(1) sched_okD(2) [OF ok] by (metis distinct_map inj_onD)
      qed
      then show ?thesis using none sub(1) [of jid] True by (intro one_at_a_timeI) (simp_all add: eq)
    next
      case False
      show ?thesis
        by (rule one_at_a_time_mono [OF sched_okD(7) [OF ok]])
           (use False sub [of jid] d(6) [of jid] in \<open>auto simp: eq m\<close>)
    qed
    show "fst ` set (ss_active (releaseJob inst ?j s)) \<subseteq> {inst}" using sched_okD(6) [OF ok] by (auto simp: releaseJob_def)
  qed simp_all
  then show ?thesis by (simp add: work_release_def i)
qed
lemma finish_status_not_running [simp]: "finish_status n y \<noteq> RunRunning"
  by (simp add: finish_status_def)

lemma finishJob_frame:
  "ss_queue (finishJob env job run s) = ss_queue s" "ss_work (finishJob env job run s) = ss_work s"
  "ss_triggers (finishJob env job run s) = ss_triggers s" "ss_active (finishJob env job run s) = ss_active s"
  "running (finishJob env job run s) rid \<Longrightarrow> running s rid"
  by (auto simp: finishJob_def Let_def totalled_run_def dest!: running_SaveJobRun split: sum.splits if_splits)

lemma finishJob_ok: "sched_ok inst s \<Longrightarrow> sched_ok inst (finishJob env job run s)"
  by (rule sched_ok_frame) (auto simp: finishJob_frame)

lemma work_total_ok:
  assumes ok: "sched_ok inst s" and w: "w \<in> set (ss_work s)" shows "sched_ok inst (work_total env w j s)"
proof -
  have "sched_ok inst (drop_work w (finishJob env job run s))" for job run
    by (rule drop_work_ok [OF finishJob_ok [OF ok]]) (simp add: finishJob_frame w)
  then show ?thesis using drop_work_ok [OF ok w] unfolding work_total_def by (auto split: option.splits sum.splits)
qed

lemma work_step_ok: assumes ok: "sched_ok inst s" shows "sched_ok inst (work_step env owner s)"
proof (cases "find (\<lambda>w. wk_owner w = owner) (ss_work s)")
  case (Some w)
  then have w: "w \<in> set (ss_work s)" using find_keyed by metis
  note steps = work_decode_ok [OF ok w] acquireTaskSlot_ok [OF ok w] work_start_ok [OF ok w] work_finish_ok [OF ok w]
    work_open_ok [OF ok w] work_elect_ok [OF ok w] work_release_ok [OF ok w] work_total_ok [OF ok w]
  show ?thesis using Some ok steps by (cases "wk_phase w") (simp_all add: work_step_def)
qed (simp add: work_step_def ok)

text \<open>The recount of the replication never starts a job run again.\<close>

lemma recalculate_rows:
  obtains g where "rs_jobruns (recalculateJobRun now rid changed v) = map g (rs_jobruns v)"
    "\<And>j. jr_ID (g j) = jr_ID j" "\<And>j. jr_Status (g j) = RunRunning \<Longrightarrow> jr_Status j = RunRunning"
proof -
  have upd: "\<exists>g. rs_jobruns (UpdateBackupJobRun (recounted now cs j0) v) = map g (rs_jobruns v) \<and>
      (\<forall>j. jr_ID (g j) = jr_ID j \<and> (jr_Status (g j) = RunRunning \<longrightarrow> jr_Status j = RunRunning))" for cs j0
  proof -
    have st: "jr_Status (recounted now cs j0) \<noteq> RunRunning" by (simp add: recounted_def Let_def job_status_def)
    show ?thesis
    proof (cases "pd_fails (rs_db v) ''update job run'' (jr_ID (recounted now cs j0))")
      case True then show ?thesis by (intro exI [of _ "\<lambda>j. j"]) (simp add: UpdateBackupJobRun_def)
    next
      case False
      then show ?thesis using st
        by (intro exI [of _ "\<lambda>x. if jr_ID x = jr_ID (recounted now cs j0) then recounted now cs j0 else x"]) (simp add: UpdateBackupJobRun_def)
    qed
  qed
  have "\<exists>g. rs_jobruns (recalculateJobRun now rid changed v) = map g (rs_jobruns v) \<and>
      (\<forall>j. jr_ID (g j) = jr_ID j \<and> (jr_Status (g j) = RunRunning \<longrightarrow> jr_Status j = RunRunning))"
    (is "?P (recalculateJobRun now rid changed v)")
  proof -
    have same: "?P v" by (intro exI [of _ "\<lambda>j. j"]) simp
    have set_last: "rs_jobruns (SetJobLastStatus jid st s1) = rs_jobruns s1" for jid st s1 by (simp add: SetJobLastStatus_def)
    show ?thesis unfolding recalculateJobRun_def Let_def
      using same upd by (auto simp: set_last split: sum.splits option.splits)
  qed
  then show thesis using that by blast
qed

lemma recount_frame:
  "ss_queue (recount env rid changed s) = ss_queue s" "ss_work (recount env rid changed s) = ss_work s"
  "ss_triggers (recount env rid changed s) = ss_triggers s" "ss_active (recount env rid changed s) = ss_active s"
  by (simp_all add: recount_def Let_def)

lemma job_run_parts:
  "jr_ID (BackupJobRun.extend b m) = jr_ID b" "jr_Status (BackupJobRun.extend b m) = jr_Status b"
  "jr_ID (BackupJobRun.truncate j) = jr_ID j" "jr_Status (BackupJobRun.truncate j) = jr_Status j"
  by (simp_all add: BackupJobRun.defs)

lemma recount_running: assumes "running (recount env rid changed s) r" shows "running s r"
proof -
  obtain g where g: "rs_jobruns (recalculateJobRun (se_now env) rid changed (repl_view s)) = map g (map BackupJobRun.truncate (ss_jobruns s))"
    "\<And>j. jr_ID (g j) = jr_ID j" "\<And>j. jr_Status (g j) = RunRunning \<Longrightarrow> jr_Status j = RunRunning"
    using recalculate_rows [of "se_now env" rid changed "repl_view s"] by (auto simp: repl_view_def)
  have zm: "map (\<lambda>(j, b). BackupJobRun.extend b (BackupJobRun.more j)) (zip xs (map g (map BackupJobRun.truncate xs))) =
      map (\<lambda>j. BackupJobRun.extend (g (BackupJobRun.truncate j)) (BackupJobRun.more j)) xs" for xs :: "JobRun list" by (induction xs) auto
  have "ss_jobruns (recount env rid changed s) = map (\<lambda>j. BackupJobRun.extend (g (BackupJobRun.truncate j)) (BackupJobRun.more j)) (ss_jobruns s)"
    unfolding zm [symmetric] recount_def Let_def g(1) by simp
  then obtain j where j: "j \<in> set (ss_jobruns s)" "jr_ID (BackupJobRun.extend (g (BackupJobRun.truncate j)) (BackupJobRun.more j)) = r"
    "jr_Status (BackupJobRun.extend (g (BackupJobRun.truncate j)) (BackupJobRun.more j)) = RunRunning" using assms by (auto simp: running_def)
  have "jr_ID j = r" "jr_Status j = RunRunning" using j(2,3) g(2) g(3) [of "BackupJobRun.truncate j"] by (simp_all add: job_run_parts)
  then show ?thesis using j(1) by (auto simp: running_def)
qed

text \<open>A start begins with an empty memory.\<close>

definition idle :: "sched \<Rightarrow> BackupTask list \<Rightarrow> bool" where
  "idle s q \<longleftrightarrow> ss_queue s = q \<and> ss_triggers s = [] \<and> ss_work s = [] \<and> ss_active s = []"

lemma idle_ok: assumes ok: "sched_ok inst s" and i: "idle s' (ss_queue s)" shows "sched_ok inst s'"
proof (rule sched_okI)
  show "one_at_a_time s' jid" for jid
  proof (rule one_at_a_timeI)
    show "a = b" if "a \<in> open_runs s' jid \<union> closing_runs s' jid" "b \<in> open_runs s' jid \<union> closing_runs s' jid" for a b
      by (rule one_at_a_timeD(1) [OF sched_okD(7) [OF ok, of jid]]) (use that i in \<open>auto simp: idle_def open_runs_def closing_runs_def\<close>)
  qed (use i in \<open>auto simp: idle_def under_way_defs\<close>)
qed (use i sched_okD(1) [OF ok] in \<open>auto simp: idle_def\<close>)

lemma idle_finishJob: "idle s q \<Longrightarrow> idle (finishJob env job run (releaseJob inst jid s)) q"
  by (simp add: idle_def finishJob_frame releaseJob_def)

lemma idle_claim: "ClaimBackupJobRunFinalization env rid s = (res, s1) \<Longrightarrow> idle s q \<Longrightarrow> idle s1 q"
  using running_claim(3-6) by (simp add: idle_def)

lemma idle_recover: "idle s q \<Longrightarrow> idle (snd (recover_runs env inst runs s)) q"
proof (induction runs arbitrary: s)
  case (Cons r rs)
  have claim: "idle s1 q" if "(if jr_Status r = RunRunning then ClaimBackupJobRunFinalization env (jr_ID r) s else (Inr True, s)) = (res, s1)" for res s1
    using that Cons.prems idle_claim by (auto split: if_splits)
  obtain res s1 where c: "(if jr_Status r = RunRunning then ClaimBackupJobRunFinalization env (jr_ID r) s else (Inr True, s)) = (res, s1)" by fastforce
  note i = claim [OF c]
  have inner: "idle (snd (case GetBackupTaskForJobRun env (jr_ID r) s1 of Inl _ \<Rightarrow> recover_runs env inst rs s1
      | Inr t \<Rightarrow> (case k t of Inl e \<Rightarrow> (Some e, s1) | Inr job \<Rightarrow> recover_runs env inst rs (finishJob env job r (releaseJob inst (jr_JobID r) s1))))) q" for k
    using i Cons.IH [OF i] Cons.IH [OF idle_finishJob [OF i]] by (simp split: sum.split)
  show ?case unfolding recover_runs.simps(2) c
    using i inner Cons.IH [OF i] Cons.IH [OF Cons.prems] Cons.prems
    by (cases "HasOpenBackupTasks env '''' (jr_ID r) s"; cases res) (simp_all split: bool.split)
qed simp

lemma idle_missed: "idle s q \<Longrightarrow> idle (snd (recover_missed env jobs s)) q"
proof (induction jobs arbitrary: s)
  case (Cons job jobs)
  have "idle s1 q" if "CreateBackupJobRun env r s = (res, s1)" for r res s1 using create_job_run(1-4) [OF that] Cons.prems by (simp add: idle_def)
  then have created: "idle (snd (recover_missed env jobs s1)) q" if "CreateBackupJobRun env r s = (res, s1)" for r res s1 using that Cons.IH by blast
  have same: "idle (snd (recover_missed env jobs s)) q" by (rule Cons.IH [OF Cons.prems])
  show ?case
  proof (cases "due env job")
    case (Some d)
    obtain first nxt where d: "d = (first, nxt)" by fastforce
    obtain n latest where n: "missed_points nxt (se_now env) first 0 first = (n, latest)" by fastforce
    define r where "r = missed_run env job (case resolveVMs env job s of Inl _ \<Rightarrow> [] | Inr vms \<Rightarrow> vms) n latest"
    obtain res s1 where c: "CreateBackupJobRun env r s = (res, s1)" by fastforce
    have "idle s1 q" using create_job_run(1-4) [OF c] Cons.prems by (simp add: idle_def)
    then show ?thesis using same created [OF c] c
      by (cases res) (auto simp: Some d n r_def [symmetric] split: prod.splits sum.splits)
  qed (simp add: same)
qed simp

lemma idle_reload: "idle s q \<Longrightarrow> idle (snd (reload env s)) q"
proof -
  assume i: "idle s q"
  have "idle (snd (fold (reload_job env) jobs (es, s))) q" if "idle s q" for jobs es s
    using that by (induction jobs arbitrary: es s) (auto simp: reload_job_def idle_def split: sum.splits)
  then show ?thesis using i by (auto simp: reload_def split: sum.splits prod.splits) (metis snd_conv)
qed

lemma Start_ok: assumes ok: "sched_ok inst s" shows "sched_ok inst (snd (Start env inst enabled s))"
proof (rule idle_ok [OF ok])
  have "idle (forget inst s) (ss_queue s)"
    using sched_okD(4,5,8) [OF ok] by (auto simp: idle_def forget_def filter_empty_conv work_ok_def trigger_ok_def)
  then have r: "idle (snd (recoverTaskFinalizations env inst (forget inst s))) (ss_queue s)"
    by (auto simp: recoverTaskFinalizations_def idle_recover split: sum.splits)
  have m: "idle (snd (if enabled then recoverMissedSchedules env s1 else (Inr [], s1))) q" if "idle s1 q" for s1 q
    using that by (auto simp: recoverMissedSchedules_def idle_missed split: sum.splits)
  show "idle (snd (Start env inst enabled s)) (ss_queue s)"
    unfolding Start_def using r m idle_reload by (auto split: prod.splits option.splits sum.splits) (metis snd_conv)+
qed

section \<open>Reachable states\<close>

text \<open>Events of one instance; workers have names.\<close>

fun own_event :: "string \<Rightarrow> sched_event \<Rightarrow> bool" where
  "own_event inst (TgBegin i gid jid by' at') = (i = inst)"
| "own_event inst (WkClaim i owner) = (i = inst \<and> owner \<noteq> '''')"
| "own_event inst (ScStart i enabled) = (i = inst)"
| "own_event inst _ = True"

inductive sched_reachable :: "string \<Rightarrow> sched \<Rightarrow> sched \<Rightarrow> bool" for inst s0 where
  start: "sched_reachable inst s0 s0"
| step: "sched_reachable inst s0 s \<Longrightarrow> own_event inst ev \<Longrightarrow> (\<And>gid. ev = TgStep gid \<Longrightarrow> fresh_uuids env s) \<Longrightarrow> sched_reachable inst s0 (sched_step env ev s)"

lemma sched_step_ok:
  assumes ok: "sched_ok inst s" and ev: "own_event inst ev" "\<And>gid. ev = TgStep gid \<Longrightarrow> fresh_uuids env s"
  shows "sched_ok inst (sched_step env ev s)"
proof (cases ev)
  case (ScRecount rid changed)
  have "sched_ok inst (recount env rid changed s)" by (rule sched_ok_frame [OF ok recount_frame(1,4,3,2)]) (use recount_running in blast)
  then show ?thesis using ScRecount by simp
next
  case (ScTables db jobs vms)
  have "sched_ok inst (s\<lparr>ss_db := db, ss_jobs := jobs, ss_vms := vms\<rparr>)" by (rule sched_ok_frame [OF ok]) simp_all
  then show ?thesis using ScTables by simp
qed (use ok ev trigger_begin_ok [OF ok] trigger_step_ok [OF ok] worker_claim_ok [OF ok] work_step_ok [OF ok] work_end_ok [OF ok]
       work_stop_ok [OF ok] work_renew_ok [OF ok] Start_ok [OF ok] in auto)

lemma sched_reachable_ok: "sched_reachable inst s0 s \<Longrightarrow> sched_ok inst s0 \<Longrightarrow> sched_ok inst s"
  by (induction rule: sched_reachable.induct) (auto intro: sched_step_ok)

section \<open>Leases\<close>

text \<open>What a table of leased rows promises to its workers, and what follows for any number of claims. A claim answers the
  identifiers it took.\<close>

locale lease_table =
  fixes take_rows :: "int \<Rightarrow> string \<Rightarrow> 'db \<Rightarrow> string set \<times> 'db" and free_at :: "int \<Rightarrow> 'db \<Rightarrow> string \<Rightarrow> bool" and term' :: int
  assumes taken_free: "take_rows now w db = (ids, db') \<Longrightarrow> i \<in> ids \<Longrightarrow> free_at now db i"
    and taken_held: "take_rows now w db = (ids, db') \<Longrightarrow> i \<in> ids \<Longrightarrow> t < now + term' \<Longrightarrow> \<not> free_at t db' i"
    and none_freed: "take_rows now w db = (ids, db') \<Longrightarrow> now \<le> t \<Longrightarrow> free_at t db' i \<Longrightarrow> free_at t db i"
begin

fun claims :: "(int \<times> string) list \<Rightarrow> 'db \<Rightarrow> string set list" where
  "claims [] db = []"
| "claims ((now, w) # rest) db = (case take_rows now w db of (ids, db') \<Rightarrow> ids # claims rest db')"

lemma later_free: "sorted (map fst (p # rest)) \<Longrightarrow> ids \<in> set (claims rest db) \<Longrightarrow> i \<in> ids \<Longrightarrow> \<exists>now \<in> fst ` set rest. free_at now db i"
proof (induction rest arbitrary: p db)
  case (Cons q rest)
  obtain now w where q: "q = (now, w)" by fastforce
  obtain a db' where a: "take_rows now w db = (a, db')" by fastforce
  show ?case
  proof (cases "ids = a")
    case True
    then show ?thesis using taken_free [OF a] Cons.prems(3) by (auto simp: q)
  next
    case False
    then have "ids \<in> set (claims rest db')" using Cons.prems(2) a by (simp add: q)
    then obtain n where n: "n \<in> fst ` set rest" "free_at n db' i" using Cons.IH [of q db'] Cons.prems by auto
    have "now \<le> n" using n(1) Cons.prems(1) by (auto simp: q)
    then have "free_at n db i" using none_freed [OF a] n(2) by blast
    then show ?thesis using n(1) by (simp add: q) blast
  qed
qed simp

lemma claimed_once:
  assumes "sorted (map fst cs)" "\<And>p. p \<in> set cs \<Longrightarrow> fst p < fst (hd cs) + term'" "a < b" "b < length cs"
  shows "claims cs db ! a \<inter> claims cs db ! b = {}"
  using assms
proof (induction cs arbitrary: a b db)
  case (Cons p cs)
  obtain now w where p: "p = (now, w)" by fastforce
  obtain ids db' where t: "take_rows now w db = (ids, db')" by fastforce
  have len: "length (claims cs db) = length cs" for cs db by (induction cs arbitrary: db) (auto split: prod.splits)
  obtain b' where b: "b = Suc b'" "b' < length cs" using Cons.prems(3,4) by (cases b) auto
  show ?case
  proof (cases a)
    case 0
    have "i \<notin> claims cs db' ! b'" if i: "i \<in> ids" for i
    proof
      assume "i \<in> claims cs db' ! b'"
      moreover have "claims cs db' ! b' \<in> set (claims cs db')" using b(2) len by simp
      ultimately obtain n where "n \<in> fst ` set cs" "free_at n db' i" using later_free [OF Cons.prems(1)] by meson
      moreover from this(1) have "n < now + term'" using Cons.prems(2) by (auto simp: p)
      ultimately show False using taken_held [OF t i] by blast
    qed
    then show ?thesis using 0 b(1) t by (auto simp: p)
  next
    case (Suc a')
    have "fst q < fst (hd cs) + term'" if q: "q \<in> set cs" for q
    proof -
      have "fst q < now + term'" using Cons.prems(2) [of q] q by (simp add: p)
      moreover have "now \<le> fst (hd cs)" using Cons.prems(1) q by (cases cs) (auto simp: p)
      ultimately show ?thesis by linarith
    qed
    moreover have "sorted (map fst cs)" "a' < b'" using Cons.prems(1,3) Suc b by simp_all
    ultimately have "claims cs db' ! a' \<inter> claims cs db' ! b' = {}" using Cons.IH b(2) by presburger
    then show ?thesis using Suc b(1) t by (simp add: p)
  qed
qed simp

end

text \<open>The queue of tasks and the copies of the replication are such tables.\<close>

definition claim_tasks :: "sched_env \<Rightarrow> int \<Rightarrow> string \<Rightarrow> sched \<Rightarrow> string set \<times> sched" where
  "claim_tasks env now w s =
     (case ClaimBackupTasks (env\<lparr>se_now := now\<rparr>) w 1 backupTaskLease s of
        (Inl _, s1) \<Rightarrow> ({}, s1) | (Inr ts, s1) \<Rightarrow> (bt_ID ` set ts, s1))"

definition free_task :: "int \<Rightarrow> sched \<Rightarrow> string \<Rightarrow> bool" where
  "free_task t s i \<longleftrightarrow> (\<exists>r \<in> set (ss_queue s). bt_ID r = i \<and> takeable t r)"

lemma claim_tasks_rows:
  assumes "claim_tasks env now w s = (ids, s')"
  obtains taken where "ids \<subseteq> taken" "\<And>i. i \<in> taken \<Longrightarrow> free_task now s i"
    "\<And>r. r \<in> set (ss_queue s') \<Longrightarrow> bt_ID r \<in> taken \<Longrightarrow> bt_Status r = BackupTaskRunning \<and> bt_LeaseUntil r = Some (now + backupTaskLease)"
    "\<And>r. r \<in> set (ss_queue s') \<Longrightarrow> bt_ID r \<notin> taken \<Longrightarrow> r \<in> set (ss_queue s)"
proof (cases "se_fails env ''claim tasks'' w")
  case True
  then have "ids = {}" "s' = s" using assms by (auto simp: claim_tasks_def ClaimBackupTasks_def Let_def)
  then show thesis using that [of "{}"] by simp
next
  case False
  define taken where "taken = bt_ID ` set (next_tasks now 1 (ss_queue s))"
  define f where "f = (\<lambda>t :: BackupTask. t\<lparr>bt_Status := BackupTaskRunning, bt_LeaseOwner := w, bt_LeaseUntil := Some (now + backupTaskLease),
                        bt_HeartbeatAt := Some now, bt_UpdatedAt := now\<rparr>)"
  define s1 where "s1 = update_queue (\<lambda>t. bt_ID t \<in> taken) f s"
  have lease: "\<not> backupTaskLease \<le> 0" by (simp add: backupTaskLease_def minute_def)
  have run: "claim_tasks env now w s = (case mapR scanBackupTask (filter (\<lambda>t. bt_ID t \<in> taken) (ss_queue s1)) of Inl _ \<Rightarrow> ({}, s1) | Inr ts \<Rightarrow> (bt_ID ` set ts, s1))"
    unfolding claim_tasks_def ClaimBackupTasks_def Let_def taken_def s1_def f_def using False lease by (simp split: sum.split)
  have sub: "set (next_tasks now 1 (ss_queue s)) \<subseteq> set (filter (takeable now) (ss_queue s))"
    using set_take_subset unfolding next_tasks_def by fastforce
  have mem: "bt_ID t \<in> taken" if t: "mapR scanBackupTask (filter (\<lambda>t. bt_ID t \<in> taken) (ss_queue s1)) = Inr ts" "t \<in> set ts" for t ts
    using mapR_mem [OF t] by (auto simp: scanBackupTask_def split: if_splits)
  have "ids \<subseteq> taken \<and> s' = s1"
  proof (cases "mapR scanBackupTask (filter (\<lambda>t. bt_ID t \<in> taken) (ss_queue s1))")
    case (Inl e)
    then show ?thesis using assms run by simp
  next
    case (Inr ts)
    then have "ids = bt_ID ` set ts" "s' = s1" using assms run by simp_all
    then show ?thesis using mem [OF Inr] by blast
  qed
  then have "ids \<subseteq> taken" "s' = s1" by simp_all
  moreover have "free_task now s i" if i: "i \<in> taken" for i
  proof -
    obtain t where t: "t \<in> set (next_tasks now 1 (ss_queue s))" "i = bt_ID t" using i unfolding taken_def by blast
    have "t \<in> set (filter (takeable now) (ss_queue s))" by (rule subsetD [OF sub t(1)])
    then show ?thesis using t(2) by (auto simp: free_task_def)
  qed
  moreover have "bt_Status r = BackupTaskRunning \<and> bt_LeaseUntil r = Some (now + backupTaskLease)" if r: "r \<in> set (ss_queue s1)" "bt_ID r \<in> taken" for r
    using r by (auto simp: s1_def update_queue_def f_def)
  moreover have "r \<in> set (ss_queue s)" if r: "r \<in> set (ss_queue s1)" "bt_ID r \<notin> taken" for r
    using r by (auto simp: s1_def update_queue_def f_def split: if_splits)
  ultimately show thesis by (intro that [of taken]) simp_all
qed

interpretation tq: lease_table "claim_tasks env" free_task backupTaskLease
proof
  have pos: "0 < backupTaskLease" by (simp add: backupTaskLease_def minute_def)
  fix now w s ids s' i t
  assume c: "claim_tasks env now w s = (ids, s')"
  from claim_tasks_rows [OF c] obtain taken where taken: "ids \<subseteq> taken" "\<And>i. i \<in> taken \<Longrightarrow> free_task now s i"
    "\<And>r. r \<in> set (ss_queue s') \<Longrightarrow> bt_ID r \<in> taken \<Longrightarrow> bt_Status r = BackupTaskRunning \<and> bt_LeaseUntil r = Some (now + backupTaskLease)"
    "\<And>r. r \<in> set (ss_queue s') \<Longrightarrow> bt_ID r \<notin> taken \<Longrightarrow> r \<in> set (ss_queue s)" by blast
  show "free_task now s i" if "i \<in> ids" using taken(1,2) that by blast
  show "\<not> free_task t s' i" if "i \<in> ids" "t < now + backupTaskLease"
    using taken(1,3) that by (auto simp: free_task_def takeable_def passed_def)
  show "free_task t s i" if le: "now \<le> t" and f: "free_task t s' i"
  proof (cases "i \<in> taken")
    case True
    then obtain r where "r \<in> set (ss_queue s)" "bt_ID r = i" "takeable now r" using taken(2) by (auto simp: free_task_def)
    then show ?thesis using le by (auto simp: free_task_def takeable_def passed_def split: option.splits)
  next
    case False
    then show ?thesis using f taken(4) by (auto simp: free_task_def)
  qed
qed

definition claim_copies :: "int \<Rightarrow> string \<Rightarrow> prune_db \<Rightarrow> string set \<times> prune_db" where
  "claim_copies now w db = (case ClaimBackupCopies now w 1 copyLease db of (Inl _, db1) \<Rightarrow> ({}, db1) | (Inr cs, db1) \<Rightarrow> (bc_ID ` set cs, db1))"

definition free_copy :: "int \<Rightarrow> prune_db \<Rightarrow> string \<Rightarrow> bool" where
  "free_copy t db i \<longleftrightarrow> (\<exists>c \<in> set (st_copies (pd_store db)). bc_ID c = i \<and> claimable db t c)"

lemma claim_copies_rows:
  assumes "claim_copies now w db = (ids, db')"
  obtains taken where "ids \<subseteq> taken" "\<And>i. i \<in> taken \<Longrightarrow> free_copy now db i" "st_targets (pd_store db') = st_targets (pd_store db)"
    "\<And>c. c \<in> set (st_copies (pd_store db')) \<Longrightarrow> bc_ID c \<in> taken \<Longrightarrow> bc_Status c = CopyCopying \<and> bc_LockedUntil c = Some (now + copyLease)"
    "\<And>c. c \<in> set (st_copies (pd_store db')) \<Longrightarrow> bc_ID c \<notin> taken \<Longrightarrow> c \<in> set (st_copies (pd_store db))"
proof (cases "pd_fails db ''claim'' w")
  case True
  then have "ids = {}" "db' = db" using assms by (auto simp: claim_copies_def ClaimBackupCopies_def Let_def)
  then show thesis using that [of "{}"] by simp
next
  case False
  define xs where "xs = take 1 (sort_key bc_CreatedAt (filter (claimable db now) (st_copies (pd_store db))))"
  define f where "f = (\<lambda>c :: BackupCopy. c\<lparr>bc_Status := CopyCopying, bc_LockedUntil := Some (now + copyLease), bc_LockedBy := w\<rparr>)"
  define db1 where "db1 = update_copies (\<lambda>c. bc_ID c \<in> set (map bc_ID xs)) f db"
  have lease: "\<not> copyLease \<le> 0" by (simp add: copyLease_def minute_def)
  have run: "claim_copies now w db = (case mapR (GetBackupCopy (pd_store db1)) (map bc_ID xs) of Inl _ \<Rightarrow> ({}, db1) | Inr cs \<Rightarrow> (bc_ID ` set cs, db1))"
    unfolding claim_copies_def ClaimBackupCopies_def Let_def xs_def db1_def f_def using False lease by (simp split: sum.split)
  have sub: "set xs \<subseteq> set (filter (claimable db now) (st_copies (pd_store db)))" using set_take_subset unfolding xs_def by fastforce
  have mem: "bc_ID c \<in> bc_ID ` set xs" if c: "mapR (GetBackupCopy (pd_store db1)) (map bc_ID xs) = Inr cs" "c \<in> set cs" for c cs
  proof -
    obtain i where "i \<in> set (map bc_ID xs)" "GetBackupCopy (pd_store db1) i = Inr c" using mapR_mem [OF c] by blast
    then show ?thesis by (auto simp: GetBackupCopy_def dest: query_mem)
  qed
  have "ids \<subseteq> bc_ID ` set xs \<and> db' = db1"
  proof (cases "mapR (GetBackupCopy (pd_store db1)) (map bc_ID xs)")
    case (Inl e)
    then show ?thesis using assms run by simp
  next
    case (Inr cs)
    then have "ids = bc_ID ` set cs" "db' = db1" using assms run by simp_all
    then show ?thesis using mem [OF Inr] by blast
  qed
  then have "ids \<subseteq> bc_ID ` set xs" "db' = db1" by simp_all
  moreover have "free_copy now db i" if i: "i \<in> bc_ID ` set xs" for i
  proof -
    obtain c where c: "c \<in> set xs" "i = bc_ID c" using i by blast
    have "c \<in> set (filter (claimable db now) (st_copies (pd_store db)))" by (rule subsetD [OF sub c(1)])
    then show ?thesis using c(2) by (auto simp: free_copy_def)
  qed
  moreover have "bc_Status c = CopyCopying \<and> bc_LockedUntil c = Some (now + copyLease)" if c: "c \<in> set (st_copies (pd_store db1))" "bc_ID c \<in> bc_ID ` set xs" for c
    using c by (auto simp: db1_def update_copies_def f_def)
  moreover have "c \<in> set (st_copies (pd_store db))" if c: "c \<in> set (st_copies (pd_store db1))" "bc_ID c \<notin> bc_ID ` set xs" for c
    using c by (auto simp: db1_def update_copies_def f_def split: if_splits)
  moreover have "st_targets (pd_store db1) = st_targets (pd_store db)" by (simp add: db1_def update_copies_def)
  ultimately show thesis by (intro that [of "bc_ID ` set xs"]) simp_all
qed

interpretation cq: lease_table claim_copies free_copy copyLease
proof
  fix now w db ids db' i t
  assume c: "claim_copies now w db = (ids, db')"
  from claim_copies_rows [OF c] obtain taken where taken: "ids \<subseteq> taken" "\<And>i. i \<in> taken \<Longrightarrow> free_copy now db i" "st_targets (pd_store db') = st_targets (pd_store db)"
    "\<And>c. c \<in> set (st_copies (pd_store db')) \<Longrightarrow> bc_ID c \<in> taken \<Longrightarrow> bc_Status c = CopyCopying \<and> bc_LockedUntil c = Some (now + copyLease)"
    "\<And>c. c \<in> set (st_copies (pd_store db')) \<Longrightarrow> bc_ID c \<notin> taken \<Longrightarrow> c \<in> set (st_copies (pd_store db))" by blast
  have same: "claimable db' t c \<longleftrightarrow> claimable db t c" for t c by (simp add: claimable_def taken(3))
  show "free_copy now db i" if "i \<in> ids" using taken(1,2) that by blast
  show "\<not> free_copy t db' i" if "i \<in> ids" "t < now + copyLease"
    using taken(1,4) that by (auto simp: free_copy_def claimable_def passed_def)
  show "free_copy t db i" if le: "now \<le> t" and f: "free_copy t db' i"
  proof (cases "i \<in> taken")
    case True
    then obtain c where "c \<in> set (st_copies (pd_store db))" "bc_ID c = i" "claimable db now c" using taken(2) by (auto simp: free_copy_def)
    then show ?thesis using le unfolding free_copy_def claimable_def passed_def
      by (intro bexI [of _ c]) (auto split: option.splits)
  next
    case False
    then show ?thesis using f taken(5) same by (auto simp: free_copy_def)
  qed
qed

text \<open>Claims made within one lease never hand out a task or a copy twice: what doubles the work is only a lease that was
  not renewed.\<close>

lemmas claimed_once_only = tq.claimed_once cq.claimed_once

section \<open>Results\<close>

lemma idle_start: assumes "idle s0 []" shows "sched_ok inst s0"
  by (rule sched_okI) (use assms in \<open>auto simp: idle_def tasks_ok_def under_way_defs intro!: one_at_a_timeI\<close>)

text \<open>C8: On one instance of the service a job never runs twice at a time. In every state reached from an empty queue -
  with triggers and workers interleaved at every statement, leases that run out, failing statements, recounts by the
  replication and restarts - all open tasks of a job belong to one job run, and while a task of the job is open no
  trigger holds the mark with which it could add another run.\<close>

theorem one_run_at_a_time:
  assumes "sched_reachable inst s0 s" "idle s0 []" "t \<in> set (ss_queue s)" "open_task t"
  shows "(\<forall>u \<in> set (ss_queue s). open_task u \<and> bt_JobID u = bt_JobID t \<longrightarrow> bt_JobRunID u = bt_JobRunID t) \<and>
    (\<forall>g \<in> set (ss_triggers s). tg_phase g \<in> {Marked, Recorded} \<longrightarrow> bj_ID (tg_job g) \<noteq> bt_JobID t)"
proof -
  have one: "one_at_a_time s (bt_JobID t)" by (rule sched_okD(7) [OF sched_reachable_ok [OF assms(1) idle_start [OF assms(2)]]])
  have o: "bt_JobRunID u \<in> open_runs s (bt_JobID t)" if "u \<in> set (ss_queue s)" "open_task u" "bt_JobID u = bt_JobID t" for u
    using that by (auto simp: open_runs_def)
  have "bt_JobRunID u = bt_JobRunID t" if "u \<in> set (ss_queue s)" "open_task u" "bt_JobID u = bt_JobID t" for u
    using one_at_a_timeD(1) [OF one] o that assms(3,4) by blast
  moreover have "bj_ID (tg_job g) \<noteq> bt_JobID t" if "g \<in> set (ss_triggers s)" "tg_phase g \<in> {Marked, Recorded}" for g
  proof
    assume "bj_ID (tg_job g) = bt_JobID t"
    then have "tg_id g \<in> holders s (bt_JobID t)" using that by (auto simp: holders_def)
    then have "open_runs s (bt_JobID t) = {}" using one_at_a_timeD(4) [OF one] by blast
    then show False using o [OF assms(3,4) refl] by simp
  qed
  ultimately show ?thesis by blast
qed

text \<open>The totals: what was counted already is only added to.\<close>

definition tally_le :: "tally \<Rightarrow> tally \<Rightarrow> bool" where
  "tally_le a b \<longleftrightarrow> ty_partial a \<le> ty_partial b \<and> ty_failed a \<le> ty_failed b \<and> ty_canceled a \<le> ty_canceled b \<and> ty_waiting a \<le> ty_waiting b \<and>
     (ty_primary a \<longrightarrow> ty_primary b)"

definition clean :: "tally \<Rightarrow> bool" where
  "clean y \<longleftrightarrow> ty_partial y \<le> 0 \<and> ty_failed y \<le> 0 \<and> ty_canceled y \<le> 0 \<and> ty_waiting y \<le> 0 \<and> \<not> ty_primary y"

lemma tally_le_refl [simp]: "tally_le y y" by (simp add: tally_le_def)

lemma tally_le_trans: "tally_le a b \<Longrightarrow> tally_le b c \<Longrightarrow> tally_le a c" by (auto simp: tally_le_def)

lemma tally_le_fold: assumes "\<And>x y. tally_le y (f x y)" shows "tally_le y (fold f xs y)"
  by (induction xs arbitrary: y) (auto intro: tally_le_trans assms)

lemma tally_copy_le: "tally_le y (tally_copy c y)"
  by (simp add: tally_le_def tally_copy_def Let_def split: standing.split)

lemma tally_run_le: "tally_le y (tally_run db job r y)"
  by (auto simp: tally_run_def tally_le_fold tally_copy_le split: sum.split RunStatus.split) (auto simp: tally_le_def)

lemma clean_copies:
  assumes "clean (fold tally_copy cs y)" "0 \<le> ty_failed y" "0 \<le> ty_canceled y" "0 \<le> ty_waiting y"
  shows "(\<forall>c \<in> set cs. Healthy (Some c)) \<and> ty_succeeded (fold tally_copy cs y) = ty_succeeded y + int (length cs)"
  using assms
proof (induction cs arbitrary: y)
  case (Cons c cs)
  have le: "tally_le (tally_copy c y) (fold tally_copy cs (tally_copy c y))" by (rule tally_le_fold [OF tally_copy_le])
  have "clean (tally_copy c y)" using Cons.prems(1) le by (auto simp: clean_def tally_le_def)
  then have ready: "standing_of c = Ready"
    using Cons.prems(2-4) by (cases "standing_of c") (auto simp: clean_def tally_copy_def Let_def split: if_splits)
  then have h: "Healthy (Some c)" by (auto simp: standing_of_def split: if_splits BackupCopyStatus.splits)
  have y1: "tally_copy c y = y\<lparr>ty_succeeded := ty_succeeded y + 1\<rparr>" using ready h by (simp add: tally_copy_def)
  show ?case using Cons.IH [of "tally_copy c y"] Cons.prems h by (simp add: y1)
qed simp

text \<open>What a run contributes when nothing went wrong.\<close>

definition contribution :: "prune_db \<Rightarrow> Job \<Rightarrow> BackupRun \<Rightarrow> nat" where
  "contribution db job r =
     (if bj_StorageMode job \<in> {StorageModeCopy, StorageModeParallel}
      then case ListBackupCopies (pd_store db) (br_ID r) of Inl _ \<Rightarrow> 0 | Inr cs \<Rightarrow> length (filter (counts_for job) cs) else 1)"

definition all_well :: "prune_db \<Rightarrow> Job \<Rightarrow> BackupRun \<Rightarrow> bool" where
  "all_well db job r \<longleftrightarrow>
     (if bj_StorageMode job \<in> {StorageModeCopy, StorageModeParallel}
      then bj_StorageTargetIDs job = [] \<or> (\<exists>cs. ListBackupCopies (pd_store db) (br_ID r) = Inr cs \<and> (\<forall>c \<in> set cs. counts_for job c \<longrightarrow> Healthy (Some c)))
      else br_Status r = RunSucceeded)"

lemma clean_runs:
  assumes "clean (fold (tally_run db job) runs y)" "0 \<le> ty_failed y" "0 \<le> ty_canceled y" "0 \<le> ty_waiting y" "0 \<le> ty_partial y"
  shows "(\<forall>r \<in> set runs. all_well db job r) \<and> ty_succeeded (fold (tally_run db job) runs y) = ty_succeeded y + int (sum_list (map (contribution db job) runs))"
  using assms
proof (induction runs arbitrary: y)
  case (Cons r runs)
  let ?y = "tally_run db job r y"
  have "tally_le ?y (fold (tally_run db job) runs ?y)" by (rule tally_le_fold [OF tally_run_le])
  then have clean: "clean ?y" using Cons.prems(1) by (auto simp: clean_def tally_le_def)
  have one: "all_well db job r \<and> ty_succeeded ?y = ty_succeeded y + int (contribution db job r)"
  proof (cases "bj_StorageMode job \<in> {StorageModeCopy, StorageModeParallel}")
    case True
    show ?thesis
    proof (cases "ListBackupCopies (pd_store db) (br_ID r)")
      case (Inl e)
      then have "ty_failed y + int (length (bj_StorageTargetIDs job)) \<le> 0" using True clean by (auto simp: tally_run_def clean_def)
      then have "length (bj_StorageTargetIDs job) = 0" using Cons.prems(2) by linarith
      then show ?thesis using True Inl by (simp add: all_well_def contribution_def tally_run_def)
    next
      case (Inr cs)
      then have eq: "?y = fold tally_copy (filter (counts_for job) cs) y" using True by (simp add: tally_run_def)
      show ?thesis using clean_copies [OF clean [unfolded eq] Cons.prems(2-4)] True Inr by (auto simp: eq all_well_def contribution_def)
    qed
  next
    case False
    then show ?thesis using clean Cons.prems by (auto simp: all_well_def contribution_def tally_run_def clean_def split: RunStatus.splits)
  qed
  have "tally_le y ?y" by (rule tally_run_le)
  then have "0 \<le> ty_failed ?y" "0 \<le> ty_canceled ?y" "0 \<le> ty_waiting ?y" "0 \<le> ty_partial ?y" using Cons.prems by (auto simp: tally_le_def)
  from Cons.IH [OF _ this] Cons.prems(1) one show ?case by simp
qed simp

lemma succeeded_clean:
  assumes "finish_status n (missing_failed n y) = RunSucceeded" "tally_le no_tally y"
  shows "clean y \<and> n \<le> ty_succeeded y"
  using assms by (auto simp: finish_status_def missing_failed_def accounted_def clean_def tally_le_def no_tally_def split: if_splits)

text \<open>C26: A job run closed as succeeded is one: where copies are counted, every required copy of every run in a repository
  of the job is healthy, otherwise every run has succeeded, and together they are at least as many as were planned.\<close>

theorem succeeded_means_all:
  assumes runs: "ListBackupRuns (ss_db s) (no_filter\<lparr>rf_JobRunID := jr_ID run, rf_IncludeDeleted := True\<rparr>) = Inr runs"
    and saved: "\<not> se_fails env ''update job run'' (jr_ID run)"
    and j: "j \<in> set (ss_jobruns (finishJob env job run s))" "jr_ID j = jr_ID run" "jr_Status j = RunSucceeded"
  shows "(\<forall>r \<in> set runs. all_well (ss_db s) job r) \<and> jr_ReplicaCount run \<le> int (sum_list (map (contribution (ss_db s) job) runs))"
proof -
  let ?y = "fold (tally_run (ss_db s) job) runs no_tally"
  have "ss_jobruns (finishJob env job run s) = ss_jobruns (SaveJobRun env (totalled_run env (missing_failed (jr_ReplicaCount run) ?y) run) s)"
    using runs by (simp add: finishJob_def Let_def)
  then have "finish_status (jr_ReplicaCount run) (missing_failed (jr_ReplicaCount run) ?y) = RunSucceeded"
    using j saved by (auto simp: SaveJobRun_def totalled_run_def Let_def split: if_splits)
  from succeeded_clean [OF this tally_le_fold [OF tally_run_le]] have c: "clean ?y" "jr_ReplicaCount run \<le> ty_succeeded ?y" by auto
  from clean_runs [OF c(1)] c(2) show ?thesis by (simp add: no_tally_def)
qed
text \<open>The walk over missed points.\<close>

lemma missed_points_walk:
  assumes "p \<le> now" "n < 100000" "0 \<le> n" "missed_points nxt now p n l = (m, latest)" "\<And>t. t < nxt t"
  shows "\<exists>k. m = n + 1 + int k \<and> latest = (nxt ^^ k) p \<and> latest \<le> now \<and> m \<le> 100000 \<and> (m < 100000 \<longrightarrow> now < nxt latest)"
  using assms(1-4)
proof (induction "nat (100000 - n)" arbitrary: p n l rule: less_induct)
  case less
  show ?case
  proof (cases "n + 1 \<ge> 100000")
    case True
    then show ?thesis using less.prems by (intro exI [of _ 0]) (simp add: missed_points.simps)
  next
    case False
    then have eq: "missed_points nxt now (nxt p) (n + 1) p = (m, latest)" using less.prems by (simp add: missed_points.simps [of nxt now p n])
    show ?thesis
    proof (cases "nxt p \<le> now")
      case True
      have "\<exists>k. m = n + 1 + 1 + int k \<and> latest = (nxt ^^ k) (nxt p) \<and> latest \<le> now \<and> m \<le> 100000 \<and> (m < 100000 \<longrightarrow> now < nxt latest)"
        by (rule less.hyps [OF _ True _ _ eq]) (use less.prems False in auto)
      then obtain k where "m = n + 1 + 1 + int k" "latest = (nxt ^^ k) (nxt p)" "latest \<le> now" "m \<le> 100000" "m < 100000 \<longrightarrow> now < nxt latest" by blast
      then show ?thesis by (intro exI [of _ "Suc k"]) (simp add: funpow_Suc_right del: funpow.simps)
    next
      case False
      then have "m = n + 1" "latest = p" using eq by (simp_all add: missed_points.simps)
      then show ?thesis using False less.prems by (intro exI [of _ 0]) simp
    qed
  qed
qed

text \<open>A schedule without any point: the library answers the same time for ever.\<close>

lemma missed_points_stuck: "z \<le> now \<Longrightarrow> 0 \<le> n \<Longrightarrow> n < 100000 \<Longrightarrow> missed_points (\<lambda>_. z) now z n l = (100000, z)"
proof (induction "nat (100000 - n)" arbitrary: n l rule: less_induct)
  case less
  show ?case
  proof (cases "n + 1 \<ge> 100000")
    case True
    then show ?thesis using less.prems by (simp add: missed_points.simps)
  next
    case False
    have "missed_points (\<lambda>_. z) now z (n + 1) z = (100000, z)" by (rule less.hyps) (use less.prems False in auto)
    then show ?thesis using less.prems False by (simp add: missed_points.simps [of "\<lambda>_. z" now z n])
  qed
qed

lemma recover_missed_mem:
  assumes "recover_missed env jobs s = (Inr out, s')" "(jid, latest) \<in> set out"
  shows "\<exists>job \<in> set jobs. bj_ID job = jid \<and> (\<exists>first nxt n. due env job = Some (first, nxt) \<and> missed_points nxt (se_now env) first 0 first = (n, latest))"
  using assms
proof (induction jobs arbitrary: s out)
  case (Cons job jobs)
  show ?case
  proof (cases "due env job")
    case None
    then show ?thesis using Cons by auto
  next
    case (Some d)
    obtain first nxt where d: "d = (first, nxt)" by fastforce
    obtain n l where n: "missed_points nxt (se_now env) first 0 first = (n, l)" by fastforce
    show ?thesis
    proof (cases "n = 0")
      case True
      then show ?thesis using Cons Some d n by auto
    next
      case False
      define r where "r = missed_run env job (case resolveVMs env job s of Inl _ \<Rightarrow> [] | Inr vms \<Rightarrow> vms) n l"
      obtain res s1 where c: "CreateBackupJobRun env r s = (res, s1)" by fastforce
      obtain out1 where o: "recover_missed env jobs s1 = (Inr out1, s')" "out = (bj_ID job, l) # out1"
        using Cons.prems(1) False c by (cases res) (auto simp: Some d n r_def [symmetric] split: prod.splits sum.splits)
      show ?thesis
      proof (cases "(jid, latest) \<in> set out1")
        case True
        from Cons.IH [OF o(1) True] show ?thesis by auto
      next
        case False
        then show ?thesis using Cons.prems(2) o(2) Some d n by auto
      qed
    qed
  qed
qed simp


text \<open>A schedule that has no date at all is accepted, its next run stored as the zero time, and after a restart it
  counts as missed a hundred thousand times and is caught up with.\<close>

lemma dateless_schedule_missed:
  assumes "bj_Enabled job" "bj_Schedule job = spec" "spec \<noteq> ''''" "se_next env spec = Some (\<lambda>_. zero)" "zero \<le> se_now env"
    "\<not> se_fails env ''insert job run'' (bj_ID job)"
  shows "ValidateSchedule env spec = Inr zero \<and>
    (\<exists>s1 r. recover_missed env [job\<lparr>bj_NextRunAt := Some zero\<rparr>] s = (Inr [(bj_ID job, zero)], s1) \<and> ss_jobruns s1 = ss_jobruns s @ [r] \<and>
       jr_Status r = RunMissed \<and> jr_MissedIntervals r = 100000)"
  using assms missed_points_stuck [of zero "se_now env" 0 zero]
  by (auto simp: ValidateSchedule_def due_def CreateBackupJobRun_def Let_def missed_run_def new_job_run_def)
section \<open>Concrete histories\<close>

definition nightly_job :: Job where
  "nightly_job =
     \<lparr>bj_ID = ''job'', bj_StorageTargetIDs = [''t''], bj_VerifyAfter = '''', bj_LastStatus = RunSucceeded, bj_Name = ''nightly'', bj_Enabled = True,
      bj_ServerID = ''srv'', bj_VMIDs = [], bj_VMNameRegex = '''', bj_ClusterIDs = [], bj_Tags = [], bj_ExcludeVMIDs = [''tmp''],
      bj_ExcludeDiskIDs = [], bj_Type = BackupFull, bj_FullEvery = 0, bj_FallbackType = None, bj_LegacyIncrementalMode = '''',
      bj_Schedule = ''0 2 * * *'', bj_StorageMode = StorageModeSeparate, bj_ReplicationEnabled = False, bj_ForceFullNext = False,
      bj_ExportQcow2 = False, bj_Priority = 0, bj_Concurrency = 1, bj_LastRunAt = None, bj_NextRunAt = Some 0\<rparr>"

definition copy_job :: Job where
  "copy_job = nightly_job\<lparr>bj_StorageTargetIDs := [''t'', ''u''], bj_StorageMode := StorageModeCopy, bj_ReplicationEnabled := True\<rparr>"

definition machine :: "string \<Rightarrow> VM" where
  "machine v = \<lparr>vm_ID = v, vm_ServerID = ''srv'', vm_Name = v, vm_ClusterID = '''', vm_Tags = []\<rparr>"

definition tables :: "BackupRun list \<Rightarrow> BackupCopy list \<Rightarrow> prune_db" where
  "tables runs copies =
     \<lparr>pd_store = \<lparr>st_runs = runs, st_copies = copies, st_targets = [sample_target, sample_target\<lparr>st_ID := ''u'', st_Name := ''u''\<rparr>],
        st_run_err = (\<lambda>_. None), st_copy_err = (\<lambda>_. None), st_target_err = (\<lambda>_. None)\<rparr>,
      pd_transfers = [], pd_fails = (\<lambda>_ _. False), pd_touched = []\<rparr>"

definition sample_sched :: "Job \<Rightarrow> string list \<Rightarrow> sched" where
  "sample_sched job vms =
     \<lparr>ss_db = tables [] [], ss_vms = map machine vms, ss_jobs = [job], ss_jobruns = [], ss_queue = [], ss_active = [], ss_slots = [],
      ss_triggers = [], ss_work = [], ss_started = []\<rparr>"

text \<open>Time in seconds; schedules fire at midnight; identifiers are built from the given text.\<close>

definition sample_sched_env :: "string \<Rightarrow> int \<Rightarrow> sched_env" where
  "sample_sched_env ids sec =
     \<lparr>se_now = sec * 1000000000, se_fails = (\<lambda>_ _. False), se_new_id = (\<lambda>n. replicate n CHR ''#'' @ ids),
      se_next = (\<lambda>_. Some (\<lambda>t. (t div 86400000000000 + 1) * 86400000000000)), se_regex = (\<lambda>_. None)\<rparr>"

definition after :: "int \<Rightarrow> sched_event \<Rightarrow> sched_env \<times> sched_event" where
  "after sec ev = (sample_sched_env ''id'' sec, ev)"

definition triggered :: "string \<Rightarrow> string \<Rightarrow> string \<Rightarrow> string \<Rightarrow> int \<Rightarrow> (sched_env \<times> sched_event) list" where
  "triggered inst g run task sec =
     [after sec (TgBegin inst g ''job'' ''scheduler'' (Some (sec * 1000000000))), after sec (TgStep g), after sec (TgStep g),
      (sample_sched_env run sec, TgStep g), (sample_sched_env task sec, TgStep g)]"

definition working :: "nat \<Rightarrow> int \<Rightarrow> string \<Rightarrow> (sched_env \<times> sched_event) list" where
  "working n sec w = replicate n (after sec (WkStep w))"

definition backup_of :: "string \<Rightarrow> string \<Rightarrow> BackupRun" where
  "backup_of rid vm = (sample_run rid BackupFull '''' 1)\<lparr>br_VMID := vm, br_JobID := ''job'', br_JobRunID := ''run1''\<rparr>"

definition copies_for :: "string \<Rightarrow> string \<Rightarrow> string \<Rightarrow> BackupCopy list" where
  "copies_for rid a b = [sample_copy a rid 1 ''p/'', (sample_copy b rid 2 ''p/'')\<lparr>bc_StorageTargetID := ''u'', bc_Role := CopyReplica\<rparr>]"

definition blocked_history :: "(sched_env \<times> sched_event) list" where
  "blocked_history = triggered ''a'' ''g1'' ''run1'' ''task1'' 0 @
     after 0 (WkClaim ''a'' ''w1'') # working 3 0 ''w1'' @
     after 10 (WkEnd ''w1'' None (tables [backup_of ''r1'' ''v1''] (copies_for ''r1'' ''c1'' ''c2''))) # working 2 10 ''w1'' @
     after 20 (WkClaim ''a'' ''w1'') # working 3 20 ''w1'' @
     after 30 (ScRecount ''r1'' ''u'') #
     after 40 (WkEnd ''w1'' None (tables [backup_of ''r1'' ''v1'', backup_of ''r2'' ''v2''] (copies_for ''r1'' ''c1'' ''c2'' @ copies_for ''r2'' ''c3'' ''c4''))) #
     working 3 40 ''w1'' @
     after 50 (ScRecount ''r2'' ''u'') #
     triggered ''a'' ''g2'' ''run2'' ''task2'' 86400"


definition waiting_history :: "(sched_env \<times> sched_event) list" where
  "waiting_history = triggered ''a'' ''g1'' ''run1'' ''task1'' 0 @
     after 0 (WkClaim ''a'' ''w1'') # working 3 0 ''w1'' @ after 0 (WkClaim ''a'' ''w2'') # working 2 0 ''w2'' @
     map (\<lambda>sec. after sec (WkRenew ''w1'')) [40, 80, 120] @ after 121 (WkClaim ''a'' ''w3'') # working 2 121 ''w3'' @
     after 130 (WkEnd ''w1'' (Some ''disk gone'') (tables [] [])) # working 2 130 ''w1'' @
     working 2 131 ''w2'' @ after 140 (WkEnd ''w2'' None (tables [backup_of ''r2'' ''v2''] [])) # working 2 140 ''w2'' @
     working 2 141 ''w3'' @ after 150 (WkEnd ''w3'' None (tables [backup_of ''r2'' ''v2'', backup_of ''r3'' ''v2''] [])) # working 5 150 ''w3''"


definition overlap_history :: "(sched_env \<times> sched_event) list" where
  "overlap_history =
     [after 0 (TgBegin ''a'' ''g1'' ''job'' ''scheduler'' (Some 0)), after 0 (TgBegin ''b'' ''g2'' ''job'' ''user:op'' None),
      after 0 (TgStep ''g1''), after 0 (TgStep ''g2''), after 0 (TgStep ''g1''), after 0 (TgStep ''g2''),
      (sample_sched_env ''run1'' 0, TgStep ''g1''), (sample_sched_env ''run2'' 0, TgStep ''g2''),
      (sample_sched_env ''task1'' 0, TgStep ''g1''), (sample_sched_env ''task2'' 0, TgStep ''g2'')]"

definition whole_task :: "int \<Rightarrow> prune_db \<Rightarrow> (sched_env \<times> sched_event) list" where
  "whole_task sec db = after sec (WkClaim ''a'' ''w1'') # working 3 sec ''w1'' @ after sec (WkEnd ''w1'' None db) # working 5 sec ''w1''"

section \<open>Witnesses\<close>

lemma sample_ids_inj: "inj (se_new_id (sample_sched_env ids sec))"
  by (auto simp: inj_def sample_sched_env_def)

lemma sample_fresh_ids:
  assumes "ids \<noteq> ''''" "ss_queue s = []" "\<And>g. g \<in> set (ss_triggers s) \<Longrightarrow> length (jr_ID (tg_run g)) < length ids"
  shows "fresh_uuids (sample_sched_env ids sec) s"
proof -
  have "se_new_id (sample_sched_env ids sec) n \<noteq> jr_ID (tg_run g)" if "g \<in> set (ss_triggers s)" for n g
  proof
    assume "se_new_id (sample_sched_env ids sec) n = jr_ID (tg_run g)"
    then have "length (replicate n CHR ''#'' @ ids) = length (jr_ID (tg_run g))" by (simp add: sample_sched_env_def)
    then show False using assms(3) [OF that] by simp
  qed
  moreover have "se_new_id (sample_sched_env ids sec) n \<noteq> ''''" for n using assms(1) by (simp add: sample_sched_env_def)
  ultimately show ?thesis using sample_ids_inj assms(2) unfolding fresh_uuids_def by auto
qed

lemma trigger_reachable:
  assumes "sched_reachable inst s0 s" "ids \<noteq> ''''" "ss_queue s = []" "list_all (\<lambda>g. length (jr_ID (tg_run g)) < length ids) (ss_triggers s)"
  shows "sched_reachable inst s0 (sched_step (sample_sched_env ids sec) (TgStep gid) s)"
  by (rule sched_reachable.step [OF assms(1)]) (use assms(2-4) in \<open>auto simp: list_all_iff intro: sample_fresh_ids\<close>)

definition queued_sched :: sched where
  "queued_sched = sched_history (triggered ''a'' ''g1'' ''run1'' ''task1'' 0) (sample_sched nightly_job [''v1'', ''v2''])"

lemma queued_reachable: "sched_reachable ''a'' (sample_sched nightly_job [''v1'', ''v2'']) queued_sched"
proof -
  let ?s0 = "sample_sched nightly_job [''v1'', ''v2'']"
  let ?s1 = "sched_step (sample_sched_env ''id'' 0) (TgBegin ''a'' ''g1'' ''job'' ''scheduler'' (Some 0)) ?s0"
  let ?s2 = "sched_step (sample_sched_env ''id'' 0) (TgStep ''g1'') ?s1"
  let ?s3 = "sched_step (sample_sched_env ''id'' 0) (TgStep ''g1'') ?s2"
  let ?s4 = "sched_step (sample_sched_env ''run1'' 0) (TgStep ''g1'') ?s3"
  have r1: "sched_reachable ''a'' ?s0 ?s1" by (rule sched_reachable.step [OF sched_reachable.start]) simp_all
  have r2: "sched_reachable ''a'' ?s0 ?s2" by (rule trigger_reachable [OF r1]) code_simp+
  have r3: "sched_reachable ''a'' ?s0 ?s3" by (rule trigger_reachable [OF r2]) code_simp+
  have r4: "sched_reachable ''a'' ?s0 ?s4" by (rule trigger_reachable [OF r3]) code_simp+
  have "sched_reachable ''a'' ?s0 (sched_step (sample_sched_env ''task1'' 0) (TgStep ''g1'') ?s4)" by (rule trigger_reachable [OF r4]) code_simp+
  then show ?thesis by (simp only: queued_sched_def triggered_def after_def sched_history.simps mult_zero_left)
qed

theorem one_run_at_a_time_witness:
  "map bt_JobRunID (filter (\<lambda>u. open_task u \<and> bt_JobID u = ''job'') (ss_queue queued_sched)) = [''run1'', ''run1'']"
proof -
  have h: "hd (ss_queue queued_sched) \<in> set (ss_queue queued_sched)" "open_task (hd (ss_queue queued_sched))"
    "bt_JobRunID (hd (ss_queue queued_sched)) = ''run1''" "bt_JobID (hd (ss_queue queued_sched)) = ''job''"
    "length (filter (\<lambda>u. open_task u \<and> bt_JobID u = ''job'') (ss_queue queued_sched)) = 2" by code_simp+
  have "idle (sample_sched nightly_job [''v1'', ''v2'']) []" by (simp add: idle_def sample_sched_def)
  from one_run_at_a_time [OF queued_reachable this h(1,2)]
  have "bt_JobRunID u = ''run1''" if "u \<in> set (filter (\<lambda>u. open_task u \<and> bt_JobID u = ''job'') (ss_queue queued_sched))" for u using that h(3,4) by simp
  then have "map bt_JobRunID (filter (\<lambda>u. open_task u \<and> bt_JobID u = ''job'') (ss_queue queued_sched)) = replicate 2 ''run1''"
    unfolding h(5) [symmetric] by (intro map_replicate_const [THEN trans [rotated]] map_cong) simp_all
  then show ?thesis by (simp add: numeral_2_eq_2)
qed

definition closed_sample :: sched where
  "closed_sample = (sample_sched copy_job [''v1''])\<lparr>ss_db := tables [backup_of ''r1'' ''v1''] (copies_for ''r1'' ''c1'' ''c2''),
     ss_jobruns := [(new_job_run (sample_sched_env ''id'' 0) copy_job ''scheduler'' None [machine ''v1''])\<lparr>jr_ID := ''run1''\<rparr>]\<rparr>"

theorem succeeded_means_all_witness:
  "let run = hd (ss_jobruns closed_sample); s = finishJob (sample_sched_env ''id'' 9) copy_job run closed_sample
   in map jr_Status (ss_jobruns s) = [RunSucceeded] \<and> jr_ReplicaCount run = 2 \<and> all_well (ss_db closed_sample) copy_job (backup_of ''r1'' ''v1'')"
proof -
  let ?run = "hd (ss_jobruns closed_sample)" let ?s = "finishJob (sample_sched_env ''id'' 9) copy_job ?run closed_sample"
  have c: "map jr_Status (ss_jobruns ?s) = [RunSucceeded]" "map jr_ID (ss_jobruns ?s) = [jr_ID ?run]" "jr_ReplicaCount ?run = 2" by code_simp+
  have r: "ListBackupRuns (ss_db closed_sample) (no_filter\<lparr>rf_JobRunID := jr_ID ?run, rf_IncludeDeleted := True\<rparr>) = Inr [backup_of ''r1'' ''v1'']" by code_simp
  have f: "\<not> se_fails (sample_sched_env ''id'' 9) ''update job run'' (jr_ID ?run)" by (simp add: sample_sched_env_def)
  obtain j where j: "j \<in> set (ss_jobruns ?s)" "jr_ID j = jr_ID ?run" "jr_Status j = RunSucceeded" using c(1,2) by (cases "ss_jobruns ?s") auto
  from succeeded_means_all [OF r f j] show ?thesis using c(1,3) by (simp only: Let_def list.set) simp
qed


end
