(* ===== verification/Spec2Isabelle.thy ===== *)
theory Spec2Isabelle
  imports Prelude Model Retention Grid Manifest Codec DiskWriter ChainReader Layout ChainLoad Approval DiskCopy BackupRestore NbdProtocol NbdClient NbdSession Prune Runs Replication Scheduling
begin

text \<open>
  \<^bold>\<open>A verification library for the core of a backup service for virtual machines\<close>

  The program (Go, under \<open>src/internal\<close> and \<open>src/pkg\<close>) copies the disks of virtual machines into
  repositories as chains of full and incremental copies, restores images from such chains, thins them out
  by retention policies, and lets several people confirm dangerous actions. This library models the code
  that decides whether a backup can be restored and proves what the code promises about it.

  \<^bold>\<open>Parts of the program and the theories that model them\<close>

  \<^item> \<open>Prelude\<close>: results of fallible Go functions as sums (\<open>bindR\<close> is the early return on an error), 64-bit
    wrap-around (\<open>wrap64\<close>), truncating division, big-endian fields, slices of byte lists.
  \<^item> \<open>Model\<close> (\<open>internal/model/backup.go\<close>): backup types, run states, retention policies, runs, disks,
    copies and storage targets, as records and datatypes with the fields the modelled operations use.
  \<^item> \<open>Grid\<close> (\<open>backup/grid.go\<close>): which cells of the chunk grid a list of extents touches, and the batches
    in which chunks are read.
  \<^item> \<open>Codec\<close> (\<open>backup/codec.go\<close>, \<open>secret/cipher.go\<close>): compression, encryption and digest of a chunk.
  \<^item> \<open>Manifest\<close> (\<open>backup/format.go\<close>): the documents that describe a stored disk, with validation and encoding.
  \<^item> \<open>DiskWriter\<close> (\<open>backup/writer.go\<close>): appending chunks to a data object and closing it.
  \<^item> \<open>ChainReader\<close> (\<open>backup/reader.go\<close>): the image of a chain of manifests, as a stream and by random access.
  \<^item> \<open>Layout\<close> (\<open>repo/layout.go\<close>): object keys.
  \<^item> \<open>ChainLoad\<close> (\<open>backup/chain.go\<close>, \<open>backup/scan.go\<close>): from a restore point to the manifests to open, with and
    without the database.
  \<^item> \<open>DiskCopy\<close> (\<open>backup/diskcopy.go\<close>, \<open>imageio/client.go\<close>): copying one disk from the image server, with retries
    and a detour through the proxy.
  \<^item> \<open>BackupRestore\<close>: the composition of copy, writer and reader.
  \<^item> \<open>NbdProtocol\<close>, \<open>NbdClient\<close>, \<open>NbdSession\<close> (\<open>pkg/nbd\<close>): the client of the network block device protocol over a
    connection given as the bytes to be received.
  \<^item> \<open>Retention\<close> (\<open>retention/retention.go\<close>): which runs a policy keeps and the plan shown for confirmation.
  \<^item> \<open>Prune\<close> (\<open>backup/prune.go\<close>, \<open>store/backup_runs.go\<close>): deletion, quarantine, collector, expiry.
  \<^item> \<open>Runs\<close> (\<open>backup/runner.go\<close>, \<open>store/backup_runs.go\<close>, \<open>store/replication.go\<close>): planning a backup, its record and
    the writes of a run, interleaved with deletions.
  \<^item> \<open>Replication\<close> (\<open>replication/replicator.go\<close>, \<open>store/replication.go\<close>): copies of restore points in further
    repositories, with leases, retries, verification and the state of the job run.
  \<^item> \<open>Scheduling\<close> (\<open>scheduler/scheduler.go\<close>, \<open>store/backup_tasks.go\<close>, \<open>model/job_selector.go\<close> and the job tables of
    the store): choice of machines, triggers, the queue of tasks with leases, workers, the close of a job run,
    recovery at start, missed schedule points; triggers and workers of one or several instances interleave.
  \<^item> \<open>Approval\<close> (\<open>model/approval.go\<close>, \<open>store/approvals.go\<close>, \<open>api/approvals.go\<close> and neighbours): requests, votes,
    delegation, sweeps and automatic execution.

  \<^bold>\<open>How state and effects appear\<close>

  A struct is a record, an enumeration of strings a datatype with one constructor for any other string, a
  nil-able value an option, an error a value of a sum. The database is a record of tables kept as lists, and
  a statement that fails does so through a function in the state. Repositories, the engine, clocks,
  compression, encryption and digests are parameters; what is assumed of them stands in the hypotheses of
  a theorem (for example that decompression undoes compression) and each such theorem has a witness at
  concrete functions. Goroutines appear as separate steps of a state: the uploader behind the disk writer,
  runs being executed beside deletions, the workers of the replication and of the scheduler.
  Loops are structural recursion, \<open>function\<close> with a measure, or \<open>partial_function (option)\<close> where the
  code has no bound; there, returning is a theorem of its own. No fuel is used except where the code counts
  attempts itself.

  \<^bold>\<open>What the theorems show\<close>

  \<^item> Restorability of data: a full copy and an increment restore exactly the source image
    (\<open>BackupRestore\<close>), because the writer stores what the manifest says (\<open>DiskWriter\<close>), reading returns
    the newest copy of each chunk through every cache and batch (\<open>ChainReader\<close>), decoding undoes encoding
    (\<open>Codec\<close>, \<open>Manifest\<close>), extents cover the changed cells (\<open>Grid\<close>), and reads over NBD return the export
    (\<open>NbdSession\<close>).
  \<^item> Restorability of chains: whatever mixture of backups and deletions runs, the chain of a live run
    is complete and untouched (\<open>Runs\<close>, over \<open>Prune\<close>, \<open>Retention\<close> and \<open>ChainLoad\<close>); the three histories excluded
    there and the failed erasure are shown to break it, one theorem each.
  \<^item> Replicas: whatever workers, operators and failures do, a copy recorded as succeeded holds every
    object of its run, and a run document in a repository means the restore point is whole (\<open>Replication\<close>);
    claims exclude each other while a lease runs. Three histories show where the shared column of lease
    and retention deadline breaks what the records say.
  \<^item> Jobs: on one instance a job never has tasks of two runs open, whatever interleaves (\<open>Scheduling\<close>); a run closed as
    succeeded has everything it counted; an outage is caught up with at the last point missed. Three histories show
    where the promise ends: a recount that takes the running status away, a lease that is not renewed while its
    worker waits, and a second instance.
  \<^item> Retention: a decision partitions the runs, keeps what was promised, respects the age limit and
    protects ancestors; without a rank on parent links it does not return.
  \<^item> Approval: no action passes without enough different voters other than the requester, veto windows
    hold, closed requests stay closed.

  \<^bold>\<open>Interfaces\<close>

  Laws that several components rely on are locales with an interpretation on the model's own functions: the
  guarded walk over parents (\<open>guarded_walk\<close>, on the database and on a bare repository), replies
  read in a loop (\<open>reply_loop\<close>), passes that keep chains (\<open>chain_keeping\<close>), the
  transfer of objects with the run document last (\<open>object_transfer\<close>), leased rows that workers
  claim (\<open>lease_table\<close>, on tasks and on copies), rules that only add marks
  (\<open>keep_rule\<close>) and fields on the wire (\<open>wire_field\<close>).

  \<^bold>\<open>Not modelled\<close>

  Platform clients, repository backends and HTTP handlers outside the approvals are input and output;
  their answers are parameters. Freezing guests, engine clean-up, boot tests, transfers of machines
  between platforms, verification schedules and the housekeeping of the scheduler, monitoring, file and
  database backups are not modelled. Texts of messages, logs, alerts and progress counters have no effect in
  the model. What a backup started by the scheduler does to the tables is any change of them: its own steps are
  those of \<open>Runs\<close>. Next in the plan: verification and restore of machines, legacy chains, mirrored repositories.
\<close>

end
